(* ===== verification/Prelude.thy ===== *)
theory Prelude
  imports Main "HOL-Library.Word" "HOL-Library.AList"
begin

text \<open>
  What the components share: the Rust standard-library operations the modelled code calls
  (on strings, vectors and hash maps), the outcome type for calls that can panic, and the
  generic lemmas about them.

  A Rust \<open>str\<close> is modelled by its UTF-8 bytes: \<open>string\<close> is a list of \<open>char\<close>, and a
  \<open>char\<close> of HOL is a byte.  A vector is a list.  A hash map is an association list with
  distinct keys: its order stands for the unspecified iteration order of the map, so a
  theorem about every association list holds for every iteration order.
\<close>

named_theorems rust_simps \<open>unfolding rules of the standard-library operations\<close>
named_theorems table_simps \<open>lookup after an update of a table\<close>

unbundle bit_operations_syntax

section \<open>Outcomes\<close>

text \<open>A call either panics (a failed bounds check, an arithmetic overflow) or returns.\<close>

datatype 'a outcome = Panics | Returns 'a

section \<open>Bytes\<close>

abbreviation byte_of :: "char \<Rightarrow> nat" where
  "byte_of c \<equiv> of_char c"

abbreviation chr :: "nat \<Rightarrow> char" where
  "chr n \<equiv> char_of n"

abbreviation backslash :: char where
  "backslash \<equiv> CHR 0x5C"

abbreviation newline :: char where
  "newline \<equiv> CHR 0x0A"

definition is_digit :: "char \<Rightarrow> bool" where
  [rust_simps]: "is_digit c \<longleftrightarrow> 48 \<le> byte_of c \<and> byte_of c \<le> 57"

definition is_ascii_upper :: "char \<Rightarrow> bool" where
  [rust_simps]: "is_ascii_upper c \<longleftrightarrow> 65 \<le> byte_of c \<and> byte_of c \<le> 90"

definition is_ascii_lower :: "char \<Rightarrow> bool" where
  [rust_simps]: "is_ascii_lower c \<longleftrightarrow> 97 \<le> byte_of c \<and> byte_of c \<le> 122"

definition is_ascii_alphanumeric :: "char \<Rightarrow> bool" where
  [rust_simps]: "is_ascii_alphanumeric c \<longleftrightarrow> is_digit c \<or> is_ascii_upper c \<or> is_ascii_lower c"

text \<open>The lower-case hexadecimal digit of a nibble, and \<open>format!("{:02x}", b)\<close> of a byte.\<close>

definition hex_lower :: "nat \<Rightarrow> char" where
  "hex_lower n = (if n < 10 then chr (48 + n) else chr (87 + n))"

definition fmt_02x :: "char \<Rightarrow> string" where
  "fmt_02x c = [hex_lower (byte_of c div 16), hex_lower (byte_of c mod 16)]"

lemma length_fmt_02x [simp]: "length (fmt_02x c) = 2"
  by (simp add: fmt_02x_def)

lemma byte_of_hex_lower:
  "n < 16 \<Longrightarrow> byte_of (hex_lower n) = (if n < 10 then 48 + n else 87 + n)"
  by (simp add: hex_lower_def)

section \<open>Strings\<close>

definition starts_with :: "string \<Rightarrow> string \<Rightarrow> bool" where
  "starts_with s p \<longleftrightarrow> take (length p) s = p"

definition ends_with :: "string \<Rightarrow> string \<Rightarrow> bool" where
  "ends_with s p \<longleftrightarrow> length p \<le> length s \<and> drop (length s - length p) s = p"

text \<open>\<open>s.find(c)\<close> and \<open>s.rfind(c)\<close> for a one-byte character.\<close>

fun find_char :: "char \<Rightarrow> string \<Rightarrow> nat option" where
  "find_char c [] = None"
| "find_char c (x # xs) = (if x = c then Some 0 else map_option Suc (find_char c xs))"

fun rfind_char :: "char \<Rightarrow> string \<Rightarrow> nat option" where
  "rfind_char c [] = None"
| "rfind_char c (x # xs) =
     (case rfind_char c xs of
        Some i \<Rightarrow> Some (Suc i)
      | None \<Rightarrow> if x = c then Some 0 else None)"

text \<open>\<open>s.split(c)\<close>: never empty; a string without the separator gives itself.\<close>

fun split_on :: "char \<Rightarrow> string \<Rightarrow> string list" where
  "split_on c [] = [[]]"
| "split_on c (x # xs) =
     (if x = c then [] # split_on c xs
      else case split_on c xs of
             [] \<Rightarrow> [[x]]
           | p # ps \<Rightarrow> (x # p) # ps)"

fun join_with :: "string \<Rightarrow> string list \<Rightarrow> string" where
  "join_with sep [] = []"
| "join_with sep [x] = x"
| "join_with sep (x # y # ys) = x @ sep @ join_with sep (y # ys)"

lemma starts_with_Nil [simp]: "starts_with s []"
  by (simp add: starts_with_def)

lemma starts_with_Cons [simp]:
  "starts_with s (p # ps) = (case s of [] \<Rightarrow> False | x # xs \<Rightarrow> x = p \<and> starts_with xs ps)"
  by (cases s) (auto simp: starts_with_def)

lemma starts_with_append [simp]: "starts_with (p @ s) p"
  by (simp add: starts_with_def)

lemma ends_with_append [simp]: "ends_with (s @ p) p"
  by (simp add: ends_with_def)

lemma ends_with_iff: "ends_with s p \<longleftrightarrow> (\<exists>r. s = r @ p)"
proof
  assume "ends_with s p"
  then have "s = take (length s - length p) s @ p"
    by (metis append_take_drop_id ends_with_def)
  then show "\<exists>r. s = r @ p" ..
qed (auto simp: ends_with_def)

lemma find_char_Some:
  "find_char c s = Some i \<Longrightarrow> i < length s \<and> s ! i = c \<and> c \<notin> set (take i s)"
  by (induction s arbitrary: i) (auto split: if_splits simp: nth_Cons')

lemma find_char_None: "find_char c s = None \<longleftrightarrow> c \<notin> set s"
  by (induction s) auto

lemma find_char_append:
  "find_char c (xs @ ys) =
     (case find_char c xs of Some i \<Rightarrow> Some i | None \<Rightarrow> map_option (\<lambda>i. length xs + i) (find_char c ys))"
  by (induction xs) (auto split: option.splits simp: option.map_comp comp_def map_option_case)

lemma rfind_char_Some:
  "rfind_char c s = Some i \<Longrightarrow> i < length s \<and> s ! i = c \<and> c \<notin> set (drop (Suc i) s)"
proof (induction s arbitrary: i)
  case (Cons x xs)
  show ?case
  proof (cases "rfind_char c xs")
    case None
    then have "c \<notin> set xs"
    proof (induction xs)
      case (Cons y ys)
      then show ?case by (auto split: option.splits if_splits)
    qed simp
    with Cons.prems None show ?thesis by (auto split: if_splits)
  next
    case (Some j)
    with Cons show ?thesis by auto
  qed
qed simp

lemma rfind_char_None: "rfind_char c s = None \<longleftrightarrow> c \<notin> set s"
  by (induction s) (auto split: option.splits)

lemma rfind_char_append:
  "rfind_char c (xs @ ys) =
     (case rfind_char c ys of Some i \<Rightarrow> Some (length xs + i) | None \<Rightarrow> rfind_char c xs)"
  by (induction xs) (auto split: option.splits)

lemma split_on_not_Nil [simp]: "split_on c s \<noteq> []"
  by (cases s) (auto split: list.splits)

lemma join_split_on [simp]: "join_with [c] (split_on c s) = s"
proof (induction s)
  case (Cons x xs)
  then show ?case
    by (cases "split_on c xs"; cases "tl (split_on c xs)") auto
qed simp

lemma split_on_no_sep: "p \<in> set (split_on c s) \<Longrightarrow> c \<notin> set p"
  by (induction s arbitrary: p) (auto split: list.splits if_splits)

lemma split_on_append_sep:
  "c \<notin> set p \<Longrightarrow> split_on c (p @ c # s) = p # split_on c s"
  by (induction p) auto

lemma split_on_append: "split_on c (a @ c # b) = split_on c a @ split_on c b"
proof (induction a)
  case (Cons x a)
  then show ?case by (cases "split_on c a") auto
qed simp

lemma split_on_id: "c \<notin> set p \<Longrightarrow> split_on c p = [p]"
  by (induction p) auto

lemma split_join_with:
  "ps \<noteq> [] \<Longrightarrow> (\<forall>p\<in>set ps. c \<notin> set p) \<Longrightarrow> split_on c (join_with [c] ps) = ps"
proof (induction ps)
  case (Cons p ps)
  then show ?case
    by (cases ps) (auto simp: split_on_id split_on_append_sep)
qed simp

lemma join_with_eq_Nil: "join_with sep ps = [] \<Longrightarrow> p \<in> set ps \<Longrightarrow> p = []"
  by (induction sep ps rule: join_with.induct) auto

lemma set_split_on: "p \<in> set (split_on c s) \<Longrightarrow> set p \<subseteq> set s"
proof (induction s arbitrary: p)
  case (Cons x xs)
  then show ?case by (cases "split_on c xs") (auto split: if_splits, blast)
qed simp

section \<open>UTF-8\<close>

text \<open>\<open>String::from_utf8\<close> accepts exactly the well-formed byte sequences (Unicode, table 3-7).\<close>

definition is_cont :: "char \<Rightarrow> bool" where
  "is_cont c \<longleftrightarrow> 128 \<le> byte_of c \<and> byte_of c \<le> 191"

fun utf8_valid :: "string \<Rightarrow> bool" where
  "utf8_valid [] = True"
| "utf8_valid (a # s) =
     (if byte_of a < 128 then utf8_valid s
      else if 194 \<le> byte_of a \<and> byte_of a \<le> 223 then
        (case s of b # s1 \<Rightarrow> is_cont b \<and> utf8_valid s1 | _ \<Rightarrow> False)
      else if 224 \<le> byte_of a \<and> byte_of a \<le> 239 then
        (case s of b # c # s2 \<Rightarrow>
           is_cont b \<and> is_cont c
           \<and> (byte_of a = 224 \<longrightarrow> 160 \<le> byte_of b) \<and> (byte_of a = 237 \<longrightarrow> byte_of b \<le> 159)
           \<and> utf8_valid s2
         | _ \<Rightarrow> False)
      else if 240 \<le> byte_of a \<and> byte_of a \<le> 244 then
        (case s of b # c # d # s3 \<Rightarrow>
           is_cont b \<and> is_cont c \<and> is_cont d
           \<and> (byte_of a = 240 \<longrightarrow> 144 \<le> byte_of b) \<and> (byte_of a = 244 \<longrightarrow> byte_of b \<le> 143)
           \<and> utf8_valid s3
         | _ \<Rightarrow> False)
      else False)"

lemma utf8_valid_ascii: "(\<forall>c\<in>set s. byte_of c < 128) \<Longrightarrow> utf8_valid s"
  by (induction s) auto

text \<open>An ASCII byte is always a character of its own, so splitting there keeps validity.\<close>

lemma utf8_valid_split:
  "byte_of c < 128 \<Longrightarrow> utf8_valid (p @ c # s) \<longleftrightarrow> utf8_valid p \<and> utf8_valid s"
proof (induction p rule: utf8_valid.induct)
  case (2 a p)
  have nc: "\<not> is_cont c" using "2.prems" by (simp add: is_cont_def)
  consider "byte_of a < 128" | "194 \<le> byte_of a" "byte_of a \<le> 223"
    | "224 \<le> byte_of a" "byte_of a \<le> 239" | "240 \<le> byte_of a" "byte_of a \<le> 244"
    | "128 \<le> byte_of a" "byte_of a < 194" | "244 < byte_of a" by linarith
  then show ?case
  proof cases
    case 1
    then show ?thesis using "2.IH"(1) "2.prems" by simp
  next
    case 2
    then show ?thesis using "2.IH"(2) "2.prems" nc by (cases p) simp_all
  next
    case 3
    then show ?thesis using "2.IH"(3) "2.prems" nc
      by (cases p; cases "tl p") (simp_all split: list.split)
  next
    case 4
    then show ?thesis using "2.IH"(4) "2.prems" nc
      by (cases p; cases "tl p"; cases "tl (tl p)") (simp_all split: list.split)
  qed simp_all
qed simp

lemma utf8_valid_split_on:
  "byte_of c < 128 \<Longrightarrow> utf8_valid s \<Longrightarrow> p \<in> set (split_on c s) \<Longrightarrow> utf8_valid p"
proof -
  assume c: "byte_of c < 128" and s: "utf8_valid s" and p: "p \<in> set (split_on c s)"
  have "utf8_valid (join_with [c] ps) \<Longrightarrow> p \<in> set ps \<Longrightarrow> utf8_valid p" for ps
  proof (induction "[c]" ps rule: join_with.induct)
    case (3 x y ys)
    then show ?case using c by (auto simp: utf8_valid_split)
  qed auto
  from this [of "split_on c s"] s p show ?thesis by simp
qed

lemma utf8_valid_join:
  "byte_of c < 128 \<Longrightarrow> (\<forall>p\<in>set ps. utf8_valid p) \<Longrightarrow> utf8_valid (join_with [c] ps)"
  by (induction "[c]" ps rule: join_with.induct) (auto simp: utf8_valid_split)

section \<open>Hash maps\<close>

type_synonym ('k, 'v) table = "('k \<times> 'v) list"

definition tbl_get :: "('k, 'v) table \<Rightarrow> 'k \<Rightarrow> 'v option" where
  "tbl_get t k = map_of t k"

definition tbl_keys :: "('k, 'v) table \<Rightarrow> 'k list" where
  "tbl_keys t = map fst t"

definition tbl_insert :: "'k \<Rightarrow> 'v \<Rightarrow> ('k, 'v) table \<Rightarrow> ('k, 'v) table" where
  "tbl_insert k v t = AList.update k v t"

definition tbl_remove :: "'k \<Rightarrow> ('k, 'v) table \<Rightarrow> ('k, 'v) table" where
  "tbl_remove k t = AList.delete k t"

text \<open>\<open>if let Some(x) = t.get_mut(k)\<close> with an update of \<open>x\<close>.\<close>

definition tbl_modify :: "'k \<Rightarrow> ('v \<Rightarrow> 'v) \<Rightarrow> ('k, 'v) table \<Rightarrow> ('k, 'v) table" where
  "tbl_modify k f t = map (\<lambda>(k', v). (k', if k' = k then f v else v)) t"

definition tbl_wf :: "('k, 'v) table \<Rightarrow> bool" where
  "tbl_wf t \<longleftrightarrow> distinct (map fst t)"

lemma tbl_get_insert [simp, table_simps]:
  "tbl_get (tbl_insert k v t) k' = (if k' = k then Some v else tbl_get t k')"
  by (simp add: tbl_get_def tbl_insert_def update_conv')

lemma tbl_get_remove [simp, table_simps]:
  "tbl_get (tbl_remove k t) k' = (if k' = k then None else tbl_get t k')"
  by (simp add: tbl_get_def tbl_remove_def delete_conv')

lemma tbl_get_modify [simp, table_simps]:
  "tbl_get (tbl_modify k f t) k' = (if k' = k then map_option f (tbl_get t k) else tbl_get t k')"
  by (induction t) (auto simp: tbl_get_def tbl_modify_def)

lemma tbl_keys_modify [simp, table_simps]: "tbl_keys (tbl_modify k f t) = tbl_keys t"
  by (induction t) (auto simp: tbl_keys_def tbl_modify_def)

lemma tbl_wf_Nil [simp]: "tbl_wf []"
  by (simp add: tbl_wf_def)

lemma tbl_wf_insert [simp]: "tbl_wf t \<Longrightarrow> tbl_wf (tbl_insert k v t)"
  by (simp add: tbl_wf_def tbl_insert_def distinct_update)

lemma tbl_wf_remove [simp]: "tbl_wf t \<Longrightarrow> tbl_wf (tbl_remove k t)"
  by (simp add: tbl_wf_def tbl_remove_def distinct_delete)

lemma tbl_wf_modify [simp]: "tbl_wf (tbl_modify k f t) = tbl_wf t"
  using tbl_keys_modify [of k f t] by (simp add: tbl_wf_def tbl_keys_def)

lemma tbl_get_Nil [simp]: "tbl_get [] k = None"
  by (simp add: tbl_get_def)

lemma tbl_keys_get: "k \<in> set (tbl_keys t) \<longleftrightarrow> tbl_get t k \<noteq> None"
  by (simp add: tbl_keys_def tbl_get_def map_of_eq_None_iff)

lemma tbl_get_mem: "tbl_wf t \<Longrightarrow> (k, v) \<in> set t \<longleftrightarrow> tbl_get t k = Some v"
  by (simp add: tbl_wf_def tbl_get_def)

lemma list_all_tbl:
  "tbl_wf t \<Longrightarrow> list_all (\<lambda>(k, v). P k v) t \<longleftrightarrow> (\<forall>k v. tbl_get t k = Some v \<longrightarrow> P k v)"
  by (simp add: list_all_iff tbl_get_mem [symmetric]) auto

section \<open>Interfaces shared by the components\<close>

text \<open>
  An encoding and the decoder that reads it back.  What a client needs of one is that
  distinct valid values have distinct encodings.
\<close>

locale codec =
  fixes encode :: "'a \<Rightarrow> 'b" and decode :: "'b \<Rightarrow> 'a option" and valid :: "'a \<Rightarrow> bool"
  assumes decode_encode: "valid x \<Longrightarrow> decode (encode x) = Some x"
begin

lemma encode_inject: "valid x \<Longrightarrow> valid y \<Longrightarrow> encode x = encode y \<Longrightarrow> x = y"
  by (metis decode_encode option.inject)

lemma encode_inj_on: "inj_on encode {x. valid x}"
  by (auto intro: inj_onI encode_inject)

end

text \<open>A keyed store, as the components use \<open>HashMap\<close>.\<close>

locale keyed_store =
  fixes get :: "'t \<Rightarrow> 'k \<Rightarrow> 'v option"
    and insert :: "'k \<Rightarrow> 'v \<Rightarrow> 't \<Rightarrow> 't"
    and remove :: "'k \<Rightarrow> 't \<Rightarrow> 't"
    and modify :: "'k \<Rightarrow> ('v \<Rightarrow> 'v) \<Rightarrow> 't \<Rightarrow> 't"
    and wf :: "'t \<Rightarrow> bool"
  assumes get_insert: "get (insert k v t) k' = (if k' = k then Some v else get t k')"
    and get_remove: "get (remove k t) k' = (if k' = k then None else get t k')"
    and get_modify: "get (modify k f t) k' = (if k' = k then map_option f (get t k) else get t k')"
    and wf_insert: "wf t \<Longrightarrow> wf (insert k v t)"
    and wf_remove: "wf t \<Longrightarrow> wf (remove k t)"
    and wf_modify: "wf t \<Longrightarrow> wf (modify k f t)"
begin

text \<open>The folds over a work list of keys that the loaders run.\<close>

lemma get_fold_modify_other:
  "k \<notin> fst ` set ops \<Longrightarrow> get (fold (\<lambda>(k, f). modify k f) ops t) k = get t k"
proof (induction ops arbitrary: t)
  case (Cons a ops)
  then show ?case by (cases a) (auto simp: get_modify)
qed simp

lemma get_fold_modify:
  "get (fold (\<lambda>(k, f). modify k f) ops t) k =
     map_option (fold (\<lambda>(k', f) v. if k' = k then f v else v) ops) (get t k)"
proof (induction ops arbitrary: t)
  case Nil
  then show ?case by (simp add: option.map_ident)
next
  case (Cons a ops)
  then show ?case
    by (cases a) (cases "get t k"; auto simp: get_modify)
qed

lemma wf_fold_modify: "wf t \<Longrightarrow> wf (fold (\<lambda>(k, f). modify k f) ops t)"
  by (induction ops arbitrary: t) (auto simp: wf_modify)

end

interpretation hash_map: keyed_store tbl_get tbl_insert tbl_remove tbl_modify tbl_wf
  by unfold_locales auto

end
