(* ===== verification/UnitName.thy ===== *)
theory UnitName
  imports Prelude
begin

text \<open>
  Unit name escaping: \<open>crates/libsystemd/src/unit_name.rs\<close>.  Names and paths are UTF-8
  strings, modelled by their bytes.  The code walks over characters, the model over bytes:
  only ASCII characters are kept or mapped, and every byte of any other character is
  escaped on its own, so the two walks produce the same bytes.

  Operations: \<open>unit_name_escape\<close>/\<open>unit_name_unescape\<close>, the path variants, \<open>unit_name_mangle\<close>
  with the SipHash suffix of over-long names, and the template operations.  Lemmas: both
  escapings are undone by their unescapings, escaped names stay in the unit-name alphabet,
  mangled paths fit \<open>UNIT_NAME_MAX\<close>, instantiated templates split back.
\<close>

section \<open>Escaping\<close>

definition is_valid_char :: "char \<Rightarrow> bool" where
  "is_valid_char c \<longleftrightarrow>
     is_ascii_alphanumeric c \<or> c = CHR '':'' \<or> c = CHR ''_'' \<or> c = CHR ''.''"

text \<open>One iteration of the escaping loop, for the character at index \<open>i\<close>.\<close>

definition escape_byte :: "nat \<Rightarrow> char \<Rightarrow> string" where
  "escape_byte i c =
     (if c = CHR ''/'' then ''-''
      else if i = 0 \<and> c = CHR ''.'' then backslash # CHR ''x'' # fmt_02x c
      else if is_valid_char c then [c]
      else backslash # CHR ''x'' # fmt_02x c)"

fun escape_from :: "nat \<Rightarrow> string \<Rightarrow> string" where
  "escape_from i [] = []"
| "escape_from i (c # cs) = escape_byte i c @ escape_from (Suc i) cs"

definition unit_name_escape :: "string \<Rightarrow> string" where
  "unit_name_escape s = (if s = [] then [] else escape_from 0 s)"

definition hex_digit :: "char \<Rightarrow> nat option" where
  "hex_digit b =
     (if byte_of (CHR ''0'') \<le> byte_of b \<and> byte_of b \<le> byte_of (CHR ''9'') then Some (byte_of b - byte_of (CHR ''0''))
      else if byte_of (CHR ''a'') \<le> byte_of b \<and> byte_of b \<le> byte_of (CHR ''f'') then Some (byte_of b - byte_of (CHR ''a'') + 10)
      else if byte_of (CHR ''A'') \<le> byte_of b \<and> byte_of b \<le> byte_of (CHR ''F'') then Some (byte_of b - byte_of (CHR ''A'') + 10)
      else None)"

text \<open>
  The unescaping loop.  The guard \<open>i + 3 < bytes.len()\<close> says that three more bytes follow
  the backslash.
\<close>

fun unescape_bytes :: "string \<Rightarrow> string option" where
  "unescape_bytes [] = Some []"
| "unescape_bytes (b # s) =
     (if b = CHR ''-'' then map_option (Cons (CHR ''/'')) (unescape_bytes s)
      else if b = backslash then
        (case s of
           x # h # l # r \<Rightarrow>
             if x = CHR ''x'' then
               (case hex_digit h of
                  None \<Rightarrow> None
                | Some hi \<Rightarrow>
                    (case hex_digit l of
                       None \<Rightarrow> None
                     | Some lo \<Rightarrow> map_option (Cons (chr (push_bit 4 hi OR lo))) (unescape_bytes r)))
             else None
         | _ \<Rightarrow> None)
      else map_option (Cons b) (unescape_bytes s))"

definition unit_name_unescape :: "string \<Rightarrow> string option" where
  "unit_name_unescape s =
     (case unescape_bytes s of
        None \<Rightarrow> None
      | Some result \<Rightarrow> if utf8_valid result then Some result else None)"

section \<open>Paths\<close>

fun normalize_parts :: "bool \<Rightarrow> bool \<Rightarrow> string list \<Rightarrow> string list" where
  "normalize_parts absolute beginning [] = []"
| "normalize_parts absolute beginning (part # parts) =
     (if part = [] \<or> part = ''.'' then normalize_parts absolute beginning parts
      else if part = ''..'' then
        (if absolute \<and> beginning then normalize_parts absolute beginning parts
         else part # normalize_parts absolute False parts)
      else part # normalize_parts absolute False parts)"

definition normalize_path :: "string \<Rightarrow> string" where
  "normalize_path path =
     join_with ''/'' (normalize_parts (starts_with path ''/'') True (split_on (CHR ''/'') path))"

definition is_valid_normalized_path :: "string \<Rightarrow> bool" where
  "is_valid_normalized_path path \<longleftrightarrow>
     (\<forall>component \<in> set (split_on (CHR ''/'') path). component \<noteq> ''..'')"

definition unit_name_path_escape_checked :: "string \<Rightarrow> string option" where
  "unit_name_path_escape_checked path =
     (if path = [] then Some ''-''
      else let normalized = normalize_path path in
        if normalized = [] then (if starts_with path ''/'' then Some ''-'' else None)
        else if \<not> is_valid_normalized_path normalized then None
        else Some (unit_name_escape normalized))"

definition unit_name_path_escape :: "string \<Rightarrow> string" where
  "unit_name_path_escape path =
     (let normalized = normalize_path path in
      if normalized = [] then ''-'' else unit_name_escape normalized)"

text \<open>\<open>path.contains("//")\<close>.\<close>

fun contains_double_slash :: "string \<Rightarrow> bool" where
  "contains_double_slash (a # b # s) \<longleftrightarrow>
     a = CHR ''/'' \<and> b = CHR ''/'' \<or> contains_double_slash (b # s)"
| "contains_double_slash _ \<longleftrightarrow> False"

definition is_normalized_path :: "string \<Rightarrow> bool" where
  "is_normalized_path path =
     (if path = [] then False
      else if path = ''/'' then True
      else if ends_with path ''/'' then False
      else if contains_double_slash path then False
      else (\<forall>component \<in> set (split_on (CHR ''/'') path).
              \<not> (component = ''.'' \<or> component = ''..'')))"

definition unit_name_path_unescape :: "string \<Rightarrow> string option" where
  "unit_name_path_unescape s =
     (if s = [] then None
      else if s = ''-'' then Some ''/''
      else case unit_name_unescape s of
        None \<Rightarrow> None
      | Some unescaped \<Rightarrow>
          if unescaped = [] then Some ''/''
          else if starts_with unescaped ''/'' then None
          else let path = ''/'' @ unescaped in
            if \<not> is_normalized_path path then None else Some path)"

section \<open>SipHash and over-long names\<close>

type_synonym u64 = "64 word"

definition UNIT_NAME_MAX :: nat where
  "UNIT_NAME_MAX = 256"

definition UNIT_NAME_HASH_LENGTH_CHARS :: nat where
  "UNIT_NAME_HASH_LENGTH_CHARS = 16"

definition LONG_UNIT_NAME_HASH_KEY :: string where
  "LONG_UNIT_NAME_HASH_KEY = map chr
     [0xec, 0xf2, 0x37, 0xfb, 0x58, 0x32, 0x4a, 0x32, 0x84, 0x9f, 0x06, 0x9b, 0x0d, 0x21, 0xeb, 0x9a]"

definition sipround :: "u64 \<times> u64 \<times> u64 \<times> u64 \<Rightarrow> u64 \<times> u64 \<times> u64 \<times> u64" where
  "sipround v =
     (let (v0, v1, v2, v3) = v;
          v0 = v0 + v1; v1 = word_rotl 13 v1; v1 = v1 XOR v0; v0 = word_rotl 32 v0;
          v2 = v2 + v3; v3 = word_rotl 16 v3; v3 = v3 XOR v2;
          v0 = v0 + v3; v3 = word_rotl 21 v3; v3 = v3 XOR v0;
          v2 = v2 + v1; v1 = word_rotl 17 v1; v1 = v1 XOR v2; v2 = word_rotl 32 v2
      in (v0, v1, v2, v3))"

text \<open>\<open>u64::from_le_bytes\<close> and \<open>u64::to_le_bytes\<close>.\<close>

definition from_le_bytes :: "string \<Rightarrow> u64" where
  "from_le_bytes bs = foldr (\<lambda>b acc. of_nat (byte_of b) OR push_bit 8 acc) bs 0"

definition to_le_bytes :: "u64 \<Rightarrow> string" where
  "to_le_bytes h = map (\<lambda>i. chr (unat (drop_bit (8 * i) h AND 0xff))) [0..<8]"

text \<open>The \<open>chunks_exact(8)\<close> loop: the state after the full chunks, and the remainder.\<close>

function sip_chunks :: "u64 \<times> u64 \<times> u64 \<times> u64 \<Rightarrow> string \<Rightarrow> (u64 \<times> u64 \<times> u64 \<times> u64) \<times> string" where
  "sip_chunks v data =
     (if length data < 8 then (v, data)
      else let m = from_le_bytes (take 8 data); (v0, v1, v2, v3) = v;
               (w0, w1, w2, w3) = sipround (sipround (v0, v1, v2, v3 XOR m))
           in sip_chunks (w0 XOR m, w1, w2, w3) (drop 8 data))"
  by pat_completeness auto
termination
  by (relation "measure (\<lambda>(v, data). length data)") auto

declare sip_chunks.simps [simp del]

definition siphash24 :: "string \<Rightarrow> string \<Rightarrow> u64" where
  "siphash24 data key =
     (let k0 = from_le_bytes (take 8 key); k1 = from_le_bytes (take 8 (drop 8 key));
          v = (0x736f6d6570736575 XOR k0, 0x646f72616e646f6d XOR k1,
               0x6c7967656e657261 XOR k0, 0x7465646279746573 XOR k1);
          ((v0, v1, v2, v3), remainder) = sip_chunks v data;
          b = push_bit 56 (of_nat (length data));
          b = fold (\<lambda>(i, byte) b. b OR push_bit (8 * i) (of_nat (byte_of byte)))
                (enumerate 0 remainder) b;
          (v0, v1, v2, v3) = sipround (sipround (v0, v1, v2, v3 XOR b));
          (v0, v1, v2, v3) = (sipround ^^ 4) (v0 XOR b, v1, v2 XOR 0xff, v3)
      in v0 XOR v1 XOR v2 XOR v3)"

definition is_char_boundary :: "string \<Rightarrow> nat \<Rightarrow> bool" where
  "is_char_boundary s i \<longleftrightarrow> i = 0 \<or> i = length s \<or> i < length s \<and> \<not> is_cont (s ! i)"

text \<open>\<open>while !name.is_char_boundary(cut) { cut -= 1; }\<close>\<close>

fun clamp_to_boundary :: "string \<Rightarrow> nat \<Rightarrow> nat" where
  "clamp_to_boundary s k =
     (if k = 0 \<or> is_char_boundary s k then k else clamp_to_boundary s (k - 1))"

declare clamp_to_boundary.simps [simp del]

text \<open>
  The head length \<open>256 - 1 - suffix_type.len() - 16 - 2\<close> is computed in \<open>usize\<close>: a suffix
  longer than 237 bytes overflows it.
\<close>

definition unit_name_hash_long :: "string \<Rightarrow> string option outcome" where
  "unit_name_hash_long name =
     (if length name < UNIT_NAME_MAX then Returns None
      else case rfind_char (CHR ''.'') name of
        None \<Rightarrow> Returns None
      | Some dot \<Rightarrow>
          let suffix = drop dot name;
              suffix_type = drop (Suc dot) name;
              h = siphash24 (name @ [chr 0]) LONG_UNIT_NAME_HASH_KEY;
              hash = concat (map fmt_02x (to_le_bytes h))
          in if UNIT_NAME_MAX < 1 + length suffix_type + UNIT_NAME_HASH_LENGTH_CHARS + 2 then Panics
             else let len = UNIT_NAME_MAX - 1 - length suffix_type - UNIT_NAME_HASH_LENGTH_CHARS - 2;
                      cut_at = clamp_to_boundary name (min len (length name))
                  in Returns (Some (take cut_at name @ ''_'' @ hash @ suffix)))"

section \<open>Mangling\<close>

definition recognized_suffix :: "string \<Rightarrow> string option" where
  "recognized_suffix name =
     List.find (\<lambda>suffix. ends_with name suffix)
       [''.service'', ''.socket'', ''.target'', ''.device'', ''.mount'', ''.automount'',
        ''.swap'', ''.timer'', ''.path'', ''.slice'', ''.scope'']"

definition mangle_escape_byte :: "char \<Rightarrow> string" where
  "mangle_escape_byte c =
     (if c = CHR ''/'' then ''-''
      else if is_valid_char c \<or> c = CHR ''-'' \<or> c = CHR ''@'' \<or> c = backslash then [c]
      else backslash # CHR ''x'' # fmt_02x c)"

definition unit_name_mangle_escape :: "string \<Rightarrow> string" where
  "unit_name_mangle_escape s = (if s = [] then [] else concat (map mangle_escape_byte s))"

definition unit_name_mangle :: "string \<Rightarrow> string outcome" where
  "unit_name_mangle s =
     (let fallback =
        (if starts_with s ''/'' then
           let suffix = (if starts_with s ''/dev/'' then ''.device'' else ''.mount'');
               name = unit_name_path_escape s @ suffix
           in case unit_name_hash_long name of
                Panics \<Rightarrow> Panics
              | Returns None \<Rightarrow> Returns name
              | Returns (Some hashed) \<Rightarrow> Returns hashed
         else Returns (unit_name_mangle_escape s @ ''.service''))
      in case recognized_suffix s of
           Some suffix \<Rightarrow>
             let name_part = take (length s - length suffix) s in
             if name_part \<noteq> [] then Returns (unit_name_mangle_escape name_part @ suffix)
             else fallback
         | None \<Rightarrow> fallback)"

section \<open>Templates\<close>

definition unit_name_template_split :: "string \<Rightarrow> (string \<times> string \<times> string) option" where
  "unit_name_template_split name =
     (case find_char (CHR ''@'') name of
        None \<Rightarrow> None
      | Some at_pos \<Rightarrow>
          (case rfind_char (CHR ''.'') name of
             None \<Rightarrow> None
           | Some dot_pos \<Rightarrow>
               if at_pos = 0 \<or> dot_pos \<le> at_pos then None
               else Some (take (Suc at_pos) name,
                          take (dot_pos - Suc at_pos) (drop (Suc at_pos) name),
                          drop dot_pos name)))"

definition is_template :: "string \<Rightarrow> bool" where
  "is_template name =
     (case (find_char (CHR ''@'') name, rfind_char (CHR ''.'') name) of
        (Some at_pos, Some dot_pos) \<Rightarrow> at_pos < dot_pos \<and> at_pos + 1 = dot_pos
      | _ \<Rightarrow> False)"

definition is_instance :: "string \<Rightarrow> bool" where
  "is_instance name =
     (case (find_char (CHR ''@'') name, rfind_char (CHR ''.'') name) of
        (Some at_pos, Some dot_pos) \<Rightarrow> at_pos < dot_pos \<and> at_pos + 1 < dot_pos
      | _ \<Rightarrow> False)"

definition template_instantiate :: "string \<Rightarrow> string \<Rightarrow> string option" where
  "template_instantiate template inst =
     (if \<not> is_template template then None
      else case find_char (CHR ''@'') template of
        None \<Rightarrow> None
      | Some at_pos \<Rightarrow>
          (case rfind_char (CHR ''.'') template of
             None \<Rightarrow> None
           | Some dot_pos \<Rightarrow> Some (take (Suc at_pos) template @ inst @ drop dot_pos template)))"

section \<open>Escaping is undone by unescaping\<close>

lemma nibbles_join: "push_bit 4 (b div 16) OR (b mod 16) = (b::nat)"
proof -
  have "push_bit 4 (drop_bit 4 b) OR take_bit 4 b = b"
    by (rule bit_eqI) (auto simp: bit_simps)
  then show ?thesis by (simp add: drop_bit_eq_div take_bit_eq_mod)
qed

lemma byte_nibbles [simp]: "byte_of c div 16 < 16" "byte_of c mod 16 < 16"
  using nat_of_char_less_256 [of c] by (auto intro: less_mult_imp_div_less)

lemma hex_digit_hex_lower: "n < 16 \<Longrightarrow> hex_digit (hex_lower n) = Some n"
  by (simp add: hex_digit_def byte_of_hex_lower)

lemma unescape_hex:
  "unescape_bytes (backslash # CHR ''x'' # fmt_02x c @ s) = map_option (Cons c) (unescape_bytes s)"
  by (simp add: fmt_02x_def hex_digit_hex_lower nibbles_join)

lemma valid_char_plain:
  "is_valid_char c \<Longrightarrow> c \<noteq> CHR ''-'' \<and> c \<noteq> backslash \<and> c \<noteq> CHR ''/'' \<and> byte_of c < 128"
  by (auto simp: is_valid_char_def rust_simps)

lemma unescape_escape_byte:
  "unescape_bytes (escape_byte i c @ s) = map_option (Cons c) (unescape_bytes s)"
  using valid_char_plain [of c] unescape_hex [of c s] by (auto simp: escape_byte_def simp del: unescape_bytes.simps(2))
    (auto)

lemma unescape_escape_from: "unescape_bytes (escape_from i s) = Some s"
  by (induction i s rule: escape_from.induct) (simp_all add: unescape_escape_byte)

lemma unescape_escape: "utf8_valid s \<Longrightarrow> unit_name_unescape (unit_name_escape s) = Some s"
  by (simp add: unit_name_unescape_def unit_name_escape_def unescape_escape_from)




lemma hex_lower_valid: "n < 16 \<Longrightarrow> is_valid_char (hex_lower n)"
  by (simp add: is_valid_char_def is_ascii_alphanumeric_def is_digit_def is_ascii_lower_def byte_of_hex_lower)

lemma escape_byte_alphabet:
  "x \<in> set (escape_byte i c) \<Longrightarrow> is_valid_char x \<or> x = CHR ''-'' \<or> x = backslash"
proof -
  have "is_valid_char (CHR ''x'')"
    by (simp add: is_valid_char_def rust_simps)
  then show "x \<in> set (escape_byte i c) \<Longrightarrow> is_valid_char x \<or> x = CHR ''-'' \<or> x = backslash"
    by (auto simp: escape_byte_def fmt_02x_def hex_lower_valid split: if_splits)
qed

text \<open>
  an escaped name is built from the unit-name alphabet, the dash and the
  backslash only; it holds no slash and does not start with a dot.
\<close>

theorem unit_name_escape_alphabet:
  "set (unit_name_escape s) \<subseteq> {x. is_valid_char x \<or> x = CHR ''-'' \<or> x = backslash} \<and>
   \<not> starts_with (unit_name_escape s) ''.'' \<and> CHR ''/'' \<notin> set (unit_name_escape s)"
proof -
  have a: "x \<in> set (escape_from i s) \<Longrightarrow> is_valid_char x \<or> x = CHR ''-'' \<or> x = backslash" for x i
    by (induction i s rule: escape_from.induct) (auto dest: escape_byte_alphabet)
  have d: "\<not> starts_with (escape_from 0 s) ''.''"
    by (cases s) (auto simp: escape_byte_def)
  show ?thesis
    using a d valid_char_plain by (auto simp: unit_name_escape_def)
qed

section \<open>Path escaping is undone by path unescaping\<close>

lemma contains_double_slash_iff:
  "contains_double_slash s \<longleftrightarrow> (\<exists>a b. s = a @ CHR ''/'' # CHR ''/'' # b)"
proof (induction s rule: contains_double_slash.induct)
  case (1 x y s)
  show ?case
  proof
    assume "contains_double_slash (x # y # s)"
    then show "\<exists>a b. x # y # s = a @ CHR ''/'' # CHR ''/'' # b"
      using "1" by (auto intro: exI [of _ "[]"]) (metis append_Cons)
  next
    assume "\<exists>a b. x # y # s = a @ CHR ''/'' # CHR ''/'' # b"
    then show "contains_double_slash (x # y # s)"
      using "1" by (auto simp: Cons_eq_append_conv)
  qed
qed auto

lemma normalize_parts_subset:
  "p \<in> set (normalize_parts a b ps) \<Longrightarrow> p \<in> set ps \<and> p \<noteq> [] \<and> p \<noteq> ''.''"
  by (induction a b ps rule: normalize_parts.induct) (auto split: if_splits)

text \<open>The components a path normalises to, and what is known of them.\<close>

definition path_components :: "string \<Rightarrow> string list" where
  "path_components path =
     normalize_parts (starts_with path ''/'') True (split_on (CHR ''/'') path)"

lemma path_components:
  assumes "p \<in> set (path_components path)"
  shows "p \<noteq> []" "p \<noteq> ''.''" "CHR ''/'' \<notin> set p" "utf8_valid path \<Longrightarrow> utf8_valid p"
proof -
  from assms have p: "p \<in> set (split_on (CHR ''/'') path) \<and> p \<noteq> [] \<and> p \<noteq> ''.''"
    unfolding path_components_def by (rule normalize_parts_subset)
  then show "p \<noteq> []" "p \<noteq> ''.''" by simp_all
  from p show "CHR ''/'' \<notin> set p" by (auto dest: split_on_no_sep)
  from p show "utf8_valid path \<Longrightarrow> utf8_valid p"
    using utf8_valid_split_on [of "CHR ''/''"] by simp
qed

lemma normalize_path_join: "normalize_path path = join_with ''/'' (path_components path)"
  by (simp add: normalize_path_def path_components_def)

lemma normalize_path_Nil: "normalize_path path = [] \<longleftrightarrow> path_components path = []"
  using join_with_eq_Nil [of "''/''" "path_components path"] path_components(1) [of _ path]
  by (cases "path_components path") (auto simp: normalize_path_join)

lemma split_normalize_path:
  "normalize_path path \<noteq> [] \<Longrightarrow> split_on (CHR ''/'') (normalize_path path) = path_components path"
  using path_components(3) [of _ path]
  by (auto simp: normalize_path_join normalize_path_Nil intro!: split_join_with)

lemma utf8_valid_normalize_path: "utf8_valid path \<Longrightarrow> utf8_valid (normalize_path path)"
  using path_components(4) [of _ path] by (auto simp: normalize_path_join intro!: utf8_valid_join)

lemma normalize_path_not_absolute: "\<not> starts_with (normalize_path path) ''/''"
proof
  assume "starts_with (normalize_path path) ''/''"
  then obtain r where r: "normalize_path path = CHR ''/'' # r"
    by (auto split: list.splits)
  then have "path_components path = [] # split_on (CHR ''/'') r"
    using split_normalize_path [of path] by simp
  then show False using path_components(1) [of "[]" path] by simp
qed

lemma is_normalized_rooted:
  assumes n: "normalize_path path \<noteq> []" and v: "is_valid_normalized_path (normalize_path path)"
  shows "is_normalized_path (CHR ''/'' # normalize_path path)" (is "is_normalized_path ?s")
proof -
  have split: "split_on (CHR ''/'') ?s = [] # path_components path"
    using split_normalize_path [OF n] by simp
  have ne: "[] \<notin> set (path_components path)" using path_components(1) by blast
  have last: "\<not> ends_with ?s ''/''"
  proof
    assume "ends_with ?s ''/''"
    then obtain r where "?s = r @ CHR ''/'' # []" by (auto simp: ends_with_iff)
    then have "[] # path_components path = split_on (CHR ''/'') r @ [[]]"
      using split split_on_append [of "CHR ''/''" r "[]"] by simp
    with ne n show False
      by (cases "split_on (CHR ''/'') r") (auto simp: normalize_path_Nil)
  qed
  have double: "\<not> contains_double_slash ?s"
  proof
    assume "contains_double_slash ?s"
    then obtain a b where "?s = a @ CHR ''/'' # CHR ''/'' # b"
      by (auto simp: contains_double_slash_iff)
    then have "[] # path_components path = split_on (CHR ''/'') a @ [] # split_on (CHR ''/'') b"
      using split split_on_append [of "CHR ''/''" a "CHR ''/'' # b"] by simp
    with ne show False by (cases "split_on (CHR ''/'') a") auto
  qed
  have "\<forall>p \<in> set (path_components path). p \<noteq> ''.'' \<and> p \<noteq> ''..''"
    using v path_components(2) split_normalize_path [OF n]
    by (auto simp: is_valid_normalized_path_def)
  with last double n split show ?thesis
    by (simp add: is_normalized_path_def)
qed

lemma escape_eq_dash: "unit_name_escape s = ''-'' \<longleftrightarrow> s = ''/''"
proof
  assume "unit_name_escape s = ''-''"
  moreover have "unescape_bytes (unit_name_escape s) = Some s"
    by (simp add: unit_name_escape_def unescape_escape_from)
  ultimately show "s = ''/''" by simp
qed (simp add: unit_name_escape_def escape_byte_def)

text \<open>
  Whenever path escaping succeeds, path unescaping gives the normalised path back,
  rooted at the slash; that covers the root, relative paths and doubled slashes.
\<close>

theorem unit_name_path_roundtrip:
  assumes "utf8_valid path" and "unit_name_path_escape_checked path = Some e"
  shows "unit_name_path_unescape e = Some (CHR ''/'' # normalize_path path)"
proof (cases "normalize_path path = []")
  case True
  moreover from this have "path = [] \<or> starts_with path ''/''"
    using assms(2) by (auto simp: unit_name_path_escape_checked_def Let_def split: if_splits)
  ultimately show ?thesis
    using assms(2)
    by (auto simp: unit_name_path_escape_checked_def unit_name_path_unescape_def Let_def split: if_splits)
next
  case False
  then have "path \<noteq> []" by (auto simp: normalize_path_def)
  with False assms(2) have e: "e = unit_name_escape (normalize_path path)"
    and v: "is_valid_normalized_path (normalize_path path)"
    by (auto simp: unit_name_path_escape_checked_def Let_def split: if_splits)
  have "e \<noteq> []"
    using e False unescape_escape_from [of 0 "normalize_path path"]
    by (auto simp: unit_name_escape_def)
  moreover have "e \<noteq> ''-''"
    using e normalize_path_not_absolute [of path] by (auto simp: escape_eq_dash)
  moreover have "unit_name_unescape e = Some (normalize_path path)"
    using e assms(1) by (simp add: unescape_escape utf8_valid_normalize_path)
  ultimately show ?thesis
    using False normalize_path_not_absolute [of path] is_normalized_rooted [OF False v]
    by (simp add: unit_name_path_unescape_def Let_def)
qed

theorem unit_name_path_roundtrip_witness:
  "\<exists>e. unit_name_path_escape_checked ''//foo bar/./baz/'' = Some e \<and>
       unit_name_path_unescape e = Some ''/foo bar/baz''"
proof -
  let ?e = "''foo'' @ backslash # ''x20bar-baz''"
  have h: "unit_name_path_escape_checked ''//foo bar/./baz/'' = Some ?e"
    by code_simp
  have u: "utf8_valid ''//foo bar/./baz/''" and n: "normalize_path ''//foo bar/./baz/'' = ''foo bar/baz''"
    by code_simp+
  show ?thesis using h unit_name_path_roundtrip [OF u h] n by auto
qed

section \<open>Over-long names\<close>

lemma clamp_to_boundary_le: "clamp_to_boundary s k \<le> k"
proof (induction s k rule: clamp_to_boundary.induct)
  case (1 s k)
  then show ?case by (subst clamp_to_boundary.simps) (auto intro: le_trans)
qed

lemma length_hash: "length (concat (map fmt_02x (to_le_bytes h))) = 16"
  by (simp add: to_le_bytes_def length_concat comp_def sum_list_triv)

text \<open>An over-long name with a short suffix keeps its suffix and fits \<open>UNIT_NAME_MAX\<close>.\<close>

lemma unit_name_hash_long_fits:
  assumes "CHR ''.'' \<notin> set sfx" and "length sfx \<le> 237"
    and long: "UNIT_NAME_MAX \<le> length (base @ CHR ''.'' # sfx)"
  obtains n where "unit_name_hash_long (base @ CHR ''.'' # sfx) = Returns (Some n)"
    and "length n < UNIT_NAME_MAX" and "ends_with n (CHR ''.'' # sfx)"
proof -
  let ?name = "base @ CHR ''.'' # sfx"
  have dot: "rfind_char (CHR ''.'') ?name = Some (length base)"
    using assms(1) by (simp add: rfind_char_append rfind_char_None split: option.split)
  define len where "len = UNIT_NAME_MAX - 1 - length sfx - UNIT_NAME_HASH_LENGTH_CHARS - 2"
  define k where "k = clamp_to_boundary ?name (min len (length ?name))"
  define hash where "hash = concat (map fmt_02x (to_le_bytes (siphash24 (?name @ [chr 0]) LONG_UNIT_NAME_HASH_KEY)))"
  have "unit_name_hash_long ?name = Returns (Some (take k ?name @ ''_'' @ hash @ CHR ''.'' # sfx))"
    using assms dot unfolding k_def len_def hash_def
    by (simp add: unit_name_hash_long_def UNIT_NAME_MAX_def UNIT_NAME_HASH_LENGTH_CHARS_def Let_def)
  moreover have "k \<le> len"
    using clamp_to_boundary_le [of ?name "min len (length ?name)"] by (simp add: k_def)
  then have "length (take k ?name) \<le> len" by simp
  then have "length (take k ?name @ ''_'' @ hash @ CHR ''.'' # sfx) < UNIT_NAME_MAX"
    using assms(2) length_hash
    by (simp add: len_def hash_def UNIT_NAME_MAX_def UNIT_NAME_HASH_LENGTH_CHARS_def del: length_take)
  moreover have "ends_with (take k ?name @ ''_'' @ hash @ CHR ''.'' # sfx) (CHR ''.'' # sfx)"
    using ends_with_append [of "take k ?name @ ''_'' @ hash" "CHR ''.'' # sfx"] by simp
  ultimately show ?thesis by (rule that)
qed

lemma set_mangle_escape_byte: "CHR ''/'' \<notin> set (mangle_escape_byte c)"
proof -
  have digit: "hex_lower n \<noteq> CHR ''/''" if "n < 16" for n
    using byte_of_hex_lower [OF that] by (auto split: if_splits)
  have "byte_of c div 16 < 16" by (auto simp: less_mult_imp_div_less)
  then have "CHR ''/'' \<notin> set (fmt_02x c)" using digit [of "byte_of c div 16"] digit [of "byte_of c mod 16"]
    by (simp add: fmt_02x_def eq_commute)
  then show ?thesis by (simp add: mangle_escape_byte_def)
qed

lemma length_mangle_escape: "length (unit_name_mangle_escape s) \<le> 4 * length s"
proof -
  have "length (mangle_escape_byte c) \<le> 4" for c by (simp add: mangle_escape_byte_def length_fmt_02x)
  then have "length (concat (map mangle_escape_byte s)) \<le> 4 * length s"
    by (induction s) (simp_all add: add_le_mono)
  then show ?thesis by (simp add: unit_name_mangle_escape_def)
qed

lemma recognized_suffix_ends: "recognized_suffix s = Some sfx \<Longrightarrow> ends_with s sfx \<and> CHR ''/'' \<notin> set sfx"
  unfolding recognized_suffix_def by (auto simp del: find.simps simp: find_Some_iff less_Suc_eq numeral_eq_Suc)

text \<open>
  C2: mangling an absolute path never panics.  A path that ends in a unit suffix keeps it behind
  its escaped rest, without a slash and at most four bytes for one, as the code does not bound
  this case.  Any other path gives a device or mount unit name below \<open>UNIT_NAME_MAX\<close> bytes, however
  long it is.
\<close>

theorem unit_name_mangle_path_fits:
  assumes "starts_with s ''/''"
  shows "\<exists>n. unit_name_mangle s = Returns n \<and>
    (case recognized_suffix s of
       Some sfx \<Rightarrow> ends_with n sfx \<and> CHR ''/'' \<notin> set n \<and> length n \<le> 4 * length s
     | None \<Rightarrow> length n < UNIT_NAME_MAX \<and> ends_with n (if starts_with s ''/dev/'' then ''.device'' else ''.mount''))"
proof (cases "recognized_suffix s")
  case None
  define t where "t = (if starts_with s ''/dev/'' then ''device'' else ''mount'')"
  let ?base = "unit_name_path_escape s"
  have sfx: "(if starts_with s ''/dev/'' then ''.device'' else ''.mount'') = CHR ''.'' # t"
    by (simp add: t_def)
  have t: "CHR ''.'' \<notin> set t" "length t \<le> 237" by (auto simp: t_def)
  have m: "unit_name_mangle s =
      (case unit_name_hash_long (?base @ CHR ''.'' # t) of
         Panics \<Rightarrow> Panics | Returns None \<Rightarrow> Returns (?base @ CHR ''.'' # t)
       | Returns (Some hashed) \<Rightarrow> Returns hashed)"
    using assms None by (simp add: unit_name_mangle_def Let_def sfx del: starts_with_Cons)
  show ?thesis
  proof (cases "UNIT_NAME_MAX \<le> length (?base @ CHR ''.'' # t)")
    case True
    from unit_name_hash_long_fits [OF t True] m sfx None show ?thesis by fastforce
  next
    case False
    then have "unit_name_hash_long (?base @ CHR ''.'' # t) = Returns None"
      by (simp add: unit_name_hash_long_def)
    with False m sfx None show ?thesis by auto
  qed
next
  case (Some sfx)
  let ?rest = "take (length s - length sfx) s"
  have sfx: "ends_with s sfx" "CHR ''/'' \<notin> set sfx" using recognized_suffix_ends [OF Some] by simp_all
  obtain r where r: "s = r @ sfx" using sfx(1) by (auto simp: ends_with_iff)
  moreover from this have "r \<noteq> []" using assms sfx(2) by (cases s) auto
  ultimately have "unit_name_mangle s = Returns (unit_name_mangle_escape r @ sfx)"
    using Some unfolding unit_name_mangle_def by (simp add: Let_def)
  moreover have "CHR ''/'' \<notin> set (unit_name_mangle_escape r)"
    using set_mangle_escape_byte by (auto simp: unit_name_mangle_escape_def)
  ultimately show ?thesis using sfx(2) length_mangle_escape [of r] Some
    by (simp add: r ends_with_append del: starts_with_Cons)
qed

theorem unit_name_mangle_path_fits_witness:
  "(\<exists>n. unit_name_mangle (CHR ''/'' # replicate 300 (CHR ''x'')) = Returns n \<and> length n < UNIT_NAME_MAX)
   \<and> (\<exists>n. unit_name_mangle ''/a/b.service'' = Returns n \<and> ends_with n ''.service'' \<and> CHR ''/'' \<notin> set n)"
proof -
  have "starts_with (CHR ''/'' # replicate 300 (CHR ''x'')) ''/''" by simp
  moreover have "recognized_suffix (CHR ''/'' # replicate 300 (CHR ''x'')) = None"
    "recognized_suffix ''/a/b.service'' = Some ''.service''" "starts_with ''/a/b.service'' ''/''" by code_simp+
  ultimately show ?thesis
    using unit_name_mangle_path_fits [of "CHR ''/'' # replicate 300 (CHR ''x'')"] unit_name_mangle_path_fits [of "''/a/b.service''"]
    by fastforce
qed

section \<open>Templates split back\<close>

lemma is_template_shape:
  assumes "is_template t"
  obtains p r where "t = p @ CHR ''@'' # CHR ''.'' # r" and "CHR ''@'' \<notin> set p" and "CHR ''.'' \<notin> set r"
proof -
  from assms obtain a where f: "find_char (CHR ''@'') t = Some a" and r: "rfind_char (CHR ''.'') t = Some (Suc a)"
    by (auto simp: is_template_def split: option.splits)
  note pos = find_char_Some [OF f] rfind_char_Some [OF r]
  have "t = take a t @ CHR ''@'' # CHR ''.'' # drop (Suc (Suc a)) t"
    using pos by (metis id_take_nth_drop Cons_nth_drop_Suc)
  then show ?thesis by (rule that) (use pos in simp_all)
qed

lemma template_positions:
  assumes "CHR ''@'' \<notin> set p" and "CHR ''.'' \<notin> set r"
  shows "find_char (CHR ''@'') (p @ CHR ''@'' # s) = Some (length p)"
    and "rfind_char (CHR ''.'') (s @ CHR ''.'' # r) = Some (length s)"
  using assms by (simp_all add: find_char_append rfind_char_append find_char_None [THEN iffD2]
      rfind_char_None [THEN iffD2])

text \<open>
  a template instantiated with any instance string, even one holding dots or
  at signs, splits back into the template's two parts and that instance; the result counts as an
  instance exactly when the string is not empty.
\<close>

theorem template_instantiate_splits_back:
  assumes "template_instantiate t inst = Some n" and "\<not> starts_with t ''@''"
  shows "\<exists>prefix suffix. t = prefix @ suffix \<and> n = prefix @ inst @ suffix \<and>
           unit_name_template_split n = Some (prefix, inst, suffix) \<and> (is_instance n \<longleftrightarrow> inst \<noteq> [])"
proof -
  from assms(1) have "is_template t"
    by (simp add: template_instantiate_def split: if_splits)
  then obtain p r where t: "t = p @ CHR ''@'' # CHR ''.'' # r"
    and p: "CHR ''@'' \<notin> set p" and r: "CHR ''.'' \<notin> set r" by (rule is_template_shape)
  have pos: "find_char (CHR ''@'') t = Some (length p)" "rfind_char (CHR ''.'') t = Some (Suc (length p))"
    using template_positions [OF p r, of "CHR ''.'' # r"] template_positions(2) [OF p r, of "p @ ''@''"]
    by (simp_all add: t)
  have n: "n = p @ CHR ''@'' # inst @ CHR ''.'' # r"
    using assms(1) pos \<open>is_template t\<close> by (simp add: template_instantiate_def t)
  have "find_char (CHR ''@'') n = Some (length p)"
    "rfind_char (CHR ''.'') n = Some (length p + Suc (length inst))"
    using template_positions(1) [OF p r, of "inst @ CHR ''.'' # r"]
      template_positions(2) [OF p r, of "p @ CHR ''@'' # inst"]
    by (simp_all add: n)
  moreover have "p \<noteq> []" using assms(2) t by (cases p) auto
  ultimately have "unit_name_template_split n = Some (p @ ''@'', inst, CHR ''.'' # r)"
    and "is_instance n \<longleftrightarrow> inst \<noteq> []"
    by (auto simp: unit_name_template_split_def is_instance_def n)
  then show ?thesis using t n by (intro exI [of _ "p @ ''@''"] exI [of _ "CHR ''.'' # r"]) simp
qed

theorem template_instantiate_splits_back_witness:
  "\<exists>n. template_instantiate ''getty@.service'' ''tty1'' = Some n \<and>
       unit_name_template_split n = Some (''getty@'', ''tty1'', ''.service'')"
proof -
  have h: "template_instantiate ''getty@.service'' ''tty1'' = Some ''getty@tty1.service''" by code_simp
  have "\<not> starts_with ''getty@.service'' ''@''" by simp
  from template_instantiate_splits_back [OF h this]
  have "\<exists>a b c. unit_name_template_split ''getty@tty1.service'' = Some (a, b, c)" by blast
  moreover have "unit_name_template_split ''getty@tty1.service'' = Some (''getty@'', ''tty1'', ''.service'')"
    by code_simp
  ultimately show ?thesis using h by blast
qed


end
