(* ===== verification/Units.thy ===== *)
theory Units
  imports Prelude "HOL-Library.Char_ord" "HOL-Library.List_Lexorder"
begin

text \<open>
  The data model of the service manager: unit identifiers (\<open>units/id.rs\<close>, and the conversion
  from a name in \<open>units/from_parsed_config.rs\<close>), unit states (\<open>units/status.rs\<close>), the
  dependency lists with their operations, and the unit itself (\<open>units/unit.rs\<close>), with the
  parts of the unit-specific configuration that the dependency engine reads.

  A unit keeps its id, its common part (configuration, dependencies, status) and its specific
  part.  Locks are not modelled: every operation here runs while the code holds the table.
\<close>

section \<open>Identifiers\<close>

datatype unit_id_kind =
  Kind_Target | Kind_Socket | Kind_Service | Kind_Slice | Kind_Mount | Kind_Swap
  | Kind_Device | Kind_Timer | Kind_Path

datatype unit_id = UnitId (kind: unit_id_kind) (name: string)

text \<open>\<open>TryInto<UnitId> for &str\<close>: the suffix decides the kind.\<close>

definition try_into_unit_id :: "string \<Rightarrow> unit_id option" where
  "try_into_unit_id s =
     (if ends_with s ''.target'' then Some (UnitId Kind_Target s)
      else if ends_with s ''.service'' then Some (UnitId Kind_Service s)
      else if ends_with s ''.socket'' then Some (UnitId Kind_Socket s)
      else if ends_with s ''.slice'' then Some (UnitId Kind_Slice s)
      else if ends_with s ''.mount'' then Some (UnitId Kind_Mount s)
      else if ends_with s ''.device'' then Some (UnitId Kind_Device s)
      else if ends_with s ''.timer'' then Some (UnitId Kind_Timer s)
      else if ends_with s ''.path'' then Some (UnitId Kind_Path s)
      else if ends_with s ''.swap'' then Some (UnitId Kind_Swap s)
      else None)"

text \<open>The part of the name before its last dot, rebuilt by joining; a slice of no parts panics.\<close>

definition name_without_suffix :: "unit_id \<Rightarrow> string" where
  "name_without_suffix u =
     (let split = split_on (CHR ''.'') (name u) in join_with ''.'' (take (length split - 1) split))"

text \<open>An identifier as the loaders make them: its kind is the one its name says.\<close>

definition id_wf :: "unit_id \<Rightarrow> bool" where
  "id_wf u \<longleftrightarrow> try_into_unit_id (name u) = Some u"

section \<open>Dependencies\<close>

record dependencies =
  wants :: "unit_id list"
  wanted_by :: "unit_id list"
  requires :: "unit_id list"
  required_by :: "unit_id list"
  requisite :: "unit_id list"
  conflicts :: "unit_id list"
  conflicted_by :: "unit_id list"
  before :: "unit_id list"
  after :: "unit_id list"
  part_of :: "unit_id list"
  part_of_by :: "unit_id list"
  binds_to :: "unit_id list"
  bound_by :: "unit_id list"
  upholds :: "unit_id list"
  upheld_by :: "unit_id list"
  propagates_stop_to :: "unit_id list"

text \<open>\<open>v.sort(); v.dedup();\<close>: identifiers are ordered by name, the sort is stable.\<close>

definition dedup_ids :: "unit_id list \<Rightarrow> unit_id list" where
  "dedup_ids ids = remdups_adj (sort_key name ids)"

definition dedup :: "dependencies \<Rightarrow> dependencies" where
  "dedup d = d\<lparr>
     wants := dedup_ids (wants d), wanted_by := dedup_ids (wanted_by d),
     requires := dedup_ids (requires d), required_by := dedup_ids (required_by d),
     conflicts := dedup_ids (conflicts d), conflicted_by := dedup_ids (conflicted_by d),
     before := dedup_ids (before d), after := dedup_ids (after d),
     part_of := dedup_ids (part_of d), part_of_by := dedup_ids (part_of_by d),
     binds_to := dedup_ids (binds_to d), bound_by := dedup_ids (bound_by d),
     upholds := dedup_ids (upholds d), upheld_by := dedup_ids (upheld_by d),
     propagates_stop_to := dedup_ids (propagates_stop_to d)\<rparr>"

definition kill_before_this :: "dependencies \<Rightarrow> unit_id list" where
  "kill_before_this d = required_by d @ part_of_by d @ bound_by d"

definition start_before_this :: "dependencies \<Rightarrow> unit_id list" where
  "start_before_this d =
     filter (\<lambda>u. u \<in> set (wants d) \<or> u \<in> set (requires d) \<or> u \<in> set (binds_to d)
                 \<or> u \<in> set (upholds d)) (after d)"

definition start_concurrently_with_this :: "dependencies \<Rightarrow> unit_id list" where
  "start_concurrently_with_this d =
     filter (\<lambda>u. u \<notin> set (after d)) (wants d @ requires d @ binds_to d @ upholds d)"

text \<open>\<open>while let Some(idx) = ids.iter().position(..) { ids.remove(idx); }\<close>\<close>

function remove_from_vec :: "unit_id list \<Rightarrow> unit_id \<Rightarrow> unit_id list" where
  "remove_from_vec ids u = (if u \<in> set ids then remove_from_vec (remove1 u ids) u else ids)"
  by pat_completeness auto
termination
  by (relation "measure (\<lambda>(ids, u). length ids)") (auto simp: length_remove1 dest: length_pos_if_in_set)

declare remove_from_vec.simps [simp del]

definition remove_id :: "unit_id \<Rightarrow> dependencies \<Rightarrow> dependencies" where
  "remove_id u d = d\<lparr>
     wants := remove_from_vec (wants d) u, wanted_by := remove_from_vec (wanted_by d) u,
     requires := remove_from_vec (requires d) u, required_by := remove_from_vec (required_by d) u,
     conflicts := remove_from_vec (conflicts d) u,
     conflicted_by := remove_from_vec (conflicted_by d) u,
     before := remove_from_vec (before d) u, after := remove_from_vec (after d) u,
     part_of := remove_from_vec (part_of d) u, part_of_by := remove_from_vec (part_of_by d) u,
     binds_to := remove_from_vec (binds_to d) u, bound_by := remove_from_vec (bound_by d) u,
     upholds := remove_from_vec (upholds d) u, upheld_by := remove_from_vec (upheld_by d) u,
     propagates_stop_to := remove_from_vec (propagates_stop_to d) u\<rparr>"

definition comes_after :: "dependencies \<Rightarrow> string \<Rightarrow> bool" where
  "comes_after d n \<longleftrightarrow> list_ex (\<lambda>u. name u = n) (after d)"

definition comes_before :: "dependencies \<Rightarrow> string \<Rightarrow> bool" where
  "comes_before d n \<longleftrightarrow> list_ex (\<lambda>u. name u = n) (before d)"

definition requires_name :: "dependencies \<Rightarrow> string \<Rightarrow> bool" where
  "requires_name d n \<longleftrightarrow> list_ex (\<lambda>u. name u = n) (requires d)"

definition required_by_name :: "dependencies \<Rightarrow> string \<Rightarrow> bool" where
  "required_by_name d n \<longleftrightarrow> list_ex (\<lambda>u. name u = n) (required_by d)"

definition wants_name :: "dependencies \<Rightarrow> string \<Rightarrow> bool" where
  "wants_name d n \<longleftrightarrow> list_ex (\<lambda>u. name u = n) (wants d)"

definition wanted_by_name :: "dependencies \<Rightarrow> string \<Rightarrow> bool" where
  "wanted_by_name d n \<longleftrightarrow> list_ex (\<lambda>u. name u = n) (wanted_by d)"

lemma set_dedup_ids [simp]: "set (dedup_ids ids) = set ids"
  by (simp add: dedup_ids_def)

lemma remove_from_vec_eq: "remove_from_vec ids u = removeAll u ids"
proof (induction ids u rule: remove_from_vec.induct)
  case (1 ids u)
  have "removeAll u (remove1 u ids) = removeAll u ids"
    by (induction ids) auto
  then show ?case
    using "1" by (subst remove_from_vec.simps) (auto simp: removeAll_id)
qed

lemma set_remove_from_vec [simp]: "set (remove_from_vec ids u) = set ids - {u}"
  by (simp add: remove_from_vec_eq)

lemma name_eq_wf: "id_wf u \<Longrightarrow> id_wf v \<Longrightarrow> name u = name v \<Longrightarrow> u = v"
  by (simp add: id_wf_def)

text \<open>Sorting by name brings the copies of an identifier together.\<close>

lemma distinct_remdups_adj_sorted:
  "sorted (map f xs) \<Longrightarrow> inj_on f (set xs) \<Longrightarrow> distinct (remdups_adj xs)"
proof (induction xs rule: remdups_adj.induct)
  case (3 x y xs)
  show ?case
  proof (cases "x = y")
    case True
    with 3 show ?thesis by simp
  next
    case False
    have "x \<notin> set (y # xs)"
    proof
      assume x: "x \<in> set (y # xs)"
      with 3(3) have "f y \<le> f x" by auto
      moreover from 3(3) have "f x \<le> f y" by simp
      ultimately have "f x = f y" by simp
      then show False using 3(4) False unfolding inj_on_def by (auto simp del: inj_on_insert)
    qed
    with 3 False show ?thesis by simp
  qed
qed simp_all

lemma distinct_dedup_ids: "(\<forall>u\<in>set ids. id_wf u) \<Longrightarrow> distinct (dedup_ids ids)"
  unfolding dedup_ids_def
  by (rule distinct_remdups_adj_sorted [where f = name]) (auto intro!: inj_onI dest: name_eq_wf)

section \<open>Status\<close>

datatype unit_operation_error_reason =
  GenericStartError string
  | GenericStopError string
  | SocketOpenError string
  | SocketCloseError string
  | ServiceStartError string
  | ServiceStopError string
  | DependencyError "unit_id list"

datatype status_started = Running | WaitingForSocket

datatype status_stopped = StoppedFinal | StoppedUnexpected | ConditionSkipped

datatype unit_status =
  NeverStarted
  | Starting
  | Stopping
  | Restarting
  | Started status_started
  | Stopped status_stopped "unit_operation_error_reason list"

fun is_stopped :: "unit_status \<Rightarrow> bool" where
  "is_stopped (Stopped _ _) = True"
| "is_stopped _ = False"

fun is_started :: "unit_status \<Rightarrow> bool" where
  "is_started (Started _) = True"
| "is_started _ = False"

section \<open>Units\<close>

text \<open>Durations are in nanoseconds, as \<open>std::time::Duration\<close> counts them.\<close>

datatype timeout = Duration nat | Infinity

record unit_config =
  refs_by_name :: "unit_id list"
  default_dependencies :: bool
  aliases :: "string list"
  allow_isolate :: bool
  start_limit_interval_sec :: "timeout option"
  start_limit_burst :: "nat option"
  stop_when_unneeded :: bool

record service_config =
  srvc_sockets :: "unit_id list"
  srvc_slice :: "string option"
  srvc_dbus_name :: "string option"

record socket_config =
  sock_services :: "unit_id list"

record mount_config =
  mnt_what :: string
  mnt_where :: string
  mnt_fs_type :: "string option"
  mnt_options :: "string option"

datatype specific =
  Service service_config
  | Socket socket_config
  | Target
  | Slice
  | Mount mount_config
  | Swap
  | Timer
  | Path
  | Device

record unit =
  unit_id :: unit_id
  unit_conf :: unit_config
  deps :: dependencies
  status :: unit_status
  specific :: specific

type_synonym unit_table = "(unit_id, unit) table"

text \<open>In a table every unit is filed under its own id.\<close>

definition units_wf :: "unit_table \<Rightarrow> bool" where
  "units_wf t \<longleftrightarrow> tbl_wf t \<and> (\<forall>(k, u) \<in> set t. unit_id u = k)"

definition upd_deps :: "(dependencies \<Rightarrow> dependencies) \<Rightarrow> unit \<Rightarrow> unit" where
  "upd_deps f u = u\<lparr>deps := f (deps u)\<rparr>"

definition dedup_dependencies :: "unit \<Rightarrow> unit" where
  "dedup_dependencies u = upd_deps dedup u"

text \<open>\<open>for unit in table.values_mut()\<close>\<close>

definition map_units :: "(unit \<Rightarrow> unit) \<Rightarrow> unit_table \<Rightarrow> unit_table" where
  "map_units f t = map (\<lambda>(k, u). (k, f u)) t"

text \<open>A unit with nothing configured, for examples.\<close>

definition no_dependencies :: dependencies where
  "no_dependencies = \<lparr>wants = [], wanted_by = [], requires = [], required_by = [], requisite = [],
     conflicts = [], conflicted_by = [], before = [], after = [], part_of = [], part_of_by = [],
     binds_to = [], bound_by = [], upholds = [], upheld_by = [], propagates_stop_to = []\<rparr>"

definition plain_config :: unit_config where
  "plain_config = \<lparr>refs_by_name = [], default_dependencies = False, aliases = [],
     allow_isolate = False, start_limit_interval_sec = None, start_limit_burst = None,
     stop_when_unneeded = False\<rparr>"

definition plain_unit :: "unit_id \<Rightarrow> dependencies \<Rightarrow> unit" where
  "plain_unit u d = \<lparr>unit_id = u, unit_conf = plain_config, deps = d, status = NeverStarted,
     specific = Target\<rparr>"

lemma units_wf_get: "units_wf t \<Longrightarrow> tbl_get t k = Some x \<Longrightarrow> unit_id x = k"
  by (auto simp: units_wf_def tbl_get_mem [symmetric])

lemma upd_deps_simps [simp]:
  "unit_id (upd_deps f u) = unit_id u" "unit_conf (upd_deps f u) = unit_conf u"
  "status (upd_deps f u) = status u" "specific (upd_deps f u) = specific u"
  "deps (upd_deps f u) = f (deps u)"
  by (simp_all add: upd_deps_def)

lemma tbl_get_map_units [simp, table_simps]: "tbl_get (map_units f t) k = map_option f (tbl_get t k)"
  by (induction t) (auto simp: tbl_get_def map_units_def)

lemma tbl_keys_map_units [simp, table_simps]: "tbl_keys (map_units f t) = tbl_keys t"
  by (induction t) (auto simp: tbl_keys_def map_units_def)

end
