(* ===== verification/Jobs.thy ===== *)
theory Jobs
  imports Units
begin

text \<open>
  The job registry: \<open>crates/libsystemd/src/units/jobs.rs\<close>.  A registry holds the installed
  jobs, the index from units to their installed job and the queue of jobs ready to run.
  Job ids are \<open>u32\<close> words.  An instant is a natural number.  The D-Bus signals and the
  replies sent to waiting clients are returned as a list of effects, in the order the code
  makes them.

  Lemmas: the registry invariant and its preservation by every operation, what each
  operation does to the queue, merging of requests, and the result for whole histories.
\<close>

type_synonym job_id = "32 word"

datatype job_kind = Start | Stop | Restart | TryRestart | Reload | VerifyActive | Nop

definition job_kind_as_str :: "job_kind \<Rightarrow> string" where
  "job_kind_as_str k =
     (case k of
        Start \<Rightarrow> ''start'' | Stop \<Rightarrow> ''stop'' | Restart \<Rightarrow> ''restart''
      | TryRestart \<Rightarrow> ''try-restart'' | Reload \<Rightarrow> ''reload''
      | VerifyActive \<Rightarrow> ''verify-active'' | Nop \<Rightarrow> ''nop'')"

datatype job_state = Job_Waiting | Job_Running

definition job_state_as_str :: "job_state \<Rightarrow> string" where
  "job_state_as_str s = (case s of Job_Waiting \<Rightarrow> ''waiting'' | Job_Running \<Rightarrow> ''running'')"

datatype job_result = Done | Failed | Canceled | Timeout | Dependency | Skipped

definition job_result_as_str :: "job_result \<Rightarrow> string" where
  "job_result_as_str r =
     (case r of
        Done \<Rightarrow> ''done'' | Failed \<Rightarrow> ''failed'' | Canceled \<Rightarrow> ''canceled''
      | Timeout \<Rightarrow> ''timeout'' | Dependency \<Rightarrow> ''dependency'' | Skipped \<Rightarrow> ''skipped'')"

datatype job_mode = Replace | Fail

datatype activation_source =
  Regular | SocketActivation | TriggerActivation | NonBlocking | DeferNotifyWait

definition is_socket_activation :: "activation_source \<Rightarrow> bool" where
  "is_socket_activation s \<longleftrightarrow> s = SocketActivation"

definition bypasses_stopped_guard :: "activation_source \<Rightarrow> bool" where
  "bypasses_stopped_guard s \<longleftrightarrow> s = SocketActivation \<or> s = TriggerActivation"

record job =
  job_id :: job_id
  job_unit :: unit_id
  job_kind :: job_kind
  job_state :: job_state
  job_result :: "job_result option"
  job_deadline :: "nat option"
  job_source :: activation_source
  job_waiters :: "nat list"

record registry =
  next_id :: job_id
  jobs :: "(job_id, job) table"
  by_unit :: "(unit_id, job_id) table"
  run_queue :: "job_id list"

datatype effect =
  JobCreated job
  | JobRemoved job
  | SendResult nat job_result

definition new_registry :: registry where
  "new_registry = \<lparr>next_id = 1, jobs = [], by_unit = [], run_queue = []\<rparr>"

section \<open>Operations\<close>

text \<open>The match arms of \<open>merge_kinds\<close>, in the order of the code.\<close>

fun merge_kinds_arms :: "job_kind \<Rightarrow> job_kind \<Rightarrow> job_kind option" where
  "merge_kinds_arms e Nop = Some e"
| "merge_kinds_arms Nop n = Some n"
| "merge_kinds_arms Restart Start = Some Restart"
| "merge_kinds_arms Restart VerifyActive = Some Restart"
| "merge_kinds_arms Restart TryRestart = Some Restart"
| "merge_kinds_arms Start Restart = Some Restart"
| "merge_kinds_arms VerifyActive Restart = Some Restart"
| "merge_kinds_arms TryRestart Restart = Some Restart"
| "merge_kinds_arms Start VerifyActive = Some Start"
| "merge_kinds_arms VerifyActive Start = Some Start"
| "merge_kinds_arms TryRestart VerifyActive = Some TryRestart"
| "merge_kinds_arms VerifyActive TryRestart = Some TryRestart"
| "merge_kinds_arms Start TryRestart = None"
| "merge_kinds_arms TryRestart Start = None"
| "merge_kinds_arms _ Stop = None"
| "merge_kinds_arms Stop _ = None"
| "merge_kinds_arms Reload _ = None"
| "merge_kinds_arms _ Reload = None"
| "merge_kinds_arms e _ = Some e"

definition merge_kinds :: "job_kind \<Rightarrow> job_kind \<Rightarrow> job_kind option" where
  "merge_kinds existing new = (if existing = new then Some existing else merge_kinds_arms existing new)"

definition finish :: "job_id \<Rightarrow> job_result \<Rightarrow> registry \<Rightarrow> registry \<times> effect list \<times> job option" where
  "finish i result r =
     (case tbl_get (jobs r) i of
        None \<Rightarrow> (r, [], None)
      | Some j \<Rightarrow>
          let j' = j\<lparr>job_result := Some result\<rparr> in
          (r\<lparr>jobs := tbl_remove i (jobs r),
             by_unit := (if tbl_get (by_unit r) (job_unit j) = Some i
                         then tbl_remove (job_unit j) (by_unit r) else by_unit r),
             run_queue := filter (\<lambda>q. q \<noteq> i) (run_queue r)\<rparr>,
           map (\<lambda>w. SendResult w result) (job_waiters j) @ [JobRemoved j'],
           Some j'))"

text \<open>The second half of \<open>create\<close>: a fresh job is installed.\<close>

definition install_job ::
  "unit_id \<Rightarrow> job_kind \<Rightarrow> activation_source \<Rightarrow> registry \<Rightarrow> registry \<times> effect list \<times> job_id" where
  "install_job u k source r =
     (let i = next_id r;
          j = \<lparr>job_id = i, job_unit = u, job_kind = k, job_state = Job_Waiting, job_result = None,
               job_deadline = None, job_source = source, job_waiters = []\<rparr>
      in (r\<lparr>next_id := max (i + 1) 1, jobs := tbl_insert i j (jobs r),
            by_unit := tbl_insert u i (by_unit r)\<rparr>,
          [JobCreated j], i))"

text \<open>
  \<open>create\<close> panics when the index names a job that is not installed (the indexing
  \<open>self.jobs[&existing_id]\<close>).
\<close>

definition create ::
  "unit_id \<Rightarrow> job_kind \<Rightarrow> activation_source \<Rightarrow> job_mode \<Rightarrow> registry
     \<Rightarrow> (registry \<times> effect list \<times> (string + job_id)) outcome" where
  "create u k source mode r =
     (case tbl_get (by_unit r) u of
        None \<Rightarrow> (let (r', es, i) = install_job u k source r in Returns (r', es, Inr i))
      | Some existing_id \<Rightarrow>
          (case tbl_get (jobs r) existing_id of
             None \<Rightarrow> Panics
           | Some existing \<Rightarrow>
               (case merge_kinds (job_kind existing) k of
                  Some merged \<Rightarrow>
                    Returns
                      (if merged \<noteq> job_kind existing
                       then r\<lparr>jobs := tbl_modify existing_id (job_kind_update (\<lambda>_. merged)) (jobs r)\<rparr>
                       else r, [], Inr existing_id)
                | None \<Rightarrow>
                    if mode = Fail then
                      Returns (r, [], Inl (''Transaction for '' @ name u @ '' is destructive (''
                        @ job_kind_as_str (job_kind existing) @ '' job pending).''))
                    else
                      let (r1, es1, _) = finish existing_id Canceled r;
                          (r2, es2, i) = install_job u k source r1
                      in Returns (r2, es1 @ es2, Inr i))))"

definition set_running :: "job_id \<Rightarrow> registry \<Rightarrow> registry" where
  "set_running i r = r\<lparr>jobs := tbl_modify i (job_state_update (\<lambda>_. Job_Running)) (jobs r)\<rparr>"

definition set_waiting :: "job_id \<Rightarrow> registry \<Rightarrow> registry" where
  "set_waiting i r = r\<lparr>jobs := tbl_modify i (job_state_update (\<lambda>_. Job_Waiting)) (jobs r)\<rparr>"

definition add_waiter :: "job_id \<Rightarrow> nat \<Rightarrow> registry \<Rightarrow> registry" where
  "add_waiter i w r = r\<lparr>jobs := tbl_modify i (job_waiters_update (\<lambda>ws. ws @ [w])) (jobs r)\<rparr>"

definition is_waiting :: "registry \<Rightarrow> job_id \<Rightarrow> bool" where
  "is_waiting r i \<longleftrightarrow> (case tbl_get (jobs r) i of None \<Rightarrow> False | Some j \<Rightarrow> job_state j = Job_Waiting)"

definition enqueue :: "job_id \<Rightarrow> registry \<Rightarrow> registry" where
  "enqueue i r =
     (if is_waiting r i \<and> i \<notin> set (run_queue r) then r\<lparr>run_queue := run_queue r @ [i]\<rparr> else r)"

fun pop_ready_loop :: "job_id list \<Rightarrow> registry \<Rightarrow> registry \<times> job_id option" where
  "pop_ready_loop [] r = (r\<lparr>run_queue := []\<rparr>, None)"
| "pop_ready_loop (i # q) r =
     (if is_waiting r i then (set_running i (r\<lparr>run_queue := q\<rparr>), Some i)
      else pop_ready_loop q r)"

definition pop_ready :: "registry \<Rightarrow> registry \<times> job_id option" where
  "pop_ready r = pop_ready_loop (run_queue r) r"

definition run_queue_is_empty :: "registry \<Rightarrow> bool" where
  "run_queue_is_empty r \<longleftrightarrow> run_queue r = []"

fun requeue_loop ::
  "(unit_id \<Rightarrow> bool) \<Rightarrow> unit_id list \<Rightarrow> registry \<Rightarrow> job_id list \<Rightarrow> registry \<times> job_id list" where
  "requeue_loop is_ready [] r woken = (r, woken)"
| "requeue_loop is_ready (n # ns) r woken =
     (case tbl_get (by_unit r) n of
        None \<Rightarrow> requeue_loop is_ready ns r woken
      | Some i \<Rightarrow>
          if is_waiting r i \<and> is_ready n then
            (let already_queued = i \<in> set (run_queue r) in
             requeue_loop is_ready ns (enqueue i r)
               (if \<not> already_queued \<and> i \<notin> set woken then woken @ [i] else woken))
          else requeue_loop is_ready ns r woken)"

definition requeue_after_finish ::
  "unit_id \<Rightarrow> (unit_id \<Rightarrow> unit_id list) \<Rightarrow> (unit_id \<Rightarrow> bool) \<Rightarrow> registry \<Rightarrow> registry \<times> job_id list" where
  "requeue_after_finish finished ordered_after is_ready r =
     requeue_loop is_ready (ordered_after finished) r []"

fun enqueue_ready_loop ::
  "(unit_id \<Rightarrow> bool) \<Rightarrow> (job_id \<times> unit_id) list \<Rightarrow> registry \<Rightarrow> job_id list \<Rightarrow> registry \<times> job_id list" where
  "enqueue_ready_loop is_ready [] r queued = (r, queued)"
| "enqueue_ready_loop is_ready ((i, u) # cs) r queued =
     (if i \<notin> set (run_queue r) \<and> is_ready u
      then enqueue_ready_loop is_ready cs (enqueue i r) (queued @ [i])
      else enqueue_ready_loop is_ready cs r queued)"

definition waiting_candidates :: "registry \<Rightarrow> (job_id \<times> unit_id) list" where
  "waiting_candidates r =
     sort_key fst (map (\<lambda>(i, j). (i, job_unit j)) (filter (\<lambda>(i, j). job_state j = Job_Waiting) (jobs r)))"

definition enqueue_ready :: "(unit_id \<Rightarrow> bool) \<Rightarrow> registry \<Rightarrow> registry \<times> job_id list" where
  "enqueue_ready is_ready r = enqueue_ready_loop is_ready (waiting_candidates r) r []"

definition set_deadline :: "job_id \<Rightarrow> nat \<Rightarrow> registry \<Rightarrow> registry" where
  "set_deadline i d r = r\<lparr>jobs := tbl_modify i (job_deadline_update (\<lambda>_. Some d)) (jobs r)\<rparr>"

definition next_deadline :: "registry \<Rightarrow> nat option" where
  "next_deadline r =
     (case List.map_filter (\<lambda>(i, j). job_deadline j) (jobs r) of
        [] \<Rightarrow> None
      | d # ds \<Rightarrow> Some (fold min ds d))"

definition expired_ids :: "nat \<Rightarrow> registry \<Rightarrow> job_id list" where
  "expired_ids now r =
     sort (map fst (filter (\<lambda>(i, j). case job_deadline j of None \<Rightarrow> False | Some d \<Rightarrow> d \<le> now) (jobs r)))"

definition pop_expired :: "nat \<Rightarrow> registry \<Rightarrow> registry \<times> job_id list" where
  "pop_expired now r =
     (let expired = expired_ids now r in
      (r\<lparr>jobs := fold (\<lambda>i. tbl_modify i (job_deadline_update (\<lambda>_. None))) expired (jobs r)\<rparr>, expired))"

definition get_job :: "registry \<Rightarrow> job_id \<Rightarrow> job option" where
  "get_job r i = tbl_get (jobs r) i"

definition job_for_unit :: "registry \<Rightarrow> unit_id \<Rightarrow> job option" where
  "job_for_unit r u =
     (case tbl_get (by_unit r) u of None \<Rightarrow> None | Some i \<Rightarrow> tbl_get (jobs r) i)"

definition len :: "registry \<Rightarrow> nat" where
  "len r = length (jobs r)"

definition is_empty :: "registry \<Rightarrow> bool" where
  "is_empty r \<longleftrightarrow> jobs r = []"

section \<open>Handles of the synchronous control paths\<close>

record job_handle =
  handle_id :: job_id
  handle_finished :: bool

definition handle_create ::
  "unit_id \<Rightarrow> job_kind \<Rightarrow> job_mode \<Rightarrow> registry \<Rightarrow> (registry \<times> effect list \<times> (string + job_handle)) outcome" where
  "handle_create u k mode r =
     (case create u k Regular mode r of
        Panics \<Rightarrow> Panics
      | Returns (r', es, Inl e) \<Rightarrow> Returns (r', es, Inl e)
      | Returns (r', es, Inr i) \<Rightarrow>
          Returns (set_running i r', es, Inr \<lparr>handle_id = i, handle_finished = False\<rparr>))"

definition handle_finish :: "job_handle \<Rightarrow> job_result \<Rightarrow> registry \<Rightarrow> registry \<times> effect list \<times> job_handle" where
  "handle_finish h result r =
     (let (r', es, _) = finish (handle_id h) result r in (r', es, h\<lparr>handle_finished := True\<rparr>))"

definition handle_drop :: "job_handle \<Rightarrow> registry \<Rightarrow> registry \<times> effect list" where
  "handle_drop h r =
     (if \<not> handle_finished h then (let (r', es, _) = finish (handle_id h) Failed r in (r', es))
      else (r, []))"

section \<open>The registry invariant\<close>

text \<open>
  The two maps agree: the index sends a unit to a job exactly when that job is installed for
  the unit, every job is filed under its own id and has no result yet, and the run queue holds
  installed jobs only, each once.
\<close>

definition indexed_ok :: "registry \<Rightarrow> bool" where
  "indexed_ok r \<longleftrightarrow>
     list_all (\<lambda>(u, i). case tbl_get (jobs r) i of None \<Rightarrow> False | Some j \<Rightarrow> job_unit j = u) (by_unit r)"

definition installed_ok :: "registry \<Rightarrow> bool" where
  "installed_ok r \<longleftrightarrow>
     list_all (\<lambda>(i, j). job_id j = i \<and> job_result j = None
                       \<and> tbl_get (by_unit r) (job_unit j) = Some i) (jobs r)"

definition registry_inv :: "registry \<Rightarrow> bool" where
  "registry_inv r \<longleftrightarrow>
     tbl_wf (jobs r) \<and> tbl_wf (by_unit r) \<and> indexed_ok r \<and> installed_ok r
     \<and> distinct (run_queue r) \<and> set (run_queue r) \<subseteq> set (tbl_keys (jobs r))"

text \<open>Ids are handed out in order: every installed id is positive and below the next one.\<close>

definition ids_below :: "registry \<Rightarrow> bool" where
  "ids_below r \<longleftrightarrow> 0 < next_id r \<and> list_all (\<lambda>i. 0 < i \<and> i < next_id r) (tbl_keys (jobs r))"

lemma indexed_ok_iff:
  "tbl_wf (by_unit r) \<Longrightarrow>
   indexed_ok r \<longleftrightarrow> (\<forall>u i. tbl_get (by_unit r) u = Some i \<longrightarrow>
                        (\<exists>j. tbl_get (jobs r) i = Some j \<and> job_unit j = u))"
  by (simp add: indexed_ok_def list_all_tbl split: option.split) (metis option.exhaust option.distinct(1) option.inject)

lemma installed_ok_iff:
  "tbl_wf (jobs r) \<Longrightarrow>
   installed_ok r \<longleftrightarrow> (\<forall>i j. tbl_get (jobs r) i = Some j \<longrightarrow>
                           job_id j = i \<and> job_result j = None \<and> tbl_get (by_unit r) (job_unit j) = Some i)"
  by (simp add: installed_ok_def list_all_tbl)

lemma registry_inv_iff:
  "registry_inv r \<longleftrightarrow>
     tbl_wf (jobs r) \<and> tbl_wf (by_unit r)
     \<and> (\<forall>u i. tbl_get (by_unit r) u = Some i \<longrightarrow> (\<exists>j. tbl_get (jobs r) i = Some j \<and> job_unit j = u))
     \<and> (\<forall>i j. tbl_get (jobs r) i = Some j \<longrightarrow>
          job_id j = i \<and> job_result j = None \<and> tbl_get (by_unit r) (job_unit j) = Some i)
     \<and> distinct (run_queue r) \<and> (\<forall>i \<in> set (run_queue r). tbl_get (jobs r) i \<noteq> None)"
  unfolding registry_inv_def
  by (cases "tbl_wf (jobs r) \<and> tbl_wf (by_unit r)")
     (auto simp: indexed_ok_iff installed_ok_iff tbl_keys_get subset_iff)

lemma ids_below_iff:
  "ids_below r \<longleftrightarrow> 0 < next_id r \<and> (\<forall>i. tbl_get (jobs r) i \<noteq> None \<longrightarrow> 0 < i \<and> i < next_id r)"
  by (auto simp: ids_below_def list_all_iff tbl_keys_get)

lemma registry_inv_new: "registry_inv new_registry" "ids_below new_registry"
  by (simp_all add: registry_inv_iff ids_below_iff new_registry_def)

text \<open>An update of one job's state, kind, deadline or waiters.\<close>

definition update_job :: "job_id \<Rightarrow> (job \<Rightarrow> job) \<Rightarrow> registry \<Rightarrow> registry" where
  "update_job i f r = r\<lparr>jobs := tbl_modify i f (jobs r)\<rparr>"

definition keeps_identity :: "(job \<Rightarrow> job) \<Rightarrow> bool" where
  "keeps_identity f \<longleftrightarrow>
     (\<forall>j. job_id (f j) = job_id j \<and> job_unit (f j) = job_unit j \<and> job_result (f j) = job_result j)"

lemma update_job_simps [simp]:
  "jobs (update_job i f r) = tbl_modify i f (jobs r)" "by_unit (update_job i f r) = by_unit r"
  "run_queue (update_job i f r) = run_queue r" "next_id (update_job i f r) = next_id r"
  by (simp_all add: update_job_def)

lemma registry_inv_update: "keeps_identity f \<Longrightarrow> registry_inv r \<Longrightarrow> registry_inv (update_job i f r)"
  unfolding registry_inv_iff keeps_identity_def
  by (auto simp: map_option_case split: if_splits option.splits) fastforce+

lemma ids_below_update [simp]: "ids_below (update_job i f r) = ids_below r"
  by (simp add: ids_below_def)

lemma update_job_folds:
  "set_running i r = update_job i (job_state_update (\<lambda>_. Job_Running)) r"
  "set_waiting i r = update_job i (job_state_update (\<lambda>_. Job_Waiting)) r"
  "add_waiter i w r = update_job i (job_waiters_update (\<lambda>ws. ws @ [w])) r"
  "set_deadline i d r = update_job i (job_deadline_update (\<lambda>_. Some d)) r"
  by (simp_all add: update_job_def set_running_def set_waiting_def add_waiter_def set_deadline_def)

lemma keeps_identity_updates [simp]:
  "keeps_identity (job_state_update f)" "keeps_identity (job_waiters_update g)"
  "keeps_identity (job_deadline_update h)" "keeps_identity (job_kind_update k)"
  by (simp_all add: keeps_identity_def)

lemma registry_inv_set_queue:
  "registry_inv r \<Longrightarrow> distinct q \<Longrightarrow> set q \<subseteq> set (tbl_keys (jobs r)) \<Longrightarrow> registry_inv (r\<lparr>run_queue := q\<rparr>)"
  by (auto simp: registry_inv_iff tbl_keys_get)

lemma ids_below_set_queue [simp]: "ids_below (r\<lparr>run_queue := q\<rparr>) = ids_below r"
  by (simp add: ids_below_def)

lemma is_waiting_installed: "is_waiting r i \<Longrightarrow> i \<in> set (tbl_keys (jobs r))"
  by (auto simp: is_waiting_def tbl_keys_get split: option.splits)

lemma is_waiting_set_queue [simp]: "is_waiting (r\<lparr>run_queue := q\<rparr>) i = is_waiting r i"
  by (simp add: is_waiting_def)

lemma is_waiting_set_running [simp]:
  "is_waiting (set_running i r) k \<longleftrightarrow> k \<noteq> i \<and> is_waiting r k"
  by (auto simp: is_waiting_def set_running_def split: option.splits)

lemma registry_inv_enqueue: "registry_inv r \<Longrightarrow> registry_inv (enqueue i r)"
  unfolding enqueue_def
  by (auto intro!: registry_inv_set_queue dest: is_waiting_installed simp: registry_inv_def [of r])

lemma enqueue_simps [simp]:
  "jobs (enqueue i r) = jobs r" "by_unit (enqueue i r) = by_unit r" "next_id (enqueue i r) = next_id r"
  "is_waiting (enqueue i r) = is_waiting r" "ids_below (enqueue i r) = ids_below r"
  by (auto simp: enqueue_def fun_eq_iff)

lemma registry_inv_index:
  "registry_inv r \<Longrightarrow> tbl_get (by_unit r) u = Some i \<Longrightarrow> \<exists>j. tbl_get (jobs r) i = Some j \<and> job_unit j = u"
  by (simp add: registry_inv_iff)

lemma registry_inv_job:
  "registry_inv r \<Longrightarrow> tbl_get (jobs r) i = Some j \<Longrightarrow>
     job_id j = i \<and> job_result j = None \<and> tbl_get (by_unit r) (job_unit j) = Some i"
  by (simp add: registry_inv_iff)

lemma registry_inv_wf:
  assumes "registry_inv r"
  shows "tbl_wf (jobs r)" "tbl_wf (by_unit r)" "distinct (run_queue r)"
    "i \<in> set (run_queue r) \<Longrightarrow> \<exists>j. tbl_get (jobs r) i = Some j"
  using assms by (auto simp: registry_inv_iff)

lemma registry_invI:
  assumes "tbl_wf (jobs r)" "tbl_wf (by_unit r)" "distinct (run_queue r)"
    and "\<And>i. i \<in> set (run_queue r) \<Longrightarrow> \<exists>j. tbl_get (jobs r) i = Some j"
    and "\<And>u i. tbl_get (by_unit r) u = Some i \<Longrightarrow> \<exists>j. tbl_get (jobs r) i = Some j \<and> job_unit j = u"
    and "\<And>i j. tbl_get (jobs r) i = Some j \<Longrightarrow>
           job_id j = i \<and> job_result j = None \<and> tbl_get (by_unit r) (job_unit j) = Some i"
  shows "registry_inv r"
  using assms by (auto simp: registry_inv_iff)

lemma registry_inv_install:
  assumes "registry_inv r" "tbl_get (jobs r) (next_id r) = None" "tbl_get (by_unit r) u = None"
  shows "registry_inv (fst (install_job u k src r))"
proof -
  have 1: "tbl_get (by_unit r) v = Some i \<Longrightarrow> i \<noteq> next_id r" for v i
    using registry_inv_index [OF assms(1)] assms(2) by fastforce
  have 2: "tbl_get (jobs r) i = Some j \<Longrightarrow> job_unit j \<noteq> u" for i j
    using registry_inv_job [OF assms(1)] assms(3) by fastforce
  show ?thesis
    unfolding install_job_def Let_def fst_conv
    by (rule registry_invI)
       (use assms in \<open>auto simp: 1 2 registry_inv_index registry_inv_job registry_inv_wf
         split: if_splits\<close>)
qed

lemma next_id_Suc:
  fixes x :: job_id
  assumes "x + 1 \<noteq> 0"
  shows "x < x + 1" "max (x + 1) 1 = x + 1"
  using assms unatSuc [of x] by (auto simp: word_less_nat_alt max_def word_le_nat_alt add.commute unat_eq_zero)

lemma ids_below_install:
  assumes "ids_below r" "next_id r + 1 \<noteq> 0"
  shows "ids_below (fst (install_job u k src r))"
    "next_id (fst (install_job u k src r)) = next_id r + 1"
proof -
  show 2: "next_id (fst (install_job u k src r)) = next_id r + 1"
    by (simp add: install_job_def Let_def next_id_Suc [OF assms(2)])
  show "ids_below (fst (install_job u k src r))"
    unfolding ids_below_iff 2
    using assms(1) next_id_Suc(1) [OF assms(2)] unfolding ids_below_iff
    by (auto simp: install_job_def Let_def intro: less_trans)
qed

lemma registry_inv_finish:
  assumes "registry_inv r" shows "registry_inv (fst (finish i res r))"
proof (cases "tbl_get (jobs r) i")
  case None
  with assms show ?thesis by (simp add: finish_def)
next
  case (Some j)
  then have "tbl_get (by_unit r) (job_unit j) = Some i" using assms by (simp add: registry_inv_iff)
  then have eq: "fst (finish i res r) =
      r\<lparr>jobs := tbl_remove i (jobs r), by_unit := tbl_remove (job_unit j) (by_unit r),
        run_queue := filter (\<lambda>q. q \<noteq> i) (run_queue r)\<rparr>"
    by (simp add: finish_def Some Let_def)
  have inj: "u = job_unit j" if "tbl_get (by_unit r) u = Some i" for u
    using registry_inv_index [OF assms that] Some by auto
  have inj': "k = i" if "tbl_get (jobs r) k = Some j'" "job_unit j' = job_unit j" for k j'
    using registry_inv_job [OF assms that(1)] registry_inv_job [OF assms Some] that(2) by simp
  have 1: "tbl_get (by_unit r) u = Some k \<Longrightarrow> u \<noteq> job_unit j \<Longrightarrow> k \<noteq> i" for u k
    using inj by auto
  have 2: "tbl_get (jobs r) k = Some j' \<Longrightarrow> k \<noteq> i \<Longrightarrow> job_unit j' \<noteq> job_unit j" for k j'
    using inj' by auto
  show ?thesis
    unfolding eq
    by (rule registry_invI)
       (use assms in \<open>simp_all add: 1 2 registry_inv_index registry_inv_job registry_inv_wf
         split: if_splits\<close>)
qed

lemma ids_below_finish: "ids_below r \<Longrightarrow> ids_below (fst (finish i res r))"
  unfolding ids_below_iff finish_def Let_def
  by (auto split: option.splits)

lemma finish_next_id [simp]: "next_id (fst (finish i res r)) = next_id r"
  by (auto simp: finish_def Let_def split: option.splits)

lemma finish_gone: "tbl_get (jobs (fst (finish i res r))) i = None"
  by (auto simp: finish_def Let_def split: option.splits)

lemma finish_jobs_other: "k \<noteq> i \<Longrightarrow> tbl_get (jobs (fst (finish i res r))) k = tbl_get (jobs r) k"
  by (auto simp: finish_def Let_def split: option.splits)

lemma finish_frees_unit:
  assumes "registry_inv r" "tbl_get (by_unit r) u = Some i"
  shows "tbl_get (by_unit (fst (finish i res r))) u = None"
proof -
  obtain j where "tbl_get (jobs r) i = Some j" "job_unit j = u"
    using registry_inv_index [OF assms] by blast
  with assms(2) show ?thesis by (simp add: finish_def Let_def)
qed

text \<open>Creation: what it does on each branch, under the invariant.\<close>

lemma create_cases:
  assumes inv: "registry_inv r"
  obtains
    (fresh) "tbl_get (by_unit r) u = None"
      "create u k src mode r = Returns (let (r', es, i) = install_job u k src r in (r', es, Inr i))"
  | (merge) i j m where "tbl_get (by_unit r) u = Some i" "tbl_get (jobs r) i = Some j" "job_unit j = u"
      "merge_kinds (job_kind j) k = Some m"
      "create u k src mode r =
         Returns (if m \<noteq> job_kind j then update_job i (job_kind_update (\<lambda>_. m)) r else r, [], Inr i)"
  | (destructive) i j e where "tbl_get (by_unit r) u = Some i" "tbl_get (jobs r) i = Some j" "job_unit j = u"
      "merge_kinds (job_kind j) k = None" "mode = Fail" "create u k src mode r = Returns (r, [], Inl e)"
  | (replace) i j where "tbl_get (by_unit r) u = Some i" "tbl_get (jobs r) i = Some j" "job_unit j = u"
      "merge_kinds (job_kind j) k = None" "mode = Replace"
      "create u k src mode r =
         Returns (let (r2, es2, n) = install_job u k src (fst (finish i Canceled r))
                  in (r2, fst (snd (finish i Canceled r)) @ es2, Inr n))"
proof (cases "tbl_get (by_unit r) u")
  case None
  then show ?thesis by (intro fresh) (auto simp: create_def Let_def split: prod.split)
next
  case (Some i)
  then obtain j where j: "tbl_get (jobs r) i = Some j" "job_unit j = u"
    using registry_inv_index [OF inv] by blast
  show ?thesis
  proof (cases "merge_kinds (job_kind j) k")
    case (Some m)
    show ?thesis
      by (rule merge [OF \<open>tbl_get (by_unit r) u = Some i\<close> j Some])
         (simp add: create_def \<open>tbl_get (by_unit r) u = Some i\<close> j Some update_job_def)
  next
    case None
    show ?thesis
    proof (cases mode)
      case Replace
      then show ?thesis
        using Some j None
        by (intro replace) (auto simp: create_def Let_def split: prod.split)
    next
      case Fail
      then show ?thesis
        using Some j None by (intro destructive) (auto simp: create_def)
    qed
  qed
qed

lemma registry_inv_create:
  assumes inv: "registry_inv r" and ids: "ids_below r" and room: "next_id r + 1 \<noteq> 0"
  obtains r' es res where "create u k src mode r = Returns (r', es, res)" "registry_inv r'" "ids_below r'"
    "next_id r' = next_id r \<or> next_id r' = next_id r + 1"
proof -
  have fresh_id: "tbl_get (jobs r) (next_id r) = None"
    using ids unfolding ids_below_iff by fastforce
  show ?thesis
    using inv
  proof (cases rule: create_cases [of r u k src mode])
    case fresh
    obtain r' es i where eq: "install_job u k src r = (r', es, i)" by (cases "install_job u k src r") auto
    show ?thesis
      using fresh registry_inv_install [OF inv fresh_id fresh(1), of k src]
        ids_below_install [OF ids room, of u k src]
      by (intro that [of r' es "Inr i"]) (simp_all add: eq)
  next
    case (merge i j m)
    then show ?thesis
      using inv ids
      by (intro that [of "if m \<noteq> job_kind j then update_job i (job_kind_update (\<lambda>_. m)) r else r" "[]" "Inr i"])
         (auto intro!: registry_inv_update)
  next
    case destructive
    then show ?thesis using inv ids by (intro that) auto
  next
    case (replace i j)
    let ?r1 = "fst (finish i Canceled r)"
    obtain r' es n where eq: "install_job u k src ?r1 = (r', es, n)" by (cases "install_job u k src ?r1") auto
    have "tbl_get (jobs ?r1) (next_id ?r1) = None"
      using fresh_id finish_jobs_other [of "next_id r" i] finish_gone [of i] by (cases "next_id r = i") auto
    then have "registry_inv r'" "ids_below r'" "next_id r' = next_id r + 1"
      using registry_inv_install [OF registry_inv_finish [OF inv] _ finish_frees_unit [OF inv replace(1)], of Canceled k src]
        ids_below_install [OF ids_below_finish [OF ids], of i Canceled u k src] room
      by (simp_all add: eq)
    then show ?thesis
      using replace by (intro that) (auto simp: eq)
  qed
qed

lemma registry_inv_pop_ready_loop:
  "registry_inv r \<Longrightarrow> distinct q \<Longrightarrow> set q \<subseteq> set (tbl_keys (jobs r)) \<Longrightarrow> registry_inv (fst (pop_ready_loop q r))"
  by (induction q r rule: pop_ready_loop.induct)
     (auto simp: update_job_folds intro!: registry_inv_update registry_inv_set_queue)

lemma pop_ready_loop_frame [simp]:
  "by_unit (fst (pop_ready_loop q r)) = by_unit r" "next_id (fst (pop_ready_loop q r)) = next_id r"
  "tbl_keys (jobs (fst (pop_ready_loop q r))) = tbl_keys (jobs r)"
  by (induction q r rule: pop_ready_loop.induct) (simp_all add: update_job_folds)

lemma requeue_loop_frame:
  "registry_inv r \<Longrightarrow> registry_inv (fst (requeue_loop f ns r w))"
  "jobs (fst (requeue_loop f ns r w)) = jobs r" "by_unit (fst (requeue_loop f ns r w)) = by_unit r"
  "next_id (fst (requeue_loop f ns r w)) = next_id r"
  by (induction f ns r w rule: requeue_loop.induct)
     (auto simp: Let_def registry_inv_enqueue split: option.split)

lemma enqueue_ready_loop_frame:
  "registry_inv r \<Longrightarrow> registry_inv (fst (enqueue_ready_loop f cs r w))"
  "jobs (fst (enqueue_ready_loop f cs r w)) = jobs r"
  "by_unit (fst (enqueue_ready_loop f cs r w)) = by_unit r"
  "next_id (fst (enqueue_ready_loop f cs r w)) = next_id r"
  by (induction f cs r w rule: enqueue_ready_loop.induct) (auto simp: registry_inv_enqueue)

lemma pop_expired_fold:
  "r\<lparr>jobs := fold (\<lambda>i. tbl_modify i f) is (jobs r)\<rparr> = fold (\<lambda>i. update_job i f) is r"
proof (induction "is" arbitrary: r)
  case (Cons i "is")
  show ?case
    using Cons [of "update_job i f r"] by (simp add: update_job_def)
qed simp

lemma registry_inv_fold_update:
  "keeps_identity f \<Longrightarrow> registry_inv r \<Longrightarrow> registry_inv (fold (\<lambda>i. update_job i f) is r)"
  by (induction "is" arbitrary: r) (simp_all add: registry_inv_update)

lemma fold_update_frame [simp]:
  "next_id (fold (\<lambda>i. update_job i f) is r) = next_id r"
  "tbl_keys (jobs (fold (\<lambda>i. update_job i f) is r)) = tbl_keys (jobs r)"
  by (induction "is" arbitrary: r) simp_all

lemma ids_below_frame:
  "next_id r' = next_id r \<Longrightarrow> tbl_keys (jobs r') = tbl_keys (jobs r) \<Longrightarrow> ids_below r' = ids_below r"
  by (simp add: ids_below_def)

section \<open>Histories\<close>

text \<open>The calls the manager makes on the registry, as steps of a history.\<close>

datatype registry_op =
  Op_create unit_id job_kind activation_source job_mode
  | Op_set_running job_id
  | Op_set_waiting job_id
  | Op_add_waiter job_id nat
  | Op_enqueue job_id
  | Op_pop_ready
  | Op_finish job_id job_result
  | Op_requeue_after_finish unit_id "unit_id \<Rightarrow> unit_id list" "unit_id \<Rightarrow> bool"
  | Op_enqueue_ready "unit_id \<Rightarrow> bool"
  | Op_set_deadline job_id nat
  | Op_pop_expired nat

fun run_op :: "registry_op \<Rightarrow> registry \<Rightarrow> registry outcome" where
  "run_op (Op_create u k src mode) r =
     (case create u k src mode r of Panics \<Rightarrow> Panics | Returns (r', _) \<Rightarrow> Returns r')"
| "run_op (Op_set_running i) r = Returns (set_running i r)"
| "run_op (Op_set_waiting i) r = Returns (set_waiting i r)"
| "run_op (Op_add_waiter i w) r = Returns (add_waiter i w r)"
| "run_op (Op_enqueue i) r = Returns (enqueue i r)"
| "run_op Op_pop_ready r = Returns (fst (pop_ready r))"
| "run_op (Op_finish i res) r = Returns (fst (finish i res r))"
| "run_op (Op_requeue_after_finish u ordered ready) r = Returns (fst (requeue_after_finish u ordered ready r))"
| "run_op (Op_enqueue_ready ready) r = Returns (fst (enqueue_ready ready r))"
| "run_op (Op_set_deadline i d) r = Returns (set_deadline i d r)"
| "run_op (Op_pop_expired now) r = Returns (fst (pop_expired now r))"

fun run_ops :: "registry_op list \<Rightarrow> registry \<Rightarrow> registry outcome" where
  "run_ops [] r = Returns r"
| "run_ops (op # ops) r = (case run_op op r of Panics \<Rightarrow> Panics | Returns r' \<Rightarrow> run_ops ops r')"

definition step_ok :: "registry \<Rightarrow> registry \<Rightarrow> bool" where
  "step_ok r r' \<longleftrightarrow>
     registry_inv r' \<and> ids_below r' \<and> (next_id r' = next_id r \<or> next_id r' = next_id r + 1)"

lemma step_okI:
  "registry_inv r' \<Longrightarrow> next_id r' = next_id r \<Longrightarrow> tbl_keys (jobs r') = tbl_keys (jobs r)
     \<Longrightarrow> ids_below r \<Longrightarrow> step_ok r r'"
  by (simp add: step_ok_def ids_below_frame [of r' r])

lemma step_ok_update:
  "registry_inv r \<Longrightarrow> ids_below r \<Longrightarrow> keeps_identity f \<Longrightarrow> step_ok r (update_job i f r)"
  by (simp add: step_ok_def registry_inv_update)

lemma step_ok_pop_ready: "registry_inv r \<Longrightarrow> ids_below r \<Longrightarrow> step_ok r (fst (pop_ready r))"
  unfolding pop_ready_def
  by (rule step_okI) (auto intro!: registry_inv_pop_ready_loop simp: registry_inv_wf tbl_keys_get)

lemma step_ok_finish: "registry_inv r \<Longrightarrow> ids_below r \<Longrightarrow> step_ok r (fst (finish i res r))"
  by (simp add: step_ok_def registry_inv_finish ids_below_finish)

lemma step_ok_enqueue: "registry_inv r \<Longrightarrow> ids_below r \<Longrightarrow> step_ok r (enqueue i r)"
  by (simp add: step_ok_def registry_inv_enqueue)

lemma step_ok_requeue:
  "registry_inv r \<Longrightarrow> ids_below r \<Longrightarrow> step_ok r (fst (requeue_after_finish u ordered ready r))"
  unfolding requeue_after_finish_def by (rule step_okI) (simp_all add: requeue_loop_frame)

lemma step_ok_enqueue_ready:
  "registry_inv r \<Longrightarrow> ids_below r \<Longrightarrow> step_ok r (fst (enqueue_ready ready r))"
  unfolding enqueue_ready_def by (rule step_okI) (simp_all add: enqueue_ready_loop_frame)

lemma step_ok_pop_expired: "registry_inv r \<Longrightarrow> ids_below r \<Longrightarrow> step_ok r (fst (pop_expired now r))"
  unfolding pop_expired_def Let_def fst_conv pop_expired_fold
  by (rule step_okI) (simp_all add: registry_inv_fold_update)

lemmas step_ok_intros =
  step_ok_update step_ok_pop_ready step_ok_finish step_ok_enqueue step_ok_requeue
  step_ok_enqueue_ready step_ok_pop_expired

lemma run_op_safe:
  assumes "registry_inv r" "ids_below r" "next_id r + 1 \<noteq> 0"
  shows "\<exists>r'. run_op op r = Returns r' \<and> step_ok r r'"
proof (cases op)
  case (Op_create u k src mode)
  obtain r' es res where "create u k src mode r = Returns (r', es, res)" "step_ok r r'"
    using registry_inv_create [OF assms, of u k src mode] unfolding step_ok_def by metis
  then show ?thesis by (simp add: Op_create)
qed (simp_all add: update_job_folds step_ok_intros assms)

lemma run_ops_safe:
  assumes "registry_inv r" "ids_below r" "unat (next_id r) + List.length ops < 2 ^ 32"
  shows "\<exists>r'. run_ops ops r = Returns r' \<and> registry_inv r' \<and> ids_below r'"
  using assms
proof (induction ops arbitrary: r)
  case (Cons op ops)
  have room: "next_id r + 1 \<noteq> 0"
  proof
    assume "next_id r + 1 = 0"
    then have "next_id r = - 1" by (simp add: eq_neg_iff_add_eq_0)
    with Cons.prems(3) show False by (simp add: unsigned_minus_1_eq_mask mask_eq_exp_minus_1)
  qed
  obtain r' where r': "run_op op r = Returns r'" "step_ok r r'"
    using run_op_safe [OF Cons.prems(1,2) room] by blast
  have "unat (next_id r + 1) = unat (next_id r) + 1"
    using room unatSuc [of "next_id r"] by (simp add: add.commute)
  then have "unat (next_id r') + List.length ops < 2 ^ 32"
    using r'(2) Cons.prems(3) by (auto simp: step_ok_def)
  with Cons.IH [of r'] r' show ?case by (simp add: step_ok_def)
qed simp

text \<open>
  C3: Every history of registry calls from an empty registry, up to \<open>2 ^ 32 - 2\<close> calls long,
  runs without a panic (the indexing \<open>self.jobs[&existing_id]\<close> in \<open>create\<close> never misses) and
  ends in a registry whose two maps agree, whose run queue holds installed jobs only and each
  once, and whose ids all lie below the next id, so that no id is ever reused.
\<close>

theorem registry_history_safe:
  assumes "List.length ops < 2 ^ 32 - 1"
  shows "\<exists>r. run_ops ops new_registry = Returns r \<and> registry_inv r \<and> ids_below r"
  using assms by (intro run_ops_safe) (simp_all add: registry_inv_new, simp add: new_registry_def)

theorem registry_history_safe_witness:
  "\<exists>r. run_ops [Op_create (UnitId Kind_Service ''a.service'') Start Regular Replace, Op_enqueue 1,
                 Op_create (UnitId Kind_Service ''a.service'') Stop Regular Replace, Op_pop_ready] new_registry
        = Returns r \<and> registry_inv r \<and> ids_below r"
  by (rule registry_history_safe) simp

text \<open>
  The bound is needed: ids wrap around.  When the counter is back at the id of a job that is
  still installed, the new job takes its place, and the index entry of the old job's unit then
  leads to the other unit's job.
\<close>

definition wrapped_registry :: registry where
  "wrapped_registry = fst (install_job (UnitId Kind_Service ''a.service'') Start Regular new_registry)
     \<lparr>next_id := 1\<rparr>"

lemma id_wrap_collides:
  "registry_inv wrapped_registry
   \<and> (case create (UnitId Kind_Service ''b.service'') Start Regular Replace wrapped_registry of
        Returns (r, _, _) \<Rightarrow>
          \<not> registry_inv r
          \<and> map_option job_unit (job_for_unit r (UnitId Kind_Service ''a.service''))
            = Some (UnitId Kind_Service ''b.service'')
      | Panics \<Rightarrow> False)"
  by code_simp

section \<open>What each operation does\<close>

lemma job_for_unit_Some:
  "registry_inv r \<Longrightarrow> job_for_unit r u = Some j \<Longrightarrow>
     tbl_get (jobs r) (job_id j) = Some j \<and> job_unit j = u \<and> tbl_get (by_unit r) u = Some (job_id j)"
  using registry_inv_index [of r u] registry_inv_job [of r]
  by (fastforce simp: job_for_unit_def split: option.splits)

lemma job_for_unit_None:
  "registry_inv r \<Longrightarrow> job_for_unit r u = None \<longleftrightarrow> tbl_get (by_unit r) u = None"
  using registry_inv_index [of r u] by (fastforce simp: job_for_unit_def split: option.splits)

lemma job_for_unit_finish_other:
  assumes "registry_inv r" "tbl_get (jobs r) i = Some j" "v \<noteq> job_unit j"
  shows "job_for_unit (fst (finish i res r)) v = job_for_unit r v"
proof -
  have "tbl_get (by_unit r) v \<noteq> Some i"
    using registry_inv_index [OF assms(1), of v i] assms(2,3) by auto
  with assms show ?thesis
    by (auto simp: job_for_unit_def finish_def Let_def split: option.splits)
qed

lemma job_for_unit_install:
  "job_for_unit (fst (install_job u k src r)) u =
     Some \<lparr>job_id = next_id r, job_unit = u, job_kind = k, job_state = Job_Waiting, job_result = None,
           job_deadline = None, job_source = src, job_waiters = []\<rparr>"
  by (simp add: job_for_unit_def install_job_def Let_def)

lemma job_for_unit_install_other:
  assumes "registry_inv r" "tbl_get (jobs r) (next_id r) = None" "v \<noteq> u"
  shows "job_for_unit (fst (install_job u k src r)) v = job_for_unit r v"
  using assms registry_inv_index [OF assms(1), of v]
  by (auto simp: job_for_unit_def install_job_def Let_def split: option.splits)

lemma finish_unit_gone:
  assumes "registry_inv r" "tbl_get (jobs r) i = Some j"
  shows "job_for_unit (fst (finish i res r)) (job_unit j) = None"
  using finish_frees_unit [OF assms(1), of "job_unit j" i res] registry_inv_job [OF assms]
  by (simp add: job_for_unit_def)

text \<open>The job \<open>create\<close> leaves installed for the unit, and what the caller gets, on every branch.\<close>

definition create_ok ::
  "unit_id \<Rightarrow> job_kind \<Rightarrow> activation_source \<Rightarrow> job_mode \<Rightarrow> registry \<Rightarrow> registry \<Rightarrow> effect list
     \<Rightarrow> (string + job_id) \<Rightarrow> bool" where
  "create_ok u k src mode r r' es res \<longleftrightarrow>
     (let fresh = \<lparr>job_id = next_id r, job_unit = u, job_kind = k, job_state = Job_Waiting,
                   job_result = None, job_deadline = None, job_source = src, job_waiters = []\<rparr>
      in case job_for_unit r u of
           None \<Rightarrow> res = Inr (next_id r) \<and> job_for_unit r' u = Some fresh \<and> es = [JobCreated fresh]
         | Some j \<Rightarrow>
             (case merge_kinds (job_kind j) k of
                Some m \<Rightarrow> res = Inr (job_id j) \<and> job_for_unit r' u = Some (j\<lparr>job_kind := m\<rparr>) \<and> es = []
              | None \<Rightarrow>
                  if mode = Fail then (\<exists>e. res = Inl e) \<and> r' = r \<and> es = []
                  else res = Inr (next_id r) \<and> job_for_unit r' u = Some fresh
                    \<and> get_job r' (job_id j) = None
                    \<and> es = map (\<lambda>w. SendResult w Canceled) (job_waiters j)
                           @ [JobRemoved (j\<lparr>job_result := Some Canceled\<rparr>), JobCreated fresh]))"

lemma job_kind_same: "job_kind_update (\<lambda>_. job_kind j) j = j"
  by (cases j) simp

lemma job_for_unit_update_other:
  assumes "registry_inv r" "tbl_get (jobs r) i = Some j" "v \<noteq> job_unit j"
  shows "job_for_unit (update_job i f r) v = job_for_unit r v"
  using registry_inv_index [OF assms(1), of v i] assms(2,3)
  by (auto simp: job_for_unit_def split: option.splits)

text \<open>
  C4: A request for a unit never panics and touches that unit's job alone.  With no installed
  job it installs a waiting one under the next id; a request that merges gives back the
  installed job's id and changes its kind to the merged one; one that does not merge fails in
  \<open>Fail\<close> mode without an effect, and in \<open>Replace\<close> mode cancels the installed job, tells each of
  its waiters so, and installs the new one.  The job of every other unit stays as it is.
\<close>

theorem create_one_job_per_unit:
  assumes inv: "registry_inv r" and ids: "ids_below r" and room: "next_id r + 1 \<noteq> 0"
  shows "\<exists>r' es res. create u k src mode r = Returns (r', es, res)
           \<and> registry_inv r' \<and> create_ok u k src mode r r' es res
           \<and> (job_for_unit r')(u := None) = (job_for_unit r)(u := None)"
proof -
  have fresh_id: "tbl_get (jobs r) (next_id r) = None"
    using ids unfolding ids_below_iff by fastforce
  obtain r' es res where c: "create u k src mode r = Returns (r', es, res)" "registry_inv r'"
    using registry_inv_create [OF inv ids room] by metis
  have "create_ok u k src mode r r' es res \<and> (job_for_unit r')(u := None) = (job_for_unit r)(u := None)"
    using inv
  proof (cases rule: create_cases [of r u k src mode])
    case fresh
    have "job_for_unit r u = None" using fresh inv by (simp add: job_for_unit_None)
    moreover have "r' = fst (install_job u k src r)" "res = Inr (next_id r)"
      using fresh(2) c(1) by (auto simp: install_job_def Let_def)
    moreover have "es = [JobCreated (the (job_for_unit r' u))]"
      using fresh(2) c(1) by (auto simp: install_job_def Let_def job_for_unit_def)
    ultimately show ?thesis
      using job_for_unit_install_other [OF inv fresh_id]
      by (auto simp: create_ok_def job_for_unit_install fun_eq_iff)
  next
    case (merge i j m)
    have r': "r' = (if m \<noteq> job_kind j then update_job i (job_kind_update (\<lambda>_. m)) r else r)" "es = []" "res = Inr i"
      using merge c(1) by auto
    have j: "job_for_unit r u = Some j" "job_id j = i"
      using merge registry_inv_job [OF inv merge(2)] by (auto simp: job_for_unit_def)
    have "job_for_unit r' u = Some (j\<lparr>job_kind := m\<rparr>)"
      using merge j r' by (auto simp: job_for_unit_def job_kind_same)
    then show ?thesis
      using merge j r' job_for_unit_update_other [OF inv merge(2)]
      by (auto simp: create_ok_def fun_eq_iff)
  next
    case (destructive i j e)
    then show ?thesis
      using c by (auto simp: create_ok_def job_for_unit_def)
  next
    case (replace i j)
    let ?r1 = "fst (finish i Canceled r)"
    have r': "r' = fst (install_job u k src ?r1)" "res = Inr (next_id r)"
      using replace(6) c(1) by (auto simp: install_job_def Let_def)
    have es: "es = fst (snd (finish i Canceled r)) @ [JobCreated (the (job_for_unit r' u))]"
      using replace(6) c(1) by (auto simp: install_job_def Let_def job_for_unit_def)
    have j: "job_for_unit r u = Some j" "job_id j = i"
      using replace registry_inv_job [OF inv replace(2)] by (auto simp: job_for_unit_def)
    have free: "tbl_get (jobs ?r1) (next_id ?r1) = None"
      using fresh_id finish_jobs_other [of "next_id r" i] finish_gone [of i] by (cases "next_id r = i") auto
    have "i \<noteq> next_id r" using fresh_id replace(2) by auto
    then have "get_job r' i = None"
      using finish_gone [of i Canceled r] by (auto simp: r' get_job_def install_job_def Let_def)
    moreover have "job_for_unit r' v = job_for_unit r v" if "v \<noteq> u" for v
      using job_for_unit_install_other [OF registry_inv_finish [OF inv] free that]
        job_for_unit_finish_other [OF inv replace(2)] that replace(3) by (simp add: r')
    moreover have "job_for_unit r' u = Some \<lparr>job_id = next_id r, job_unit = u, job_kind = k,
        job_state = Job_Waiting, job_result = None, job_deadline = None, job_source = src, job_waiters = []\<rparr>"
      by (simp add: r' job_for_unit_install)
    ultimately show ?thesis
      using replace j es r'(2)
      by (auto simp: create_ok_def fun_eq_iff finish_def Let_def)
  qed
  with c show ?thesis by blast
qed

text \<open>The registry with one waiting job.\<close>

abbreviation one_job :: registry where
  "one_job \<equiv> fst (install_job (UnitId Kind_Service ''a.service'') Start Regular new_registry)"

lemma one_job_inv: "registry_inv one_job" "ids_below one_job" "next_id one_job + 1 \<noteq> 0"
  by code_simp+

theorem create_one_job_per_unit_witness:
  "\<exists>r' es res. create (UnitId Kind_Service ''a.service'') Stop Regular Replace one_job = Returns (r', es, res)
     \<and> registry_inv r' \<and> create_ok (UnitId Kind_Service ''a.service'') Stop Regular Replace one_job r' es res
     \<and> (job_for_unit r')(UnitId Kind_Service ''a.service'' := None)
       = (job_for_unit one_job)(UnitId Kind_Service ''a.service'' := None)"
  by (rule create_one_job_per_unit [OF one_job_inv])

lemma finish_effects:
  "tbl_get (jobs r) i = Some j \<Longrightarrow>
     fst (snd (finish i res r)) =
       map (\<lambda>w. SendResult w res) (job_waiters j) @ [JobRemoved (j\<lparr>job_result := Some res\<rparr>)]"
  by (simp add: finish_def Let_def)

lemma finish_again: "finish i res' (fst (finish i res r)) = (fst (finish i res r), [], None)"
  unfolding finish_def [of i res'] by (simp add: finish_gone)

text \<open>
  C5: A handle never leaks its job.  In every well-formed registry the holder of a handle
  that is not finished yet finishes it (and then drops it, as the destructor does) or just drops it.  If the job is still
  installed, then no job with its id is installed or queued afterwards, the unit of the job is free
  again, and the waiters of the job were sent exactly one result: the given one if it was finished,
  and \<open>Failed\<close> if it was dropped.  If the job is gone already, as one that was replaced, the registry
  stays as it is and nobody is told anything a second time.
\<close>

theorem job_handle_never_leaks:
  assumes "registry_inv r" "\<not> handle_finished h"
  shows "case get_job r (handle_id h) of
      Some j \<Rightarrow>
        (let (r1, es1, h1) = handle_finish h result r; (r2, es2) = handle_drop h1 r1 in
            registry_inv r2 \<and> get_job r2 (handle_id h) = None \<and> handle_id h \<notin> set (run_queue r2)
            \<and> job_for_unit r2 (job_unit j) = None
            \<and> es1 @ es2 = map (\<lambda>w. SendResult w result) (job_waiters j)
                          @ [JobRemoved (j\<lparr>job_result := Some result\<rparr>)])
        \<and> (let (r2, es2) = handle_drop h r in
            registry_inv r2 \<and> get_job r2 (handle_id h) = None \<and> handle_id h \<notin> set (run_queue r2)
            \<and> job_for_unit r2 (job_unit j) = None
            \<and> es2 = map (\<lambda>w. SendResult w Failed) (job_waiters j)
                     @ [JobRemoved (j\<lparr>job_result := Some Failed\<rparr>)])
    | None \<Rightarrow>
        (let (r1, es1, h1) = handle_finish h result r; (r2, es2) = handle_drop h1 r1 in r2 = r \<and> es1 @ es2 = [])
        \<and> handle_drop h r = (r, [])"
proof (cases "get_job r (handle_id h)")
  case None
  then show ?thesis by (simp add: handle_finish_def handle_drop_def case_prod_beta Let_def get_job_def finish_def)
next
  case (Some j)
  let ?i = "handle_id h"
  have j: "tbl_get (jobs r) ?i = Some j" using Some by (simp add: get_job_def)
  have gone: "registry_inv (fst (finish ?i res r)) \<and> get_job (fst (finish ?i res r)) ?i = None
      \<and> ?i \<notin> set (run_queue (fst (finish ?i res r)))
      \<and> job_for_unit (fst (finish ?i res r)) (job_unit j) = None" for res
    using registry_inv_finish [OF assms(1)] finish_unit_gone [OF assms(1) j] j
    by (simp add: get_job_def finish_gone) (simp add: finish_def Let_def)
  show ?thesis
    using gone [of result] gone [of Failed] finish_effects [OF j, of result] finish_effects [OF j, of Failed]
      assms(2)
    by (simp add: handle_finish_def handle_drop_def case_prod_beta Let_def Some)
qed

theorem job_handle_never_leaks_witness:
  "(case handle_create (UnitId Kind_Service ''a.service'') Stop Replace new_registry of
      Returns (r, _, Inr h) \<Rightarrow>
        (let (r2, es2) = handle_drop h r in
           get_job r2 (handle_id h) = None \<and> registry_inv r2)
    | _ \<Rightarrow> False)"
proof -
  let ?u = "UnitId Kind_Service ''a.service''"
  let ?r = "set_running 1 (fst (install_job ?u Stop Regular new_registry))"
  let ?h = "\<lparr>handle_id = 1, handle_finished = False\<rparr>"
  have c: "handle_create ?u Stop Replace new_registry =
      Returns (?r, [JobCreated (the (job_for_unit (fst (install_job ?u Stop Regular new_registry)) ?u))], Inr ?h)"
    by code_simp
  have inv: "registry_inv ?r" "\<not> handle_finished ?h" and job: "get_job ?r (handle_id ?h) = Some (the (get_job ?r 1))"
    by code_simp+
  from job_handle_never_leaks [OF inv, of Done] show ?thesis unfolding job
    by (simp add: c case_prod_beta Let_def)
qed

section \<open>Waking waiting jobs\<close>

lemma requeue_loop_spec:
  assumes "distinct w" "set w \<subseteq> set (run_queue r)"
  shows "\<exists>new. run_queue (fst (requeue_loop f ns r w)) = run_queue r @ new
           \<and> snd (requeue_loop f ns r w) = w @ new \<and> distinct new
           \<and> set new = {i. \<exists>n. n \<in> set ns \<and> tbl_get (by_unit r) n = Some i \<and> is_waiting r i \<and> f n
                             \<and> i \<notin> set (run_queue r)}"
  using assms
proof (induction f ns r w rule: requeue_loop.induct)
  case (2 f n ns r w)
  show ?case
  proof (cases "\<exists>i. tbl_get (by_unit r) n = Some i \<and> is_waiting r i \<and> f n \<and> i \<notin> set (run_queue r)")
    case False
    then have "requeue_loop f (n # ns) r w = requeue_loop f ns r w"
      by (auto simp: enqueue_def Let_def split: option.splits)
    moreover have "\<exists>new. run_queue (fst (requeue_loop f ns r w)) = run_queue r @ new
           \<and> snd (requeue_loop f ns r w) = w @ new \<and> distinct new
           \<and> set new = {i. \<exists>n. n \<in> set ns \<and> tbl_get (by_unit r) n = Some i \<and> is_waiting r i \<and> f n
                             \<and> i \<notin> set (run_queue r)}"
    proof (cases "tbl_get (by_unit r) n")
      case None
      with 2 show ?thesis by simp
    next
      case (Some i)
      show ?thesis
      proof (cases "is_waiting r i \<and> f n")
        case True
        with False Some have q: "i \<in> set (run_queue r)" by auto
        then have "enqueue i r = r" by (simp add: enqueue_def)
        with 2(2) [OF Some True refl] 2(4,5) q show ?thesis by simp
      next
        case nw: False
        with 2 Some show ?thesis by simp
      qed
    qed
    moreover have "{i. \<exists>m. m \<in> set (n # ns) \<and> tbl_get (by_unit r) m = Some i \<and> is_waiting r i \<and> f m
                     \<and> i \<notin> set (run_queue r)}
        = {i. \<exists>m. m \<in> set ns \<and> tbl_get (by_unit r) m = Some i \<and> is_waiting r i \<and> f m
                     \<and> i \<notin> set (run_queue r)}"
      using False by auto
    ultimately show ?thesis by (simp only:)
  next
    case True
    then obtain i where i: "tbl_get (by_unit r) n = Some i" "is_waiting r i" "f n" "i \<notin> set (run_queue r)"
      by blast
    let ?r = "r\<lparr>run_queue := run_queue r @ [i]\<rparr>"
    have eq: "requeue_loop f (n # ns) r w = requeue_loop f ns ?r (w @ [i])"
      using i 2(5) by (auto simp: enqueue_def Let_def)
    have nw: "i \<notin> set w" using i 2(5) by auto
    have "enqueue i r = ?r" using i by (simp add: enqueue_def)
    then have "\<exists>new. run_queue (fst (requeue_loop f ns ?r (w @ [i]))) = run_queue ?r @ new
           \<and> snd (requeue_loop f ns ?r (w @ [i])) = (w @ [i]) @ new \<and> distinct new
           \<and> set new = {k. \<exists>n. n \<in> set ns \<and> tbl_get (by_unit ?r) n = Some k \<and> is_waiting ?r k \<and> f n
                             \<and> k \<notin> set (run_queue ?r)}"
      using 2(2) [OF i(1) _ refl] i 2(4,5) nw by auto
    then obtain new where new: "run_queue (fst (requeue_loop f ns ?r (w @ [i]))) = run_queue r @ i # new"
        "snd (requeue_loop f ns ?r (w @ [i])) = w @ i # new" "distinct new"
        "set new = {k. \<exists>n. n \<in> set ns \<and> tbl_get (by_unit r) n = Some k \<and> is_waiting r k \<and> f n
                             \<and> k \<noteq> i \<and> k \<notin> set (run_queue r)}"
      by auto
    show ?thesis
      unfolding eq using new i by (intro exI [of _ "i # new"]) auto
  qed
qed simp

lemma requeue_after_finish_wakes_exactly_aux:
  "\<exists>woken. requeue_after_finish u ordered ready r = (r\<lparr>run_queue := run_queue r @ woken\<rparr>, woken)
     \<and> distinct woken
     \<and> set woken = {i. \<exists>n. n \<in> set (ordered u) \<and> tbl_get (by_unit r) n = Some i \<and> is_waiting r i
                          \<and> ready n \<and> i \<notin> set (run_queue r)}"
proof -
  obtain new where new: "run_queue (fst (requeue_loop ready (ordered u) r [])) = run_queue r @ new"
      "snd (requeue_loop ready (ordered u) r []) = new" "distinct new"
      "set new = {i. \<exists>n. n \<in> set (ordered u) \<and> tbl_get (by_unit r) n = Some i \<and> is_waiting r i \<and> ready n
                             \<and> i \<notin> set (run_queue r)}"
    using requeue_loop_spec [of "[]" r ready "ordered u"] by auto
  have "fst (requeue_loop ready (ordered u) r []) = r\<lparr>run_queue := run_queue r @ new\<rparr>"
    using requeue_loop_frame(2-4) [of ready "ordered u" r "[]"] new(1) by (intro registry.equality) simp_all
  then have "requeue_loop ready (ordered u) r [] = (r\<lparr>run_queue := run_queue r @ new\<rparr>, new)"
    using new(2) by (simp add: prod_eq_iff)
  with new(3,4) show ?thesis unfolding requeue_after_finish_def by blast
qed

text \<open>
  When a unit finishes, exactly the waiting jobs of the units ordered after it that are now
  ready are appended to the run queue, each once and behind what was queued already, and the
  returned list is exactly what was appended; nothing else in the registry changes.
\<close>

theorem requeue_after_finish_wakes_exactly:
  "\<exists>woken. requeue_after_finish u ordered ready r = (r\<lparr>run_queue := run_queue r @ woken\<rparr>, woken)
     \<and> distinct woken
     \<and> set woken = {i. \<exists>n. n \<in> set (ordered u) \<and> tbl_get (by_unit r) n = Some i \<and> is_waiting r i
                          \<and> ready n \<and> i \<notin> set (run_queue r)}"
  by (rule requeue_after_finish_wakes_exactly_aux)

text \<open>
  A queue is complete when no ready waiting job is missing from it.  This is what lets the
  dispatcher sleep: there is nothing to start that it will not find in the queue.
\<close>

definition queue_complete :: "registry \<Rightarrow> (unit_id \<Rightarrow> bool) \<Rightarrow> bool" where
  "queue_complete r ready \<longleftrightarrow>
     (\<forall>i j. tbl_get (jobs r) i = Some j \<longrightarrow> job_state j = Job_Waiting \<longrightarrow> ready (job_unit j)
            \<longrightarrow> i \<in> set (run_queue r))"

lemma is_waiting_iff: "is_waiting r i \<longleftrightarrow> (\<exists>j. tbl_get (jobs r) i = Some j \<and> job_state j = Job_Waiting)"
  by (auto simp: is_waiting_def split: option.split)

lemma enqueue_ready_loop_spec:
  assumes "\<And>i u. (i, u) \<in> set cs \<Longrightarrow> is_waiting r i" "distinct (map fst cs)"
  shows "enqueue_ready_loop f cs r w =
           (r\<lparr>run_queue := run_queue r @ map fst (filter (\<lambda>(i, u). i \<notin> set (run_queue r) \<and> f u) cs)\<rparr>,
            w @ map fst (filter (\<lambda>(i, u). i \<notin> set (run_queue r) \<and> f u) cs))"
  using assms
proof (induction f cs r w rule: enqueue_ready_loop.induct)
  case (2 f i u cs r w)
  have tail: "filter (\<lambda>(k, u). k \<notin> set (run_queue r @ [i]) \<and> f u) cs =
        filter (\<lambda>(k, u). k \<notin> set (run_queue r) \<and> f u) cs"
    using "2.prems"(2) by (intro filter_cong) (auto simp: rev_image_eqI)
  have w: "is_waiting r i" using "2.prems"(1) [of i u] by simp
  have sub: "is_waiting (enqueue i r) k" "is_waiting r k" if "(k, v) \<in> set cs" for k v
    using "2.prems"(1) [of k v] that by simp_all
  have dist: "distinct (map fst cs)" using "2.prems"(2) by simp
  show ?case
  proof (cases "i \<notin> set (run_queue r) \<and> f u")
    case True
    then have "enqueue i r = r\<lparr>run_queue := run_queue r @ [i]\<rparr>" using w by (simp add: enqueue_def)
    then show ?thesis
      using "2.IH"(1) [OF True sub(1) dist] True tail [unfolded case_prod_beta] by (simp add: case_prod_beta)
  next
    case False
    then show ?thesis using "2.IH"(2) [OF False sub(2) dist] by auto
  qed
qed simp

lemma distinct_candidates: "tbl_wf (jobs r) \<Longrightarrow> distinct (map fst (waiting_candidates r))"
proof -
  assume "tbl_wf (jobs r)"
  then have "distinct (map fst (filter (\<lambda>(i, j). job_state j = Job_Waiting) (jobs r)))"
    by (simp add: tbl_wf_def distinct_map_filter)
  then have "distinct (map fst (map (\<lambda>(i, j). (i, job_unit j)) (filter (\<lambda>(i, j). job_state j = Job_Waiting) (jobs r))))"
    by (simp add: comp_def case_prod_beta)
  then have "distinct (map (\<lambda>(i, j). (i, job_unit j)) (filter (\<lambda>(i, j). job_state j = Job_Waiting) (jobs r)))"
      "inj_on fst (set (map (\<lambda>(i, j). (i, job_unit j)) (filter (\<lambda>(i, j). job_state j = Job_Waiting) (jobs r))))"
    by (simp_all only: distinct_map [of fst])
  then show ?thesis
    unfolding waiting_candidates_def
    unfolding distinct_map [of fst] by (simp only: distinct_sort set_sort)
qed

lemma candidates_iff:
  "tbl_wf (jobs r) \<Longrightarrow> (i, u) \<in> set (waiting_candidates r) \<longleftrightarrow>
     (\<exists>j. tbl_get (jobs r) i = Some j \<and> job_state j = Job_Waiting \<and> job_unit j = u)"
  by (auto simp: waiting_candidates_def tbl_get_mem)

lemma enqueue_ready_spec:
  assumes "tbl_wf (jobs r)"
  shows "\<exists>q. enqueue_ready ready r = (r\<lparr>run_queue := run_queue r @ q\<rparr>, q) \<and> distinct q \<and> sorted q
           \<and> set q = {i. \<exists>j. tbl_get (jobs r) i = Some j \<and> job_state j = Job_Waiting
                            \<and> ready (job_unit j) \<and> i \<notin> set (run_queue r)}"
proof -
  let ?q = "map fst (filter (\<lambda>(i, u). i \<notin> set (run_queue r) \<and> ready u) (waiting_candidates r))"
  have "enqueue_ready ready r = (r\<lparr>run_queue := run_queue r @ ?q\<rparr>, ?q)"
    unfolding enqueue_ready_def
    by (subst enqueue_ready_loop_spec)
       (use assms distinct_candidates in \<open>auto simp: candidates_iff is_waiting_iff\<close>)
  moreover have "distinct ?q" using distinct_candidates [OF assms] by (simp add: distinct_map_filter)
  moreover have "sorted ?q"
    unfolding waiting_candidates_def by (intro sorted_filter) simp
  moreover have "set ?q = {i. \<exists>j. tbl_get (jobs r) i = Some j \<and> job_state j = Job_Waiting
                            \<and> ready (job_unit j) \<and> i \<notin> set (run_queue r)}"
    using candidates_iff [OF assms] by (force simp: image_iff)
  ultimately show ?thesis by blast
qed

text \<open>
  C6: No wake-up is lost.  Priming the queue makes it complete, whatever it held.  From then on
  the event-driven rule keeps it complete without a sweep over all jobs: if the queue was
  complete, and the only units that became ready are ordered after the unit that finished, then
  it is complete again after \<open>requeue_after_finish\<close>.
\<close>

theorem no_wakeup_is_lost:
  assumes "registry_inv r"
  shows "queue_complete (fst (enqueue_ready ready r)) ready
     \<and> (queue_complete r ready \<and> {v. ready' v \<and> \<not> ready v} \<subseteq> set (ordered u) \<longrightarrow>
          queue_complete (fst (requeue_after_finish u ordered ready' r)) ready')"
proof (intro conjI impI)
  obtain q where "enqueue_ready ready r = (r\<lparr>run_queue := run_queue r @ q\<rparr>, q)"
      "set q = {i. \<exists>j. tbl_get (jobs r) i = Some j \<and> job_state j = Job_Waiting
                            \<and> ready (job_unit j) \<and> i \<notin> set (run_queue r)}"
    using enqueue_ready_spec assms registry_inv_wf(1) by blast
  then show "queue_complete (fst (enqueue_ready ready r)) ready"
    by (auto simp: queue_complete_def)
next
  assume c: "queue_complete r ready \<and> {v. ready' v \<and> \<not> ready v} \<subseteq> set (ordered u)"
  obtain w where w: "requeue_after_finish u ordered ready' r = (r\<lparr>run_queue := run_queue r @ w\<rparr>, w)"
      "set w = {i. \<exists>n. n \<in> set (ordered u) \<and> tbl_get (by_unit r) n = Some i \<and> is_waiting r i
                          \<and> ready' n \<and> i \<notin> set (run_queue r)}"
    using requeue_after_finish_wakes_exactly_aux by blast
  have "i \<in> set (run_queue r) \<union> set w"
    if "tbl_get (jobs r) i = Some j" "job_state j = Job_Waiting" "ready' (job_unit j)" for i j
    using that c registry_inv_job [OF assms that(1)]
    unfolding queue_complete_def w(2) is_waiting_iff by blast
  then show "queue_complete (fst (requeue_after_finish u ordered ready' r)) ready'"
    by (auto simp: queue_complete_def w(1))
qed

text \<open>The empty queue is complete while nothing is ready; then \<open>b\<close> finishes and \<open>a\<close> is ready.\<close>

theorem no_wakeup_is_lost_witness:
  "queue_complete (fst (requeue_after_finish (UnitId Kind_Service ''b.service'')
     (\<lambda>_. [UnitId Kind_Service ''a.service'']) (\<lambda>v. v = UnitId Kind_Service ''a.service'') one_job))
     (\<lambda>v. v = UnitId Kind_Service ''a.service'')"
proof -
  have "queue_complete one_job (\<lambda>_. False)" by (simp add: queue_complete_def)
  then show ?thesis
    using no_wakeup_is_lost [OF one_job_inv(1), of "\<lambda>_. False" "\<lambda>v. v = UnitId Kind_Service ''a.service''"
        "\<lambda>_. [UnitId Kind_Service ''a.service'']" "UnitId Kind_Service ''b.service''"] by simp
qed

section \<open>Popping\<close>

text \<open>A queue the dispatcher empties: a pop returns the oldest pending item and removes it.\<close>

locale work_queue =
  fixes ok :: "'s \<Rightarrow> bool" and pending :: "'s \<Rightarrow> 'i list" and pop :: "'s \<Rightarrow> 's \<times> 'i option"
  assumes pop_ok: "ok s \<Longrightarrow> ok (fst (pop s))"
    and pop_oldest: "ok s \<Longrightarrow> snd (pop s) = (case pending s of [] \<Rightarrow> None | i # _ \<Rightarrow> Some i)"
    and pop_pending: "ok s \<Longrightarrow> pending (fst (pop s)) = tl (pending s)"
begin

fun drain :: "nat \<Rightarrow> 's \<Rightarrow> 's \<times> 'i list" where
  "drain 0 s = (s, [])"
| "drain (Suc n) s =
     (case pop s of
        (s', None) \<Rightarrow> (s', [])
      | (s', Some i) \<Rightarrow> (let (s'', is) = drain n s' in (s'', i # is)))"

lemma drain_fifo:
  "ok s \<Longrightarrow> List.length (pending s) < n \<Longrightarrow>
     snd (drain n s) = pending s \<and> pending (fst (drain n s)) = [] \<and> ok (fst (drain n s))"
proof (induction n arbitrary: s)
  case (Suc n)
  obtain s' x where p: "pop s = (s', x)" by (cases "pop s")
  have *: "ok s'" "x = (case pending s of [] \<Rightarrow> None | i # _ \<Rightarrow> Some i)" "pending s' = tl (pending s)"
    using pop_ok [of s] pop_oldest [of s] pop_pending [of s] Suc.prems(1) p by simp_all
  with p show ?case using Suc.IH [of s'] Suc.prems
    by (cases "pending s") (auto simp: case_prod_beta Let_def)
qed simp

end

text \<open>The dispatcher's loop \<open>while let Some(id) = jobs.pop_ready()\<close>, for at most \<open>n\<close> rounds.\<close>

fun pop_all :: "nat \<Rightarrow> registry \<Rightarrow> registry \<times> job_id list" where
  "pop_all 0 r = (r, [])"
| "pop_all (Suc n) r =
     (case pop_ready r of
        (r', None) \<Rightarrow> (r', [])
      | (r', Some i) \<Rightarrow> (let (r'', is) = pop_all n r' in (r'', i # is)))"

abbreviation pending_jobs :: "registry \<Rightarrow> job_id list" where
  "pending_jobs r \<equiv> filter (is_waiting r) (run_queue r)"

lemma run_queue_set_running [simp]: "run_queue (set_running i r) = run_queue r"
  by (simp add: set_running_def)

lemma pop_ready_loop_eq:
  "pop_ready_loop q r =
     (case dropWhile (\<lambda>i. \<not> is_waiting r i) q of
        [] \<Rightarrow> (r\<lparr>run_queue := []\<rparr>, None)
      | i # q' \<Rightarrow> (set_running i (r\<lparr>run_queue := q'\<rparr>), Some i))"
  by (induction q r rule: pop_ready_loop.induct) auto

lemma filter_dropWhile_not: "filter P xs = filter P (dropWhile (\<lambda>x. \<not> P x) xs)"
  by (induction xs) auto

interpretation run_queue: work_queue registry_inv pending_jobs pop_ready
proof
  fix r assume inv: "registry_inv r"
  then show "registry_inv (fst (pop_ready r))"
    unfolding pop_ready_def by (intro registry_inv_pop_ready_loop) (auto simp: registry_inv_wf tbl_keys_get)
  have d: "filter (is_waiting r) (run_queue r) = filter (is_waiting r) (dropWhile (\<lambda>i. \<not> is_waiting r i) (run_queue r))"
    by (rule filter_dropWhile_not)
  have dist: "distinct (dropWhile (\<lambda>i. \<not> is_waiting r i) (run_queue r))"
    using inv by (simp add: registry_inv_wf)
  have hd: "dropWhile (\<lambda>i. \<not> is_waiting r i) (run_queue r) = i # q \<Longrightarrow> is_waiting r i" for i q
    using hd_dropWhile [of "\<lambda>i. \<not> is_waiting r i" "run_queue r"] by auto
  show "snd (pop_ready r) = (case pending_jobs r of [] \<Rightarrow> None | i # _ \<Rightarrow> Some i)"
    unfolding pop_ready_def pop_ready_loop_eq d
    by (cases "dropWhile (\<lambda>i. \<not> is_waiting r i) (run_queue r)")
       (auto dest!: hd simp del: dropWhile_eq_Nil_conv)
  show "pending_jobs (fst (pop_ready r)) = tl (pending_jobs r)"
    unfolding pop_ready_def pop_ready_loop_eq d
    using dist
    by (cases "dropWhile (\<lambda>i. \<not> is_waiting r i) (run_queue r)")
       (auto dest!: hd simp del: dropWhile_eq_Nil_conv intro: filter_cong)
qed

lemma pop_all_drain: "pop_all n r = run_queue.drain n r"
  by (induction n arbitrary: r) (simp_all add: case_prod_beta split: prod.split option.split)

text \<open>
  The run queue is served first come, first served.  Popping until nothing is left gives
  back the queued jobs that are still waiting, in the order they were queued, each once, and
  skips the stale entries; every job so popped is running afterwards and the queue is empty of
  waiting jobs.
\<close>

theorem pop_ready_fifo:
  assumes "registry_inv r" "List.length (run_queue r) < n"
  shows "snd (pop_all n r) = filter (is_waiting r) (run_queue r)
       \<and> filter (is_waiting (fst (pop_all n r))) (run_queue (fst (pop_all n r))) = []
       \<and> registry_inv (fst (pop_all n r))
       \<and> set (snd (pop_all n r)) \<inter> Collect (is_waiting (fst (pop_all n r))) = {}"
proof -
  have "List.length (pending_jobs r) < n"
    by (rule le_less_trans [OF length_filter_le assms(2)])
  then have d: "snd (pop_all n r) = pending_jobs r" "pending_jobs (fst (pop_all n r)) = []"
      "registry_inv (fst (pop_all n r))"
    using run_queue.drain_fifo [OF assms(1)] unfolding pop_all_drain by auto
  have "\<not> is_waiting (fst (pop_all n s)) i" if "i \<in> set (snd (pop_all n s)) \<or> \<not> is_waiting s i" for i s n
    using that
  proof (induction n arbitrary: s)
    case (Suc n)
    have p: "is_waiting (fst (pop_ready s)) k \<longleftrightarrow> snd (pop_ready s) \<noteq> Some k \<and> is_waiting s k" for k
      unfolding pop_ready_def pop_ready_loop_eq by (auto split: list.split)
    show ?case
      using Suc.IH [of "fst (pop_ready s)"] Suc.prems p [of i]
      by (auto simp: case_prod_beta Let_def split: prod.splits option.splits)
  qed simp
  with d show ?thesis by blast
qed

theorem pop_ready_fifo_witness:
  "snd (pop_all 5 (enqueue 1 one_job)) = [1]"
proof -
  have "registry_inv (enqueue 1 one_job)" "List.length (run_queue (enqueue 1 one_job)) < 5"
      "filter (is_waiting (enqueue 1 one_job)) (run_queue (enqueue 1 one_job)) = [1]"
    by code_simp+
  then show ?thesis using pop_ready_fifo by metis
qed

section \<open>Deadlines\<close>

lemma tbl_get_fold_modify_const:
  assumes "\<And>v. f (f v) = f v"
  shows "tbl_get (fold (\<lambda>i. tbl_modify i f) is t) k =
           (if k \<in> set is then map_option f (tbl_get t k) else tbl_get t k)"
  by (induction "is" arbitrary: t) (auto simp: option.map_comp comp_def assms)

lemma expired_ids_iff:
  assumes "tbl_wf (jobs r)"
  shows "i \<in> set (expired_ids now r) \<longleftrightarrow>
           (\<exists>j d. get_job r i = Some j \<and> job_deadline j = Some d \<and> d \<le> now)"
  using assms
  by (auto simp: expired_ids_def get_job_def tbl_get_mem [symmetric] image_iff split: option.splits)

lemma fold_min_mem: "fold min ds d \<in> insert d (set ds)" for d :: nat
  by (induction ds arbitrary: d) (auto simp: min_def split: if_splits)

lemma fold_min_least: "fold min ds d \<le> d \<and> (x \<in> set ds \<longrightarrow> fold min ds d \<le> x)" for d :: nat
proof (induction ds arbitrary: d)
  case (Cons e ds)
  show ?case using Cons [of "min e d"] by (auto intro: order_trans)
qed simp

lemma set_map_filter_iff: "y \<in> set (List.map_filter f xs) \<longleftrightarrow> (\<exists>x \<in> set xs. f x = Some y)"
  by (induction xs) (auto simp: List.map_filter_simps split: option.splits)

lemma next_deadline_spec:
  assumes "tbl_wf (jobs r)"
  shows "next_deadline r = None \<Longrightarrow> get_job r i = Some j \<Longrightarrow> job_deadline j = None"
    and "next_deadline r = Some m \<Longrightarrow> get_job r i = Some j \<Longrightarrow> job_deadline j = Some d \<Longrightarrow> m \<le> d"
    and "next_deadline r = Some m \<Longrightarrow> \<exists>i j. get_job r i = Some j \<and> job_deadline j = Some m"
proof -
  let ?ds = "List.map_filter (\<lambda>(i, j). job_deadline j) (jobs r)"
  have mem: "d \<in> set ?ds \<longleftrightarrow> (\<exists>i j. get_job r i = Some j \<and> job_deadline j = Some d)" for d
    using assms by (force simp: get_job_def tbl_get_mem [symmetric] set_map_filter_iff)
  show "job_deadline j = None" if "next_deadline r = None" "get_job r i = Some j"
    using that mem by (cases "job_deadline j") (auto simp: next_deadline_def split: list.splits)
  show "m \<le> d" if "next_deadline r = Some m" "get_job r i = Some j" "job_deadline j = Some d"
    using that mem [of d] fold_min_least by (auto simp: next_deadline_def split: list.splits)
  show "\<exists>i j. get_job r i = Some j \<and> job_deadline j = Some m" if "next_deadline r = Some m"
    using that mem [of m] fold_min_mem by (fastforce simp: next_deadline_def split: list.splits)
qed

text \<open>
  Each deadline fires exactly once, at the right time.  \<open>pop_expired\<close> reports, in the order
  of the ids and each once, exactly the jobs whose deadline is at or before \<open>now\<close>; it clears
  those deadlines and changes nothing else, so the same call again reports nothing; and what is
  left for the dispatcher to wait for lies after \<open>now\<close>.
\<close>

theorem pop_expired_fires_once:
  assumes "registry_inv r"
  shows "set (snd (pop_expired now r)) =
           {i. \<exists>j d. get_job r i = Some j \<and> job_deadline j = Some d \<and> d \<le> now}
       \<and> sorted (snd (pop_expired now r)) \<and> distinct (snd (pop_expired now r))
       \<and> get_job (fst (pop_expired now r)) i =
           (if i \<in> set (snd (pop_expired now r)) then map_option (job_deadline_update (\<lambda>_. None)) (get_job r i)
            else get_job r i)
       \<and> snd (pop_expired now (fst (pop_expired now r))) = []
       \<and> (case next_deadline (fst (pop_expired now r)) of None \<Rightarrow> True | Some d \<Rightarrow> now < d)"
proof -
  let ?r = "fst (pop_expired now r)"
  have wf: "tbl_wf (jobs r)" using assms by (simp add: registry_inv_wf)
  have inv': "registry_inv ?r"
    using assms unfolding pop_expired_def Let_def fst_conv pop_expired_fold
    by (simp add: registry_inv_fold_update)
  then have wf': "tbl_wf (jobs ?r)" by (simp add: registry_inv_wf)
  have set: "set (snd (pop_expired now r)) = {i. \<exists>j d. get_job r i = Some j \<and> job_deadline j = Some d \<and> d \<le> now}"
    using expired_ids_iff [OF wf] by (auto simp: pop_expired_def Let_def)
  have get: "get_job ?r i = (if i \<in> set (snd (pop_expired now r))
       then map_option (job_deadline_update (\<lambda>_. None)) (get_job r i) else get_job r i)" for i
    by (simp add: pop_expired_def Let_def get_job_def tbl_get_fold_modify_const)
  have none: "\<not> (get_job ?r i = Some j \<and> job_deadline j = Some d \<and> d \<le> now)" for i j d
    unfolding get set by auto
  have "set (snd (pop_expired now ?r)) = {}"
    unfolding pop_expired_def [of now ?r] Let_def snd_conv
    using none expired_ids_iff [OF wf', of _ now] by (intro equals0I) metis
  moreover have "case next_deadline ?r of None \<Rightarrow> True | Some d \<Rightarrow> now < d"
    using next_deadline_spec(3) [OF wf'] none by (auto split: option.split) (meson not_le)
  moreover have "sorted (snd (pop_expired now r))" "distinct (snd (pop_expired now r))"
    using wf by (simp_all add: pop_expired_def expired_ids_def Let_def tbl_wf_def distinct_map_filter)
  ultimately show ?thesis using set get by simp
qed

theorem pop_expired_fires_once_witness:
  "snd (pop_expired 9 (set_deadline 1 7 one_job)) = [1]
   \<and> snd (pop_expired 9 (fst (pop_expired 9 (set_deadline 1 7 one_job)))) = []"
proof -
  have "registry_inv (set_deadline 1 7 one_job)" by code_simp
  from pop_expired_fires_once [OF this, of 9]
  have "snd (pop_expired 9 (fst (pop_expired 9 (set_deadline 1 7 one_job)))) = []" by blast
  moreover have "snd (pop_expired 9 (set_deadline 1 7 one_job)) = [1]" by code_simp
  ultimately show ?thesis by simp
qed

section \<open>Merging requests\<close>

lemma merge_kinds_comm: "merge_kinds a b = merge_kinds b a"
  by (cases a; cases b) (simp_all add: merge_kinds_def)

lemma merge_kinds_same: "merge_kinds a a = Some a" "merge_kinds a Nop = Some a"
  by (cases a; simp add: merge_kinds_def)+

text \<open>A merged kind covers both requests: merging either of them in again changes nothing.\<close>

lemma merge_kinds_absorbs: "merge_kinds a b = Some m \<Longrightarrow> merge_kinds m a = Some m \<and> merge_kinds m b = Some m"
  by (cases a; cases b) (auto simp: merge_kinds_def)

text \<open>Merging depends on the order of arrival: a start and a try-restart conflict on their own.\<close>

lemma merge_kinds_order:
  "Option.bind (merge_kinds Start Restart) (\<lambda>m. merge_kinds m TryRestart) = Some Restart"
  "Option.bind (merge_kinds Start TryRestart) (\<lambda>m. merge_kinds m Restart) = None"
  by (simp_all add: merge_kinds_def)

end
