(* ===== verification/SanityCheck.thy ===== *)
theory SanityCheck
  imports Units "HOL-Library.Sublist"
begin

text \<open>
  Ordering cycles: \<open>crates/libsystemd/src/units/unitset_manipulation/sanity_check.rs\<close>.  The check
  runs Kahn's algorithm over the \<open>after\<close> lists to pick roots, a depth-first search over the
  \<open>before\<close> lists from each root, and a second search for a cycle when there is no root.  The
  hash sets of finished and unfinished ids are lists; their order stands for the unspecified
  iteration order.

  Lemmas: the check always returns, what it reports are cycles, a table it accepts has no
  ordering cycle, and breaking cycles always ends with a table it accepts.
\<close>

datatype sanity_check_error =
  Generic string
  | CirclesFound "unit_id list list"

datatype check_result = Ok | Err sanity_check_error

section \<open>The depth-first searches\<close>

text \<open>How many ids the path has not visited yet: the measure of both searches.\<close>

definition unseen :: "unit_id list \<Rightarrow> unit_id list \<Rightarrow> nat" where
  "unseen ids visited = card (set ids - set visited)"

lemma unseen_less: "u \<in> set ids \<Longrightarrow> u \<notin> set visited \<Longrightarrow> unseen ids (visited @ [u]) < unseen ids visited"
  unfolding unseen_def by (intro psubset_card_mono) auto

text \<open>
  A recursive call and the \<open>for\<close> loop around it.  The vector \<open>visited_ids\<close> is the path from the
  root: it is pushed before the loop and popped after it, so it is an argument here.
\<close>

function
  search_backedge :: "unit_table \<Rightarrow> unit_id \<Rightarrow> unit_id list \<Rightarrow> unit_id list \<Rightarrow> unit_id list
    \<Rightarrow> check_result \<times> unit_id list \<times> unit_id list"
and
  search_backedges :: "unit_table \<Rightarrow> unit_id list \<Rightarrow> unit_id list \<Rightarrow> unit_id list \<Rightarrow> unit_id list
    \<Rightarrow> check_result \<times> unit_id list \<times> unit_id list"
where
  "search_backedge t u visited finished not_finished =
     (if u \<in> set finished then (Ok, finished, not_finished)
      else case tbl_get t u of
        None \<Rightarrow> (Ok, finished, not_finished)
      | Some x \<Rightarrow>
          if u \<in> set visited then
            (let circle = dropWhile (\<lambda>v. v \<noteq> u) visited in
             (Err (CirclesFound [circle]), fold List.insert circle finished,
              filter (\<lambda>v. v \<notin> set circle) not_finished))
          else
            (case search_backedges t (before (deps x)) (visited @ [u]) finished not_finished of
               (Err e, finished', not_finished') \<Rightarrow> (Err e, finished', not_finished')
             | (Ok, finished', not_finished') \<Rightarrow>
                 (Ok, List.insert u finished', removeAll u not_finished')))"
| "search_backedges t [] visited finished not_finished = (Ok, finished, not_finished)"
| "search_backedges t (n # ns) visited finished not_finished =
     (if n \<in> set (tbl_keys t) then
        (case search_backedge t n visited finished not_finished of
           (Err e, finished', not_finished') \<Rightarrow> (Err e, finished', not_finished')
         | (Ok, finished', not_finished') \<Rightarrow> search_backedges t ns visited finished' not_finished')
      else search_backedges t ns visited finished not_finished)"
  by pat_completeness auto

termination
  by (relation "measures
        [\<lambda>x. case x of Inl (t, u, visited, _) \<Rightarrow> unseen (tbl_keys t) visited
                     | Inr (t, ns, visited, _) \<Rightarrow> unseen (tbl_keys t) visited,
         \<lambda>x. case x of Inl _ \<Rightarrow> 0 | Inr (t, ns, _) \<Rightarrow> Suc (length ns)]")
     (auto intro!: unseen_less simp: tbl_keys_get)

declare search_backedge.simps [simp del] search_backedges.simps [simp del]

function
  find_cycle_dfs :: "unit_id \<Rightarrow> unit_table \<Rightarrow> unit_id list \<Rightarrow> unit_id list \<Rightarrow> unit_id list option"
and
  find_cycle_next :: "unit_id list \<Rightarrow> unit_table \<Rightarrow> unit_id list \<Rightarrow> unit_id list \<Rightarrow> unit_id list option"
where
  "find_cycle_dfs u t not_finished visited =
     (if u \<in> set visited then Some (dropWhile (\<lambda>v. v \<noteq> u) visited)
      else if u \<notin> set not_finished then None
      else case tbl_get t u of
             None \<Rightarrow> None
           | Some x \<Rightarrow> find_cycle_next (before (deps x)) t not_finished (visited @ [u]))"
| "find_cycle_next [] t not_finished visited = None"
| "find_cycle_next (n # ns) t not_finished visited =
     (if n \<in> set not_finished \<and> n \<in> set (tbl_keys t) then
        (case find_cycle_dfs n t not_finished visited of
           Some cycle \<Rightarrow> Some cycle
         | None \<Rightarrow> find_cycle_next ns t not_finished visited)
      else find_cycle_next ns t not_finished visited)"
  by pat_completeness auto

termination
  by (relation "measures
        [\<lambda>x. case x of Inl (u, t, nf, visited) \<Rightarrow> unseen nf visited
                     | Inr (ns, t, nf, visited) \<Rightarrow> unseen nf visited,
         \<lambda>x. case x of Inl _ \<Rightarrow> 0 | Inr (ns, _) \<Rightarrow> Suc (length ns)]")
     (auto intro!: unseen_less)

declare find_cycle_dfs.simps [simp del] find_cycle_next.simps [simp del]

definition find_cycle_from :: "unit_id \<Rightarrow> unit_table \<Rightarrow> unit_id list \<Rightarrow> unit_id list option" where
  "find_cycle_from start t not_finished = find_cycle_dfs start t not_finished []"

section \<open>The check\<close>

definition in_degree :: "unit_table \<Rightarrow> unit_id list \<Rightarrow> unit \<Rightarrow> nat" where
  "in_degree t finished x =
     fold (\<lambda>d acc. if d \<in> set finished \<or> d \<notin> set (tbl_keys t) then acc else acc + 1) (after (deps x)) 0"

text \<open>The ids come from the table, so the lookup (an \<open>unwrap\<close> in the code) succeeds.\<close>

definition is_root :: "unit_table \<Rightarrow> unit_id list \<Rightarrow> unit_id \<Rightarrow> bool" where
  "is_root t finished u \<longleftrightarrow>
     (case tbl_get t u of None \<Rightarrow> False | Some x \<Rightarrow> in_degree t finished x = 0)"

text \<open>The main loop; \<open>None\<close> would be a loop that does not end.\<close>

partial_function (option) sanity_loop ::
  "unit_table \<Rightarrow> unit_id list \<Rightarrow> unit_id list \<Rightarrow> unit_id list list \<Rightarrow> unit_id list list option" where
  "sanity_loop t finished not_finished circles =
     (case not_finished of
        [] \<Rightarrow> Some circles
      | arbitrary # _ \<Rightarrow>
          (case List.find (is_root t finished) not_finished of
             Some root \<Rightarrow>
               (case search_backedge t root [] finished not_finished of
                  (res, finished', not_finished') \<Rightarrow>
                    sanity_loop t finished' not_finished'
                      (case res of Err (CirclesFound new) \<Rightarrow> circles @ new | _ \<Rightarrow> circles))
           | None \<Rightarrow>
               (case find_cycle_from arbitrary t not_finished of
                  Some cycle \<Rightarrow> Some (circles @ [cycle])
                | None \<Rightarrow>
                    sanity_loop t (List.insert arbitrary finished) (removeAll arbitrary not_finished) circles)))"

definition sanity_check_dependencies :: "unit_table \<Rightarrow> check_result option" where
  "sanity_check_dependencies t =
     (case sanity_loop t [] (tbl_keys t) [] of
        None \<Rightarrow> None
      | Some circles \<Rightarrow> Some (if circles = [] then Ok else Err (CirclesFound circles)))"

section \<open>Breaking cycles\<close>

definition retain_before :: "unit_id \<Rightarrow> unit \<Rightarrow> unit" where
  "retain_before u = upd_deps (before_update (filter (\<lambda>v. v \<noteq> u)))"

definition retain_after :: "unit_id \<Rightarrow> unit \<Rightarrow> unit" where
  "retain_after u = upd_deps (after_update (filter (\<lambda>v. v \<noteq> u)))"

definition break_circle :: "unit_id list \<Rightarrow> unit_table \<Rightarrow> unit_table" where
  "break_circle circle t =
     (if length circle \<ge> 2 then
        (let from_id = last circle; to_id = hd circle in
         tbl_modify to_id (retain_after from_id) (tbl_modify from_id (retain_before to_id) t))
      else if length circle = 1 then
        (let self_id = hd circle in
         tbl_modify self_id (\<lambda>x. retain_after self_id (retain_before self_id x)) t)
      else t)"

text \<open>
  The loop of \<open>break_dependency_cycles\<close>, with what is left of the iteration limit as an argument.
\<close>

fun break_loop :: "nat \<Rightarrow> unit_table \<Rightarrow> unit_id list list \<Rightarrow> (unit_table \<times> unit_id list list) option" where
  "break_loop 0 t broken = Some (t, broken)"
| "break_loop (Suc n) t broken =
     (case sanity_check_dependencies t of
        None \<Rightarrow> None
      | Some Ok \<Rightarrow> Some (t, broken)
      | Some (Err (CirclesFound cycles)) \<Rightarrow> break_loop n (fold break_circle cycles t) (broken @ cycles)
      | Some (Err (Generic msg)) \<Rightarrow> Some (t, broken))"

definition break_dependency_cycles :: "unit_table \<Rightarrow> (unit_table \<times> unit_id list list) option" where
  "break_dependency_cycles t = break_loop (length t * length t + 1) t []"

section \<open>Ordering edges and cycles\<close>

text \<open>\<open>u\<close> is ordered before \<open>v\<close>, and both are in the table.\<close>

definition before_edge :: "unit_table \<Rightarrow> unit_id \<Rightarrow> unit_id \<Rightarrow> bool" where
  "before_edge t u v \<longleftrightarrow>
     (case tbl_get t u of None \<Rightarrow> False | Some x \<Rightarrow> v \<in> set (before (deps x)) \<and> v \<in> set (tbl_keys t))"

abbreviation before_rel :: "unit_table \<Rightarrow> (unit_id \<times> unit_id) set" where
  "before_rel t \<equiv> {(u, v). before_edge t u v}"

text \<open>A list is a cycle when each member is ordered before the next and the last before the first.\<close>

definition is_cycle :: "unit_table \<Rightarrow> unit_id list \<Rightarrow> bool" where
  "is_cycle t c \<longleftrightarrow> c \<noteq> [] \<and> distinct c \<and> successively (before_edge t) c \<and> before_edge t (last c) (hd c)"

text \<open>A path from the root of a search, all in the table.\<close>

definition is_path :: "unit_table \<Rightarrow> unit_id list \<Rightarrow> bool" where
  "is_path t p \<longleftrightarrow> distinct p \<and> successively (before_edge t) p \<and> set p \<subseteq> set (tbl_keys t)"

definition extends :: "unit_table \<Rightarrow> unit_id list \<Rightarrow> unit_id \<Rightarrow> bool" where
  "extends t p u \<longleftrightarrow> p = [] \<or> before_edge t (last p) u"

definition none_cyclic :: "unit_table \<Rightarrow> unit_id list \<Rightarrow> bool" where
  "none_cyclic t f \<longleftrightarrow> set f \<inter> {u. (u, u) \<in> (before_rel t)\<^sup>+} = {}"

lemma before_edge_keys:
  "before_edge t u v \<Longrightarrow> u \<in> set (tbl_keys t) \<and> v \<in> set (tbl_keys t)"
  by (auto simp: before_edge_def tbl_keys_get split: option.splits)

lemma is_path_snoc: "is_path t p \<Longrightarrow> extends t p u \<Longrightarrow> u \<notin> set p \<Longrightarrow> u \<in> set (tbl_keys t) \<Longrightarrow> is_path t (p @ [u])"
  by (auto simp: is_path_def extends_def successively_append_iff)

text \<open>Meeting a member of the path closes a cycle.\<close>

lemma path_closes_cycle:
  assumes "is_path t p" "extends t p u" "u \<in> set p"
  shows "is_cycle t (dropWhile (\<lambda>v. v \<noteq> u) p)" "set (dropWhile (\<lambda>v. v \<noteq> u) p) \<subseteq> set p"
proof -
  obtain a b where p: "p = a @ u # b" "u \<notin> set a"
    using assms(3) by (metis split_list_first)
  have d: "dropWhile (\<lambda>v. v \<noteq> u) p = u # b" using p by (simp add: dropWhile_append3 dropWhile_append)
  show "is_cycle t (dropWhile (\<lambda>v. v \<noteq> u) p)"
    unfolding d using assms p by (auto simp: is_cycle_def is_path_def extends_def successively_append_iff)
  show "set (dropWhile (\<lambda>v. v \<noteq> u) p) \<subseteq> set p" by (meson set_dropWhileD subsetI)
qed

lemma successively_trancl:
  "successively R (u # b) \<Longrightarrow> v \<in> set b \<Longrightarrow> (u, v) \<in> {(x, y). R x y}\<^sup>+"
proof (induction b arbitrary: u)
  case (Cons w b)
  then have "(u, w) \<in> {(x, y). R x y}" by simp
  moreover have "v = w \<or> (w, v) \<in> {(x, y). R x y}\<^sup>+" using Cons by auto
  ultimately show ?case by (auto intro: trancl_into_trancl2)
qed simp

lemma cycle_trancl: "is_cycle t c \<Longrightarrow> u \<in> set c \<Longrightarrow> (u, u) \<in> (before_rel t)\<^sup>+"
proof -
  assume c: "is_cycle t c" and u: "u \<in> set c"
  obtain a b where ab: "c = a @ u # b" using u by (meson split_list)
  have "successively (before_edge t) (c @ c)"
    using c by (simp add: is_cycle_def successively_append_iff)
  then have "successively (before_edge t) (a @ (u # b @ a @ [u]) @ b)" by (simp add: ab)
  then have path: "successively (before_edge t) (u # b @ a @ [u])"
    by (simp only: successively_append_iff)
  from successively_trancl [OF path, of u] show ?thesis by simp
qed

section \<open>What the searches do\<close>

text \<open>
  The finished set grows by ids of the table that were not finished, and the same ids leave
  the unfinished set.
\<close>

definition finishes :: "unit_table \<Rightarrow> unit_id list \<Rightarrow> unit_id list \<Rightarrow> unit_id list \<Rightarrow> unit_id list \<Rightarrow> unit_id set \<Rightarrow> bool" where
  "finishes t f nf f' nf' D \<longleftrightarrow>
     set f' = set f \<union> D \<and> nf' = filter (\<lambda>v. v \<notin> D) nf \<and> D \<subseteq> set (tbl_keys t) \<and> D \<inter> set f = {}"

lemma finishes_refl: "finishes t f nf f nf {}"
  by (simp add: finishes_def)

lemma finishes_trans:
  "finishes t f nf f1 nf1 D \<Longrightarrow> finishes t f1 nf1 f2 nf2 E \<Longrightarrow> finishes t f nf f2 nf2 (D \<union> E)"
  by (auto simp: finishes_def intro!: filter_cong)

lemma finishes_one:
  "finishes t f nf f1 nf1 D \<Longrightarrow> u \<in> set (tbl_keys t) \<Longrightarrow> u \<notin> set f \<Longrightarrow> u \<notin> D \<Longrightarrow>
     finishes t f nf (List.insert u f1) (removeAll u nf1) (insert u D)"
  by (auto simp: finishes_def removeAll_filter_not_eq intro!: filter_cong)

lemma set_fold_insert: "set (fold List.insert xs ys) = set xs \<union> set ys"
  by (induction xs arbitrary: ys) auto

lemma finishes_circle:
  "set c \<subseteq> set (tbl_keys t) \<Longrightarrow> set c \<inter> set f = {} \<Longrightarrow>
     finishes t f nf (fold List.insert c f) (filter (\<lambda>v. v \<notin> set c) nf) (set c)"
  by (auto simp: finishes_def set_fold_insert)

text \<open>
  What one search guarantees: it finishes the id and everything it can reach, or reports a
  cycle whose members it finishes.
\<close>

definition search_ok :: "unit_table \<Rightarrow> unit_id list \<Rightarrow> unit_id list \<Rightarrow> unit_id list \<Rightarrow> unit_id list
    \<Rightarrow> check_result \<times> unit_id list \<times> unit_id list \<Rightarrow> bool" where
  "search_ok t us visited f nf res \<longleftrightarrow>
     (\<exists>D. finishes t f nf (fst (snd res)) (snd (snd res)) D
        \<and> (case fst res of
             Ok \<Rightarrow> D \<inter> set visited = {} \<and> set us \<inter> set (tbl_keys t) \<subseteq> set (fst (snd res))
                   \<and> (none_cyclic t f \<longrightarrow> none_cyclic t (fst (snd res)))
           | Err (CirclesFound cs) \<Rightarrow> (\<exists>c. cs = [c] \<and> is_cycle t c \<and> set c \<subseteq> D)
           | Err (Generic _) \<Rightarrow> False))"

lemma none_cyclic_step:
  assumes "none_cyclic t f" "{v. before_edge t u v} \<subseteq> set f"
  shows "none_cyclic t (List.insert u f)"
proof -
  have "(u, u) \<notin> (before_rel t)\<^sup>+"
  proof
    assume "(u, u) \<in> (before_rel t)\<^sup>+"
    then obtain s where s: "(u, s) \<in> before_rel t" "(s, u) \<in> (before_rel t)\<^sup>*"
      by (meson tranclD)
    then have "(s, s) \<in> (before_rel t)\<^sup>+" by (meson rtrancl_into_trancl1)
    with s assms show False by (auto simp: none_cyclic_def)
  qed
  with assms(1) show ?thesis by (auto simp: none_cyclic_def)
qed

lemma search_ok_finished:
  "u \<in> set f \<or> u \<notin> set (tbl_keys t) \<Longrightarrow> search_ok t [u] visited f nf (Ok, f, nf)"
  unfolding search_ok_def by (intro exI [of _ "{}"]) (auto simp: finishes_refl)

lemma search_ok_circle:
  assumes "is_path t visited" "extends t visited u" "u \<in> set visited" "set visited \<inter> set f = {}"
  defines "c \<equiv> dropWhile (\<lambda>v. v \<noteq> u) visited"
  shows "search_ok t [u] visited f nf
           (Err (CirclesFound [c]), fold List.insert c f, filter (\<lambda>v. v \<notin> set c) nf)"
  using path_closes_cycle [OF assms(1-3)] assms(1,4) finishes_circle [of c t f nf]
  unfolding search_ok_def c_def is_path_def by fastforce

lemma search_ok_node:
  assumes ok: "search_ok t (before (deps x)) (visited @ [u]) f nf (Ok, f', nf')"
    and u: "tbl_get t u = Some x" "u \<notin> set f" "u \<notin> set visited"
  shows "search_ok t [u] visited f nf (Ok, List.insert u f', removeAll u nf')"
proof -
  obtain D where D: "finishes t f nf f' nf' D" "D \<inter> set (visited @ [u]) = {}"
      "set (before (deps x)) \<inter> set (tbl_keys t) \<subseteq> set f'" "none_cyclic t f \<longrightarrow> none_cyclic t f'"
    using ok by (auto simp: search_ok_def)
  have k: "u \<in> set (tbl_keys t)" using u by (simp add: tbl_keys_get)
  have "finishes t f nf (List.insert u f') (removeAll u nf') (insert u D)"
    using D u k by (intro finishes_one) auto
  moreover have "none_cyclic t f \<longrightarrow> none_cyclic t (List.insert u f')"
    using D u by (auto intro!: none_cyclic_step simp: before_edge_def)
  ultimately show ?thesis
    unfolding search_ok_def using D(2) u(3) by (intro exI [of _ "insert u D"]) auto
qed

lemma search_ok_err_mono:
  "search_ok t us v f nf (Err e, f', nf') \<Longrightarrow> search_ok t us' v' f nf (Err e, f', nf')"
  by (simp add: search_ok_def)

lemma search_ok_step:
  assumes "search_ok t [n] visited f nf (Ok, f1, nf1)" "search_ok t ns visited f1 nf1 res"
  shows "search_ok t (n # ns) visited f nf res"
proof -
  obtain D where D: "finishes t f nf f1 nf1 D" "D \<inter> set visited = {}"
      "set [n] \<inter> set (tbl_keys t) \<subseteq> set f1" "none_cyclic t f \<longrightarrow> none_cyclic t f1"
    using assms(1) by (auto simp: search_ok_def)
  obtain E where E: "finishes t f1 nf1 (fst (snd res)) (snd (snd res)) E"
      and r: "case fst res of
             Ok \<Rightarrow> E \<inter> set visited = {} \<and> set ns \<inter> set (tbl_keys t) \<subseteq> set (fst (snd res))
                   \<and> (none_cyclic t f1 \<longrightarrow> none_cyclic t (fst (snd res)))
           | Err (CirclesFound cs) \<Rightarrow> (\<exists>c. cs = [c] \<and> is_cycle t c \<and> set c \<subseteq> E)
           | Err (Generic _) \<Rightarrow> False"
    using assms(2) by (auto simp: search_ok_def)
  have "set f1 \<subseteq> set (fst (snd res))" using E by (auto simp: finishes_def)
  with D r finishes_trans [OF D(1) E] show ?thesis
    unfolding search_ok_def
    by (intro exI [of _ "D \<union> E"]) (auto split: check_result.splits sanity_check_error.splits)
qed

lemma search_ok_skip:
  assumes "n \<notin> set (tbl_keys t)"
  shows "search_ok t (n # ns) visited f nf res = search_ok t ns visited f nf res"
proof -
  have "set (n # ns) \<inter> set (tbl_keys t) = set ns \<inter> set (tbl_keys t)" using assms by auto
  then show ?thesis unfolding search_ok_def by (simp only:)
qed

lemma search_backedge_ok:
  "is_path t visited \<Longrightarrow> extends t visited u \<Longrightarrow> set visited \<inter> set f = {} \<Longrightarrow>
     search_ok t [u] visited f nf (search_backedge t u visited f nf)"
  "is_path t visited \<Longrightarrow> visited \<noteq> [] \<Longrightarrow>
     set us \<inter> set (tbl_keys t) \<subseteq> Collect (before_edge t (last visited)) \<Longrightarrow> set visited \<inter> set f = {} \<Longrightarrow>
     search_ok t us visited f nf (search_backedges t us visited f nf)"
proof (induction t u visited f nf and t us visited f nf
    rule: search_backedge_search_backedges.induct)
  case (1 t u visited f nf)
  show ?case
  proof (cases "u \<in> set f \<or> tbl_get t u = None")
    case True
    then have "search_backedge t u visited f nf = (Ok, f, nf)"
      by (subst search_backedge.simps) auto
    then show ?thesis using True search_ok_finished [of u f t visited nf] by (simp add: tbl_keys_get)
  next
    case False
    then obtain x where x: "tbl_get t u = Some x" and nf: "u \<notin> set f" by auto
    show ?thesis
    proof (cases "u \<in> set visited")
      case True
      then show ?thesis
        using search_ok_circle [OF "1.prems"(1,2) True "1.prems"(3)] x nf
        by (subst search_backedge.simps) (simp add: Let_def)
    next
      case new: False
      have k: "u \<in> set (tbl_keys t)" using x by (simp add: tbl_keys_get)
      have path: "is_path t (visited @ [u])" by (rule is_path_snoc [OF "1.prems"(1,2) new k])
      have sub: "search_ok t (before (deps x)) (visited @ [u]) f nf
          (search_backedges t (before (deps x)) (visited @ [u]) f nf)"
        using "1.IH" [OF nf x new path] "1.prems"(3) nf x by (auto simp: before_edge_def)
      obtain r f' nf' where eq: "search_backedges t (before (deps x)) (visited @ [u]) f nf = (r, f', nf')"
        by (cases "search_backedges t (before (deps x)) (visited @ [u]) f nf")
      have "search_ok t [u] visited f nf (case r of Err e \<Rightarrow> (Err e, f', nf')
               | Ok \<Rightarrow> (Ok, List.insert u f', removeAll u nf'))"
        using sub search_ok_node [OF _ x nf new] search_ok_err_mono
        unfolding eq by (auto split: check_result.split)
      then show ?thesis
        by (subst search_backedge.simps) (use x nf new eq in \<open>auto split: check_result.split\<close>)
    qed
  qed
next
  case (2 t visited f nf)
  show ?case
    unfolding search_backedges.simps(1) search_ok_def
    by (intro exI [of _ "{}"]) (auto simp: finishes_refl)
next
  case (3 t n ns visited f nf)
  show ?case
  proof (cases "n \<in> set (tbl_keys t)")
    case False
    then show ?thesis
      using "3.IH"(3) "3.prems" search_ok_skip by (simp add: search_backedges.simps)
  next
    case True
    have ext: "extends t visited n" using "3.prems"(3) True by (auto simp: extends_def)
    note n = "3.IH"(1) [OF True "3.prems"(1) ext "3.prems"(4)]
    obtain r f1 nf1 where eq: "search_backedge t n visited f nf = (r, f1, nf1)"
      by (cases "search_backedge t n visited f nf")
    show ?thesis
    proof (cases r)
      case Ok
      then have "set visited \<inter> set f1 = {}"
        using n eq "3.prems"(4) by (auto simp: search_ok_def finishes_def)
      then have "search_ok t ns visited f1 nf1 (search_backedges t ns visited f1 nf1)"
        using "3.IH"(2) [OF True eq [symmetric] _ ] Ok "3.prems" by auto
      then have "search_ok t (n # ns) visited f nf (search_backedges t ns visited f1 nf1)"
        using search_ok_step n eq Ok by metis
      then show ?thesis using True eq Ok by (simp add: search_backedges.simps(2))
    next
      case (Err e)
      then show ?thesis
        using True eq n search_ok_err_mono by (simp add: search_backedges.simps(2))
    qed
  qed
qed

lemma find_cycle_sound:
  "is_path t visited \<Longrightarrow> extends t visited u \<Longrightarrow> find_cycle_dfs u t nf visited = Some c \<Longrightarrow> is_cycle t c"
  "is_path t visited \<Longrightarrow> visited \<noteq> [] \<Longrightarrow>
     set us \<inter> set (tbl_keys t) \<subseteq> Collect (before_edge t (last visited)) \<Longrightarrow>
     find_cycle_next us t nf visited = Some c \<Longrightarrow> is_cycle t c"
proof (induction u t nf visited and us t nf visited rule: find_cycle_dfs_find_cycle_next.induct)
  case (1 u t nf visited)
  show ?case
  proof (cases "u \<in> set visited")
    case True
    then show ?thesis
      using path_closes_cycle(1) [OF "1.prems"(1,2) True] "1.prems"(3)
      by (simp add: find_cycle_dfs.simps)
  next
    case False
    with "1.prems"(3) obtain x where u: "u \<in> set nf" "tbl_get t u = Some x"
        and nx: "find_cycle_next (before (deps x)) t nf (visited @ [u]) = Some c"
      by (subst (asm) find_cycle_dfs.simps) (auto split: if_splits option.splits)
    have "is_path t (visited @ [u])"
      by (rule is_path_snoc [OF "1.prems"(1,2) False]) (simp add: tbl_keys_get u)
    then show ?thesis
      using "1.IH" [OF False _ u(2)] u nx by (auto simp: before_edge_def)
  qed
next
  case (3 n ns t nf visited)
  then show ?case
    by (cases "n \<in> set nf \<and> n \<in> set (tbl_keys t)")
       (auto simp: find_cycle_next.simps extends_def split: option.splits)
qed (simp add: find_cycle_next.simps)

lemma find_cycle_next_None:
  "find_cycle_next us t nf visited = None \<Longrightarrow> n \<in> set us \<Longrightarrow> n \<in> set nf \<Longrightarrow> n \<in> set (tbl_keys t) \<Longrightarrow>
     find_cycle_dfs n t nf visited = None"
  by (induction us) (auto simp: find_cycle_next.simps split: if_splits option.splits)

abbreviation unfinished_rel :: "unit_table \<Rightarrow> unit_id list \<Rightarrow> (unit_id \<times> unit_id) set" where
  "unfinished_rel t nf \<equiv> {(u, v). before_edge t u v \<and> u \<in> set nf \<and> v \<in> set nf}"

lemma find_cycle_dfs_None:
  assumes "(u, w) \<in> (unfinished_rel t nf)\<^sup>+" "find_cycle_dfs u t nf visited = None"
  shows "\<exists>p. set visited \<subseteq> set p \<and> u \<in> set p \<and> find_cycle_dfs w t nf p = None"
proof -
  have follow: "find_cycle_dfs b t nf (p @ [a]) = None"
    if "before_edge t a b" "a \<in> set nf" "b \<in> set nf" "find_cycle_dfs a t nf p = None" for a b p
    using that(4)
    by (subst (asm) find_cycle_dfs.simps)
       (use that(1-3) in \<open>auto simp: before_edge_def split: if_splits option.splits
          intro: find_cycle_next_None\<close>)
  show ?thesis
    using assms
  proof (induction rule: trancl_induct)
    case (base b)
    then have "find_cycle_dfs b t nf (visited @ [u]) = None" using follow by blast
    then show ?case by (intro exI [of _ "visited @ [u]"]) auto
  next
    case (step b c)
    then obtain p where "set visited \<subseteq> set p" "u \<in> set p" "find_cycle_dfs b t nf p = None" by blast
    moreover from this(3) step(2) follow have "find_cycle_dfs c t nf (p @ [b]) = None" by blast
    ultimately show ?case by (intro exI [of _ "p @ [b]"]) auto
  qed
qed

text \<open>No cycle found from an unfinished id: it is on none, if none of the finished ones is.\<close>

lemma find_cycle_from_None:
  assumes none: "find_cycle_from u t nf = None" and fin: "none_cyclic t f"
    and keys: "set (tbl_keys t) \<subseteq> set f \<union> set nf"
  shows "(u, u) \<notin> (before_rel t)\<^sup>+"
proof
  assume cyc: "(u, u) \<in> (before_rel t)\<^sup>+"
  have un: "w \<in> set nf" if ww: "(w, w) \<in> (before_rel t)\<^sup>+" for w
  proof -
    obtain z where "(w, z) \<in> before_rel t" using tranclD [OF ww] by blast
    then have "w \<in> set (tbl_keys t)" by (auto dest: before_edge_keys)
    moreover have "w \<notin> set f" using fin that by (auto simp: none_cyclic_def)
    ultimately show ?thesis using keys by blast
  qed
  have "(u, w) \<in> (unfinished_rel t nf)\<^sup>+" if "(u, w) \<in> (before_rel t)\<^sup>+" "(w, u) \<in> (before_rel t)\<^sup>*" for w
    using that
  proof (induction rule: trancl_induct)
    case (base w)
    then have "(w, w) \<in> (before_rel t)\<^sup>+" by (meson rtrancl_into_trancl1)
    with base cyc show ?case by (auto intro: un)
  next
    case (step v w)
    have vw: "(v, u) \<in> (before_rel t)\<^sup>*" using step(2,4) by (meson converse_rtrancl_into_rtrancl)
    have "(v, v) \<in> (before_rel t)\<^sup>+" "(w, w) \<in> (before_rel t)\<^sup>+"
      using step vw by (meson rtrancl_trancl_trancl trancl_into_rtrancl trancl_rtrancl_trancl trancl_trans trancl.r_into_trancl)+
    with step(2) have "(v, w) \<in> unfinished_rel t nf" by (auto intro: un)
    with step.IH [OF vw] show ?case by (rule trancl_into_trancl)
  qed
  from this [OF cyc] obtain p where "u \<in> set p" "find_cycle_dfs u t nf p = None"
    using none unfolding find_cycle_from_def by (blast dest: find_cycle_dfs_None)
  then show False by (simp add: find_cycle_dfs.simps)
qed

section \<open>The check is total and exact\<close>

lemma is_root_key: "is_root t f u \<Longrightarrow> u \<in> set (tbl_keys t)"
  by (auto simp: is_root_def tbl_keys_get split: option.splits)

lemma none_cyclic_keys: "none_cyclic t (tbl_keys t) \<Longrightarrow> acyclic (before_rel t)"
proof (rule acyclicI, rule allI, rule notI)
  fix u assume n: "none_cyclic t (tbl_keys t)" and c: "(u, u) \<in> (before_rel t)\<^sup>+"
  obtain z where "(u, z) \<in> before_rel t" using tranclD [OF c] by blast
  then show False using n c by (auto simp: none_cyclic_def dest: before_edge_keys)
qed

text \<open>The invariant of the main loop.\<close>

definition loop_inv :: "unit_table \<Rightarrow> unit_id list \<Rightarrow> unit_id list \<Rightarrow> unit_id list list \<Rightarrow> bool" where
  "loop_inv t f nf circles \<longleftrightarrow>
     set f \<union> set nf = set (tbl_keys t) \<and> set f \<inter> set nf = {}
     \<and> list_all (is_cycle t) circles \<and> (circles = [] \<longrightarrow> none_cyclic t f)"

lemma loop_inv_search:
  assumes inv: "loop_inv t f nf circles" and root: "root \<in> set nf"
    and eq: "search_backedge t root [] f nf = (res, f', nf')"
  shows "loop_inv t f' nf' (case res of Err (CirclesFound new) \<Rightarrow> circles @ new | _ \<Rightarrow> circles)"
    and "length nf' < length nf"
proof -
  have ok: "search_ok t [root] [] f nf (res, f', nf')"
    using search_backedge_ok(1) [of t "[]" root f nf] by (simp add: eq is_path_def extends_def)
  have rk: "root \<in> set (tbl_keys t)" "root \<notin> set f" using inv root by (auto simp: loop_inv_def)
  obtain D where D: "finishes t f nf f' nf' D"
    and r0: "case res of
             Ok \<Rightarrow> D \<inter> set [] = {} \<and> set [root] \<inter> set (tbl_keys t) \<subseteq> set f' \<and> (none_cyclic t f \<longrightarrow> none_cyclic t f')
           | Err (CirclesFound cs) \<Rightarrow> (\<exists>c. cs = [c] \<and> is_cycle t c \<and> set c \<subseteq> D)
           | Err (Generic _) \<Rightarrow> False"
    using ok unfolding search_ok_def fst_conv snd_conv by blast
  then have r: "case res of
             Ok \<Rightarrow> root \<in> set f' \<and> (none_cyclic t f \<longrightarrow> none_cyclic t f')
           | Err (CirclesFound cs) \<Rightarrow> (\<exists>c. cs = [c] \<and> is_cycle t c \<and> set c \<subseteq> D)
           | Err (Generic _) \<Rightarrow> False"
    using rk by (cases res) auto
  have "D \<noteq> {}"
    using r D rk(2) by (auto simp: finishes_def is_cycle_def split: check_result.splits sanity_check_error.splits)
  moreover have "D \<subseteq> set nf" using D inv by (auto simp: finishes_def loop_inv_def)
  ultimately obtain d where d: "d \<in> D" "d \<in> set nf" by blast
  have "length (filter (\<lambda>v. v \<notin> D) nf) < length nf"
    by (rule length_filter_less [of d]) (use d in auto)
  then show "length nf' < length nf" using D by (simp add: finishes_def)
  show "loop_inv t f' nf' (case res of Err (CirclesFound new) \<Rightarrow> circles @ new | _ \<Rightarrow> circles)"
    using inv D r \<open>D \<subseteq> set nf\<close>
    by (auto simp: loop_inv_def finishes_def split: check_result.splits sanity_check_error.splits)
qed

lemma sanity_loop_total:
  "loop_inv t f nf circles \<Longrightarrow>
     \<exists>cs. sanity_loop t f nf circles = Some cs \<and> list_all (is_cycle t) cs \<and> (cs = [] \<longrightarrow> acyclic (before_rel t))"
proof (induction "length nf" arbitrary: f nf circles rule: less_induct)
  case less
  show ?case
  proof (cases nf)
    case Nil
    have "circles = [] \<longrightarrow> acyclic (before_rel t)"
      using less.prems none_cyclic_keys [of t] by (auto simp: loop_inv_def Nil none_cyclic_def)
    with less.prems show ?thesis
      by (subst sanity_loop.simps) (simp add: Nil loop_inv_def)
  next
    case (Cons a rest)
    show ?thesis
    proof (cases "List.find (is_root t f) nf")
      case (Some root)
      then have root: "root \<in> set nf" by (auto simp: find_Some_iff)
      obtain res f' nf' where eq: "search_backedge t root [] f nf = (res, f', nf')"
        by (cases "search_backedge t root [] f nf")
      show ?thesis
        using less.hyps [OF loop_inv_search(2,1) [OF less.prems root eq]] Some eq
        by (subst sanity_loop.simps) (simp add: Cons)
    next
      case None
      show ?thesis
      proof (cases "find_cycle_from a t nf")
        case (Some c)
        then have "is_cycle t c"
          using find_cycle_sound(1) [of t "[]" a nf c]
          by (simp add: find_cycle_from_def is_path_def extends_def)
        then show ?thesis
          using less.prems None Some
          by (subst sanity_loop.simps) (simp add: Cons loop_inv_def)
      next
        case no_cycle: None
        have "loop_inv t (List.insert a f) (removeAll a nf) circles"
          using less.prems find_cycle_from_None [OF no_cycle, of f]
          by (auto simp: loop_inv_def none_cyclic_def Cons)
        moreover have "length (removeAll a nf) < length nf"
          unfolding removeAll_filter_not_eq by (rule length_filter_less [of a]) (auto simp: Cons)
        ultimately show ?thesis
          using less.hyps [of "removeAll a nf" "List.insert a f" circles] None no_cycle
          by (subst sanity_loop.simps) (simp add: Cons)
      qed
    qed
  qed
qed

lemma cycle_not_acyclic: "is_cycle t c \<Longrightarrow> \<not> acyclic (before_rel t)"
  using cycle_trancl [of t c "hd c"] by (auto simp: acyclic_def is_cycle_def)

lemma sanity_check_cases:
  obtains (ok) "sanity_check_dependencies t = Some Ok" "acyclic (before_rel t)"
  | (circles) cs where "sanity_check_dependencies t = Some (Err (CirclesFound cs))" "cs \<noteq> []"
      "list_all (is_cycle t) cs" "\<not> acyclic (before_rel t)"
proof -
  have "loop_inv t [] (tbl_keys t) []" by (simp add: loop_inv_def none_cyclic_def)
  from sanity_loop_total [OF this] obtain cs where cs: "sanity_loop t [] (tbl_keys t) [] = Some cs"
      "list_all (is_cycle t) cs" "cs = [] \<longrightarrow> acyclic (before_rel t)" by blast
  show ?thesis
  proof (cases cs)
    case Nil
    with cs show ?thesis by (intro ok) (simp_all add: sanity_check_dependencies_def)
  next
    case (Cons c _)
    with cs show ?thesis
      by (intro circles) (auto simp: sanity_check_dependencies_def dest: cycle_not_acyclic)
  qed
qed

text \<open>
  C7: The check always returns, and its verdict is exact, for every table and every iteration
  order of its hash sets: it accepts the table exactly when no unit is ordered before itself
  through units of the table, and otherwise it reports at least one cycle, each of which is a
  simple cycle of \<open>Before=\<close> edges.
\<close>

theorem sanity_check_exact:
  "case sanity_check_dependencies t of
     None \<Rightarrow> False
   | Some Ok \<Rightarrow> acyclic {(u, v). before_edge t u v}
   | Some (Err (CirclesFound cs)) \<Rightarrow>
       cs \<noteq> [] \<and> list_all (is_cycle t) cs \<and> \<not> acyclic {(u, v). before_edge t u v}
   | Some (Err (Generic _)) \<Rightarrow> False"
  by (cases rule: sanity_check_cases [of t]) auto

section \<open>Cycle breaking\<close>

text \<open>\<open>u\<close> waits for \<open>v\<close>: the mirror image of \<open>before_edge\<close>, read off the \<open>after\<close> lists.\<close>

definition after_edge :: "unit_table \<Rightarrow> unit_id \<Rightarrow> unit_id \<Rightarrow> bool" where
  "after_edge t u v \<longleftrightarrow>
     (case tbl_get t u of None \<Rightarrow> False | Some x \<Rightarrow> v \<in> set (after (deps x)) \<and> v \<in> set (tbl_keys t))"

text \<open>The ordering lists of a table agree: both ends of every edge know of it.\<close>

definition ordering_mirrored :: "unit_table \<Rightarrow> bool" where
  "ordering_mirrored t \<longleftrightarrow> (\<forall>u v. before_edge t u v \<longleftrightarrow> after_edge t v u)"

text \<open>What is left of a table when its ordering lists are forgotten.\<close>

definition forget_order :: "unit_table \<Rightarrow> unit_table" where
  "forget_order = map_units (upd_deps (\<lambda>d. d\<lparr>before := [], after := []\<rparr>))"

definition broken_edges :: "unit_id list list \<Rightarrow> (unit_id \<times> unit_id) set" where
  "broken_edges cs = (\<lambda>c. (last c, hd c)) ` set cs"

lemma retain_simps [simp]:
  "before (deps (retain_before u x)) = filter (\<lambda>v. v \<noteq> u) (before (deps x))"
  "after (deps (retain_before u x)) = after (deps x)"
  "after (deps (retain_after u x)) = filter (\<lambda>v. v \<noteq> u) (after (deps x))"
  "before (deps (retain_after u x)) = before (deps x)"
  by (simp_all add: retain_before_def retain_after_def)

lemma break_circle_eq:
  assumes "c \<noteq> []"
  shows "tbl_keys (break_circle c t) = tbl_keys t"
    and "map_option (\<lambda>x. before (deps x)) (tbl_get (break_circle c t) u) =
           map_option (\<lambda>x. if u = last c then filter (\<lambda>v. v \<noteq> hd c) (before (deps x)) else before (deps x)) (tbl_get t u)"
    and "map_option (\<lambda>x. after (deps x)) (tbl_get (break_circle c t) u) =
           map_option (\<lambda>x. if u = hd c then filter (\<lambda>v. v \<noteq> last c) (after (deps x)) else after (deps x)) (tbl_get t u)"
proof -
  have "\<exists>f g. break_circle c t = tbl_modify (hd c) g (tbl_modify (last c) f t)
      \<and> (\<forall>x. before (deps (f x)) = filter (\<lambda>v. v \<noteq> hd c) (before (deps x)) \<and> after (deps (f x)) = after (deps x))
      \<and> (\<forall>x. after (deps (g x)) = filter (\<lambda>v. v \<noteq> last c) (after (deps x)) \<and> before (deps (g x)) = before (deps x))"
  proof (cases "2 \<le> length c")
    case True
    then have "break_circle c t = tbl_modify (hd c) (retain_after (last c)) (tbl_modify (last c) (retain_before (hd c)) t)"
      by (simp add: break_circle_def Let_def)
    then show ?thesis by (metis retain_simps)
  next
    case False
    with assms obtain a where a: "c = [a]" by (cases c; cases "tl c") auto
    have "tbl_modify a (\<lambda>x. retain_after a (retain_before a x)) t = tbl_modify a (retain_after a) (tbl_modify a (retain_before a) t)"
      by (auto simp: tbl_modify_def)
    then have "break_circle c t = tbl_modify (hd c) (retain_after (last c)) (tbl_modify (last c) (retain_before (hd c)) t)"
      by (simp add: a break_circle_def)
    then show ?thesis by (metis retain_simps)
  qed
  then obtain f g where b: "break_circle c t = tbl_modify (hd c) g (tbl_modify (last c) f t)"
    and f: "\<And>x. before (deps (f x)) = filter (\<lambda>v. v \<noteq> hd c) (before (deps x))" "\<And>x. after (deps (f x)) = after (deps x)"
    and g: "\<And>x. after (deps (g x)) = filter (\<lambda>v. v \<noteq> last c) (after (deps x))" "\<And>x. before (deps (g x)) = before (deps x)"
    by blast
  show "tbl_keys (break_circle c t) = tbl_keys t" by (simp add: b)
  show "map_option (\<lambda>x. before (deps x)) (tbl_get (break_circle c t) u) =
           map_option (\<lambda>x. if u = last c then filter (\<lambda>v. v \<noteq> hd c) (before (deps x)) else before (deps x)) (tbl_get t u)"
    unfolding b by (cases "tbl_get t u") (auto simp: f g)
  show "map_option (\<lambda>x. after (deps x)) (tbl_get (break_circle c t) u) =
           map_option (\<lambda>x. if u = hd c then filter (\<lambda>v. v \<noteq> last c) (after (deps x)) else after (deps x)) (tbl_get t u)"
    unfolding b by (cases "tbl_get t u") (auto simp: f g)
qed

lemma before_edge_iff:
  "before_edge t u v \<longleftrightarrow>
     (\<exists>l. map_option (\<lambda>x. before (deps x)) (tbl_get t u) = Some l \<and> v \<in> set l) \<and> v \<in> set (tbl_keys t)"
  by (auto simp: before_edge_def split: option.splits)

lemma after_edge_iff:
  "after_edge t u v \<longleftrightarrow>
     (\<exists>l. map_option (\<lambda>x. after (deps x)) (tbl_get t u) = Some l \<and> v \<in> set l) \<and> v \<in> set (tbl_keys t)"
  by (auto simp: after_edge_def split: option.splits)

lemma before_edge_break:
  "c \<noteq> [] \<Longrightarrow> before_edge (break_circle c t) u v \<longleftrightarrow> before_edge t u v \<and> (u, v) \<noteq> (last c, hd c)"
  unfolding before_edge_iff break_circle_eq by (cases "tbl_get t u") auto

lemma after_edge_break:
  "c \<noteq> [] \<Longrightarrow> after_edge (break_circle c t) u v \<longleftrightarrow> after_edge t u v \<and> (v, u) \<noteq> (last c, hd c)"
  unfolding after_edge_iff break_circle_eq by (cases "tbl_get t u") auto

lemma map_units_modify: "(\<And>x. g (f x) = g x) \<Longrightarrow> map_units g (tbl_modify k f t) = map_units g t"
  by (induction t) (auto simp: map_units_def tbl_modify_def)

lemma forget_order_break: "forget_order (break_circle c t) = forget_order t"
  by (simp add: forget_order_def break_circle_def Let_def map_units_modify retain_before_def retain_after_def upd_deps_def)

lemma break_circles_edges:
  "list_all (\<lambda>c. c \<noteq> []) cs \<Longrightarrow>
     (before_edge (fold break_circle cs t) u v \<longleftrightarrow> before_edge t u v \<and> (u, v) \<notin> broken_edges cs)
     \<and> (after_edge (fold break_circle cs t) u v \<longleftrightarrow> after_edge t u v \<and> (v, u) \<notin> broken_edges cs)
     \<and> forget_order (fold break_circle cs t) = forget_order t"
  by (induction cs arbitrary: t)
     (auto simp: before_edge_break after_edge_break forget_order_break broken_edges_def)

lemma length_break_circle [simp]: "length (fold break_circle cs t) = length t"
proof -
  have "length (break_circle c t) = length t" for c and t :: unit_table
    by (simp add: break_circle_def Let_def tbl_modify_def)
  then show ?thesis by (induction cs arbitrary: t) simp_all
qed

lemma is_cycle_mono: "is_cycle t' c \<Longrightarrow> (\<And>u v. before_edge t' u v \<Longrightarrow> before_edge t u v) \<Longrightarrow> is_cycle t c"
  by (auto simp: is_cycle_def elim: successively_mono)

lemma finite_before_rel: "before_rel t \<subseteq> set (tbl_keys t) \<times> set (tbl_keys t)" "finite (before_rel t)"
  "card (before_rel t) \<le> length t * length t"
proof -
  show sub: "before_rel t \<subseteq> set (tbl_keys t) \<times> set (tbl_keys t)" by (auto dest: before_edge_keys)
  then show "finite (before_rel t)" by (rule finite_subset) simp
  have "card (set (tbl_keys t)) \<le> length t" by (metis card_length length_map tbl_keys_def)
  then have "card (set (tbl_keys t) \<times> set (tbl_keys t)) \<le> length t * length t"
    by (simp add: card_cartesian_product mult_le_mono)
  then show "card (before_rel t) \<le> length t * length t"
    using card_mono [OF _ sub] by simp
qed

text \<open>What breaking cycles has done to a table.\<close>

definition broken_ok :: "unit_table \<Rightarrow> unit_table \<Rightarrow> unit_id list list \<Rightarrow> bool" where
  "broken_ok t t' bs \<longleftrightarrow>
     list_all (is_cycle t) bs
     \<and> {(u, v). before_edge t' u v} = {(u, v). before_edge t u v} - broken_edges bs
     \<and> {(u, v). after_edge t' u v} = {(u, v). after_edge t u v} - (broken_edges bs)\<inverse>
     \<and> forget_order t' = forget_order t"

lemma broken_ok_step:
  assumes cs: "list_all (is_cycle t) cs" and bs: "broken_ok (fold break_circle cs t) t' bs"
  shows "broken_ok t t' (cs @ bs)"
proof -
  have ne: "list_all (\<lambda>c. c \<noteq> []) cs" using cs by (auto simp: list_all_iff is_cycle_def)
  note e = break_circles_edges [OF ne, of t]
  have "list_all (is_cycle t) bs"
    using bs e by (auto simp: broken_ok_def list_all_iff intro: is_cycle_mono)
  moreover have "broken_edges (cs @ bs) = broken_edges cs \<union> broken_edges bs"
    by (simp add: broken_edges_def image_Un)
  ultimately show ?thesis
    using cs bs e unfolding broken_ok_def by auto
qed

lemma break_loop_ok:
  "card (before_rel t) < n \<Longrightarrow>
     \<exists>t' bs. break_loop n t broken = Some (t', broken @ bs) \<and> acyclic (before_rel t') \<and> broken_ok t t' bs
       \<and> (acyclic (before_rel t) \<longrightarrow> t' = t \<and> bs = [])"
proof (induction n arbitrary: t broken)
  case (Suc n)
  show ?case
  proof (cases rule: sanity_check_cases [of t])
    case ok
    then show ?thesis
      by (intro exI [of _ t] exI [of _ "[]"]) (simp add: broken_ok_def broken_edges_def)
  next
    case (circles cs)
    let ?t = "fold break_circle cs t"
    have ne: "list_all (\<lambda>c. c \<noteq> []) cs" using circles(3) by (auto simp: list_all_iff is_cycle_def)
    have rel: "before_rel ?t = before_rel t - broken_edges cs"
      using break_circles_edges [OF ne, of t] by auto
    have "is_cycle t (hd cs)" "hd cs \<in> set cs" using circles(2,3) by (auto simp: list_all_iff)
    then have "(last (hd cs), hd (hd cs)) \<in> before_rel t \<inter> broken_edges cs"
      by (auto simp: is_cycle_def broken_edges_def)
    then have "card (before_rel ?t) < card (before_rel t)"
      unfolding rel using finite_before_rel(2) by (intro psubset_card_mono) auto
    then obtain t' bs where t': "break_loop n ?t (broken @ cs) = Some (t', (broken @ cs) @ bs)"
        "acyclic (before_rel t')" "broken_ok ?t t' bs"
      using Suc.IH [of ?t "broken @ cs"] Suc.prems by auto
    with circles show ?thesis
      using broken_ok_step [OF circles(3) t'(3)]
      by (intro exI [of _ t'] exI [of _ "cs @ bs"]) simp
  qed
qed simp

text \<open>
  C8: Breaking cycles always ends, well within its iteration limit, with a table that has no
  ordering cycle.  It removes nothing but ordering edges, exactly one edge for each cycle it
  reports, from the \<open>before\<close> list of one end and from the \<open>after\<close> list of the other; each
  reported cycle is a cycle of the original table, and a table without cycles is left as it is.
\<close>

theorem break_cycles_ends_acyclic:
  "\<exists>t' bs. break_dependency_cycles t = Some (t', bs)
     \<and> sanity_check_dependencies t' = Some Ok \<and> acyclic {(u, v). before_edge t' u v}
     \<and> broken_ok t t' bs \<and> acyclic {(u, v). before_edge t u v} = (t' = t \<and> bs = [])"
proof -
  have "card (before_rel t) < length t * length t + 1" using finite_before_rel(3) [of t] by simp
  from break_loop_ok [OF this, of "[]"] obtain t' bs
    where t': "break_dependency_cycles t = Some (t', bs)" "acyclic (before_rel t')" "broken_ok t t' bs"
      "acyclic (before_rel t) \<longrightarrow> t' = t \<and> bs = []"
    unfolding break_dependency_cycles_def by auto
  have "sanity_check_dependencies t' = Some Ok"
    by (cases rule: sanity_check_cases [of t']) (use t'(2) in auto)
  with t' show ?thesis by blast
qed

lemma broken_ok_mirrored: "broken_ok t t' bs \<Longrightarrow> ordering_mirrored t \<Longrightarrow> ordering_mirrored t'"
  unfolding broken_ok_def ordering_mirrored_def set_eq_iff by auto

end
