(* ===== verification/Subgraph.thy ===== *)
theory Subgraph
  imports Units
begin

text \<open>
  What a start pulls in: \<open>collect_unit_start_subgraph\<close>
  (\<open>units/unitset_manipulation/activate.rs\<close>), and the pruning of the unit table to what the boot
  target, the isolate targets, the sockets and D-Bus can reach (\<open>prune_units\<close> in
  \<open>units/loading/dependency_resolving.rs\<close>).

  Lemmas: the collected ids are exactly the ids reachable over pull dependencies, and pruning
  keeps everything a start of the boot target pulls in.
\<close>

section \<open>The start closure\<close>

definition start_successors :: "unit \<Rightarrow> unit_id list" where
  "start_successors x =
     start_before_this (deps x) @ start_concurrently_with_this (deps x)
     @ (case specific x of Socket sc \<Rightarrow> sock_services sc | _ \<Rightarrow> [])"

definition new_start_ids :: "unit_table \<Rightarrow> unit_id list \<Rightarrow> unit_id list" where
  "new_start_ids t ids =
     filter (\<lambda>i. i \<notin> set ids)
       (dedup_ids (concat (map (\<lambda>i. case tbl_get t i of None \<Rightarrow> [] | Some x \<Rightarrow> start_successors x) ids)))"

text \<open>Everything a unit of the table mentions: the loop can add nothing else.\<close>

definition mentioned :: "unit_table \<Rightarrow> unit_id set" where
  "mentioned t = (\<Union>x \<in> snd ` set t. set (start_successors x))"

lemma tbl_get_snd: "tbl_get t k = Some x \<Longrightarrow> x \<in> snd ` set t"
  by (force simp: tbl_get_def dest: map_of_SomeD)

lemma set_new_start_ids:
  "set (new_start_ids t ids) =
     {v. \<exists>u x. u \<in> set ids \<and> tbl_get t u = Some x \<and> v \<in> set (start_successors x)} - set ids"
proof -
  have "v \<in> set (case tbl_get t i of None \<Rightarrow> [] | Some x \<Rightarrow> start_successors x) \<longleftrightarrow>
      (\<exists>x. tbl_get t i = Some x \<and> v \<in> set (start_successors x))" for i v
    by (cases "tbl_get t i") auto
  then show ?thesis by (auto simp: new_start_ids_def)
qed

lemma new_start_ids_mentioned: "set (new_start_ids t ids) \<subseteq> mentioned t - set ids"
  by (auto simp: set_new_start_ids mentioned_def dest!: tbl_get_snd)

function collect_unit_start_subgraph :: "unit_table \<Rightarrow> unit_id list \<Rightarrow> unit_id list" where
  "collect_unit_start_subgraph t ids =
     (let new_ids = new_start_ids t ids in
      if new_ids = [] then ids else collect_unit_start_subgraph t (ids @ new_ids))"
  by pat_completeness auto
termination
proof (relation "measure (\<lambda>(t, ids). card (mentioned t - set ids))")
  fix t ids and new_ids assume new: "new_ids = new_start_ids t ids" "new_ids \<noteq> []"
  have "finite (mentioned t)" by (simp add: mentioned_def)
  moreover have "mentioned t - set (ids @ new_ids) \<subset> mentioned t - set ids"
  proof (rule psubsetI)
    obtain i where "i \<in> set (new_start_ids t ids)" using new by (cases "new_start_ids t ids") auto
    then show "mentioned t - set (ids @ new_ids) \<noteq> mentioned t - set ids"
      using new_start_ids_mentioned [of t ids] new(1) by auto
  qed auto
  ultimately show "((t, ids @ new_ids), t, ids) \<in> measure (\<lambda>(t, ids). card (mentioned t - set ids))"
    by (auto intro: psubset_card_mono)
qed simp

declare collect_unit_start_subgraph.simps [simp del]

text \<open>The pull relation: \<open>Wants\<close>, \<open>Requires\<close>, \<open>BindsTo\<close>, \<open>Upholds\<close> and a socket's services.\<close>

definition pulls :: "unit_table \<Rightarrow> unit_id \<Rightarrow> unit_id \<Rightarrow> bool" where
  "pulls t u v \<longleftrightarrow>
     (case tbl_get t u of
        None \<Rightarrow> False
      | Some x \<Rightarrow>
          v \<in> set (wants (deps x)) \<or> v \<in> set (requires (deps x)) \<or> v \<in> set (binds_to (deps x))
          \<or> v \<in> set (upholds (deps x))
          \<or> (case specific x of Socket sc \<Rightarrow> v \<in> set (sock_services sc) | _ \<Rightarrow> False))"

abbreviation pull_rel :: "unit_table \<Rightarrow> (unit_id \<times> unit_id) set" where
  "pull_rel t \<equiv> {(u, v). pulls t u v}"

lemma set_start_successors:
  "set (start_successors x) =
     set (wants (deps x)) \<union> set (requires (deps x)) \<union> set (binds_to (deps x)) \<union> set (upholds (deps x))
     \<union> (case specific x of Socket sc \<Rightarrow> set (sock_services sc) | _ \<Rightarrow> {})"
  by (auto simp: start_successors_def start_before_this_def start_concurrently_with_this_def
      split: specific.split)

lemma pulls_iff: "pulls t u v \<longleftrightarrow> (\<exists>x. tbl_get t u = Some x \<and> v \<in> set (start_successors x))"
  by (auto simp: pulls_def set_start_successors split: option.split specific.split)

lemma set_new_start_ids_pulls: "set (new_start_ids t ids) = pull_rel t `` set ids - set ids"
  by (auto simp: set_new_start_ids pulls_iff)

lemma collect_closure: "set (collect_unit_start_subgraph t ids) = (pull_rel t)\<^sup>* `` set ids"
proof (induction t ids rule: collect_unit_start_subgraph.induct)
  case (1 t ids)
  show ?case
  proof (cases "new_start_ids t ids = []")
    case True
    then have "pull_rel t `` set ids \<subseteq> set ids"
      using set_new_start_ids_pulls [of t ids] by simp
    then have "(pull_rel t)\<^sup>* `` set ids = set ids"
      by (simp add: Image_closed_trancl)
    with True show ?thesis by (subst collect_unit_start_subgraph.simps) simp
  next
    case False
    let ?new = "new_start_ids t ids"
    have "set ?new \<subseteq> pull_rel t `` set ids" by (simp only: set_new_start_ids_pulls) blast
    then have "set ?new \<subseteq> (pull_rel t)\<^sup>* `` set ids" by blast
    then have "(pull_rel t)\<^sup>* `` (set ids \<union> set ?new) = (pull_rel t)\<^sup>* `` set ids"
      by (auto intro: rtrancl_trans)
    with "1" [OF refl False] False show ?thesis
      by (subst collect_unit_start_subgraph.simps) simp
  qed
qed

lemma collect_prefix: "\<exists>new. collect_unit_start_subgraph t ids = ids @ new \<and> set ids \<inter> set new = {}"
proof (induction t ids rule: collect_unit_start_subgraph.induct)
  case (1 t ids)
  show ?case
  proof (cases "new_start_ids t ids = []")
    case True
    then show ?thesis by (subst collect_unit_start_subgraph.simps) simp
  next
    case False
    from "1" [OF refl False] obtain new
      where "collect_unit_start_subgraph t (ids @ new_start_ids t ids) = (ids @ new_start_ids t ids) @ new"
        "set (ids @ new_start_ids t ids) \<inter> set new = {}" by blast
    with False show ?thesis
      by (subst collect_unit_start_subgraph.simps) (auto simp: set_new_start_ids)
  qed
qed

text \<open>
  Collecting the start subgraph always ends, with exactly the ids that are reachable from
  the given ones over \<open>Wants\<close>, \<open>Requires\<close>, \<open>BindsTo\<close>, \<open>Upholds\<close> and the services of sockets: the
  least set that holds the given ids and is closed under pulling.  The given ids stay in front.
\<close>

theorem collect_is_pull_closure:
  "set (collect_unit_start_subgraph t ids) = {(u, v). pulls t u v}\<^sup>* `` set ids
   \<and> set ids \<subseteq> set (collect_unit_start_subgraph t ids)
   \<and> {(u, v). pulls t u v} `` set (collect_unit_start_subgraph t ids) \<subseteq> set (collect_unit_start_subgraph t ids)
   \<and> (\<exists>new. collect_unit_start_subgraph t ids = ids @ new)"
  using collect_prefix [of t ids] unfolding collect_closure by (auto intro: rtrancl_into_rtrancl)

section \<open>Pruning\<close>

definition find_start_unit :: "string \<Rightarrow> unit_table \<Rightarrow> unit_id option" where
  "find_start_unit target t =
     fold (\<lambda>(k, x) result.
             if name (unit_id x) = target \<or> list_ex (\<lambda>a. a = target) (aliases (unit_conf x))
             then Some (unit_id x) else result) t None"

definition push_new :: "unit_id \<Rightarrow> unit_id list \<Rightarrow> unit_id list" where
  "push_new i ids = (if i \<in> set ids then ids else ids @ [i])"

definition keep_isolate_targets :: "unit_table \<Rightarrow> unit_id list \<Rightarrow> unit_id list" where
  "keep_isolate_targets t ids =
     (let isolate = map (\<lambda>(k, x). unit_id x) (filter (\<lambda>(k, x). allow_isolate (unit_conf x)) t);
          ids' = fold push_new isolate ids;
          added = list_ex (\<lambda>i. i \<notin> set ids) isolate
      in if added then collect_unit_start_subgraph t ids' else ids')"

definition socket_activation_services :: "unit_table \<Rightarrow> unit_id list \<Rightarrow> unit_id list" where
  "socket_activation_services t ids =
     concat (map (\<lambda>i. case tbl_get t i of
                        None \<Rightarrow> []
                      | Some x \<Rightarrow> (case specific x of
                                    Socket sc \<Rightarrow> filter (\<lambda>s. s \<notin> set ids) (sock_services sc)
                                  | _ \<Rightarrow> [])) ids)"

definition dbus_activation_services :: "unit_table \<Rightarrow> unit_id list \<Rightarrow> unit_id list" where
  "dbus_activation_services t ids =
     map fst (filter (\<lambda>(i, x). i \<notin> set ids
                        \<and> (case specific x of Service sc \<Rightarrow> srvc_dbus_name sc \<noteq> None | _ \<Rightarrow> False)) t)"

definition ids_to_keep :: "unit_table \<Rightarrow> unit_id \<Rightarrow> unit_id list" where
  "ids_to_keep t start =
     (let ids1 = keep_isolate_targets t (collect_unit_start_subgraph t [start]);
          ids2 = ids1 @ socket_activation_services t ids1
      in ids2 @ dbus_activation_services t ids2)"

definition kept_or_device :: "unit_id list \<Rightarrow> unit_id \<Rightarrow> bool" where
  "kept_or_device keep i \<longleftrightarrow> i \<in> set keep \<or> kind i = Kind_Device"

definition prune_specific :: "unit_id list \<Rightarrow> specific \<Rightarrow> specific" where
  "prune_specific keep s =
     (case s of
        Service sc \<Rightarrow> Service (sc\<lparr>srvc_sockets := filter (kept_or_device keep) (srvc_sockets sc)\<rparr>)
      | Socket sc \<Rightarrow> Socket (sc\<lparr>sock_services := filter (kept_or_device keep) (sock_services sc)\<rparr>)
      | s' \<Rightarrow> s')"

definition prune_deps :: "unit_id list \<Rightarrow> dependencies \<Rightarrow> dependencies" where
  "prune_deps keep d = d\<lparr>
     before := filter (kept_or_device keep) (before d), after := filter (kept_or_device keep) (after d),
     requires := filter (kept_or_device keep) (requires d), wants := filter (kept_or_device keep) (wants d),
     required_by := filter (kept_or_device keep) (required_by d),
     wanted_by := filter (kept_or_device keep) (wanted_by d),
     conflicts := filter (kept_or_device keep) (conflicts d),
     conflicted_by := filter (kept_or_device keep) (conflicted_by d)\<rparr>"

definition prune_unit :: "unit_id list \<Rightarrow> unit \<Rightarrow> unit" where
  "prune_unit keep x =
     dedup_dependencies (upd_deps (prune_deps keep) (x\<lparr>specific := prune_specific keep (specific x)\<rparr>))"

definition prune_units :: "string \<Rightarrow> unit_table \<Rightarrow> string + unit_table" where
  "prune_units target t =
     (case find_start_unit target t of
        None \<Rightarrow> Inl (''Target unit '' @ target @ '' not found'')
      | Some start \<Rightarrow>
          let keep = ids_to_keep t start;
              ids_to_remove = filter (\<lambda>i. i \<notin> set keep) (tbl_keys t)
          in Inr (map_units (prune_unit keep) (fold tbl_remove ids_to_remove t)))"

section \<open>What pruning keeps\<close>

definition isolate_targets :: "unit_table \<Rightarrow> unit_id set" where
  "isolate_targets t = {i. \<exists>x. x \<in> snd ` set t \<and> allow_isolate (unit_conf x) \<and> unit_id x = i}"

lemma set_fold_push_new: "set (fold push_new is ids) = set ids \<union> set is"
  by (induction "is" arbitrary: ids) (auto simp: push_new_def)

lemma rtrancl_closed: "R `` A \<subseteq> A \<Longrightarrow> R\<^sup>* `` A = A"
  by (rule Image_closed_trancl)

lemma set_keep_isolate_targets:
  "set (keep_isolate_targets t (collect_unit_start_subgraph t ids)) =
     (pull_rel t)\<^sup>* `` (set ids \<union> isolate_targets t)"
proof -
  let ?iso = "map (\<lambda>(k, x). unit_id x) (filter (\<lambda>(k, x). allow_isolate (unit_conf x)) t)"
  let ?c = "collect_unit_start_subgraph t ids"
  have iso: "set ?iso = isolate_targets t" by (force simp: isolate_targets_def)
  have idem: "(pull_rel t)\<^sup>* `` ((pull_rel t)\<^sup>* `` A \<union> B) = (pull_rel t)\<^sup>* `` (A \<union> B)" for A B
    by (auto intro: rtrancl_trans)
  show ?thesis
  proof (cases "list_ex (\<lambda>i. i \<notin> set ?c) ?iso")
    case True
    then have "set (keep_isolate_targets t ?c) = (pull_rel t)\<^sup>* `` (set ?c \<union> set ?iso)"
      by (simp add: keep_isolate_targets_def Let_def collect_closure set_fold_push_new)
    then show ?thesis by (simp only: collect_closure iso idem)
  next
    case False
    then have sub: "set ?iso \<subseteq> set ?c" by (auto simp: list_ex_iff)
    have "set (keep_isolate_targets t ?c) = set ?c \<union> set ?iso"
      using False by (simp add: keep_isolate_targets_def Let_def set_fold_push_new)
    also have "\<dots> = set ?c" using sub by blast
    finally have "set (keep_isolate_targets t ?c) = (pull_rel t)\<^sup>* `` set ids" by (simp only: collect_closure)
    moreover have "(pull_rel t)\<^sup>* `` isolate_targets t \<subseteq> (pull_rel t)\<^sup>* `` set ids"
      using sub unfolding iso collect_closure by (auto intro: rtrancl_trans)
    ultimately show ?thesis by (auto simp: Image_Un)
  qed
qed

lemma closure_kept: "(pull_rel t)\<^sup>* `` insert s (isolate_targets t) \<subseteq> set (ids_to_keep t s)"
  using set_keep_isolate_targets [of t "[s]"] by (auto simp: ids_to_keep_def Let_def)

lemma tbl_get_fold_remove:
  "tbl_get (fold tbl_remove is t) k = (if k \<in> set is then None else tbl_get t k)"
  by (induction "is" arbitrary: t) auto

lemma prune_unit_lists:
  "set (wants (deps (prune_unit keep x))) = {i \<in> set (wants (deps x)). kept_or_device keep i}"
  "set (requires (deps (prune_unit keep x))) = {i \<in> set (requires (deps x)). kept_or_device keep i}"
  "set (binds_to (deps (prune_unit keep x))) = set (binds_to (deps x))"
  "set (upholds (deps (prune_unit keep x))) = set (upholds (deps x))"
  "set (before (deps (prune_unit keep x))) = {i \<in> set (before (deps x)). kept_or_device keep i}"
  "set (after (deps (prune_unit keep x))) = {i \<in> set (after (deps x)). kept_or_device keep i}"
  by (auto simp: prune_unit_def dedup_dependencies_def dedup_def prune_deps_def)

lemma prune_unit_specific: "specific (prune_unit keep x) = prune_specific keep (specific x)"
  by (simp add: prune_unit_def dedup_dependencies_def)

lemma prune_unit_successors:
  "set (start_successors x) \<subseteq> set keep \<Longrightarrow>
     set (start_successors (prune_unit keep x)) = set (start_successors x)"
  unfolding set_start_successors prune_unit_lists prune_unit_specific
  by (cases "specific x") (auto simp: prune_specific_def kept_or_device_def)

lemma rtrancl_Image_agree:
  assumes "\<And>u v. u \<in> R\<^sup>* `` A \<Longrightarrow> (u, v) \<in> R \<longleftrightarrow> (u, v) \<in> S"
  shows "S\<^sup>* `` A = R\<^sup>* `` A"
proof (intro set_eqI iffI)
  fix v assume "v \<in> S\<^sup>* `` A"
  then obtain a where a: "a \<in> A" "(a, v) \<in> S\<^sup>*" by blast
  from a(2) have "(a, v) \<in> R\<^sup>*"
    by (induction rule: rtrancl_induct) (use a(1) assms in \<open>auto intro: rtrancl_into_rtrancl\<close>)
  with a(1) show "v \<in> R\<^sup>* `` A" by blast
next
  fix v assume "v \<in> R\<^sup>* `` A"
  then obtain a where a: "a \<in> A" "(a, v) \<in> R\<^sup>*" by blast
  from a(2) have "(a, v) \<in> S\<^sup>*"
    by (induction rule: rtrancl_induct) (use a(1) assms in \<open>auto intro: rtrancl_into_rtrancl\<close>)
  with a(1) show "v \<in> S\<^sup>* `` A" by blast
qed

lemma prune_units_get:
  assumes "find_start_unit target t = Some s"
  shows "\<exists>t'. prune_units target t = Inr t' \<and> set (tbl_keys t') = set (tbl_keys t) \<inter> set (ids_to_keep t s)
    \<and> (\<forall>k. tbl_get t' k = (if k \<in> set (ids_to_keep t s) then map_option (prune_unit (ids_to_keep t s)) (tbl_get t k) else None))"
proof -
  let ?keep = "ids_to_keep t s"
  define t' where
    "t' = map_units (prune_unit ?keep) (fold tbl_remove (filter (\<lambda>i. i \<notin> set ?keep) (tbl_keys t)) t)"
  have eq: "prune_units target t = Inr t'" by (simp add: prune_units_def assms Let_def t'_def)
  have get: "tbl_get t' k = (if k \<in> set ?keep then map_option (prune_unit ?keep) (tbl_get t k) else None)" for k
    using tbl_keys_get [of k t] by (auto simp: tbl_get_fold_remove t'_def)
  have "set (tbl_keys t') = set (tbl_keys t) \<inter> set ?keep"
    by (intro set_eqI) (simp only: tbl_keys_get Int_iff get, auto)
  then show ?thesis using eq get by blast
qed

text \<open>
  C9: Pruning fails only when no unit has the target's name or alias.  Otherwise it removes
  exactly the units outside the keep list, and it does not change what a start pulls in: for the boot
  target and for each isolate target by itself, the pull closure is the same before and after, every
  unit in it pulls in the same units directly, and all its loaded units stay loaded.
\<close>

theorem prune_keeps_start_closure:
  "case prune_units target t of
     Inl _ \<Rightarrow> find_start_unit target t = None
   | Inr t' \<Rightarrow>
       (\<exists>s. find_start_unit target t = Some s
          \<and> set (tbl_keys t') = set (tbl_keys t) \<inter> set (ids_to_keep t s)
          \<and> (\<forall>w\<in>insert s (isolate_targets t).
               {v. (pulls t')\<^sup>*\<^sup>* w v} = {v. (pulls t)\<^sup>*\<^sup>* w v}
               \<and> (\<forall>u v. (pulls t)\<^sup>*\<^sup>* w u \<longrightarrow> pulls t' u v = pulls t u v)
               \<and> {v. (pulls t)\<^sup>*\<^sup>* w v} \<inter> set (tbl_keys t) \<subseteq> set (tbl_keys t')))"
proof (cases "find_start_unit target t")
  case None
  then show ?thesis by (simp add: prune_units_def)
next
  case (Some s)
  let ?keep = "ids_to_keep t s" and ?C = "(pull_rel t)\<^sup>* `` insert s (isolate_targets t)"
  obtain t' where eq: "prune_units target t = Inr t'" and keys: "set (tbl_keys t') = set (tbl_keys t) \<inter> set ?keep"
    and get: "\<And>k. tbl_get t' k = (if k \<in> set ?keep then map_option (prune_unit ?keep) (tbl_get t k) else None)"
    using prune_units_get [OF Some] by blast
  have same: "(u, v) \<in> pull_rel t \<longleftrightarrow> (u, v) \<in> pull_rel t'" if u: "u \<in> ?C" for u v
  proof (cases "tbl_get t u")
    case None
    then show ?thesis by (simp add: pulls_iff get)
  next
    case (Some x)
    have "set (start_successors x) \<subseteq> ?C"
    proof
      fix w assume "w \<in> set (start_successors x)"
      then have "(u, w) \<in> pull_rel t" using Some by (simp add: pulls_iff)
      with u show "w \<in> ?C" by (blast intro: rtrancl_into_rtrancl)
    qed
    then have "set (start_successors x) \<subseteq> set ?keep" using closure_kept by blast
    moreover have "u \<in> set ?keep" using u closure_kept by blast
    ultimately show ?thesis
      by (simp add: pulls_iff get Some prune_unit_successors)
  qed
  have star: "(pulls T)\<^sup>*\<^sup>* u v \<longleftrightarrow> (u, v) \<in> (pull_rel T)\<^sup>*" for T u v
    by (simp add: rtranclp_rtrancl_eq)
  have "(pull_rel t')\<^sup>* `` {w} = (pull_rel t)\<^sup>* `` {w}
      \<and> (\<forall>u v. (w, u) \<in> (pull_rel t)\<^sup>* \<longrightarrow> pulls t' u v = pulls t u v)
      \<and> (pull_rel t)\<^sup>* `` {w} \<inter> set (tbl_keys t) \<subseteq> set (tbl_keys t')"
    if w: "w \<in> insert s (isolate_targets t)" for w
  proof (intro conjI)
    have sub: "(pull_rel t)\<^sup>* `` {w} \<subseteq> ?C" using w by blast
    then show "(pull_rel t')\<^sup>* `` {w} = (pull_rel t)\<^sup>* `` {w}" by (intro rtrancl_Image_agree same) blast
    show "\<forall>u v. (w, u) \<in> (pull_rel t)\<^sup>* \<longrightarrow> pulls t' u v = pulls t u v" using same sub by blast
    show "(pull_rel t)\<^sup>* `` {w} \<inter> set (tbl_keys t) \<subseteq> set (tbl_keys t')" using sub closure_kept [of t s] keys by blast
  qed
  moreover have "Collect ((pulls T)\<^sup>*\<^sup>* w) = (pull_rel T)\<^sup>* `` {w}" for T w using star by blast
  ultimately show ?thesis using keys unfolding eq by (simp add: Some star) blast
qed

text \<open>A boot target, an isolate target with a service, and a service nobody pulls in.\<close>

abbreviation boot_target :: unit_id where "boot_target \<equiv> UnitId Kind_Target ''b.target''"
abbreviation isolated_target :: unit_id where "isolated_target \<equiv> UnitId Kind_Target ''i.target''"
abbreviation isolated_service :: unit_id where "isolated_service \<equiv> UnitId Kind_Service ''s.service''"
abbreviation idle_service :: unit_id where "idle_service \<equiv> UnitId Kind_Service ''x.service''"

definition isolate_table :: unit_table where
  "isolate_table =
     [(boot_target, plain_unit boot_target no_dependencies),
      (isolated_target, (plain_unit isolated_target (no_dependencies\<lparr>wants := [isolated_service]\<rparr>))
         \<lparr>unit_conf := plain_config\<lparr>allow_isolate := True\<rparr>\<rparr>),
      (isolated_service, plain_unit isolated_service no_dependencies), (idle_service, plain_unit idle_service no_dependencies)]"

lemma prune_keeps_start_closure_witness:
  "\<exists>t'. prune_units ''b.target'' isolate_table = Inr t'
    \<and> {v. (pulls t')\<^sup>*\<^sup>* isolated_target v} = {v. (pulls isolate_table)\<^sup>*\<^sup>* isolated_target v}
    \<and> isolated_service \<in> set (tbl_keys t') \<and> idle_service \<notin> set (tbl_keys t')"
proof -
  have "find_start_unit ''b.target'' isolate_table = Some boot_target" by code_simp
  moreover have "isolated_service \<in> set (ids_to_keep isolate_table boot_target)"
    "idle_service \<notin> set (ids_to_keep isolate_table boot_target)" by code_simp+
  moreover have "isolated_target \<in> isolate_targets isolate_table"
    by (simp add: isolate_targets_def isolate_table_def plain_unit_def ex_disj_distrib conj_disj_distribR)
  moreover have "isolated_service \<in> set (tbl_keys isolate_table)" by (simp add: isolate_table_def tbl_keys_def)
  ultimately show ?thesis
    using prune_keeps_start_closure [of "''b.target''" isolate_table] by (auto split: sum.splits)
qed

end
