(* ===== verification/JobGraph.thy ===== *)
theory JobGraph
  imports Jobs SanityCheck Subgraph
begin

text \<open>
  The job-graph dispatch of \<open>units/unitset_manipulation/activate.rs\<close>: which ordering
  dependencies still block a unit (\<open>unstarted_deps\<close>), the installation of a start closure
  (\<open>activate_needed_units_via_job_graph\<close>, up to its wait loop) and one pass of the dispatcher
  (\<open>drive_run_queue\<close>).  A pass reads the unit table \<open>t\<close> in its first phase.  In its second
  phase it reads the status of each popped unit and the clock anew, while the worker threads
  run; these observations are an argument.  The activation itself, on the worker threads, is
  not modelled: a pass returns the units it hands to them.

  Lemmas: what a pass hands out is ready and never started, and a pass over an acyclic ordering
  whose blockers all have jobs makes progress.
\<close>

section \<open>What blocks a unit\<close>

definition dep_ready :: "unit_table \<Rightarrow> unit_id list option \<Rightarrow> dependencies \<Rightarrow> unit_id \<Rightarrow> bool" where
  "dep_ready t activation_set d e =
     (let required = e \<in> set (requires d) \<or> e \<in> set (binds_to d);
          pulled = e \<in> set (wants d) \<or> e \<in> set (upholds d)
      in case tbl_get t e of
           None \<Rightarrow> \<not> (required \<and> kind e = Kind_Device)
         | Some y \<Rightarrow>
             if required then is_started (status y)
             else if required \<or> pulled then
               (case status y of Started _ \<Rightarrow> True | Stopped _ _ \<Rightarrow> True | _ \<Rightarrow> False)
             else
               (case status y of
                  NeverStarted \<Rightarrow> (case activation_set of Some s \<Rightarrow> e \<notin> set s | None \<Rightarrow> True)
                | Starting \<Rightarrow> False
                | _ \<Rightarrow> True))"

definition unstarted_deps :: "unit_table \<Rightarrow> unit_id \<Rightarrow> unit_id list option \<Rightarrow> unit_id list" where
  "unstarted_deps t u activation_set =
     (case tbl_get t u of
        None \<Rightarrow> []
      | Some x \<Rightarrow> filter (\<lambda>e. \<not> dep_ready t activation_set (deps x) e) (after (deps x)))"

definition is_ready :: "unit_table \<Rightarrow> unit_id list \<Rightarrow> unit_id \<Rightarrow> bool" where
  "is_ready t activation_set u \<longleftrightarrow>
     kind u \<noteq> Kind_Device \<and> unstarted_deps t u (Some activation_set) = []"

section \<open>Installing a closure\<close>

fun create_all :: "unit_id list \<Rightarrow> registry \<Rightarrow> registry outcome" where
  "create_all [] r = Returns r"
| "create_all (u # us) r =
     (case create u Start Regular Replace r of
        Panics \<Rightarrow> Panics
      | Returns (r', _, _) \<Rightarrow> create_all us r')"

definition install_closure :: "unit_table \<Rightarrow> unit_id \<Rightarrow> registry \<Rightarrow> registry outcome" where
  "install_closure t target r =
     (let subgraph = collect_unit_start_subgraph t [target] in
      case create_all subgraph r of
        Panics \<Rightarrow> Panics
      | Returns r' \<Rightarrow> Returns (fst (enqueue_ready (is_ready t subgraph) r')))"

section \<open>One dispatcher pass\<close>

definition unit_status_of :: "unit_table \<Rightarrow> unit_id \<Rightarrow> unit_status option" where
  "unit_status_of t u = map_option status (tbl_get t u)"

text \<open>The jobs of one state among the start jobs, with their units.\<close>

definition start_jobs :: "job_state \<Rightarrow> registry \<Rightarrow> (job_id \<times> unit_id) list" where
  "start_jobs s r =
     map (\<lambda>(i, j). (job_id j, job_unit j))
       (filter (\<lambda>(i, j). job_state j = s \<and> job_kind j = Start) (jobs r))"

definition retire_running_one :: "unit_table \<Rightarrow> job_id \<times> unit_id \<Rightarrow> registry \<Rightarrow> registry" where
  "retire_running_one t ju r =
     (case ju of (i, u) \<Rightarrow>
        (case unit_status_of t u of
           None \<Rightarrow> fst (finish i Canceled r)
         | Some (Started _) \<Rightarrow> fst (finish i Done r)
         | Some (Stopped _ errs) \<Rightarrow> fst (finish i (if errs = [] then Done else Failed) r)
         | _ \<Rightarrow> r))"

definition retire_running :: "unit_table \<Rightarrow> registry \<Rightarrow> registry" where
  "retire_running t r = fold (retire_running_one t) (start_jobs Job_Running r) r"

definition waiting_done :: "unit_table \<Rightarrow> registry \<Rightarrow> job_id list" where
  "waiting_done t r =
     map fst (filter (\<lambda>(i, u). case unit_status_of t u of Some (Started _) \<Rightarrow> True | _ \<Rightarrow> False)
                (start_jobs Job_Waiting r))"

definition finish_all :: "job_result \<Rightarrow> job_id list \<Rightarrow> registry \<Rightarrow> registry" where
  "finish_all res is r = fold (\<lambda>i r. fst (finish i res r)) is r"

text \<open>Phase 1: retire what is done, time out what is late, prime what is ready.\<close>

definition drive_retire :: "unit_table \<Rightarrow> nat \<Rightarrow> registry \<Rightarrow> registry" where
  "drive_retire t now r =
     (let activation_set = map (\<lambda>(i, j). job_unit j) (jobs r);
          r1 = retire_running t r;
          r2 = finish_all Done (waiting_done t r1) r1;
          (r3, expired) = pop_expired now r2;
          r4 = finish_all Timeout expired r3
      in fst (enqueue_ready (is_ready t activation_set) r4))"

lemma pop_ready_loop_shorter:
  "snd (pop_ready_loop q r) = Some i \<Longrightarrow> List.length (run_queue (fst (pop_ready_loop q r))) < List.length q"
  by (induction q r rule: pop_ready_loop.induct) (auto split: if_splits)

lemma pop_ready_shorter:
  "(r', Some i) = pop_ready r \<Longrightarrow> List.length (run_queue r') < List.length (run_queue r)"
  using pop_ready_loop_shorter [of "run_queue r" r i] by (cases "pop_ready r") (simp add: pop_ready_def)

lemma run_queue_finish: "List.length (run_queue (fst (finish i res r))) \<le> List.length (run_queue r)"
  by (auto simp: finish_def Let_def split: option.split)

text \<open>Phase 2: pop and hand out, with the status and the time seen for each popped job.\<close>

definition start_timeout :: nat where "start_timeout = 90 * 10 ^ 9"

function dispatch_loop ::
  "(job_id \<Rightarrow> unit_status option \<times> nat) \<Rightarrow> registry \<Rightarrow> registry \<times> unit_id list" where
  "dispatch_loop seen r =
     (case pop_ready r of
        (r1, None) \<Rightarrow> (r1, [])
      | (r1, Some i) \<Rightarrow>
          (case get_job r1 i of
             None \<Rightarrow> dispatch_loop seen r1
           | Some j \<Rightarrow>
               if job_kind j \<noteq> Start then dispatch_loop seen r1
               else (case fst (seen i) of
                       Some NeverStarted \<Rightarrow>
                         (case dispatch_loop seen (set_deadline i (snd (seen i) + start_timeout) (set_running i r1)) of
                            (r2, us) \<Rightarrow> (r2, job_unit j # us))
                     | Some (Started _) \<Rightarrow> dispatch_loop seen (fst (finish i Done r1))
                     | _ \<Rightarrow> dispatch_loop seen (set_running i r1))))"
  by pat_completeness auto
termination
  by (relation "measure (\<lambda>(seen, r). List.length (run_queue r))")
     (auto dest: pop_ready_shorter pop_ready_shorter [THEN le_less_trans [OF run_queue_finish]] simp: set_deadline_def)

declare dispatch_loop.simps [simp del]

definition drive_run_queue ::
  "unit_table \<Rightarrow> nat \<Rightarrow> (job_id \<Rightarrow> unit_status option \<times> nat) \<Rightarrow> registry \<Rightarrow> registry \<times> unit_id list" where
  "drive_run_queue t now seen r =
     (if is_empty r then (r, []) else dispatch_loop seen (drive_retire t now r))"

section \<open>Registry invariants along a pass\<close>

definition regular :: "registry \<Rightarrow> bool" where
  "regular r \<longleftrightarrow> registry_inv r \<and> ids_below r"

lemma regular_finish: "regular r \<Longrightarrow> regular (fst (finish i res r))"
  by (simp add: regular_def registry_inv_finish ids_below_finish)

lemma regular_step: "regular r \<Longrightarrow> step_ok r r' \<Longrightarrow> regular r'"
  by (simp add: regular_def step_ok_def)

lemma regular_fold:
  "(\<And>x r. regular r \<Longrightarrow> regular (f x r)) \<Longrightarrow> regular r \<Longrightarrow> regular (fold f xs r)"
  by (induction xs arbitrary: r) simp_all

lemma regular_retire_running: "regular r \<Longrightarrow> regular (retire_running t r)"
  unfolding retire_running_def
  by (rule regular_fold)
     (auto simp: retire_running_one_def regular_finish split: prod.split option.split unit_status.split)

lemma regular_finish_all: "regular r \<Longrightarrow> regular (finish_all res is r)"
  unfolding finish_all_def by (rule regular_fold) (simp_all add: regular_finish)

lemma regular_drive_retire: "regular r \<Longrightarrow> regular (drive_retire t now r)"
  unfolding drive_retire_def Let_def case_prod_beta
  using step_ok_pop_expired step_ok_enqueue_ready regular_step regular_retire_running regular_finish_all
  by (metis regular_def)

lemma get_job_finish: "get_job (fst (finish i res r)) k = (if k = i then None else get_job r k)"
  by (auto simp: get_job_def finish_gone finish_jobs_other)

lemma run_queue_finish_subset: "set (run_queue (fst (finish i res r))) \<subseteq> set (run_queue r)"
  by (auto simp: finish_def Let_def split: option.split)

text \<open>Retiring only removes jobs: what is left is as it was.\<close>

definition shrinks :: "registry \<Rightarrow> registry \<Rightarrow> bool" where
  "shrinks r r' \<longleftrightarrow>
     (\<forall>i. get_job r' i = None \<or> get_job r' i = get_job r i) \<and> set (run_queue r') \<subseteq> set (run_queue r)"

lemma shrinks_refl: "shrinks r r"
  by (simp add: shrinks_def)

lemma shrinks_trans: "shrinks r r1 \<Longrightarrow> shrinks r1 r2 \<Longrightarrow> shrinks r r2"
  unfolding shrinks_def by (metis subset_trans)

lemma shrinks_finish: "shrinks r (fst (finish i res r))"
  using run_queue_finish_subset by (auto simp: shrinks_def get_job_finish)

lemma shrinks_fold: "(\<And>x r. shrinks r (f x r)) \<Longrightarrow> shrinks r (fold f xs r)"
proof (induction xs arbitrary: r)
  case (Cons x xs)
  then show ?case using shrinks_trans [OF Cons.prems(1) [of r x]] by simp
qed (simp add: shrinks_refl)

lemma shrinks_retire_running: "shrinks r (retire_running t r)"
  unfolding retire_running_def
  by (rule shrinks_fold)
     (auto simp: retire_running_one_def shrinks_finish shrinks_refl split: prod.split option.split unit_status.split)

lemma get_job_finish_all: "get_job (finish_all res is r) k = (if k \<in> set is then None else get_job r k)"
  unfolding finish_all_def by (induction "is" arbitrary: r) (auto simp: get_job_finish)

lemma shrinks_finish_all: "shrinks r (finish_all res is r)"
  unfolding finish_all_def by (rule shrinks_fold) (rule shrinks_finish)

lemma pop_expired_get:
  "get_job (fst (pop_expired now r)) k =
     (if k \<in> set (snd (pop_expired now r)) then map_option (job_deadline_update (\<lambda>_. None)) (get_job r k)
      else get_job r k)"
  "run_queue (fst (pop_expired now r)) = run_queue r"
  by (simp_all add: pop_expired_def Let_def get_job_def tbl_get_fold_modify_const)

text \<open>A job that timed out is finished, so clearing its deadline leaves no trace.\<close>

lemma shrinks_expire:
  "shrinks r (finish_all Timeout (snd (pop_expired now r)) (fst (pop_expired now r)))"
  using shrinks_finish_all [of "fst (pop_expired now r)" Timeout "snd (pop_expired now r)"]
  by (auto simp: shrinks_def get_job_finish_all pop_expired_get)

abbreviation job_units :: "registry \<Rightarrow> unit_id list" where
  "job_units r \<equiv> map (\<lambda>(i, j). job_unit j) (jobs r)"

lemma drive_retire_cases:
  assumes "regular r"
  obtains r' where "drive_retire t now r = fst (enqueue_ready (is_ready t (job_units r)) r')"
    "regular r'" "shrinks r r'"
proof -
  let ?r1 = "retire_running t r"
  let ?r2 = "finish_all Done (waiting_done t ?r1) ?r1"
  let ?r4 = "finish_all Timeout (snd (pop_expired now ?r2)) (fst (pop_expired now ?r2))"
  have 2: "regular ?r2" using assms by (intro regular_finish_all regular_retire_running)
  then have "regular (fst (pop_expired now ?r2))"
    using step_ok_pop_expired regular_step unfolding regular_def by blast
  then have 4: "regular ?r4" by (rule regular_finish_all)
  have s: "shrinks r ?r4"
    using shrinks_trans [OF shrinks_trans [OF shrinks_retire_running shrinks_finish_all] shrinks_expire] .
  show ?thesis
    by (rule that [OF _ 4 s]) (simp add: drive_retire_def Let_def case_prod_beta)
qed

section \<open>The dispatch loop\<close>

lemma pop_ready_cases:
  assumes "regular r"
  obtains (empty) r' where "pop_ready r = (r', None)" "pending_jobs r = []" "\<And>k. get_job r' k = get_job r k" "regular r'"
  | (pop) i q j where "pop_ready r = (set_running i (r\<lparr>run_queue := q\<rparr>), Some i)" "is_waiting r i"
      "get_job r i = Some j" "pending_jobs r = i # filter (is_waiting r) q" "i \<notin> set q"
      "regular (set_running i (r\<lparr>run_queue := q\<rparr>))"
proof -
  have reg: "regular (fst (pop_ready r))"
    using assms step_ok_pop_ready regular_step unfolding regular_def by blast
  have d: "pending_jobs r = filter (is_waiting r) (dropWhile (\<lambda>i. \<not> is_waiting r i) (run_queue r))"
    by (rule filter_dropWhile_not)
  show ?thesis
  proof (cases "dropWhile (\<lambda>i. \<not> is_waiting r i) (run_queue r)")
    case Nil
    then have "pop_ready r = (r\<lparr>run_queue := []\<rparr>, None)"
      by (simp add: pop_ready_def pop_ready_loop_eq del: dropWhile_eq_Nil_conv)
    then show ?thesis using Nil d reg by (intro empty) (simp_all add: get_job_def)
  next
    case (Cons i q)
    then have w: "is_waiting r i" using hd_dropWhile [of "\<lambda>i. \<not> is_waiting r i" "run_queue r"] by auto
    then obtain j where j: "get_job r i = Some j" by (auto simp: is_waiting_iff get_job_def)
    have eq: "pop_ready r = (set_running i (r\<lparr>run_queue := q\<rparr>), Some i)"
      by (simp add: pop_ready_def pop_ready_loop_eq Cons)
    have "distinct (i # q)"
      unfolding Cons [symmetric] using assms by (simp add: regular_def registry_inv_wf)
    then show ?thesis using d reg by (intro pop [OF eq w j]) (simp_all add: Cons w eq)
  qed
qed

definition handed_out :: "(job_id \<Rightarrow> unit_status option \<times> nat) \<Rightarrow> registry \<Rightarrow> job_id list \<Rightarrow> unit_id list" where
  "handed_out seen r is =
     map (\<lambda>i. job_unit (the (get_job r i)))
       (filter (\<lambda>i. is_waiting r i \<and> map_option job_kind (get_job r i) = Some Start
                     \<and> fst (seen i) = Some NeverStarted) is)"

lemma handed_out_cong:
  "(\<And>k. k \<in> set is \<Longrightarrow> get_job r k = get_job r' k) \<Longrightarrow> handed_out seen r is = handed_out seen r' is"
proof -
  assume eq: "\<And>k. k \<in> set is \<Longrightarrow> get_job r k = get_job r' k"
  then have "is_waiting r k = is_waiting r' k" if "k \<in> set is" for k
    using that by (simp add: is_waiting_def get_job_def)
  with eq show ?thesis unfolding handed_out_def by (intro map_cong filter_cong) auto
qed

lemma handed_out_pending: "handed_out seen r (pending_jobs r) = handed_out seen r (run_queue r)"
  by (simp add: handed_out_def conj_commute cong: conj_cong)

text \<open>What every way of handling a popped job leaves behind.\<close>

definition popped :: "registry \<Rightarrow> job_id \<Rightarrow> job_id list \<Rightarrow> registry \<Rightarrow> bool" where
  "popped r i q r' \<longleftrightarrow>
     regular r' \<and> run_queue r' = q \<and> \<not> is_waiting r' i \<and> (\<forall>k. k \<noteq> i \<longrightarrow> get_job r' k = get_job r k)"

lemma get_job_update_job: "get_job (update_job i f r) k = (if k = i then map_option f (get_job r i) else get_job r k)"
  by (simp add: get_job_def)

lemma is_waiting_get: "is_waiting r i \<longleftrightarrow> (\<exists>j. get_job r i = Some j \<and> job_state j = Job_Waiting)"
  by (simp add: is_waiting_iff get_job_def)

lemma popped_cases:
  assumes q: "i \<notin> set q" and r1: "r1 = set_running i (r\<lparr>run_queue := q\<rparr>)" "regular r1"
  shows "popped r i q r1" "popped r i q (set_running i r1)" "popped r i q (set_deadline i d (set_running i r1))"
    "popped r i q (fst (finish i res r1))"
proof -
  have k: "get_job r1 k = get_job r k" if "k \<noteq> i" for k using that by (simp add: r1 update_job_folds get_job_update_job) (simp add: get_job_def)
  have w: "\<not> is_waiting r1 i" by (simp add: r1)
  show 1: "popped r i q r1" using k w r1 by (simp add: popped_def)
  have u: "popped r i q (update_job i f s)" if "popped r i q s" "keeps_identity f" "\<And>j. job_state (f j) = job_state j \<or> job_state (f j) = Job_Running" for f s
  proof -
    have "\<not> is_waiting (update_job i f s) i"
      using that(1,3) by (auto simp: popped_def is_waiting_get get_job_update_job) (metis job_state.distinct(1))
    then show ?thesis
      using that(1,2) by (auto simp: popped_def get_job_update_job regular_def registry_inv_update)
  qed
  show 2: "popped r i q (set_running i r1)" unfolding update_job_folds by (rule u [OF 1]) auto
  show "popped r i q (set_deadline i d (set_running i r1))" unfolding update_job_folds(4) by (rule u [OF 2]) auto
  have "run_queue (fst (finish i res r1)) = q"
    using q r1(1) by (auto simp: finish_def Let_def filter_id_conv split: option.split)
  then show "popped r i q (fst (finish i res r1))"
    using k r1(2) by (simp add: popped_def regular_finish get_job_finish is_waiting_get)
qed

lemma popped_result:
  assumes p: "popped r i q r'" and d: "regular r2 \<and> (\<forall>k. is_waiting r2 k \<longleftrightarrow> is_waiting r' k \<and> k \<notin> set (run_queue r')) \<and> us = handed_out seen r' (run_queue r')"
    and i: "pending_jobs r = i # filter (is_waiting r) q" "i \<notin> set q"
  shows "regular r2" "is_waiting r2 k \<longleftrightarrow> is_waiting r k \<and> k \<notin> set (run_queue r)" "us = handed_out seen r q"
proof -
  show "regular r2" using d by simp
  have get: "get_job r' k = get_job r k" if "k \<noteq> i" for k using p that by (simp add: popped_def)
  have q: "run_queue r' = q" "\<not> is_waiting r' i" using p by (simp_all add: popped_def)
  have w: "is_waiting r' k \<longleftrightarrow> k \<noteq> i \<and> is_waiting r k" for k
    using get [of k] q(2) by (cases "k = i") (simp_all add: is_waiting_get)
  have pend: "k \<in> set (run_queue r) \<and> is_waiting r k \<longleftrightarrow> k = i \<or> k \<in> set q \<and> is_waiting r k" for k
    using arg_cong [OF i(1), of set] by auto
  show "is_waiting r2 k \<longleftrightarrow> is_waiting r k \<and> k \<notin> set (run_queue r)"
    using d w [of k] pend [of k] q(1) by auto
  have "handed_out seen r' q = handed_out seen r q"
  proof (rule handed_out_cong)
    fix k assume "k \<in> set q"
    with i(2) have "k \<noteq> i" by blast
    then show "get_job r' k = get_job r k" by (rule get)
  qed
  then show "us = handed_out seen r q" using d q(1) by simp
qed

lemma handed_out_Cons:
  "handed_out seen r (i # q) =
     (if is_waiting r i \<and> map_option job_kind (get_job r i) = Some Start \<and> fst (seen i) = Some NeverStarted
      then job_unit (the (get_job r i)) # handed_out seen r q else handed_out seen r q)"
  by (simp add: handed_out_def)

lemma handed_out_filter: "handed_out seen r (filter (is_waiting r) q) = handed_out seen r q"
  by (simp add: handed_out_def conj_commute cong: conj_cong)

lemma handed_out_pop:
  "pending_jobs r = i # filter (is_waiting r) q \<Longrightarrow> handed_out seen r (run_queue r) = handed_out seen r (i # q)"
  by (metis handed_out_Cons handed_out_filter handed_out_pending)

definition loop_spec :: "(job_id \<Rightarrow> unit_status option \<times> nat) \<Rightarrow> registry \<Rightarrow> registry \<times> unit_id list \<Rightarrow> bool" where
  "loop_spec seen r res \<longleftrightarrow>
     regular (fst res) \<and> (\<forall>k. is_waiting (fst res) k \<longleftrightarrow> is_waiting r k \<and> k \<notin> set (run_queue r))
     \<and> snd res = handed_out seen r (run_queue r)"

lemma loop_spec_step:
  assumes "popped r i q r'" "loop_spec seen r' res" "pending_jobs r = i # filter (is_waiting r) q" "i \<notin> set q"
    "us = handed_out seen r (i # q)" "us = pre @ handed_out seen r q"
  shows "loop_spec seen r (fst res, pre @ snd res)"
  using popped_result [OF assms(1) _ assms(3,4), of "fst res" "snd res" seen] assms(2,5,6) handed_out_pop [OF assms(3), of seen]
  unfolding loop_spec_def by auto

lemma dispatch_loop_spec: "regular r \<Longrightarrow> loop_spec seen r (dispatch_loop seen r)"
proof (induction "List.length (run_queue r)" arbitrary: r rule: less_induct)
  case less
  show ?case
    using less.prems
  proof (cases rule: pop_ready_cases)
    case (empty r')
    have "is_waiting r' k = is_waiting r k" for k by (simp add: is_waiting_get empty(3))
    moreover have "is_waiting r k \<Longrightarrow> k \<notin> set (run_queue r)" for k using empty(2) by (auto simp: filter_empty_conv)
    moreover have "handed_out seen r (run_queue r) = []" using handed_out_pending [of seen r] empty(2) by (simp add: handed_out_def)
    ultimately show ?thesis
      using empty by (subst dispatch_loop.simps) (auto simp: loop_spec_def)
  next
    case (pop i q j)
    let ?r1 = "set_running i (r\<lparr>run_queue := q\<rparr>)"
    note ps = popped_cases [OF pop(5) refl pop(6)]
    have len: "List.length q < List.length (run_queue r)"
      using pop_ready_shorter [OF pop(1) [symmetric]] by simp
    have j1: "get_job ?r1 i = Some (j\<lparr>job_state := Job_Running\<rparr>)"
      using pop(3) by (simp add: update_job_folds get_job_update_job) (simp add: get_job_def)
    have ih: "loop_spec seen r' (dispatch_loop seen r')" if "popped r i q r'" for r'
      using that len by (intro less.hyps) (auto simp: popped_def)
    note step = loop_spec_step [OF _ _ pop(4,5) refl]
    show ?thesis
    proof (cases "job_kind j = Start")
      case False
      have "handed_out seen r (i # q) = [] @ handed_out seen r q" using False pop(3) by (simp add: handed_out_Cons)
      from step [OF ps(1) ih [OF ps(1)] this] show ?thesis
        using pop(1) j1 False by (subst dispatch_loop.simps) simp
    next
      case True
      consider (fresh) "fst (seen i) = Some NeverStarted" | (started) s where "fst (seen i) = Some (Started s)"
        | (other) "\<not> (\<exists>s. fst (seen i) = Some NeverStarted \<or> fst (seen i) = Some (Started s))" by blast
      then show ?thesis
      proof cases
        case fresh
        let ?r' = "set_deadline i (snd (seen i) + start_timeout) (set_running i ?r1)"
        have "handed_out seen r (i # q) = [job_unit j] @ handed_out seen r q"
          using True pop(2,3) fresh by (simp add: handed_out_Cons)
        from step [OF ps(3) ih [OF ps(3)] this] show ?thesis
          using pop(1) j1 True fresh by (subst dispatch_loop.simps) (simp add: case_prod_beta)
      next
        case started
        have "handed_out seen r (i # q) = [] @ handed_out seen r q" using started by (simp add: handed_out_Cons)
        from step [OF ps(4) ih [OF ps(4)] this] show ?thesis
          using pop(1) j1 True started by (subst dispatch_loop.simps) simp
      next
        case other
        then have "handed_out seen r (i # q) = [] @ handed_out seen r q" by (auto simp: handed_out_Cons)
        from step [OF ps(2) ih [OF ps(2)] this] show ?thesis
          using pop(1) j1 True other
          by (subst dispatch_loop.simps) (auto split: option.split unit_status.split)
      qed
    qed
  qed
qed

section \<open>What a pass does\<close>

lemma enqueue_ready_queue:
  assumes "regular r"
  shows "set (run_queue (fst (enqueue_ready ready r))) =
           set (run_queue r) \<union> {i. \<exists>j. get_job r i = Some j \<and> job_state j = Job_Waiting \<and> ready (job_unit j)}"
    and "get_job (fst (enqueue_ready ready r)) = get_job r"
    and "regular (fst (enqueue_ready ready r))"
proof -
  have inv: "registry_inv r" using assms by (simp add: regular_def)
  obtain q where q: "enqueue_ready ready r = (r\<lparr>run_queue := run_queue r @ q\<rparr>, q)"
      "set q = {i. \<exists>j. tbl_get (jobs r) i = Some j \<and> job_state j = Job_Waiting
                            \<and> ready (job_unit j) \<and> i \<notin> set (run_queue r)}"
    using enqueue_ready_spec registry_inv_wf(1) [OF inv] by blast
  show "set (run_queue (fst (enqueue_ready ready r))) =
           set (run_queue r) \<union> {i. \<exists>j. get_job r i = Some j \<and> job_state j = Job_Waiting \<and> ready (job_unit j)}"
    using q by (auto simp: get_job_def)
  show "get_job (fst (enqueue_ready ready r)) = get_job r" using q(1) by (simp add: get_job_def fun_eq_iff)
  show "regular (fst (enqueue_ready ready r))"
    using assms step_ok_enqueue_ready regular_step unfolding regular_def by blast
qed

lemma distinct_handed_out:
  assumes "registry_inv r" "distinct is"
  shows "distinct (handed_out seen r is)"
proof -
  have inj: "i = k" if "get_job r i = Some j" "get_job r k = Some j'" "job_unit j = job_unit j'" for i k j j'
    using registry_inv_job [OF assms(1), of i j] registry_inv_job [OF assms(1), of k j'] that
    by (simp add: get_job_def)
  show ?thesis
    unfolding handed_out_def distinct_map
    using assms(2) inj by (auto simp: inj_on_def is_waiting_get)
qed

text \<open>The waiting jobs shrink, by everything that was retired or ready.\<close>

lemma drive_pass:
  assumes reg: "regular r"
  shows "regular (fst (drive_run_queue t now seen r))"
    and "is_waiting (fst (drive_run_queue t now seen r)) k \<Longrightarrow>
           \<exists>j. get_job r k = Some j \<and> job_state j = Job_Waiting \<and> \<not> is_ready t (job_units r) (job_unit j)"
    and "set (snd (drive_run_queue t now seen r)) \<subseteq>
           {u. \<exists>i j. get_job r i = Some j \<and> job_unit j = u \<and> job_kind j = Start \<and> job_state j = Job_Waiting
             \<and> fst (seen i) = Some NeverStarted \<and> (i \<in> set (run_queue r) \<or> is_ready t (job_units r) u)}"
    and "distinct (snd (drive_run_queue t now seen r))"
proof -
  obtain r' where r': "drive_retire t now r = fst (enqueue_ready (is_ready t (job_units r)) r')"
      "regular r'" "shrinks r r'"
    by (rule drive_retire_cases [OF reg])
  let ?r1 = "drive_retire t now r" and ?d = "drive_run_queue t now seen r"
  have r1: "regular ?r1" "get_job ?r1 = get_job r'"
      "set (run_queue ?r1) = set (run_queue r') \<union> {i. \<exists>j. get_job r' i = Some j \<and> job_state j = Job_Waiting
          \<and> is_ready t (job_units r) (job_unit j)}"
    unfolding r'(1) using enqueue_ready_queue [OF r'(2)] by blast+
  have orig: "get_job r i = Some j" if g: "get_job ?r1 i = Some j" for i j
    using g r'(3) r1(2) by (auto simp: shrinks_def) (metis option.distinct(1))
  have empty: "is_empty r \<Longrightarrow> get_job r i = None" for i by (simp add: is_empty_def get_job_def)
  have d: "?d = (if is_empty r then (r, []) else dispatch_loop seen ?r1)" by (simp add: drive_run_queue_def)
  note spec = dispatch_loop_spec [OF r1(1), of seen, unfolded loop_spec_def]
  show "regular (fst ?d)" using spec reg by (simp add: d)
  show "\<exists>j. get_job r k = Some j \<and> job_state j = Job_Waiting \<and> \<not> is_ready t (job_units r) (job_unit j)"
    if w: "is_waiting (fst ?d) k" for k
  proof (cases "is_empty r")
    case True
    with w empty show ?thesis by (simp add: d is_waiting_get)
  next
    case False
    then have "is_waiting ?r1 k" "k \<notin> set (run_queue ?r1)" using w spec by (simp_all add: d)
    then obtain j where "get_job ?r1 k = Some j" "job_state j = Job_Waiting" "\<not> is_ready t (job_units r) (job_unit j)"
      using r1(2,3) by (auto simp: is_waiting_get)
    then show ?thesis using orig by blast
  qed
  show "set (snd ?d) \<subseteq> {u. \<exists>i j. get_job r i = Some j \<and> job_unit j = u \<and> job_kind j = Start \<and> job_state j = Job_Waiting
             \<and> fst (seen i) = Some NeverStarted \<and> (i \<in> set (run_queue r) \<or> is_ready t (job_units r) u)}"
  proof (cases "is_empty r")
    case True
    then show ?thesis by (simp add: d)
  next
    case False
    show ?thesis
    proof
      fix u assume "u \<in> set (snd ?d)"
      then obtain i j where i: "i \<in> set (run_queue ?r1)" "get_job ?r1 i = Some j" "job_state j = Job_Waiting"
          "job_kind j = Start" "fst (seen i) = Some NeverStarted" "u = job_unit j"
        using False spec by (auto simp: d handed_out_def is_waiting_get)
      moreover have "i \<in> set (run_queue r) \<or> is_ready t (job_units r) u"
        using i r1(2,3) r'(3) by (auto simp: shrinks_def)
      ultimately show "u \<in> {u. \<exists>i j. get_job r i = Some j \<and> job_unit j = u \<and> job_kind j = Start \<and> job_state j = Job_Waiting
             \<and> fst (seen i) = Some NeverStarted \<and> (i \<in> set (run_queue r) \<or> is_ready t (job_units r) u)}"
        using orig by blast
    qed
  qed
  show "distinct (snd ?d)"
    using spec r1(1) by (auto simp: d regular_def registry_inv_wf intro: distinct_handed_out)
qed

text \<open>
  What it means that a start is due, said of the statuses: the unit is no device, and for each unit it
  is ordered after, one that it requires or is bound to is started, or else not loaded and no device;
  one that it wants or upholds is started or stopped, unless it is not loaded; and any other is not
  starting, and if it was never started it has no job.
\<close>

definition start_due :: "unit_table \<Rightarrow> unit_id list \<Rightarrow> unit_id \<Rightarrow> bool" where
  "start_due t with_jobs u \<longleftrightarrow> kind u \<noteq> Kind_Device \<and>
     (\<forall>x. tbl_get t u = Some x \<longrightarrow> (\<forall>v\<in>set (after (deps x)).
        case tbl_get t v of
          None \<Rightarrow> v \<in> set (requires (deps x)) \<union> set (binds_to (deps x)) \<longrightarrow> kind v \<noteq> Kind_Device
        | Some y \<Rightarrow>
            (v \<in> set (requires (deps x)) \<union> set (binds_to (deps x)) \<longrightarrow> is_started (status y))
            \<and> (v \<in> set (wants (deps x)) \<union> set (upholds (deps x)) \<longrightarrow> is_started (status y) \<or> is_stopped (status y))
            \<and> status y \<noteq> Starting \<and> (status y = NeverStarted \<longrightarrow> v \<notin> set with_jobs)))"

text \<open>What an empty list of unstarted dependencies means.\<close>

lemma unstarted_deps_empty:
  assumes "unstarted_deps t u s = []" "tbl_get t u = Some x" "v \<in> set (after (deps x))"
  shows "dep_ready t s (deps x) v"
  using assms by (auto simp: unstarted_deps_def filter_empty_conv)

lemma required_started:
  assumes "unstarted_deps t u s = []" "tbl_get t u = Some x" "v \<in> set (after (deps x))"
    "v \<in> set (requires (deps x)) \<union> set (binds_to (deps x))" "tbl_get t v = Some y"
  shows "is_started (status y)"
  using unstarted_deps_empty [OF assms(1-3)] assms(4,5) by (auto simp: dep_ready_def)

lemma ready_start_due:
  assumes "is_ready t us u" shows "start_due t us u"
  unfolding start_due_def
proof (intro conjI allI impI ballI)
  show "kind u \<noteq> Kind_Device" using assms by (simp add: is_ready_def)
  fix x v assume x: "tbl_get t u = Some x" and v: "v \<in> set (after (deps x))"
  have ready: "dep_ready t (Some us) (deps x) v"
    using assms unstarted_deps_empty [OF _ x v] by (simp add: is_ready_def)
  show "case tbl_get t v of
          None \<Rightarrow> v \<in> set (requires (deps x)) \<union> set (binds_to (deps x)) \<longrightarrow> kind v \<noteq> Kind_Device
        | Some y \<Rightarrow>
            (v \<in> set (requires (deps x)) \<union> set (binds_to (deps x)) \<longrightarrow> is_started (status y))
            \<and> (v \<in> set (wants (deps x)) \<union> set (upholds (deps x)) \<longrightarrow> is_started (status y) \<or> is_stopped (status y))
            \<and> status y \<noteq> Starting \<and> (status y = NeverStarted \<longrightarrow> v \<notin> set us)"
  proof (cases "tbl_get t v")
    case None
    then show ?thesis using ready by (auto simp: dep_ready_def)
  next
    case (Some y)
    then show ?thesis using ready by (cases "status y") (auto simp: dep_ready_def Let_def split: if_splits)
  qed
qed

text \<open>The waiting jobs of the queue belong to units that are ready, as after priming.\<close>

definition queue_ready :: "unit_table \<Rightarrow> registry \<Rightarrow> bool" where
  "queue_ready t r \<longleftrightarrow>
     list_all (\<lambda>i. case get_job r i of
         None \<Rightarrow> True
       | Some j \<Rightarrow> job_state j = Job_Waiting \<longrightarrow> is_ready t (job_units r) (job_unit j)) (run_queue r)"

lemma queue_ready_job:
  "queue_ready t r \<Longrightarrow> i \<in> set (run_queue r) \<Longrightarrow> get_job r i = Some j \<Longrightarrow> job_state j = Job_Waiting \<Longrightarrow>
     is_ready t (job_units r) (job_unit j)"
  by (auto simp: queue_ready_def list_all_iff split: option.splits)

lemma handed_out_ready:
  assumes "registry_inv r" "ids_below r" "queue_ready t r" "u \<in> set (snd (drive_run_queue t now seen r))"
  shows "is_ready t (job_units r) u"
  using drive_pass(3) [of r t now seen] assms queue_ready_job [OF assms(3)] unfolding regular_def by blast

text \<open>
  C12: One dispatcher pass hands out only units whose start is due.  In the queue before the pass
  there are waiting jobs of ready units only: it is empty, or the start closure was just installed and
  primed.  Then each unit handed out has a waiting start job, was seen as never started when it was
  popped, is not a device, and of the units it is ordered after, what it requires is started, what it
  wants has started or stopped, and nothing else is starting or still to be started by a job.  No unit
  is handed out twice, and the registry keeps its invariant.
\<close>

theorem dispatch_only_ready:
  assumes "registry_inv r" "ids_below r" "queue_ready t r"
  shows "set (snd (drive_run_queue t now seen r)) \<subseteq>
           {u. start_due t (map (\<lambda>(i, j). job_unit j) (jobs r)) u
             \<and> (\<exists>i j. get_job r i = Some j \<and> job_unit j = u \<and> job_kind j = Start \<and> job_state j = Job_Waiting
                 \<and> fst (seen i) = Some NeverStarted)}
       \<and> distinct (snd (drive_run_queue t now seen r))
       \<and> registry_inv (fst (drive_run_queue t now seen r)) \<and> ids_below (fst (drive_run_queue t now seen r))"
proof -
  have reg: "regular r" using assms(1,2) by (simp add: regular_def)
  show ?thesis
    using drive_pass(1,3,4) [OF reg, of t now seen] handed_out_ready [OF assms, THEN ready_start_due]
    unfolding regular_def by blast
qed

section \<open>Progress\<close>

lemma minimal_unit:
  assumes "finite U" "U \<noteq> {}" "acyclic {(u, v). after_edge t u v}"
  obtains u where "u \<in> U" "\<And>v. after_edge t u v \<Longrightarrow> v \<notin> U"
proof -
  let ?R = "{(v, u). after_edge t u v \<and> u \<in> U \<and> v \<in> U}"
  have "?R \<subseteq> U \<times> U" by auto
  then have "finite ?R" using assms(1) by (meson finite_SigmaI finite_subset)
  moreover have "acyclic ?R"
  proof -
    have sub: "?R \<subseteq> {(u, v). after_edge t u v}\<inverse>" by auto
    have ac: "acyclic ({(u, v). after_edge t u v}\<inverse>)" using assms(3) by simp
    show ?thesis using acyclic_subset [OF ac sub] .
  qed
  ultimately have "wf ?R" by (rule finite_acyclic_wf)
  then obtain u where "u \<in> U" "\<And>v. (v, u) \<in> ?R \<Longrightarrow> v \<notin> U"
    using wfE_min [of ?R _ U] assms(2) by blast
  then show ?thesis using that [of u] by blast
qed

text \<open>Every blocker of a unit with a job has a job itself.\<close>

definition blockers_have_jobs :: "unit_table \<Rightarrow> registry \<Rightarrow> bool" where
  "blockers_have_jobs t r \<longleftrightarrow>
     list_all (\<lambda>u. set (unstarted_deps t u (Some (job_units r))) \<subseteq> set (job_units r)) (job_units r)"

text \<open>Every job waits for the start of a loaded unit that is not a device.\<close>

definition all_waiting :: "unit_table \<Rightarrow> registry \<Rightarrow> bool" where
  "all_waiting t r \<longleftrightarrow>
     list_all (\<lambda>(i, j). job_state j = Job_Waiting \<and> kind (job_unit j) \<noteq> Kind_Device
                       \<and> job_unit j \<in> set (tbl_keys t)) (jobs r)"

text \<open>
  The dispatcher cannot stall on an acyclic ordering.  If jobs are left, none of them is
  running, their units are loaded and not devices, whatever blocks one of them has a job too,
  and the \<open>After=\<close> edges among loaded units have no cycle, then a pass makes progress: the set
  of waiting jobs becomes strictly smaller.
\<close>

theorem drive_never_stalls:
  assumes "registry_inv r" "ids_below r" "jobs r \<noteq> []" "all_waiting t r" "blockers_have_jobs t r"
    and "acyclic {(u, v). after_edge t u v}"
  shows "Collect (is_waiting (fst (drive_run_queue t now seen r))) \<subset> Collect (is_waiting r)"
proof -
  have reg: "regular r" using assms(1,2) by (simp add: regular_def)
  let ?U = "set (job_units r)"
  have "?U \<noteq> {}" using assms(3) by simp
  then obtain u where u: "u \<in> ?U" "\<And>v. after_edge t u v \<Longrightarrow> v \<notin> ?U"
    using minimal_unit [of ?U t] assms(6) by auto
  then obtain i j where ij: "(i, j) \<in> set (jobs r)" "job_unit j = u" by auto
  have w: "job_state j = Job_Waiting" "kind u \<noteq> Kind_Device"
    using assms(4) ij by (auto simp: all_waiting_def list_all_iff)
  have loaded: "v \<in> set (tbl_keys t)" if "v \<in> ?U" for v
    using assms(4) that by (auto simp: all_waiting_def list_all_iff)
  have "unstarted_deps t u (Some (job_units r)) = []"
  proof (rule ccontr)
    assume "unstarted_deps t u (Some (job_units r)) \<noteq> []"
    then obtain v where v: "v \<in> set (unstarted_deps t u (Some (job_units r)))" by (cases "unstarted_deps t u (Some (job_units r))") auto
    then have "v \<in> ?U" using assms(5) u(1) by (auto simp: blockers_have_jobs_def list_all_iff)
    moreover from v loaded [OF this] have "after_edge t u v"
      by (cases "tbl_get t u") (auto simp: unstarted_deps_def after_edge_def)
    ultimately show False using u(2) by blast
  qed
  then have ready: "is_ready t (job_units r) u" using w by (simp add: is_ready_def)
  have g: "get_job r i = Some j"
    using ij(1) tbl_get_mem [of "jobs r" i j] registry_inv_wf(1) [OF assms(1)] by (simp add: get_job_def)
  have "is_waiting r i" using g w(1) by (simp add: is_waiting_get)
  moreover have "\<not> is_waiting (fst (drive_run_queue t now seen r)) i"
    using drive_pass(2) [OF reg, of t now seen i] g ready ij(2) by auto
  moreover have "is_waiting (fst (drive_run_queue t now seen r)) k \<Longrightarrow> is_waiting r k" for k
    using drive_pass(2) [OF reg, of t now seen k] by (auto simp: is_waiting_get)
  ultimately show ?thesis by blast
qed

section \<open>A closure is installed\<close>

text \<open>Only start jobs that wait, as right after an installation.\<close>

definition fresh_jobs :: "registry \<Rightarrow> bool" where
  "fresh_jobs r \<longleftrightarrow>
     list_all (\<lambda>(i, j). job_kind j = Start \<and> job_state j = Job_Waiting \<and> job_deadline j = None) (jobs r)"

lemma fresh_jobs_iff:
  "registry_inv r \<Longrightarrow> fresh_jobs r \<longleftrightarrow>
     (\<forall>i j. get_job r i = Some j \<longrightarrow> job_kind j = Start \<and> job_state j = Job_Waiting \<and> job_deadline j = None)"
  by (simp add: fresh_jobs_def list_all_tbl registry_inv_wf get_job_def)

lemma set_job_units:
  "registry_inv r \<Longrightarrow> set (job_units r) = {u. \<exists>i j. get_job r i = Some j \<and> job_unit j = u}"
  by (force simp: get_job_def tbl_get_mem [symmetric] registry_inv_wf)

lemma create_start:
  assumes inv: "registry_inv r" "ids_below r" and room: "next_id r + 1 \<noteq> 0" and f: "fresh_jobs r"
  shows "\<exists>r' es i. create u Start Regular Replace r = Returns (r', es, Inr i) \<and> registry_inv r' \<and> ids_below r'
     \<and> (next_id r' = next_id r \<or> next_id r' = next_id r + 1)
     \<and> fresh_jobs r' \<and> set (job_units r') = insert u (set (job_units r))"
proof -
  obtain r' es res where c: "create u Start Regular Replace r = Returns (r', es, res)" "registry_inv r'" "ids_below r'"
      "next_id r' = next_id r \<or> next_id r' = next_id r + 1"
    by (rule registry_inv_create [OF inv room])
  have "fresh_jobs r' \<and> set (job_units r') = insert u (set (job_units r)) \<and> (\<exists>i. res = Inr i)"
    using inv(1)
  proof (cases rule: create_cases [of r u Start Regular Replace])
    case fresh
    then have r': "r' = fst (install_job u Start Regular r)" "\<exists>i. res = Inr i"
      using c(1) by (auto simp: install_job_def Let_def)
    have get: "get_job r' k = (if k = next_id r then Some \<lparr>job_id = next_id r, job_unit = u, job_kind = Start,
        job_state = Job_Waiting, job_result = None, job_deadline = None, job_source = Regular, job_waiters = []\<rparr>
        else get_job r k)" for k
      by (simp add: r'(1) get_job_def install_job_def Let_def)
    have new: "get_job r (next_id r) = None"
      using inv(2) unfolding ids_below_iff get_job_def by fastforce
    have "set (job_units r') = insert u (set (job_units r))"
    proof (intro set_eqI iffI)
      fix v assume "v \<in> insert u (set (job_units r))"
      then consider "v = u" | i j where "get_job r i = Some j" "job_unit j = v"
        unfolding set_job_units [OF inv(1)] by blast
      then show "v \<in> set (job_units r')"
      proof cases
        case 1
        then show ?thesis unfolding set_job_units [OF c(2)] by (intro CollectI exI [of _ "next_id r"]) (simp add: get)
      next
        case (2 i j)
        with new have "i \<noteq> next_id r" by auto
        with 2 show ?thesis unfolding set_job_units [OF c(2)] by (intro CollectI exI [of _ i]) (simp add: get)
      qed
    next
      fix v assume "v \<in> set (job_units r')"
      then show "v \<in> insert u (set (job_units r))"
        unfolding set_job_units [OF c(2)] set_job_units [OF inv(1)] by (auto simp: get split: if_splits)
    qed
    with f r'(2) show ?thesis
      unfolding fresh_jobs_iff [OF c(2)] fresh_jobs_iff [OF inv(1)] get by auto
  next
    case (merge i j m)
    have "job_kind j = Start" using f merge(2) by (simp add: fresh_jobs_iff [OF inv(1)] get_job_def)
    then have "r' = r" "res = Inr i" using merge c(1) by (auto simp: merge_kinds_same)
    moreover have "u \<in> set (job_units r)"
      unfolding set_job_units [OF inv(1)] using merge(2,3) by (auto simp: get_job_def)
    ultimately show ?thesis using f by (auto simp: insert_absorb)
  next
    case (destructive i j e)
    then show ?thesis by simp
  next
    case (replace i j)
    then have "job_kind j = Start" using f by (simp add: fresh_jobs_iff [OF inv(1)] get_job_def)
    with replace show ?thesis by (simp add: merge_kinds_same)
  qed
  with c show ?thesis by blast
qed

lemma word_room:
  fixes n :: job_id
  assumes "unat n + k < 2 ^ 32" "0 < k"
  shows "n + 1 \<noteq> 0" "unat (n + 1) = unat n + 1"
proof -
  show 1: "n + 1 \<noteq> 0"
  proof
    assume "n + 1 = 0"
    then have "n = - 1" by (simp add: eq_neg_iff_add_eq_0)
    with assms show False by (simp add: unsigned_minus_1_eq_mask mask_eq_exp_minus_1)
  qed
  show "unat (n + 1) = unat n + 1" using 1 unatSuc [of n] by (simp add: add.commute)
qed

lemma create_all_fresh:
  "registry_inv r \<Longrightarrow> ids_below r \<Longrightarrow> fresh_jobs r \<Longrightarrow> unat (next_id r) + List.length us < 2 ^ 32 \<Longrightarrow>
     \<exists>r'. create_all us r = Returns r' \<and> registry_inv r' \<and> ids_below r' \<and> fresh_jobs r'
       \<and> set (job_units r') = set us \<union> set (job_units r)"
proof (induction us arbitrary: r)
  case (Cons u us)
  note room = word_room [OF Cons.prems(4)]
  obtain r1 es i where r1: "create u Start Regular Replace r = Returns (r1, es, Inr i)" "registry_inv r1" "ids_below r1"
      "next_id r1 = next_id r \<or> next_id r1 = next_id r + 1" "fresh_jobs r1"
      "set (job_units r1) = insert u (set (job_units r))"
    using create_start [OF Cons.prems(1,2) _ Cons.prems(3), of u] room(1) by auto
  have "unat (next_id r1) + List.length us < 2 ^ 32" using r1(4) room(2) Cons.prems(4) by auto
  then obtain r' where "create_all us r1 = Returns r'" "registry_inv r'" "ids_below r'" "fresh_jobs r'"
      "set (job_units r') = set us \<union> set (job_units r1)"
    using Cons.IH [OF r1(2,3,5)] by blast
  with r1 show ?case by auto
qed simp

lemma create_empty_queue:
  "create u k src mode r = Returns (r', es, res) \<Longrightarrow> run_queue r = [] \<Longrightarrow> run_queue r' = []"
  by (auto simp: create_def install_job_def finish_def Let_def split: option.splits if_splits prod.splits)

lemma create_all_queue: "create_all us r = Returns r' \<Longrightarrow> run_queue r = [] \<Longrightarrow> run_queue r' = []"
proof (induction us arbitrary: r)
  case (Cons u us)
  then show ?case
    by (cases "create u Start Regular Replace r") (auto simp: create_empty_queue split: prod.splits)
qed simp

lemma install_closure_spec:
  assumes "List.length (collect_unit_start_subgraph t [target]) < 2 ^ 32 - 1"
  shows "\<exists>r. install_closure t target new_registry = Returns r \<and> registry_inv r \<and> ids_below r \<and> fresh_jobs r
     \<and> set (job_units r) = {(u, v). pulls t u v}\<^sup>* `` {target}
     \<and> (\<forall>i j. i \<in> set (run_queue r) \<longrightarrow> get_job r i = Some j \<longrightarrow>
          is_ready t (collect_unit_start_subgraph t [target]) (job_unit j))"
proof -
  let ?s = "collect_unit_start_subgraph t [target]"
  have "unat (next_id new_registry) + List.length ?s < 2 ^ 32" "fresh_jobs new_registry"
    using assms by (simp_all add: new_registry_def fresh_jobs_def)
  from create_all_fresh [OF registry_inv_new this(2,1)] obtain r1
    where r1: "create_all ?s new_registry = Returns r1" "registry_inv r1" "ids_below r1" "fresh_jobs r1"
      "set (job_units r1) = set ?s \<union> set (job_units new_registry)" by blast
  let ?r = "fst (enqueue_ready (is_ready t ?s) r1)"
  have reg: "regular r1" using r1 by (simp add: regular_def)
  have frame: "jobs ?r = jobs r1"
    using enqueue_ready_loop_frame(2) by (simp add: enqueue_ready_def)
  have q1: "run_queue r1 = []"
    using create_all_queue [OF r1(1)] by (simp add: new_registry_def)
  have "set (run_queue ?r) = {i. \<exists>j. get_job r1 i = Some j \<and> job_state j = Job_Waiting \<and> is_ready t ?s (job_unit j)}"
    using enqueue_ready_queue(1) [OF reg] q1 by simp
  then have "\<forall>i j. i \<in> set (run_queue ?r) \<longrightarrow> get_job ?r i = Some j \<longrightarrow> is_ready t ?s (job_unit j)"
    using frame by (auto simp: get_job_def)
  moreover have "install_closure t target new_registry = Returns ?r"
    by (simp add: install_closure_def r1(1))
  moreover have "registry_inv ?r" "ids_below ?r" using enqueue_ready_queue(3) [OF reg] by (simp_all add: regular_def)
  moreover have "set (job_units ?r) = {(u, v). pulls t u v}\<^sup>* `` {target}"
    using r1(5) by (simp add: frame new_registry_def collect_closure)
  ultimately show ?thesis using r1(4) frame by (auto simp: fresh_jobs_def)
qed

text \<open>A queue that was just primed is ready, and so is an empty one.\<close>

lemma queue_ready_empty: "run_queue r = [] \<Longrightarrow> queue_ready t r"
  by (simp add: queue_ready_def)

lemma install_closure_queue_ready:
  assumes "List.length (collect_unit_start_subgraph t [target]) < 2 ^ 32 - 1" "install_closure t target new_registry = Returns r"
  shows "queue_ready t r"
proof -
  let ?s = "collect_unit_start_subgraph t [target]"
  have same: "is_ready t us = is_ready t vs" if "set us = set vs" for us vs
  proof -
    have "dep_ready t (Some us) = dep_ready t (Some vs)" unfolding dep_ready_def option.case that ..
    then show ?thesis by (simp only: is_ready_def [abs_def] unstarted_deps_def)
  qed
  obtain r' where "install_closure t target new_registry = Returns r'"
      "set (job_units r') = {(u, v). pulls t u v}\<^sup>* `` {target}"
      "\<forall>i j. i \<in> set (run_queue r') \<longrightarrow> get_job r' i = Some j \<longrightarrow> is_ready t ?s (job_unit j)"
    using install_closure_spec [OF assms(1)] by blast
  moreover from this have "set (job_units r') = set ?s" by (simp add: collect_closure)
  ultimately show ?thesis using assms(2) same [of "job_units r'" ?s]
    by (auto simp: queue_ready_def list_all_iff split: option.split)
qed

section \<open>A pair of services\<close>

text \<open>Two services, the first requires the second and is ordered after it.\<close>

abbreviation svc_a :: unit_id where "svc_a \<equiv> UnitId Kind_Service ''a.service''"
abbreviation svc_b :: unit_id where "svc_b \<equiv> UnitId Kind_Service ''b.service''"

definition pair_table :: unit_table where
  "pair_table =
     [(svc_a, plain_unit svc_a (no_dependencies\<lparr>requires := [svc_b], after := [svc_b]\<rparr>)),
      (svc_b, plain_unit svc_b (no_dependencies\<lparr>required_by := [svc_a], before := [svc_a]\<rparr>))]"

lemma pair_collect: "collect_unit_start_subgraph pair_table [svc_a] = [svc_a, svc_b]"
  by code_simp

lemma pair_get:
  "tbl_get pair_table u =
     (if u = svc_a then Some (plain_unit svc_a (no_dependencies\<lparr>requires := [svc_b], after := [svc_b]\<rparr>))
      else if u = svc_b then Some (plain_unit svc_b (no_dependencies\<lparr>required_by := [svc_a], before := [svc_a]\<rparr>))
      else None)"
  by (simp add: pair_table_def tbl_get_def)

lemma pair_after: "after_edge pair_table u v \<longleftrightarrow> u = svc_a \<and> v = svc_b"
  by (auto simp: after_edge_def pair_get tbl_keys_get plain_unit_def no_dependencies_def)

lemma pair_pulls: "pulls pair_table u v \<longleftrightarrow> u = svc_a \<and> v = svc_b"
  by (auto simp: pulls_def pair_get plain_unit_def no_dependencies_def)

lemma pair_closure: "(pull_rel pair_table)\<^sup>* `` {svc_a} = {svc_a, svc_b}"
  using collect_closure [of pair_table "[svc_a]"] by (simp add: pair_collect)

lemma pair_acyclic: "acyclic {(u, v). after_edge pair_table u v}"
  by (rule acyclic_subset [of "{(svc_a, svc_b)}"]) (auto simp: pair_after acyclic_insert wf_acyclic)

definition pair_registry :: registry where
  "pair_registry = fst (install_job svc_b Start Regular (fst (install_job svc_a Start Regular new_registry)))"

lemma pair_registry_inv: "registry_inv pair_registry" "ids_below pair_registry" "run_queue pair_registry = []"
  by code_simp+

text \<open>The same pair, installed and primed: the required service is queued.\<close>

definition primed_pair :: registry where
  "primed_pair = (case install_closure pair_table svc_a new_registry of Returns r \<Rightarrow> r | Panics \<Rightarrow> new_registry)"

lemma primed_pair_ok: "registry_inv primed_pair" "ids_below primed_pair" "queue_ready pair_table primed_pair"
    "run_queue primed_pair \<noteq> []"
  by code_simp+

theorem dispatch_only_ready_witness:
  "set (snd (drive_run_queue pair_table 0 (\<lambda>_. (Some NeverStarted, 0)) primed_pair)) \<subseteq>
     {u. start_due pair_table (map (\<lambda>(i, j). job_unit j) (jobs primed_pair)) u
       \<and> (\<exists>i j. get_job primed_pair i = Some j \<and> job_unit j = u \<and> job_kind j = Start \<and> job_state j = Job_Waiting
           \<and> fst (Some NeverStarted, 0 :: nat) = Some NeverStarted)}
   \<and> distinct (snd (drive_run_queue pair_table 0 (\<lambda>_. (Some NeverStarted, 0)) primed_pair))
   \<and> registry_inv (fst (drive_run_queue pair_table 0 (\<lambda>_. (Some NeverStarted, 0)) primed_pair))
   \<and> ids_below (fst (drive_run_queue pair_table 0 (\<lambda>_. (Some NeverStarted, 0)) primed_pair))"
  by (rule dispatch_only_ready [OF primed_pair_ok(1-3), of 0 "\<lambda>_. (Some NeverStarted, 0)"])

theorem drive_never_stalls_witness:
  "Collect (is_waiting (fst (drive_run_queue pair_table 0 (\<lambda>_. (Some NeverStarted, 0)) pair_registry)))
     \<subset> Collect (is_waiting pair_registry)"
proof (rule drive_never_stalls [OF pair_registry_inv(1,2)])
  show "jobs pair_registry \<noteq> []" "all_waiting pair_table pair_registry" "blockers_have_jobs pair_table pair_registry"
    by code_simp+
qed (rule pair_acyclic)

end
