(* ===== verification/Boot.thy ===== *)
theory Boot
  imports JobGraph
begin

text \<open>
  The dispatcher run to completion: passes of \<open>drive_run_queue\<close> alternating with worker
  threads that start what they were handed.  The threads are the environment here
  (\<open>mark_started\<close>); the code under study is \<open>install_closure\<close> and \<open>drive_run_queue\<close>.

  Lemmas: the state between rounds (\<open>boot_inv\<close>) is kept by a round, a round hands out exactly
  the units whose dependencies are up, and with an acyclic ordering it hands out something.
\<close>

section \<open>Rounds\<close>


text \<open>
  The worker threads at their best: every unit a pass hands out is started before the next
  pass.  One round is a pass at a given time followed by these completions.
\<close>

definition mark_started :: "unit_id list \<Rightarrow> unit_table \<Rightarrow> unit_table" where
  "mark_started us t = fold (\<lambda>u. tbl_modify u (\<lambda>x. x\<lparr>status := Started Running\<rparr>)) us t"

definition seen_in :: "unit_table \<Rightarrow> nat \<Rightarrow> registry \<Rightarrow> job_id \<Rightarrow> unit_status option \<times> nat" where
  "seen_in t now r i =
     (case get_job r i of None \<Rightarrow> (None, now) | Some j \<Rightarrow> (unit_status_of t (job_unit j), now))"

fun boot_rounds :: "nat list \<Rightarrow> unit_table \<Rightarrow> registry \<Rightarrow> registry \<times> unit_table \<times> unit_id list" where
  "boot_rounds [] t r = (r, t, [])"
| "boot_rounds (now # nows) t r =
     (case drive_run_queue t now (seen_in t now r) r of
        (r1, us) \<Rightarrow>
          (case boot_rounds nows (mark_started us t) r1 of
             (r2, t2, vs) \<Rightarrow> (r2, t2, us @ vs)))"

lemma tbl_get_mark_started:
  "tbl_get (mark_started us t) k =
     map_option (\<lambda>x. if k \<in> set us then x\<lparr>status := Started Running\<rparr> else x) (tbl_get t k)"
proof -
  have "tbl_get (mark_started us t) k =
      (if k \<in> set us then map_option (\<lambda>x. x\<lparr>status := Started Running\<rparr>) (tbl_get t k) else tbl_get t k)"
    unfolding mark_started_def by (rule tbl_get_fold_modify_const) simp
  then show ?thesis by (cases "tbl_get t k") simp_all
qed

lemma mark_started_frame:
  "set (tbl_keys (mark_started us t)) = set (tbl_keys t)"
  "pulls (mark_started us t) u v = pulls t u v" "after_edge (mark_started us t) u v = after_edge t u v"
proof -
  show k: "set (tbl_keys (mark_started us t)) = set (tbl_keys t)" by (auto simp: tbl_keys_get tbl_get_mark_started)
  show "pulls (mark_started us t) u v = pulls t u v"
    by (cases "tbl_get t u") (simp_all add: pulls_def tbl_get_mark_started)
  show "after_edge (mark_started us t) u v = after_edge t u v"
    by (cases "tbl_get t u") (simp_all add: after_edge_def tbl_get_mark_started k)
qed

lemma status_mark_started:
  "unit_status_of (mark_started us t) u =
     (if u \<in> set us then map_option (\<lambda>_. Started Running) (unit_status_of t u) else unit_status_of t u)"
  by (cases "tbl_get t u") (simp_all add: unit_status_of_def tbl_get_mark_started)

definition up :: "unit_table \<Rightarrow> unit_id \<Rightarrow> bool" where
  "up t u \<longleftrightarrow> (\<exists>s. unit_status_of t u = Some (Started s))"

text \<open>The closure \<open>C\<close> is loaded, without devices, and closed under pulling; nothing is half started.\<close>

definition closure_ok :: "unit_table \<Rightarrow> unit_id set \<Rightarrow> bool" where
  "closure_ok t C \<longleftrightarrow>
     C \<subseteq> set (tbl_keys t) \<and> (\<forall>u \<in> C. kind u \<noteq> Kind_Device)
     \<and> (\<forall>u v. u \<in> C \<longrightarrow> pulls t u v \<longrightarrow> v \<in> C) \<and> (\<forall>u. unit_status_of t u \<noteq> Some Starting)"

lemma closure_ok_mark: "closure_ok t C \<Longrightarrow> closure_ok (mark_started us t) C"
  by (auto simp: closure_ok_def mark_started_frame status_mark_started)

definition deps_up :: "unit_table \<Rightarrow> unit_id set \<Rightarrow> unit_id \<Rightarrow> bool" where
  "deps_up t C u \<longleftrightarrow> (\<forall>v \<in> C. after_edge t u v \<longrightarrow> up t v)"

text \<open>
  The state between rounds: every unit of the closure is up, or was never started and has a
  waiting job; running jobs belong to units that are up; what is queued has its dependencies up.
\<close>

definition boot_inv :: "unit_table \<Rightarrow> unit_id set \<Rightarrow> registry \<Rightarrow> bool" where
  "boot_inv t C r \<longleftrightarrow>
     regular r \<and> closure_ok t C
     \<and> (\<forall>i j. get_job r i = Some j \<longrightarrow> job_kind j = Start \<and> job_unit j \<in> C
          \<and> (job_state j = Job_Waiting \<and> job_deadline j = None \<and> unit_status_of t (job_unit j) = Some NeverStarted
             \<or> job_state j = Job_Running \<and> up t (job_unit j)))
     \<and> (\<forall>u \<in> C. up t u \<or> unit_status_of t u = Some NeverStarted \<and> u \<in> set (job_units r))
     \<and> (\<forall>i j. i \<in> set (run_queue r) \<longrightarrow> get_job r i = Some j \<longrightarrow> job_state j = Job_Waiting \<longrightarrow> deps_up t C (job_unit j))"

lemma boot_inv_job:
  assumes "boot_inv t C r" "get_job r i = Some j"
  shows "job_kind j = Start" "job_unit j \<in> C"
    "is_waiting r i \<longleftrightarrow> job_state j = Job_Waiting"
    "job_state j = Job_Waiting \<Longrightarrow> job_deadline j = None \<and> unit_status_of t (job_unit j) = Some NeverStarted"
    "job_state j \<noteq> Job_Waiting \<Longrightarrow> job_state j = Job_Running \<and> up t (job_unit j)"
proof -
  have "job_kind j = Start \<and> job_unit j \<in> C
      \<and> (job_state j = Job_Waiting \<and> job_deadline j = None \<and> unit_status_of t (job_unit j) = Some NeverStarted
         \<or> job_state j = Job_Running \<and> up t (job_unit j))"
    using assms unfolding boot_inv_def by blast
  then show "job_kind j = Start" "job_unit j \<in> C"
    "job_state j = Job_Waiting \<Longrightarrow> job_deadline j = None \<and> unit_status_of t (job_unit j) = Some NeverStarted"
    "job_state j \<noteq> Job_Waiting \<Longrightarrow> job_state j = Job_Running \<and> up t (job_unit j)"
    by (elim conjE disjE, simp_all)+
  show "is_waiting r i \<longleftrightarrow> job_state j = Job_Waiting" using assms(2) by (simp add: is_waiting_get)
qed

text \<open>A unit of the closure is ready exactly when its dependencies in the closure are up.\<close>

lemma ready_deps_up:
  assumes inv: "boot_inv t C r" and u: "u \<in> C" and S: "{v \<in> C. \<not> up t v} \<subseteq> set s" "set s \<subseteq> C"
  shows "is_ready t s u \<longleftrightarrow> deps_up t C u"
proof -
  have C: "C \<subseteq> set (tbl_keys t)" "kind u \<noteq> Kind_Device" "\<And>v. pulls t u v \<Longrightarrow> v \<in> C"
      "\<And>v. unit_status_of t v \<noteq> Some Starting"
    using inv u by (auto simp: boot_inv_def closure_ok_def)
  have loaded: "\<exists>x. tbl_get t v = Some x" if "v \<in> C" for v
  proof -
    have "v \<in> set (tbl_keys t)" using C(1) that by blast
    then show ?thesis by (auto simp: tbl_keys_get)
  qed
  obtain x where x: "tbl_get t u = Some x" using loaded u by blast
  have never: "v \<in> C \<Longrightarrow> up t v \<or> unit_status_of t v = Some NeverStarted" for v
    using inv by (auto simp: boot_inv_def)
  have ready: "dep_ready t (Some s) (deps x) v \<longleftrightarrow> (v \<in> C \<longrightarrow> up t v)" if v: "v \<in> set (after (deps x))" for v
  proof (cases "v \<in> C")
    case True
    then obtain y where y: "tbl_get t v = Some y" using loaded by blast
    show ?thesis
    proof (cases "up t v")
      case True
      then obtain st where "status y = Started st" using y by (auto simp: up_def unit_status_of_def)
      then show ?thesis using True y by (simp add: dep_ready_def)
    next
      case False
      then have "status y = NeverStarted" "v \<in> set s"
        using never [OF True] y S(1) True by (auto simp: unit_status_of_def)
      then show ?thesis using False True y by (simp add: dep_ready_def Let_def)
    qed
  next
    case False
    then have "v \<notin> set (requires (deps x))" "v \<notin> set (binds_to (deps x))" "v \<notin> set (wants (deps x))"
        "v \<notin> set (upholds (deps x))"
      using C(3) [of v] x by (auto simp: pulls_def)
    moreover have "v \<notin> set s" using False S(2) by blast
    ultimately show ?thesis
      using False C(4) [of v] by (auto simp: dep_ready_def unit_status_of_def split: option.split unit_status.split)
  qed
  have "is_ready t s u \<longleftrightarrow> (\<forall>v \<in> set (after (deps x)). v \<in> C \<longrightarrow> up t v)"
    using C(2) x ready by (auto simp: is_ready_def unstarted_deps_def filter_empty_conv)
  also have "\<dots> \<longleftrightarrow> deps_up t C u"
    using x C(1) by (auto simp: deps_up_def after_edge_def)
  finally show ?thesis .
qed

text \<open>With every queued job seen as never started, the loop hands out all of them.\<close>

definition all_run :: "registry \<Rightarrow> registry \<Rightarrow> bool" where
  "all_run r r' \<longleftrightarrow>
     run_queue r' = []
     \<and> (\<forall>k. if is_waiting r k \<and> k \<in> set (run_queue r)
            then \<exists>j'. get_job r' k = Some j' \<and> job_unit j' = job_unit (the (get_job r k))
                      \<and> job_kind j' = Start \<and> job_state j' = Job_Running
            else get_job r' k = get_job r k)"

lemma dispatch_all_run:
  assumes "regular r"
    and "\<And>i j. i \<in> set (run_queue r) \<Longrightarrow> get_job r i = Some j \<Longrightarrow> job_state j = Job_Waiting \<Longrightarrow>
           job_kind j = Start \<and> fst (seen i) = Some NeverStarted"
  shows "all_run r (fst (dispatch_loop seen r))"
  using assms
proof (induction "List.length (run_queue r)" arbitrary: r rule: less_induct)
  case less
  show ?case
    using less.prems(1)
  proof (cases rule: pop_ready_cases)
    case (empty r')
    have "is_waiting r k \<Longrightarrow> k \<notin> set (run_queue r)" for k using empty(2) by (auto simp: filter_empty_conv)
    moreover have "run_queue r' = []"
      using empty(1,2) by (auto simp: pop_ready_def pop_ready_loop_eq filter_empty_conv split: list.splits)
    ultimately show ?thesis
      using empty by (subst dispatch_loop.simps) (auto simp: all_run_def)
  next
    case (pop i q j)
    let ?r1 = "set_running i (r\<lparr>run_queue := q\<rparr>)"
    let ?r' = "set_deadline i (snd (seen i) + start_timeout) (set_running i ?r1)"
    have len: "List.length q < List.length (run_queue r)"
      using pop_ready_shorter [OF pop(1) [symmetric]] by simp
    have pend: "k \<in> set (run_queue r) \<and> is_waiting r k \<longleftrightarrow> k = i \<or> k \<in> set q \<and> is_waiting r k" for k
      using arg_cong [OF pop(4), of set] by auto
    have j: "job_kind j = Start" "fst (seen i) = Some NeverStarted"
      using less.prems(2) [of i j] pop(2,3) pend [of i] by (auto simp: is_waiting_get)
    have j1: "get_job ?r1 i = Some (j\<lparr>job_state := Job_Running\<rparr>)"
      using pop(3) by (simp add: update_job_folds get_job_update_job) (simp add: get_job_def)
    have p: "popped r i q ?r'" by (rule popped_cases(3) [OF pop(5) refl pop(6)])
    then have get: "k \<noteq> i \<Longrightarrow> get_job ?r' k = get_job r k" for k by (simp add: popped_def)
    have i': "get_job ?r' i = Some (j\<lparr>job_state := Job_Running, job_deadline := Some (snd (seen i) + start_timeout)\<rparr>)"
      using pop(3) by (simp add: update_job_folds get_job_update_job) (simp add: get_job_def)
    have q: "run_queue ?r' = q" "regular ?r'" using p by (simp_all add: popped_def)
    have "all_run ?r' (fst (dispatch_loop seen ?r'))"
    proof (rule less.hyps)
      show "List.length (run_queue ?r') < List.length (run_queue r)" using len q(1) by simp
      show "job_kind j' = Start \<and> fst (seen k) = Some NeverStarted"
        if "k \<in> set (run_queue ?r')" "get_job ?r' k = Some j'" "job_state j' = Job_Waiting" for k j'
      proof -
        have "k \<noteq> i" using that i' by auto
        then have "get_job r k = Some j'" using that(2) get by simp
        moreover from this that(3) have "is_waiting r k" by (simp add: is_waiting_get)
        ultimately show ?thesis using less.prems(2) [of k j'] that(1,3) pend [of k] q(1) by auto
      qed
    qed (rule q(2))
    moreover have "fst (dispatch_loop seen r) = fst (dispatch_loop seen ?r')"
      using pop(1) j1 j by (subst dispatch_loop.simps) (simp add: case_prod_beta)
    moreover have "all_run r s" if a: "all_run ?r' s" for s
    proof -
      have w: "is_waiting ?r' k \<longleftrightarrow> k \<noteq> i \<and> is_waiting r k" for k
        using get [of k] i' by (cases "k = i") (simp_all add: is_waiting_get)
      have "if is_waiting r k \<and> k \<in> set (run_queue r)
            then \<exists>j'. get_job s k = Some j' \<and> job_unit j' = job_unit (the (get_job r k))
                      \<and> job_kind j' = Start \<and> job_state j' = Job_Running
            else get_job s k = get_job r k" for k
      proof (cases "k = i")
        case True
        then have "get_job s i = get_job ?r' i" using a w [of i] by (auto simp: all_run_def)
        then show ?thesis using True i' pop(2,3) pend [of i] j(1) by simp
      next
        case False
        have "if is_waiting ?r' k \<and> k \<in> set q
            then \<exists>j'. get_job s k = Some j' \<and> job_unit j' = job_unit (the (get_job ?r' k))
                      \<and> job_kind j' = Start \<and> job_state j' = Job_Running
            else get_job s k = get_job ?r' k"
          using a unfolding all_run_def q(1) by blast
        then show ?thesis using False get [OF False] w [of k] pend [of k] by (simp split: if_splits; blast)
      qed
      then show ?thesis using a by (auto simp: all_run_def)
    qed
    ultimately show ?thesis by simp
  qed
qed

text \<open>Phase 1 in that state: the running jobs are done, the ready ones are queued.\<close>

lemma finish_all_queue: "set (run_queue (finish_all res is r)) \<subseteq> set (run_queue r)"
  using shrinks_finish_all by (simp add: shrinks_def)

lemma retire_running_all:
  assumes "\<And>i u. (i, u) \<in> set js \<Longrightarrow> up t u"
  shows "fold (retire_running_one t) js r = finish_all Done (map fst js) r"
  using assms
proof (induction js arbitrary: r)
  case (Cons ju js)
  obtain i u where ju: "ju = (i, u)" by fastforce
  then have "up t u" using Cons.prems [of i u] by simp
  then have "retire_running_one t ju r = fst (finish i Done r)" for r by (auto simp: ju up_def retire_running_one_def)
  moreover have "fold (retire_running_one t) js r = finish_all Done (map fst js) r" for r
    by (rule Cons.IH) (auto intro: Cons.prems)
  ultimately show ?case by (simp add: finish_all_def ju)
qed (simp add: finish_all_def)

lemma start_jobs_iff:
  "registry_inv r \<Longrightarrow> (i, u) \<in> set (start_jobs s r) \<longleftrightarrow>
     (\<exists>j. get_job r i = Some j \<and> job_unit j = u \<and> job_state j = s \<and> job_kind j = Start)"
  using registry_inv_wf(1) [of r] registry_inv_job [of r]
  by (fastforce simp: start_jobs_def get_job_def tbl_get_mem [symmetric] image_iff)

lemma boot_units:
  assumes "boot_inv t C r"
  shows "{v \<in> C. \<not> up t v} \<subseteq> set (job_units r)" "set (job_units r) \<subseteq> C"
proof -
  show "{v \<in> C. \<not> up t v} \<subseteq> set (job_units r)" using assms unfolding boot_inv_def by blast
  have "registry_inv r" using assms by (simp add: boot_inv_def regular_def)
  from set_job_units [OF this] show "set (job_units r) \<subseteq> C"
    using boot_inv_job(2) [OF assms] by auto
qed

lemma boot_retire:
  assumes inv: "boot_inv t C r" and r': "r' = drive_retire t now r"
  shows "regular r'" "get_job r' k = (if is_waiting r k then get_job r k else None)"
    "k \<in> set (run_queue r') \<and> is_waiting r' k \<longleftrightarrow>
       (\<exists>j. get_job r k = Some j \<and> job_state j = Job_Waiting \<and> deps_up t C (job_unit j))"
proof -
  have reg: "regular r" and rinv: "registry_inv r" using inv by (simp_all add: boot_inv_def regular_def)
  let ?js = "start_jobs Job_Running r" and ?r1 = "retire_running t r"
  have running: "(i, u) \<in> set ?js \<Longrightarrow> up t u" for i u
    using boot_inv_job(5) [OF inv] by (auto simp: start_jobs_iff [OF rinv])
  then have r1: "?r1 = finish_all Done (map fst ?js) r"
    unfolding retire_running_def by (rule retire_running_all)
  have run: "k \<in> set (map fst ?js) \<longleftrightarrow> (\<exists>j. get_job r k = Some j \<and> job_state j \<noteq> Job_Waiting)" for k
  proof -
    have "k \<in> set (map fst ?js) \<longleftrightarrow> (\<exists>j. get_job r k = Some j \<and> job_state j = Job_Running \<and> job_kind j = Start)"
      using start_jobs_iff [OF rinv, of k _ Job_Running] by force
    then show ?thesis using boot_inv_job(1,5) [OF inv, of k] by auto
  qed
  have g1: "get_job ?r1 k = (if is_waiting r k then get_job r k else None)" for k
    using run [of k] by (cases "get_job r k") (auto simp: r1 get_job_finish_all is_waiting_get)
  have reg1: "regular ?r1" by (rule regular_retire_running [OF reg])
  then have inv1: "registry_inv ?r1" by (simp add: regular_def)
  have "(i, u) \<in> set (start_jobs Job_Waiting ?r1) \<Longrightarrow> unit_status_of t u = Some NeverStarted" for i u
    using boot_inv_job(4) [OF inv] by (auto simp: start_jobs_iff [OF inv1] g1 split: if_splits)
  then have r2: "waiting_done t ?r1 = []" by (fastforce simp: waiting_done_def filter_empty_conv)
  have "snd (pop_expired now ?r1) = []"
  proof -
    have "i \<notin> set (expired_ids now ?r1)" for i
      using boot_inv_job(4) [OF inv] registry_inv_wf(1) [OF inv1]
      by (auto simp: expired_ids_iff g1 is_waiting_get split: if_splits)
    then show ?thesis by (simp add: pop_expired_def Let_def) (metis ex_in_conv set_empty)
  qed
  then have r3: "pop_expired now ?r1 = (?r1, [])"
    by (simp add: pop_expired_def Let_def)
  let ?ready = "is_ready t (job_units r)"
  have r'_eq: "r' = fst (enqueue_ready ?ready ?r1)"
    by (simp add: r' drive_retire_def Let_def r2 r3 finish_all_def)
  note eq = enqueue_ready_queue [OF reg1, of ?ready, folded r'_eq]
  show "regular r'" by (rule eq(3))
  show g: "get_job r' k = (if is_waiting r k then get_job r k else None)" for k using eq(2) g1 by simp
  have ready: "is_ready t (job_units r) u \<longleftrightarrow> deps_up t C u" if "u \<in> C" for u
    using ready_deps_up [OF inv that boot_units [OF inv]] .
  have queued: "k \<in> set (run_queue ?r1) \<Longrightarrow> get_job r k = Some j \<Longrightarrow> job_state j = Job_Waiting \<Longrightarrow> deps_up t C (job_unit j)" for k j
    using inv finish_all_queue [of Done "map fst ?js" r] unfolding boot_inv_def r1 by blast
  have w': "is_waiting r' k \<longleftrightarrow> is_waiting r k" by (auto simp: is_waiting_get g)
  show "k \<in> set (run_queue r') \<and> is_waiting r' k \<longleftrightarrow>
       (\<exists>j. get_job r k = Some j \<and> job_state j = Job_Waiting \<and> deps_up t C (job_unit j))"
  proof (cases "\<exists>j. get_job r k = Some j \<and> job_state j = Job_Waiting")
    case True
    then obtain j where j: "get_job r k = Some j" "job_state j = Job_Waiting" by blast
    then have w: "is_waiting r k" "job_unit j \<in> C" using boot_inv_job(2) [OF inv] by (auto simp: is_waiting_get)
    then have "k \<in> set (run_queue r') \<longleftrightarrow> k \<in> set (run_queue ?r1) \<or> ?ready (job_unit j)"
      using eq(1) j by (auto simp: g1)
    then show ?thesis using j w w' ready queued by auto
  next
    case False
    then show ?thesis unfolding w' by (auto simp: is_waiting_get)
  qed
qed


lemma handed_out_mem:
  "u \<in> set (handed_out seen r is) \<longleftrightarrow>
     (\<exists>k j. k \<in> set is \<and> get_job r k = Some j \<and> job_state j = Job_Waiting \<and> job_kind j = Start
        \<and> fst (seen k) = Some NeverStarted \<and> job_unit j = u)"
  unfolding handed_out_def by (force simp: is_waiting_get)

text \<open>One round: what was handed out is exactly what had its dependencies up.\<close>

lemma boot_round:
  assumes inv: "boot_inv t C r" and d: "drive_run_queue t now (seen_in t now r) r = (r', us)"
  shows "boot_inv (mark_started us t) C r'"
    "distinct us" "set us = {u \<in> C. \<not> up t u \<and> deps_up t C u}"
    "get_job r' k = Some j' \<Longrightarrow> \<exists>j. get_job r k = Some j \<and> job_state j = Job_Waiting"
proof -
  let ?seen = "seen_in t now r"
  define s where "s = drive_retire t now r"
  have reg: "regular r" "registry_inv r" using inv by (simp_all add: boot_inv_def regular_def)
  note retired = boot_retire [OF inv s_def]
  have s_inv: "registry_inv s" using retired(1) by (simp add: regular_def)
  have waiting: "is_waiting s k \<longleftrightarrow> is_waiting r k" for k using retired(2) [of k] by (auto simp: is_waiting_get)
  have seen: "job_kind j = Start \<and> fst (?seen i) = Some NeverStarted"
    if "get_job s i = Some j" "job_state j = Job_Waiting" for i j
  proof -
    have "get_job r i = Some j" using that(1) retired(2) [of i] by (simp split: if_splits)
    then show ?thesis using boot_inv_job(1,4) [OF inv] that(2) by (auto simp: seen_in_def)
  qed
  have units: "{v \<in> C. \<not> up t v} \<subseteq> set (job_units r)" by (rule boot_units(1) [OF inv])
  have post: "regular r' \<and> all_run s r' \<and> us = handed_out ?seen s (run_queue s)"
  proof (cases "is_empty r")
    case True
    then have none: "get_job r k = None" "get_job s k = None" for k
      using retired(2) [of k] by (simp_all add: is_empty_def get_job_def)
    then have "run_queue r = []" "run_queue s = []"
      using registry_inv_wf(4) [OF reg(2)] registry_inv_wf(4) [OF s_inv] unfolding get_job_def
      by (metis ex_in_conv option.distinct(1) set_empty)+
    with True none reg show ?thesis using d by (simp add: drive_run_queue_def all_run_def handed_out_def)
  next
    case False
    then have "r' = fst (dispatch_loop ?seen s)" "us = snd (dispatch_loop ?seen s)"
      using d by (simp_all add: drive_run_queue_def s_def)
    then show ?thesis
      using dispatch_loop_spec [OF retired(1), of ?seen] dispatch_all_run [OF retired(1), of ?seen] seen
      by (simp add: loop_spec_def)
  qed
  have due: "k \<in> set (run_queue s) \<and> is_waiting s k \<longleftrightarrow>
      (\<exists>j. get_job r k = Some j \<and> job_state j = Job_Waiting \<and> deps_up t C (job_unit j))" for k
    by (rule retired(3))
  show "distinct us" using post s_inv by (auto intro: distinct_handed_out registry_inv_wf)
  have us: "u \<in> set us \<longleftrightarrow> (\<exists>k j. get_job r k = Some j \<and> job_unit j = u \<and> job_state j = Job_Waiting \<and> deps_up t C u)" for u
  proof -
    have "u \<in> set us \<longleftrightarrow> (\<exists>k j. k \<in> set (run_queue s) \<and> is_waiting s k \<and> get_job s k = Some j \<and> job_unit j = u)"
    proof -
      have "u \<in> set us \<longleftrightarrow> u \<in> set (handed_out ?seen s (run_queue s))" using post by blast
      also have "\<dots> \<longleftrightarrow> (\<exists>k j. k \<in> set (run_queue s) \<and> is_waiting s k \<and> get_job s k = Some j \<and> job_unit j = u)"
        unfolding handed_out_mem is_waiting_get using seen by (metis option.inject)
      finally show ?thesis .
    qed
    also have "\<dots> \<longleftrightarrow> (\<exists>k j. get_job r k = Some j \<and> job_unit j = u \<and> job_state j = Job_Waiting \<and> deps_up t C u)"
    proof -
      have "k \<in> set (run_queue s) \<and> is_waiting s k \<and> get_job s k = Some j \<and> job_unit j = u \<longleftrightarrow>
          get_job r k = Some j \<and> job_unit j = u \<and> job_state j = Job_Waiting \<and> deps_up t C u" for k j
      proof (cases "is_waiting r k")
        case True
        then have "get_job s k = get_job r k" using retired(2) by simp
        then show ?thesis using due [of k] by auto
      next
        case False
        then show ?thesis using waiting [of k] by (auto simp: is_waiting_get)
      qed
      then show ?thesis by simp
    qed
    finally show ?thesis .
  qed
  have up_status: "up t u \<Longrightarrow> unit_status_of t u \<noteq> Some NeverStarted" for u by (auto simp: up_def)
  have never: "u \<in> C \<Longrightarrow> \<not> up t u \<Longrightarrow> unit_status_of t u = Some NeverStarted \<and> u \<in> set (job_units r)" for u
    using inv unfolding boot_inv_def by blast
  have has_job: "\<exists>k j. get_job r k = Some j \<and> job_unit j = u \<and> job_state j = Job_Waiting" if u: "u \<in> C" "\<not> up t u" for u
  proof -
    obtain k j where "get_job r k = Some j" "job_unit j = u"
      using never [OF u] set_job_units [OF reg(2)] by auto
    then show ?thesis using boot_inv_job(5) [OF inv, of k j] u(2) by (cases "job_state j = Job_Waiting") auto
  qed
  show us_eq: "set us = {u \<in> C. \<not> up t u \<and> deps_up t C u}"
    using us has_job boot_inv_job(2,4) [OF inv] up_status by (fastforce simp: set_eq_iff)
  have up': "up (mark_started us t) u \<longleftrightarrow> up t u \<or> u \<in> set us" if "u \<in> C" for u
    using never [OF that] by (auto simp: up_def status_mark_started)
  have job': "\<exists>j. get_job r k = Some j \<and> job_unit j' = job_unit j \<and> job_state j = Job_Waiting
        \<and> (if deps_up t C (job_unit j) then job_kind j' = Start \<and> job_state j' = Job_Running else j' = j)"
    if g: "get_job r' k = Some j'" for k j'
  proof (cases "is_waiting s k \<and> k \<in> set (run_queue s)")
    case True
    then obtain j where j: "get_job r k = Some j" "job_state j = Job_Waiting" "deps_up t C (job_unit j)"
      using due by blast
    moreover have "get_job s k = Some j" using retired(2) [of k] True waiting j(1) by simp
    ultimately show ?thesis using post True g unfolding all_run_def by (smt (verit) option.inject option.sel)
  next
    case False
    then have "get_job s k = Some j'" using post g unfolding all_run_def by (smt (verit))
    then have j: "get_job r k = Some j'" "is_waiting r k" using retired(2) [of k] by (simp_all split: if_splits)
    then show ?thesis using due [of k] False by (auto simp: is_waiting_get)
  qed
  then show "get_job r' k = Some j' \<Longrightarrow> \<exists>j. get_job r k = Some j \<and> job_state j = Job_Waiting" by blast
  have "closure_ok (mark_started us t) C" using inv by (simp add: boot_inv_def closure_ok_mark)
  moreover have "job_kind j' = Start \<and> job_unit j' \<in> C
      \<and> (job_state j' = Job_Waiting \<and> job_deadline j' = None \<and> unit_status_of (mark_started us t) (job_unit j') = Some NeverStarted
         \<or> job_state j' = Job_Running \<and> up (mark_started us t) (job_unit j'))"
    if g: "get_job r' k = Some j'" for k j'
  proof -
    obtain j where j: "get_job r k = Some j" "job_unit j' = job_unit j" "job_state j = Job_Waiting"
        "if deps_up t C (job_unit j) then job_kind j' = Start \<and> job_state j' = Job_Running else j' = j"
      using job' [OF g] by blast
    note b = boot_inv_job [OF inv j(1)]
    show ?thesis
    proof (cases "deps_up t C (job_unit j)")
      case True
      then have "up (mark_started us t) (job_unit j)" using us j(1,3) up' [OF b(2)] by blast
      with True j b show ?thesis by simp
    next
      case False
      then have "job_unit j \<notin> set us" using us_eq by simp
      with False j b show ?thesis by (simp add: status_mark_started)
    qed
  qed
  moreover have "up (mark_started us t) u \<or> unit_status_of (mark_started us t) u = Some NeverStarted \<and> u \<in> set (job_units r')"
    if u: "u \<in> C" for u
  proof (cases "up t u \<or> u \<in> set us")
    case True
    then show ?thesis using up' [OF u] by blast
  next
    case False
    then obtain k j where j: "get_job r k = Some j" "job_unit j = u" "job_state j = Job_Waiting" "\<not> deps_up t C u"
      using has_job [OF u] us_eq u by blast
    then have "get_job s k = Some j" "\<not> (is_waiting s k \<and> k \<in> set (run_queue s))"
      using retired(2) [of k] due [of k] by (auto simp: is_waiting_get)
    then have "get_job r' k = Some j" using post unfolding all_run_def by (smt (verit))
    moreover have "registry_inv r'" using post by (simp add: regular_def)
    ultimately have "u \<in> set (job_units r')" using set_job_units j(2) by blast
    then show ?thesis using False never [OF u] by (simp add: status_mark_started)
  qed
  moreover have "run_queue r' = []" "regular r'" using post by (simp_all add: all_run_def)
  ultimately show "boot_inv (mark_started us t) C r'" unfolding boot_inv_def by simp
qed

text \<open>A round with units left to start starts one; with none left it empties the registry.\<close>

lemma boot_round_progress:
  assumes inv: "boot_inv t C r" and acyclic: "acyclic {(u, v). after_edge t u v}" and fin: "finite C"
    and down: "{u \<in> C. \<not> up t u} \<noteq> {}"
  shows "{u \<in> C. \<not> up t u \<and> deps_up t C u} \<noteq> {}"
proof -
  obtain u where "u \<in> {u \<in> C. \<not> up t u}" "\<And>v. after_edge t u v \<Longrightarrow> v \<notin> {u \<in> C. \<not> up t u}"
    using minimal_unit [OF _ down acyclic] fin by auto
  then show ?thesis by (auto simp: deps_up_def)
qed

lemma boot_round_empty:
  assumes inv: "boot_inv t C r" and d: "drive_run_queue t now (seen_in t now r) r = (r', us)"
    and "{u \<in> C. \<not> up t u} = {}"
  shows "jobs r' = []" "us = []"
proof -
  have "u \<notin> set us" for u using boot_round(3) [OF inv d] assms(3) by auto
  then show "us = []" by (metis ex_in_conv set_empty)
  have none: "job_state j \<noteq> Job_Waiting" if g: "get_job r k = Some j" for k j
  proof
    assume "job_state j = Job_Waiting"
    from boot_inv_job(4) [OF inv g this] have "\<not> up t (job_unit j)" by (simp add: up_def)
    then show False using boot_inv_job(2) [OF inv g] assms(3) by blast
  qed
  have "get_job r' k = None" for k
  proof (rule ccontr)
    assume "get_job r' k \<noteq> None"
    then obtain j' where "get_job r' k = Some j'" by auto
    from boot_round(4) [OF inv d this] none show False by blast
  qed
  then have "k \<notin> set (tbl_keys (jobs r'))" for k by (simp add: tbl_keys_get get_job_def)
  then show "jobs r' = []" by (cases "jobs r'") (auto simp: tbl_keys_def)
qed

text \<open>The rounds together.\<close>

definition booted :: "unit_table \<Rightarrow> unit_id set \<Rightarrow> registry \<times> unit_table \<times> unit_id list \<Rightarrow> bool" where
  "booted t C res \<longleftrightarrow>
     (case res of (r', t', vs) \<Rightarrow>
        jobs r' = [] \<and> (\<forall>u \<in> C. up t' u) \<and> distinct vs \<and> set vs = {u \<in> C. \<not> up t u}
        \<and> sorted_wrt (\<lambda>u v. \<not> after_edge t u v) vs)"

lemma boot_rounds_done: "jobs r = [] \<Longrightarrow> boot_rounds nows t r = (r, t, [])"
  by (induction nows arbitrary: t) (simp_all add: drive_run_queue_def is_empty_def mark_started_def)

lemma boot_rounds_booted:
  assumes "boot_inv t C r" "acyclic {(u, v). after_edge t u v}" "finite C"
    "card {u \<in> C. \<not> up t u} < List.length nows"
  shows "booted t C (boot_rounds nows t r)"
  using assms
proof (induction nows arbitrary: t r)
  case (Cons now nows)
  obtain r1 us where d: "drive_run_queue t now (seen_in t now r) r = (r1, us)" by fastforce
  let ?t = "mark_started us t"
  note round = boot_round [OF Cons.prems(1) d]
  show ?case
  proof (cases "{u \<in> C. \<not> up t u} = {}")
    case True
    from boot_round_empty [OF Cons.prems(1) d True] have e: "jobs r1 = []" "us = []" by blast+
    then show ?thesis using d True by (auto simp: booted_def boot_rounds_done mark_started_def)
  next
    case False
    have up': "up ?t u \<longleftrightarrow> up t u \<or> u \<in> set us" if "u \<in> C" for u
      using Cons.prems(1) that by (auto simp: up_def status_mark_started boot_inv_def)
    have "{u \<in> C. \<not> up ?t u} \<subset> {u \<in> C. \<not> up t u}"
      using boot_round_progress [OF Cons.prems(1-3) False] round(3) up' by fastforce
    then have "card {u \<in> C. \<not> up ?t u} < card {u \<in> C. \<not> up t u}"
      using Cons.prems(3) by (intro psubset_card_mono) auto
    then have "booted ?t C (boot_rounds nows ?t r1)"
      using Cons.prems by (intro Cons.IH [OF round(1)]) (simp_all add: mark_started_frame)
    moreover obtain r2 t2 vs where b: "boot_rounds nows ?t r1 = (r2, t2, vs)" by (metis prod_cases3)
    ultimately have post: "jobs r2 = []" "\<And>u. u \<in> C \<Longrightarrow> up t2 u" "distinct vs" "set vs = {u \<in> C. \<not> up ?t u}"
        "sorted_wrt (\<lambda>u v. \<not> after_edge t u v) vs"
      by (auto simp: booted_def mark_started_frame)
    have disj: "set us \<inter> set vs = {}" "set us \<union> set vs = {u \<in> C. \<not> up t u}"
      using post(4) up' round(3) by auto
    have no_edge: "\<not> after_edge t u v" if "u \<in> set us" "v \<in> set us \<union> set vs" for u v
      using that disj(2) round(3) by (auto simp: deps_up_def)
    have "sorted_wrt (\<lambda>u v. \<not> after_edge t u v) us"
      using no_edge by (auto simp: sorted_wrt_iff_nth_less)
    then have "sorted_wrt (\<lambda>u v. \<not> after_edge t u v) (us @ vs)"
      using no_edge post(5) by (auto simp: sorted_wrt_append)
    then show ?thesis using d b post round(2) disj by (auto simp: booted_def)
  qed
qed simp


lemma boot_inv_install:
  assumes r: "registry_inv r" "ids_below r" "fresh_jobs r" "set (job_units r) = C"
    and q: "\<forall>i j. i \<in> set (run_queue r) \<longrightarrow> get_job r i = Some j \<longrightarrow> is_ready t s (job_unit j)"
    and s: "set s = C"
    and C: "closure_ok t C" "\<And>u. u \<in> C \<Longrightarrow> unit_status_of t u = Some NeverStarted"
  shows "boot_inv t C r"
proof -
  have base: "boot_inv t C (r\<lparr>run_queue := []\<rparr>)"
  proof -
    have "regular (r\<lparr>run_queue := []\<rparr>)"
      using r(1,2) by (auto simp: regular_def registry_inv_iff ids_below_iff)
    moreover have "get_job (r\<lparr>run_queue := []\<rparr>) = get_job r" by (simp add: get_job_def fun_eq_iff)
    moreover have "job_kind j = Start \<and> job_unit j \<in> C \<and> job_state j = Job_Waiting \<and> job_deadline j = None
        \<and> unit_status_of t (job_unit j) = Some NeverStarted" if g: "get_job r i = Some j" for i j
    proof -
      have "job_unit j \<in> C" using g r(4) set_job_units [OF r(1)] by blast
      then show ?thesis using g r(3) C(2) unfolding fresh_jobs_iff [OF r(1)] by blast
    qed
    ultimately show ?thesis using r(4) C unfolding boot_inv_def by simp
  qed
  have ready: "is_ready t s u \<longleftrightarrow> deps_up t C u" if "u \<in> C" for u
    using ready_deps_up [OF base that] s by auto
  have "deps_up t C (job_unit j)" if "i \<in> set (run_queue r)" "get_job r i = Some j" for i j
  proof -
    have "job_unit j \<in> C" using set_job_units [OF r(1)] r(4) that(2) by blast
    then show ?thesis using q that ready by blast
  qed
  moreover have "get_job (r\<lparr>run_queue := []\<rparr>) = get_job r" by (simp add: get_job_def fun_eq_iff)
  moreover have "regular r" using r by (simp add: regular_def)
  ultimately show ?thesis using base unfolding boot_inv_def by simp
qed

text \<open>
  C11: A boot runs to its end.  Take the registry in which the start closure of a target was
  just installed, over a table where the closure is loaded, holds no device and was never
  started, nothing is starting, and the \<open>After=\<close> edges among loaded units have no cycle.  When
  every unit a pass hands out is up before the next pass, then after at most one pass per unit
  of the closure and one more, the registry is empty and every unit of the closure is up.
  Each unit was handed out once, and none before a unit it is ordered after.
\<close>

theorem boot_completes:
  assumes "closure_ok t ({(u, v). pulls t u v}\<^sup>* `` {target})"
    and "list_all (\<lambda>u. unit_status_of t u = Some NeverStarted) (collect_unit_start_subgraph t [target])"
    and "acyclic {(u, v). after_edge t u v}"
    and "List.length (collect_unit_start_subgraph t [target]) < 2 ^ 32 - 1"
    and "List.length (collect_unit_start_subgraph t [target]) < List.length nows"
  shows "case install_closure t target new_registry of
           Panics \<Rightarrow> False
         | Returns r \<Rightarrow>
             (case boot_rounds nows t r of
                (r', t', us) \<Rightarrow>
                  jobs r' = []
                  \<and> {u. \<exists>s. unit_status_of t' u = Some (Started s)} \<supseteq> {(u, v). pulls t u v}\<^sup>* `` {target}
                  \<and> distinct us \<and> set us = {(u, v). pulls t u v}\<^sup>* `` {target}
                  \<and> sorted_wrt (\<lambda>u v. \<not> after_edge t u v) us)"
proof -
  let ?C = "{(u, v). pulls t u v}\<^sup>* `` {target}" and ?s = "collect_unit_start_subgraph t [target]"
  have C: "set ?s = ?C" by (simp add: collect_closure)
  have never: "u \<in> ?C \<Longrightarrow> unit_status_of t u = Some NeverStarted" for u
    using assms(2) unfolding C [symmetric] by (simp add: list_all_iff)
  obtain r where r: "install_closure t target new_registry = Returns r" "registry_inv r" "ids_below r" "fresh_jobs r"
      "set (job_units r) = ?C"
      "\<forall>i j. i \<in> set (run_queue r) \<longrightarrow> get_job r i = Some j \<longrightarrow> is_ready t ?s (job_unit j)"
    using install_closure_spec [OF assms(4)] by blast
  have inv: "boot_inv t ?C r" by (rule boot_inv_install [OF r(2-6) C assms(1) never])
  have down: "{u \<in> ?C. \<not> up t u} = ?C" using never by (auto simp: up_def)
  have "card ?C < List.length nows" using assms(5) card_length [of ?s] unfolding C by linarith
  moreover have "finite ?C" unfolding C [symmetric] by simp
  ultimately have "booted t ?C (boot_rounds nows t r)"
    using boot_rounds_booted [OF inv assms(3)] down by simp
  then show ?thesis using r(1) down by (auto simp: booted_def up_def split: prod.split)
qed

lemma pair_closure_ok: "closure_ok pair_table {svc_a, svc_b}"
  by (auto simp: closure_ok_def pair_pulls tbl_keys_get pair_get unit_status_of_def plain_unit_def)

theorem boot_completes_witness:
  "case install_closure pair_table svc_a new_registry of
     Panics \<Rightarrow> False
   | Returns r \<Rightarrow>
       (case boot_rounds [0, 1, 2] pair_table r of
          (r', t', us) \<Rightarrow>
            jobs r' = []
            \<and> {u. \<exists>s. unit_status_of t' u = Some (Started s)} \<supseteq> (pull_rel pair_table)\<^sup>* `` {svc_a}
            \<and> distinct us \<and> set us = (pull_rel pair_table)\<^sup>* `` {svc_a}
            \<and> sorted_wrt (\<lambda>u v. \<not> after_edge pair_table u v) us)"
proof (rule boot_completes)
  show "list_all (\<lambda>u. unit_status_of pair_table u = Some NeverStarted) (collect_unit_start_subgraph pair_table [svc_a])"
    unfolding pair_collect by (simp add: unit_status_of_def pair_get plain_unit_def)
qed (simp_all add: pair_collect pair_closure pair_closure_ok pair_acyclic)

end
