(* ===== verification/DepResolve.thy ===== *)
theory DepResolve
  imports Subgraph SanityCheck UnitName
begin

text \<open>
  Filling in dependencies: \<open>fill_dependencies\<close> and the implicit relations of
  \<open>units/loading/dependency_resolving.rs\<close>, with the mount defaults of \<open>units/mount_monitor.rs\<close>.
  Each pass over the table first collects pairs and then pushes them into the lists; a pass
  over \<open>values_mut\<close> is \<open>map_units\<close>.

  Lemmas: what a push does to the edges of a table, that the passes keep the two ends of an
  ordering edge in step, and the exceptions.
\<close>

section \<open>Pushing an id into a dependency list\<close>

type_synonym dep_update = "(unit_id list \<Rightarrow> unit_id list) \<Rightarrow> dependencies \<Rightarrow> dependencies"

text \<open>\<open>if let Some(unit) = units.get_mut(&k) { unit.common.dependencies.<list>.push(v) }\<close>\<close>

definition push_dep :: "dep_update \<Rightarrow> unit_id \<Rightarrow> unit_id \<Rightarrow> unit_table \<Rightarrow> unit_table" where
  "push_dep upd k v t = tbl_modify k (upd_deps (upd (\<lambda>l. l @ [v]))) t"

text \<open>The pairs (id in the list, unit) and (unit, id in the list) of a pass over all units.\<close>

definition collect_pairs :: "(unit \<Rightarrow> (unit_id \<times> unit_id) list) \<Rightarrow> unit_table \<Rightarrow> (unit_id \<times> unit_id) list" where
  "collect_pairs f t = concat (map (\<lambda>(k, x). f x) t)"

definition fill_wants :: "(unit_id \<times> unit_id) list \<Rightarrow> unit_table \<Rightarrow> unit_table" where
  "fill_wants = fold (\<lambda>(wanted, wanting) t.
     push_dep wanted_by_update wanted wanting (push_dep wants_update wanting wanted t))"

definition fill_requires :: "(unit_id \<times> unit_id) list \<Rightarrow> unit_table \<Rightarrow> unit_table" where
  "fill_requires = fold (\<lambda>(required, requiring) t.
     push_dep required_by_update required requiring (push_dep requires_update requiring required t))"

definition fill_before :: "(unit_id \<times> unit_id) list \<Rightarrow> unit_table \<Rightarrow> unit_table" where
  "fill_before = fold (\<lambda>(earlier, later). push_dep before_update later earlier)"

definition fill_after :: "(unit_id \<times> unit_id) list \<Rightarrow> unit_table \<Rightarrow> unit_table" where
  "fill_after = fold (\<lambda>(later, earlier). push_dep after_update earlier later)"

definition fill_conflicts :: "(unit_id \<times> unit_id) list \<Rightarrow> unit_table \<Rightarrow> unit_table" where
  "fill_conflicts = fold (\<lambda>(conflicting, conflicted) t.
     push_dep conflicted_by_update conflicted conflicting
       (push_dep conflicts_update conflicting conflicted t))"

definition fill_part_of_by :: "(unit_id \<times> unit_id) list \<Rightarrow> unit_table \<Rightarrow> unit_table" where
  "fill_part_of_by = fold (\<lambda>(target, dependent). push_dep part_of_by_update target dependent)"

definition fill_upheld_by :: "(unit_id \<times> unit_id) list \<Rightarrow> unit_table \<Rightarrow> unit_table" where
  "fill_upheld_by = fold (\<lambda>(upheld, upholding). push_dep upheld_by_update upheld upholding)"

definition fill_bound_by :: "(unit_id \<times> unit_id) list \<Rightarrow> unit_table \<Rightarrow> unit_table" where
  "fill_bound_by = fold (\<lambda>(bound, binder). push_dep bound_by_update bound binder)"

text \<open>The explicit edges: all pairs are collected before the first push.\<close>

definition fill_explicit :: "unit_table \<Rightarrow> unit_table" where
  "fill_explicit t =
     (let wanted_by' = collect_pairs (\<lambda>x. map (\<lambda>i. (i, unit_id x)) (wants (deps x))) t;
          required_by' = collect_pairs (\<lambda>x. map (\<lambda>i. (i, unit_id x)) (requires (deps x))) t;
          conflicts' = collect_pairs (\<lambda>x. map (\<lambda>i. (unit_id x, i)) (conflicts (deps x))
                                         @ map (\<lambda>i. (i, unit_id x)) (conflicted_by (deps x))) t;
          after' = collect_pairs (\<lambda>x. map (\<lambda>i. (unit_id x, i)) (before (deps x))) t;
          before' = collect_pairs (\<lambda>x. map (\<lambda>i. (unit_id x, i)) (after (deps x))) t;
          part_of_by' = collect_pairs (\<lambda>x. map (\<lambda>i. (i, unit_id x)) (part_of (deps x))) t;
          upheld_by' = collect_pairs (\<lambda>x. map (\<lambda>i. (i, unit_id x)) (upholds (deps x))) t;
          bound_by' = collect_pairs (\<lambda>x. map (\<lambda>i. (i, unit_id x)) (binds_to (deps x))) t
      in fill_bound_by bound_by' (fill_upheld_by upheld_by' (fill_part_of_by part_of_by'
           (fill_conflicts conflicts' (fill_after after' (fill_before before'
             (fill_requires required_by' (fill_wants wanted_by' t))))))))"

section \<open>Implicit relations\<close>

definition slice_pairs :: "unit_table \<Rightarrow> (unit_id \<times> unit_id) list" where
  "slice_pairs t = collect_pairs (\<lambda>x.
     case (case specific x of Service s \<Rightarrow> srvc_slice s | _ \<Rightarrow> None) of
       None \<Rightarrow> []
     | Some slice_name \<Rightarrow>
         (case try_into_unit_id slice_name of
            None \<Rightarrow> []
          | Some slice_id \<Rightarrow> if slice_id \<in> set (tbl_keys t) then [(unit_id x, slice_id)] else [])) t"

definition add_slice_to :: "unit_id \<Rightarrow> dependencies \<Rightarrow> dependencies" where
  "add_slice_to s d = d\<lparr>requires := push_new s (requires d), after := push_new s (after d)\<rparr>"

definition add_slice_dependencies :: "unit_table \<Rightarrow> unit_table" where
  "add_slice_dependencies t =
     fold (\<lambda>(u, s). tbl_modify u (upd_deps (add_slice_to s))) (slice_pairs t) t"

definition fstype_is_network :: "string \<Rightarrow> bool" where
  "fstype_is_network fstype \<longleftrightarrow>
     fstype \<in> set [''nfs'', ''nfs4'', ''cifs'', ''smb3'', ''smbfs'', ''ncpfs'', ''glusterfs'', ''ceph'',
       ''afs'', ''coda'', ''ocfs2'', ''orangefs'', ''lustre'', ''9p'']"

definition mount_is_network_static :: "string option \<Rightarrow> string option \<Rightarrow> bool" where
  "mount_is_network_static fs_type options \<longleftrightarrow>
     (case fs_type of None \<Rightarrow> False | Some f \<Rightarrow> fstype_is_network f)
     \<or> (case options of None \<Rightarrow> False | Some s \<Rightarrow> list_ex (\<lambda>f. f = ''_netdev'') (split_on (CHR '','') s))"

text \<open>The names to order a mount after and before, to want and to require.\<close>

definition mount_default_deps :: "string \<Rightarrow> bool \<Rightarrow> string list \<times> string list \<times> string list \<times> string list" where
  "mount_default_deps what is_network =
     (let (after1, before1, wants1) =
            (if is_network
             then ([''remote-fs-pre.target'', ''network.target''], [''umount.target'', ''remote-fs.target''], [])
             else ([''local-fs-pre.target''], [''umount.target'', ''local-fs.target''], [''local-fs-pre.target'']))
      in if starts_with what ''/dev/'' then
           (let esc = unit_name_path_escape what in
            (after1 @ [esc @ ''.device'', ''blockdev@'' @ esc @ ''.target''], before1, wants1, [esc @ ''.device'']))
         else (after1, before1, wants1, []))"

definition dep_unit_id :: "string \<Rightarrow> unit_id option" where
  "dep_unit_id n =
     (if ends_with n ''.target'' then Some (UnitId Kind_Target n)
      else if ends_with n ''.device'' then Some (UnitId Kind_Device n)
      else if ends_with n ''.mount'' then Some (UnitId Kind_Mount n)
      else None)"

definition is_api_fstype :: "string \<Rightarrow> bool" where
  "is_api_fstype fstype \<longleftrightarrow>
     fstype \<in> set [''proc'', ''sysfs'', ''devtmpfs'', ''devpts'', ''cgroup'', ''cgroup2'', ''mqueue'',
       ''hugetlbfs'', ''debugfs'', ''tracefs'', ''securityfs'', ''pstore'', ''bpf'', ''configfs'',
       ''fusectl'', ''efivarfs'', ''binfmt_misc'', ''autofs'', ''ramfs'']"

definition mount_deps_of :: "unit \<Rightarrow> (string list \<times> string list \<times> string list \<times> string list) option" where
  "mount_deps_of x =
     (case specific x of
        Mount m \<Rightarrow>
          (let fstype = (case mnt_fs_type m of None \<Rightarrow> [] | Some f \<Rightarrow> f) in
           if mnt_where m = ''/'' \<or> is_api_fstype fstype then None
           else Some (mount_default_deps (mnt_what m) (mount_is_network_static (Some fstype) (mnt_options m))))
      | _ \<Rightarrow> None)"

definition shutdown_id :: unit_id where "shutdown_id = UnitId Kind_Target ''shutdown.target''"
definition sysinit_id :: unit_id where "sysinit_id = UnitId Kind_Target ''sysinit.target''"
definition basic_id :: unit_id where "basic_id = UnitId Kind_Target ''basic.target''"
definition sockets_id :: unit_id where "sockets_id = UnitId Kind_Target ''sockets.target''"

definition gets_default_deps :: "unit \<Rightarrow> bool" where
  "gets_default_deps x \<longleftrightarrow> default_dependencies (unit_conf x) \<and> unit_id x \<noteq> shutdown_id"

definition add_sysinit :: "bool \<Rightarrow> dependencies \<Rightarrow> dependencies" where
  "add_sysinit has_sysinit d =
     (if has_sysinit then d\<lparr>requires := requires d @ [sysinit_id], after := after d @ [sysinit_id]\<rparr> else d)"

definition add_mount_deps ::
  "(string list \<times> string list \<times> string list \<times> string list) option \<Rightarrow> dependencies \<Rightarrow> dependencies" where
  "add_mount_deps names d =
     (case names of
        None \<Rightarrow> d
      | Some (na, nb, nw, nr) \<Rightarrow>
          d\<lparr>after := after d @ List.map_filter dep_unit_id na,
            before := before d @ List.map_filter dep_unit_id nb,
            wants := wants d @ List.map_filter dep_unit_id nw,
            requires := requires d @ List.map_filter dep_unit_id nr\<rparr>)"

text \<open>The body of the loop over all units, with the flags which of the targets are loaded.\<close>

definition default_deps_of :: "bool \<Rightarrow> bool \<Rightarrow> bool \<Rightarrow> unit \<Rightarrow> dependencies \<Rightarrow> dependencies" where
  "default_deps_of has_shutdown has_sysinit has_basic x d =
     (let d1 = (if has_shutdown
                then d\<lparr>conflicts := conflicts d @ [shutdown_id], before := before d @ [shutdown_id]\<rparr> else d);
          d2 = (case kind (unit_id x) of
                  Kind_Service \<Rightarrow>
                    (let d' = add_sysinit has_sysinit d1 in
                     if has_basic then d'\<lparr>after := after d' @ [basic_id]\<rparr> else d')
                | Kind_Socket \<Rightarrow> add_sysinit has_sysinit d1
                | Kind_Mount \<Rightarrow> add_mount_deps (mount_deps_of x) d1
                | _ \<Rightarrow> d1)
      in dedup d2)"

definition default_deps_unit :: "bool \<Rightarrow> bool \<Rightarrow> bool \<Rightarrow> unit \<Rightarrow> unit" where
  "default_deps_unit has_shutdown has_sysinit has_basic x =
     (if gets_default_deps x
      then upd_deps (default_deps_of has_shutdown has_sysinit has_basic x) x else x)"

definition default_ids :: "(unit_id_kind \<Rightarrow> bool) \<Rightarrow> unit_table \<Rightarrow> unit_id list" where
  "default_ids kinds t =
     map (\<lambda>(k, x). unit_id x) (filter (\<lambda>(k, x). gets_default_deps x \<and> kinds (kind (unit_id x))) t)"

definition reverse_shutdown :: "unit_id list \<Rightarrow> dependencies \<Rightarrow> dependencies" where
  "reverse_shutdown ids d =
     dedup (fold (\<lambda>i d. d\<lparr>conflicted_by := conflicted_by d @ [i], after := after d @ [i]\<rparr>) ids d)"

definition reverse_sysinit :: "unit_id list \<Rightarrow> dependencies \<Rightarrow> dependencies" where
  "reverse_sysinit ids d =
     dedup (fold (\<lambda>i d. d\<lparr>required_by := required_by d @ [i], before := before d @ [i]\<rparr>) ids d)"

definition reverse_basic :: "unit_id list \<Rightarrow> dependencies \<Rightarrow> dependencies" where
  "reverse_basic ids d = dedup (fold (\<lambda>i d. d\<lparr>before := before d @ [i]\<rparr>) ids d)"

definition add_default_dependency_relations :: "unit_table \<Rightarrow> unit_table" where
  "add_default_dependency_relations t =
     (let has_shutdown = shutdown_id \<in> set (tbl_keys t);
          has_sysinit = sysinit_id \<in> set (tbl_keys t);
          has_basic = basic_id \<in> set (tbl_keys t)
      in if \<not> has_shutdown \<and> \<not> has_sysinit \<and> \<not> has_basic then t
         else
           let t1 = map_units (default_deps_unit has_shutdown has_sysinit has_basic) t;
               t2 = (if has_shutdown
                     then tbl_modify shutdown_id (upd_deps (reverse_shutdown (default_ids (\<lambda>_. True) t))) t1
                     else t1);
               t3 = (if has_sysinit
                     then tbl_modify sysinit_id (upd_deps (reverse_sysinit
                            (default_ids (\<lambda>k. k = Kind_Service \<or> k = Kind_Socket) t))) t2
                     else t2)
           in if has_basic
              then tbl_modify basic_id (upd_deps (reverse_basic (default_ids (\<lambda>k. k = Kind_Service) t))) t3
              else t3)"

definition socket_before_target :: "unit \<Rightarrow> unit" where
  "socket_before_target x =
     (if kind (unit_id x) = Kind_Socket
      then upd_deps (\<lambda>d. dedup (d\<lparr>before := before d @ [sockets_id]\<rparr>)) x else x)"

definition add_socket_target_relations :: "unit_table \<Rightarrow> unit_table" where
  "add_socket_target_relations t =
     (if sockets_id \<in> set (tbl_keys t) then
        (let socket_ids = map (\<lambda>(k, x). unit_id x) (filter (\<lambda>(k, x). kind (unit_id x) = Kind_Socket) t) in
         tbl_modify sockets_id (upd_deps (\<lambda>d. dedup (d\<lparr>after := after d @ socket_ids\<rparr>)))
           (map_units socket_before_target t))
      else t)"

section \<open>Sockets and services\<close>

definition add_sock_srvc_relations ::
  "unit_id \<Rightarrow> dependencies \<Rightarrow> service_config \<Rightarrow> unit_id \<Rightarrow> dependencies \<Rightarrow> socket_config \<Rightarrow> bool
     \<Rightarrow> dependencies \<times> service_config \<times> dependencies \<times> socket_config" where
  "add_sock_srvc_relations srvc_id srvc_install srvc_conf sock_id sock_install sock_conf strong =
     (let srvc1 = srvc_install\<lparr>after := after srvc_install @ [sock_id]\<rparr>;
          sock1 = sock_install\<lparr>before := before sock_install @ [srvc_id]\<rparr>;
          srvc2 = (if strong then srvc1\<lparr>requires := requires srvc1 @ [sock_id]\<rparr> else srvc1);
          sock2 = (if strong then sock1\<lparr>required_by := required_by sock1 @ [srvc_id]\<rparr> else sock1)
      in (dedup srvc2, srvc_conf\<lparr>srvc_sockets := push_new sock_id (srvc_sockets srvc_conf)\<rparr>,
          dedup sock2, sock_conf\<lparr>sock_services := push_new srvc_id (sock_services sock_conf)\<rparr>))"

text \<open>One service against one socket: the units afterwards.\<close>

definition match_socket :: "unit \<Rightarrow> unit \<Rightarrow> unit \<times> unit" where
  "match_socket sock srvc =
     (case (specific sock, specific srvc) of
        (Socket sc, Service vc) \<Rightarrow>
          (let names_match = name_without_suffix (unit_id srvc) = name_without_suffix (unit_id sock);
               srvc_has_sock = unit_id sock \<in> set (srvc_sockets vc);
               sock_has_srvc = unit_id srvc \<in> set (sock_services sc)
           in if names_match \<or> srvc_has_sock \<or> sock_has_srvc then
                (let (vd, vc', sd, sc') =
                       add_sock_srvc_relations (unit_id srvc) (deps srvc) vc (unit_id sock) (deps sock) sc
                         (names_match \<or> srvc_has_sock)
                 in (sock\<lparr>deps := sd, specific := Socket sc'\<rparr>, srvc\<lparr>deps := vd, specific := Service vc'\<rparr>))
              else (sock, srvc))
      | _ \<Rightarrow> (sock, srvc))"

text \<open>The inner loop; a missing service would be a failed \<open>unwrap\<close>.\<close>

fun services_loop :: "unit_id list \<Rightarrow> unit \<Rightarrow> unit_table \<Rightarrow> (unit \<times> unit_table) outcome" where
  "services_loop [] sock t = Returns (sock, t)"
| "services_loop (v # vs) sock t =
     (case tbl_get t v of
        None \<Rightarrow> Panics
      | Some srvc \<Rightarrow>
          (case match_socket sock srvc of
             (sock', srvc') \<Rightarrow> services_loop vs sock' (tbl_insert (unit_id srvc') srvc' (tbl_remove v t))))"

fun sockets_loop :: "unit_id list \<Rightarrow> unit_id list \<Rightarrow> unit_table \<Rightarrow> unit_table outcome" where
  "sockets_loop service_ids [] t = Returns t"
| "sockets_loop service_ids (s # ss) t =
     (case tbl_get t s of
        None \<Rightarrow> Panics
      | Some sock \<Rightarrow>
          (case (case specific sock of
                   Socket _ \<Rightarrow> services_loop service_ids sock (tbl_remove s t)
                 | _ \<Rightarrow> Returns (sock, tbl_remove s t)) of
             Panics \<Rightarrow> Panics
           | Returns (sock', t') \<Rightarrow> sockets_loop service_ids ss (tbl_insert (unit_id sock') sock' t')))"

definition apply_sockets_to_services :: "unit_table \<Rightarrow> unit_table outcome" where
  "apply_sockets_to_services t =
     sockets_loop (filter (\<lambda>i. kind i = Kind_Service) (tbl_keys t))
       (filter (\<lambda>i. kind i = Kind_Socket) (tbl_keys t)) t"

section \<open>The whole pass\<close>

definition add_all_implicit_relations :: "unit_table \<Rightarrow> unit_table outcome" where
  "add_all_implicit_relations t =
     (case apply_sockets_to_services (add_socket_target_relations (add_default_dependency_relations t)) of
        Panics \<Rightarrow> Panics
      | Returns t' \<Rightarrow> Returns (add_slice_dependencies t'))"

definition retain_existing :: "unit_id list \<Rightarrow> dependencies \<Rightarrow> dependencies" where
  "retain_existing existing d =
     (let ok = kept_or_device existing in d\<lparr>
        wants := filter ok (wants d), wanted_by := filter ok (wanted_by d),
        requires := filter ok (requires d), required_by := filter ok (required_by d),
        conflicts := filter ok (conflicts d), conflicted_by := filter ok (conflicted_by d),
        part_of := filter ok (part_of d), part_of_by := filter ok (part_of_by d),
        binds_to := filter ok (binds_to d), bound_by := filter ok (bound_by d),
        upholds := filter ok (upholds d), upheld_by := filter ok (upheld_by d),
        propagates_stop_to := filter ok (propagates_stop_to d)\<rparr>)"

definition fill_dependencies :: "unit_table \<Rightarrow> unit_table outcome" where
  "fill_dependencies t =
     (case add_all_implicit_relations (fill_explicit t) of
        Panics \<Rightarrow> Panics
      | Returns t' \<Rightarrow>
          Returns (map_units dedup_dependencies (map_units (upd_deps (retain_existing (tbl_keys t'))) t')))"

section \<open>Edges of a table\<close>

definition dep_edges :: "(dependencies \<Rightarrow> unit_id list) \<Rightarrow> unit_table \<Rightarrow> (unit_id \<times> unit_id) set" where
  "dep_edges g t = {(u, v). \<exists>x. tbl_get t u = Some x \<and> v \<in> set (g (deps x))}"

abbreviation keys_of :: "unit_table \<Rightarrow> unit_id set" where
  "keys_of t \<equiv> set (tbl_keys t)"

lemma before_edge_dep: "before_edge t u v \<longleftrightarrow> (u, v) \<in> dep_edges before t \<and> v \<in> keys_of t"
  by (auto simp: before_edge_def dep_edges_def split: option.split)

lemma after_edge_dep: "after_edge t u v \<longleftrightarrow> (u, v) \<in> dep_edges after t \<and> v \<in> keys_of t"
  by (auto simp: after_edge_def dep_edges_def split: option.split)

lemma dep_edges_keys: "(u, v) \<in> dep_edges g t \<Longrightarrow> u \<in> keys_of t"
  by (auto simp: dep_edges_def tbl_keys_get)

text \<open>A list of a dependency record with its update: the law every field of the record has.\<close>

locale dep_field =
  fixes get :: "dependencies \<Rightarrow> unit_id list" and upd :: dep_update
  assumes get_upd: "get (upd f d) = f (get d)"
begin

lemma edges_push:
  "dep_edges get (push_dep upd k v t) = dep_edges get t \<union> {(k, v)} \<inter> (keys_of t \<times> UNIV)"
  by (auto simp: dep_edges_def push_dep_def get_upd tbl_keys_get split: if_splits)

lemma edges_fold_push:
  "dep_edges get (fold (\<lambda>(k, v). push_dep upd k v) ps t) = dep_edges get t \<union> set ps \<inter> (keys_of t \<times> UNIV)"
proof (induction ps arbitrary: t)
  case (Cons p ps)
  have "keys_of (push_dep upd k v t) = keys_of t" for k v by (simp add: push_dep_def)
  with Cons show ?case by (cases p) (auto simp: edges_push)
qed simp

end

interpretation before_field: dep_field before before_update by unfold_locales simp
interpretation after_field: dep_field after after_update by unfold_locales simp
interpretation wants_field: dep_field wants wants_update by unfold_locales simp
interpretation wanted_by_field: dep_field wanted_by wanted_by_update by unfold_locales simp
interpretation requires_field: dep_field requires requires_update by unfold_locales simp
interpretation required_by_field: dep_field required_by required_by_update by unfold_locales simp
interpretation part_of_by_field: dep_field part_of_by part_of_by_update by unfold_locales simp
interpretation upheld_by_field: dep_field upheld_by upheld_by_update by unfold_locales simp
interpretation bound_by_field: dep_field bound_by bound_by_update by unfold_locales simp
interpretation conflicts_field: dep_field conflicts conflicts_update by unfold_locales simp
interpretation conflicted_by_field: dep_field conflicted_by conflicted_by_update by unfold_locales simp

text \<open>A pass that leaves one list of every unit alone, and the ids and slices of the units.\<close>

definition slice_of :: "unit \<Rightarrow> string option" where
  "slice_of x = (case specific x of Service s \<Rightarrow> srvc_slice s | _ \<Rightarrow> None)"

definition same_units :: "unit_table \<Rightarrow> unit_table \<Rightarrow> bool" where
  "same_units t t' \<longleftrightarrow>
     units_wf t' \<and> keys_of t' = keys_of t
     \<and> (\<forall>k. map_option slice_of (tbl_get t' k) = map_option slice_of (tbl_get t k))"

lemma units_wf_iff: "units_wf t \<longleftrightarrow> tbl_wf t \<and> (\<forall>k x. tbl_get t k = Some x \<longrightarrow> unit_id x = k)"
  unfolding units_wf_def list_all_iff [symmetric]
  using list_all_tbl [of t "\<lambda>k x. unit_id x = k"] by auto

lemma same_units_refl: "units_wf t \<Longrightarrow> same_units t t"
  by (simp add: same_units_def)

lemma same_units_trans: "same_units t t1 \<Longrightarrow> same_units t1 t2 \<Longrightarrow> same_units t t2"
  by (simp add: same_units_def)

lemma same_units_modify:
  "units_wf t \<Longrightarrow> (\<And>x. unit_id (f x) = unit_id x) \<Longrightarrow> (\<And>x. slice_of (f x) = slice_of x) \<Longrightarrow>
     same_units t (tbl_modify k f t)"
  by (auto simp: same_units_def units_wf_iff option.map_comp comp_def)

lemma tbl_wf_map_units [simp]: "tbl_wf (map_units f t) = tbl_wf t"
  using tbl_keys_map_units [of f t] by (simp add: tbl_wf_def tbl_keys_def)

lemma same_units_map:
  "units_wf t \<Longrightarrow> (\<And>x. unit_id (f x) = unit_id x) \<Longrightarrow> (\<And>x. slice_of (f x) = slice_of x) \<Longrightarrow>
     same_units t (map_units f t)"
  by (auto simp: same_units_def units_wf_iff option.map_comp comp_def)

lemma slice_of_upd [simp]: "slice_of (upd_deps f x) = slice_of x"
  by (simp add: slice_of_def)

lemma same_units_push: "units_wf t \<Longrightarrow> same_units t (push_dep upd k v t)"
  unfolding push_dep_def by (rule same_units_modify) simp_all

lemma same_units_fold:
  assumes "\<And>p t. p \<in> set ps \<Longrightarrow> units_wf t \<Longrightarrow> same_units t (f p t)" "units_wf t"
  shows "same_units t (fold f ps t)"
  using assms
proof (induction ps arbitrary: t)
  case (Cons p ps)
  then have "same_units t (f p t)" by simp
  moreover from this have "same_units (f p t) (fold f ps (f p t))"
    using Cons.prems by (intro Cons.IH) (auto simp: same_units_def)
  ultimately show ?case using same_units_trans by simp
qed (simp add: same_units_refl)

lemma edges_push_other: "(\<And>f d. g (upd f d) = g d) \<Longrightarrow> dep_edges g (push_dep upd k v t) = dep_edges g t"
  by (auto simp: dep_edges_def push_dep_def split: if_splits)

lemma edges_fold_same:
  "(\<And>p t. dep_edges g (f p t) = dep_edges g t) \<Longrightarrow> dep_edges g (fold f ps t) = dep_edges g t"
  by (induction ps arbitrary: t) simp_all

lemmas fill_defs = fill_wants_def fill_requires_def fill_before_def fill_after_def fill_conflicts_def
  fill_part_of_by_def fill_upheld_by_def fill_bound_by_def

lemma fill_other_ordering [simp]:
  "dep_edges before (fill_wants ps t) = dep_edges before t" "dep_edges after (fill_wants ps t) = dep_edges after t"
  "dep_edges before (fill_requires ps t) = dep_edges before t" "dep_edges after (fill_requires ps t) = dep_edges after t"
  "dep_edges before (fill_conflicts ps t) = dep_edges before t" "dep_edges after (fill_conflicts ps t) = dep_edges after t"
  "dep_edges before (fill_part_of_by ps t) = dep_edges before t" "dep_edges after (fill_part_of_by ps t) = dep_edges after t"
  "dep_edges before (fill_upheld_by ps t) = dep_edges before t" "dep_edges after (fill_upheld_by ps t) = dep_edges after t"
  "dep_edges before (fill_bound_by ps t) = dep_edges before t" "dep_edges after (fill_bound_by ps t) = dep_edges after t"
  "dep_edges after (fill_before ps t) = dep_edges after t" "dep_edges before (fill_after ps t) = dep_edges before t"
  unfolding fill_defs by (auto intro!: edges_fold_same simp: edges_push_other)

lemma fill_same_units:
  assumes "units_wf t"
  shows "same_units t (fill_wants ps t)" "same_units t (fill_requires ps t)" "same_units t (fill_before ps t)"
    "same_units t (fill_after ps t)" "same_units t (fill_conflicts ps t)" "same_units t (fill_part_of_by ps t)"
    "same_units t (fill_upheld_by ps t)" "same_units t (fill_bound_by ps t)"
  unfolding fill_defs
  by (rule same_units_fold [OF _ assms],
      auto intro!: same_units_push same_units_trans [OF same_units_push same_units_push]
        simp: same_units_push [unfolded same_units_def])+

lemma same_units_then:
  assumes "same_units t t1" "\<And>s. units_wf s \<Longrightarrow> same_units s (f s)"
  shows "same_units t (f t1)"
proof -
  have "units_wf t1" using assms(1) by (simp add: same_units_def)
  from same_units_trans [OF assms(1) assms(2) [OF this]] show ?thesis .
qed

lemmas fill_steps = fill_same_units [THEN same_units_then [rotated]]

lemma mem_collect_pairs:
  "tbl_wf t \<Longrightarrow> p \<in> set (collect_pairs f t) \<longleftrightarrow> (\<exists>k x. tbl_get t k = Some x \<and> p \<in> set (f x))"
  by (fastforce simp: collect_pairs_def tbl_get_mem [symmetric])

lemma pairs_of_list:
  assumes "units_wf t"
  shows "set (collect_pairs (\<lambda>x. map (\<lambda>i. (unit_id x, i)) (g (deps x))) t) = dep_edges g t"
    and "set (collect_pairs (\<lambda>x. map (\<lambda>i. (i, unit_id x)) (g (deps x))) t) = (dep_edges g t)\<inverse>"
  using assms by (auto simp: mem_collect_pairs dep_edges_def units_wf_iff) fastforce+

lemma fold_push_swapped:
  "fold (\<lambda>(a, b). push_dep upd b a) ps = fold (\<lambda>(k, v). push_dep upd k v) (map prod.swap ps)"
  unfolding fold_map comp_def by (simp add: case_prod_unfold)

lemma edges_fill_before:
  "dep_edges before (fill_before ps t) = dep_edges before t \<union> (set ps)\<inverse> \<inter> (keys_of t \<times> UNIV)"
proof -
  have "set (map prod.swap ps) = (set ps)\<inverse>" by force
  then show ?thesis
    unfolding fill_before_def fold_push_swapped before_field.edges_fold_push by (simp only:)
qed

lemma edges_fill_after:
  "dep_edges after (fill_after ps t) = dep_edges after t \<union> (set ps)\<inverse> \<inter> (keys_of t \<times> UNIV)"
proof -
  have "set (map prod.swap ps) = (set ps)\<inverse>" by force
  then show ?thesis
    unfolding fill_after_def fold_push_swapped after_field.edges_fold_push by (simp only:)
qed

text \<open>The explicit pass closes the ordering edges under mirroring, for ends in the table.\<close>

lemma fill_explicit_ordering:
  assumes wf: "units_wf t"
  shows "same_units t (fill_explicit t)"
    "dep_edges before (fill_explicit t) = dep_edges before t \<union> (dep_edges after t)\<inverse> \<inter> (keys_of t \<times> UNIV)"
    "dep_edges after (fill_explicit t) = dep_edges after t \<union> (dep_edges before t)\<inverse> \<inter> (keys_of t \<times> UNIV)"
proof -
  have refl: "same_units t t" by (rule same_units_refl [OF wf])
  show "same_units t (fill_explicit t)"
    unfolding fill_explicit_def Let_def by (intro fill_steps refl)
  have "same_units t (fill_requires q (fill_wants p t))" for p q
    by (intro fill_steps refl)
  then have k1: "keys_of (fill_requires q (fill_wants p t)) = keys_of t" for p q
    by (simp add: same_units_def)
  have "same_units t (fill_before a (fill_requires q (fill_wants p t)))" for a p q
    by (intro fill_steps refl)
  then have k2: "keys_of (fill_before a (fill_requires q (fill_wants p t))) = keys_of t" for a p q
    by (simp add: same_units_def)
  show "dep_edges before (fill_explicit t) = dep_edges before t \<union> (dep_edges after t)\<inverse> \<inter> (keys_of t \<times> UNIV)"
    unfolding fill_explicit_def Let_def fill_other_ordering edges_fill_before k1 pairs_of_list [OF wf] ..
  show "dep_edges after (fill_explicit t) = dep_edges after t \<union> (dep_edges before t)\<inverse> \<inter> (keys_of t \<times> UNIV)"
    unfolding fill_explicit_def Let_def fill_other_ordering edges_fill_after k2 pairs_of_list [OF wf] ..
qed

section \<open>Passes that keep the two ends in step\<close>

text \<open>
  Ordering is mirrored but for the edges in \<open>X\<close> (of the \<open>before\<close> lists) and \<open>Y\<close> (of the
  \<open>after\<close> lists); only edges between loaded units count.
\<close>

definition mirrored_but :: "unit_table \<Rightarrow> (unit_id \<times> unit_id) set \<Rightarrow> (unit_id \<times> unit_id) set \<Rightarrow> bool" where
  "mirrored_but t X Y \<longleftrightarrow>
     dep_edges before t \<inter> (keys_of t \<times> keys_of t) \<subseteq> (dep_edges after t)\<inverse> \<union> X
     \<and> dep_edges after t \<inter> (keys_of t \<times> keys_of t) \<subseteq> (dep_edges before t)\<inverse> \<union> Y"

definition grows :: "unit_table \<Rightarrow> unit_table \<Rightarrow> (unit_id \<times> unit_id) set \<Rightarrow> (unit_id \<times> unit_id) set \<Rightarrow> bool" where
  "grows t t' X Y \<longleftrightarrow>
     same_units t t'
     \<and> (\<exists>P Q. dep_edges before t' = dep_edges before t \<union> P \<and> dep_edges after t' = dep_edges after t \<union> Q
          \<and> P \<inter> (keys_of t \<times> keys_of t) \<subseteq> Q\<inverse> \<union> X \<and> Q \<inter> (keys_of t \<times> keys_of t) \<subseteq> P\<inverse> \<union> Y)"

lemma growsI:
  assumes "same_units t t'" "dep_edges before t' = dep_edges before t \<union> P"
    "dep_edges after t' = dep_edges after t \<union> Q"
    "P \<inter> (keys_of t \<times> keys_of t) \<subseteq> Q\<inverse> \<union> X" "Q \<inter> (keys_of t \<times> keys_of t) \<subseteq> P\<inverse> \<union> Y"
  shows "grows t t' X Y"
  using assms unfolding grows_def by blast

lemma mirrored_but_mono: "mirrored_but t X Y \<Longrightarrow> X \<subseteq> X' \<Longrightarrow> Y \<subseteq> Y' \<Longrightarrow> mirrored_but t X' Y'"
  unfolding mirrored_but_def by blast

lemma grows_mirrored: "mirrored_but t X Y \<Longrightarrow> grows t t' X Y \<Longrightarrow> mirrored_but t' X Y"
  unfolding mirrored_but_def grows_def same_units_def by (elim conjE exE) (simp, blast)

lemma mirrored_edges:
  assumes "mirrored_but t X Y"
  shows "{(u, v). before_edge t u v} \<subseteq> {(u, v). after_edge t v u} \<union> X"
    and "{(u, v). after_edge t u v} \<subseteq> {(u, v). before_edge t v u} \<union> Y"
proof -
  have "(a, b) \<in> {(u, v). after_edge t v u} \<union> X" if "before_edge t a b" for a b
  proof -
    have ab: "(a, b) \<in> dep_edges before t" "b \<in> keys_of t" using that by (simp_all add: before_edge_dep)
    with dep_edges_keys have "a \<in> keys_of t" by blast
    with ab assms have "(b, a) \<in> dep_edges after t \<or> (a, b) \<in> X" unfolding mirrored_but_def by blast
    with \<open>a \<in> keys_of t\<close> show ?thesis by (auto simp: after_edge_dep)
  qed
  then show "{(u, v). before_edge t u v} \<subseteq> {(u, v). after_edge t v u} \<union> X" by auto
  have "(a, b) \<in> {(u, v). before_edge t v u} \<union> Y" if "after_edge t a b" for a b
  proof -
    have ab: "(a, b) \<in> dep_edges after t" "b \<in> keys_of t" using that by (simp_all add: after_edge_dep)
    with dep_edges_keys have "a \<in> keys_of t" by blast
    with ab assms have "(b, a) \<in> dep_edges before t \<or> (a, b) \<in> Y" unfolding mirrored_but_def by blast
    with \<open>a \<in> keys_of t\<close> show ?thesis by (auto simp: before_edge_dep)
  qed
  then show "{(u, v). after_edge t u v} \<subseteq> {(u, v). before_edge t v u} \<union> Y" by auto
qed

lemma grows_same_units: "grows t t' X Y \<Longrightarrow> same_units t t'"
  by (simp add: grows_def)

lemma grows_edges:
  "grows t t' X Y \<Longrightarrow> dep_edges before t \<subseteq> dep_edges before t' \<and> dep_edges after t \<subseteq> dep_edges after t'"
  unfolding grows_def by blast

lemma grows_refl: "units_wf t \<Longrightarrow> grows t t X Y"
  by (rule growsI [where P = "{}" and Q = "{}"]) (simp_all add: same_units_refl)

lemma edges_modify:
  assumes "\<And>d. set (g (F d)) = set (g d) \<union> A"
  shows "dep_edges g (tbl_modify k (upd_deps F) t) = dep_edges g t \<union> ({k} \<times> A) \<inter> (keys_of t \<times> UNIV)"
  using assms by (auto simp: dep_edges_def tbl_keys_get split: if_splits)

lemma dedup_sets [simp]:
  "set (before (dedup d)) = set (before d)" "set (after (dedup d)) = set (after d)"
  "set (requires (dedup d)) = set (requires d)" "set (wants (dedup d)) = set (wants d)"
  by (simp_all add: dedup_def)

lemma reverse_sets:
  "set (before (reverse_shutdown ids d)) = set (before d) \<union> {}"
  "set (after (reverse_shutdown ids d)) = set (after d) \<union> set ids"
  "set (before (reverse_sysinit ids d)) = set (before d) \<union> set ids"
  "set (after (reverse_sysinit ids d)) = set (after d) \<union> {}"
  "set (before (reverse_basic ids d)) = set (before d) \<union> set ids"
  "set (after (reverse_basic ids d)) = set (after d) \<union> {}"
proof -
  have "before (fold (\<lambda>i d. d\<lparr>conflicted_by := conflicted_by d @ [i], after := after d @ [i]\<rparr>) ids d) = before d"
    "after (fold (\<lambda>i d. d\<lparr>conflicted_by := conflicted_by d @ [i], after := after d @ [i]\<rparr>) ids d) = after d @ ids"
    "before (fold (\<lambda>i d. d\<lparr>required_by := required_by d @ [i], before := before d @ [i]\<rparr>) ids d) = before d @ ids"
    "after (fold (\<lambda>i d. d\<lparr>required_by := required_by d @ [i], before := before d @ [i]\<rparr>) ids d) = after d"
    "before (fold (\<lambda>i d. d\<lparr>before := before d @ [i]\<rparr>) ids d) = before d @ ids"
    "after (fold (\<lambda>i d. d\<lparr>before := before d @ [i]\<rparr>) ids d) = after d" for d :: dependencies
    by (induction ids arbitrary: d) simp_all
  then show
    "set (before (reverse_shutdown ids d)) = set (before d) \<union> {}"
    "set (after (reverse_shutdown ids d)) = set (after d) \<union> set ids"
    "set (before (reverse_sysinit ids d)) = set (before d) \<union> set ids"
    "set (after (reverse_sysinit ids d)) = set (after d) \<union> {}"
    "set (before (reverse_basic ids d)) = set (before d) \<union> set ids"
    "set (after (reverse_basic ids d)) = set (after d) \<union> {}"
    by (simp_all add: reverse_shutdown_def reverse_sysinit_def reverse_basic_def)
qed

definition mount_edges :: "(unit_id \<times> unit_id) set" where
  "mount_edges = {(u, v). kind u = Kind_Mount}"

text \<open>What the default pass adds to the lists of one unit.\<close>

definition mount_extra :: "(string list \<times> string list \<times> string list \<times> string list \<Rightarrow> string list) \<Rightarrow> unit \<Rightarrow> unit_id set" where
  "mount_extra sel x =
     (if gets_default_deps x \<and> kind (unit_id x) = Kind_Mount
      then (case mount_deps_of x of None \<Rightarrow> {} | Some names \<Rightarrow> set (List.map_filter dep_unit_id (sel names))) else {})"

definition mount_defaults :: "(string list \<times> string list \<times> string list \<times> string list \<Rightarrow> string list) \<Rightarrow> unit_table \<Rightarrow> (unit_id \<times> unit_id) set" where
  "mount_defaults sel t = {(u, v). \<exists>x. tbl_get t u = Some x \<and> v \<in> mount_extra sel x}"

abbreviation default_before :: "unit_table \<Rightarrow> (unit_id \<times> unit_id) set" where
  "default_before \<equiv> mount_defaults (\<lambda>(na, nb, nw, nr). nb)"

abbreviation default_after :: "unit_table \<Rightarrow> (unit_id \<times> unit_id) set" where
  "default_after \<equiv> mount_defaults (\<lambda>(na, nb, nw, nr). na)"

lemma mount_defaults_kind: "units_wf t \<Longrightarrow> mount_defaults sel t \<subseteq> mount_edges"
  using units_wf_get [of t] by (auto simp: mount_defaults_def mount_extra_def mount_edges_def split: if_splits)

text \<open>The explicit pass changes dependency lists only, so the defaults are those of the table it was given.\<close>

definition same_defaults :: "unit_table \<Rightarrow> unit_table \<Rightarrow> bool" where
  "same_defaults t t' \<longleftrightarrow> (\<forall>u sel. map_option (mount_extra sel) (tbl_get t' u) = map_option (mount_extra sel) (tbl_get t u))"

lemma mount_extra_upd [simp]: "mount_extra sel (upd_deps f x) = mount_extra sel x"
  by (simp add: mount_extra_def mount_deps_of_def gets_default_deps_def)

lemma same_defaults_push: "same_defaults t s \<Longrightarrow> same_defaults t (push_dep upd k v s)"
  by (auto simp: same_defaults_def push_dep_def option.map_comp comp_def)

lemma same_defaults_fold:
  "(\<And>p s. same_defaults t s \<Longrightarrow> same_defaults t (f p s)) \<Longrightarrow> same_defaults t s \<Longrightarrow> same_defaults t (fold f ps s)"
  by (induction ps arbitrary: s) simp_all

lemma same_defaults_explicit: "same_defaults t (fill_explicit t)"
proof -
  have "same_defaults t t" by (simp add: same_defaults_def)
  then show ?thesis unfolding fill_explicit_def Let_def fill_defs
    by (auto intro!: same_defaults_fold same_defaults_push)
qed

lemma mount_defaults_explicit: "mount_defaults sel (fill_explicit t) = mount_defaults sel t"
proof -
  have "(\<exists>x. tbl_get (fill_explicit t) u = Some x \<and> v \<in> mount_extra sel x) \<longleftrightarrow>
      (\<exists>x. tbl_get t u = Some x \<and> v \<in> mount_extra sel x)" for u v
  proof -
    have "map_option (mount_extra sel) (tbl_get (fill_explicit t) u) = map_option (mount_extra sel) (tbl_get t u)"
      using same_defaults_explicit by (auto simp: same_defaults_def)
    then show ?thesis by (cases "tbl_get t u"; cases "tbl_get (fill_explicit t) u") auto
  qed
  then show ?thesis by (simp add: mount_defaults_def)
qed

lemma default_unit_sets:
  "set (before (deps (default_deps_unit s y b x))) =
     set (before (deps x)) \<union> {i. gets_default_deps x \<and> s \<and> i = shutdown_id} \<union> mount_extra (\<lambda>(na, nb, nw, nr). nb) x"
  "set (after (deps (default_deps_unit s y b x))) =
     set (after (deps x))
     \<union> {i. gets_default_deps x \<and> y \<and> (kind (unit_id x) = Kind_Service \<or> kind (unit_id x) = Kind_Socket) \<and> i = sysinit_id}
     \<union> {i. gets_default_deps x \<and> b \<and> kind (unit_id x) = Kind_Service \<and> i = basic_id}
     \<union> mount_extra (\<lambda>(na, nb, nw, nr). na) x"
  by (cases "kind (unit_id x)";
      cases "mount_deps_of x";
      auto simp: default_deps_unit_def default_deps_of_def add_sysinit_def add_mount_deps_def mount_extra_def Let_def)+

lemma edges_map_units:
  "dep_edges g (map_units f t) = {(u, v). \<exists>x. tbl_get t u = Some x \<and> v \<in> set (g (deps (f x)))}"
  by (auto simp: dep_edges_def)

definition defaulted :: "(unit_id_kind \<Rightarrow> bool) \<Rightarrow> unit_table \<Rightarrow> unit_id set" where
  "defaulted kinds t = {u. \<exists>x. tbl_get t u = Some x \<and> gets_default_deps x \<and> kinds (kind u)}"

lemma set_default_ids: "units_wf t \<Longrightarrow> set (default_ids kinds t) = defaulted kinds t"
proof -
  assume "units_wf t"
  then have "(k, x) \<in> set t \<longleftrightarrow> tbl_get t k = Some x" "tbl_get t k = Some x \<Longrightarrow> unit_id x = k" for k x
    by (auto simp: units_wf_iff tbl_get_mem)
  then show ?thesis by (force simp: default_ids_def defaulted_def)
qed

lemma same_units_default:
  "units_wf t \<Longrightarrow> same_units t (add_default_dependency_relations t)"
  unfolding add_default_dependency_relations_def Let_def
  by (auto intro!: same_units_refl same_units_map same_units_then [OF _ same_units_modify]
      simp: default_deps_unit_def)

lemma default_pass_grows:
  assumes wf: "units_wf t"
  shows "grows t (add_default_dependency_relations t)
    (default_before t - dep_edges before t) (default_after t - dep_edges after t)"
proof -
  define s where "s \<longleftrightarrow> shutdown_id \<in> keys_of t"
  define y where "y \<longleftrightarrow> sysinit_id \<in> keys_of t"
  define b where "b \<longleftrightarrow> basic_id \<in> keys_of t"
  define t1 where "t1 = map_units (default_deps_unit s y b) t"
  define t2 where "t2 = (if s then tbl_modify shutdown_id (upd_deps (reverse_shutdown (default_ids (\<lambda>_. True) t))) t1 else t1)"
  define t3 where "t3 = (if y then tbl_modify sysinit_id (upd_deps (reverse_sysinit
                            (default_ids (\<lambda>k. k = Kind_Service \<or> k = Kind_Socket) t))) t2 else t2)"
  define t4 where "t4 = (if b then tbl_modify basic_id (upd_deps (reverse_basic (default_ids (\<lambda>k. k = Kind_Service) t))) t3 else t3)"
  have eq: "add_default_dependency_relations t = (if \<not> s \<and> \<not> y \<and> \<not> b then t else t4)"
    by (simp add: add_default_dependency_relations_def Let_def s_def y_def b_def t1_def t2_def t3_def t4_def)
  have keys: "keys_of t1 = keys_of t" "keys_of t2 = keys_of t" "keys_of t3 = keys_of t"
    by (simp_all add: t1_def t2_def t3_def)
  let ?DS = "defaulted (\<lambda>_. True) t" and ?DY = "defaulted (\<lambda>k. k = Kind_Service \<or> k = Kind_Socket) t"
    and ?DB = "defaulted (\<lambda>k. k = Kind_Service) t"
  let ?EB = "default_before t" and ?EA = "default_after t"
  have b1: "dep_edges before t1 = dep_edges before t \<union> {(u, v). u \<in> ?DS \<and> s \<and> v = shutdown_id} \<union> ?EB"
    unfolding t1_def edges_map_units mount_defaults_def dep_edges_def defaulted_def by (auto simp: default_unit_sets)
  have a1: "dep_edges after t1 = dep_edges after t \<union> {(u, v). u \<in> ?DY \<and> y \<and> v = sysinit_id}
      \<union> {(u, v). u \<in> ?DB \<and> b \<and> v = basic_id} \<union> ?EA"
    unfolding t1_def edges_map_units mount_defaults_def dep_edges_def defaulted_def
    using units_wf_get [OF wf] by (auto simp: default_unit_sets)
  have b4: "dep_edges before t4 = dep_edges before t1 \<union> {(u, v). y \<and> u = sysinit_id \<and> v \<in> ?DY}
      \<union> {(u, v). b \<and> u = basic_id \<and> v \<in> ?DB}"
    unfolding t4_def t3_def t2_def
    using keys by (auto simp: edges_modify [where g = before, OF reverse_sets(1)] edges_modify [where g = before, OF reverse_sets(3)]
        edges_modify [where g = before, OF reverse_sets(5)] set_default_ids [OF wf] y_def b_def t1_def)
  have a4: "dep_edges after t4 = dep_edges after t1 \<union> {(u, v). s \<and> u = shutdown_id \<and> v \<in> ?DS}"
    unfolding t4_def t3_def t2_def
    using keys by (auto simp: edges_modify [where g = after, OF reverse_sets(2)] edges_modify [where g = after, OF reverse_sets(4)]
        edges_modify [where g = after, OF reverse_sets(6)] set_default_ids [OF wf] s_def t1_def)
  have "grows t t4 (?EB - dep_edges before t) (?EA - dep_edges after t)" if "\<not> (\<not> s \<and> \<not> y \<and> \<not> b)"
  proof (rule growsI)
    show "same_units t t4" using same_units_default [OF wf] that by (simp add: eq)
    show "dep_edges before t4 = dep_edges before t \<union> ({(u, v). u \<in> ?DS \<and> s \<and> v = shutdown_id} \<union> (?EB - dep_edges before t)
        \<union> {(u, v). y \<and> u = sysinit_id \<and> v \<in> ?DY} \<union> {(u, v). b \<and> u = basic_id \<and> v \<in> ?DB})"
      unfolding b4 b1 by blast
    show "dep_edges after t4 = dep_edges after t \<union> ({(u, v). u \<in> ?DY \<and> y \<and> v = sysinit_id}
        \<union> {(u, v). u \<in> ?DB \<and> b \<and> v = basic_id} \<union> (?EA - dep_edges after t) \<union> {(u, v). s \<and> u = shutdown_id \<and> v \<in> ?DS})"
      unfolding a4 a1 by blast
  qed blast+
  then show ?thesis unfolding eq using grows_refl [OF wf] by simp
qed

lemma socket_sets:
  "set (before (deps (socket_before_target x))) =
     set (before (deps x)) \<union> {i. kind (unit_id x) = Kind_Socket \<and> i = sockets_id}"
  "set (after (deps (socket_before_target x))) = set (after (deps x))"
  by (auto simp: socket_before_target_def)

lemma socket_target_grows:
  assumes wf: "units_wf t"
  shows "grows t (add_socket_target_relations t) {} {}"
proof (cases "sockets_id \<in> keys_of t")
  case False
  then show ?thesis using grows_refl [OF wf] by (simp add: add_socket_target_relations_def)
next
  case True
  let ?ids = "map (\<lambda>(k, x). unit_id x) (filter (\<lambda>(k, x). kind (unit_id x) = Kind_Socket) t)"
  let ?S = "{u. u \<in> keys_of t \<and> kind u = Kind_Socket}"
  have ids: "set ?ids = ?S"
  proof -
    have "(k, x) \<in> set t \<longleftrightarrow> tbl_get t k = Some x" "tbl_get t k = Some x \<Longrightarrow> unit_id x = k" for k x
      using wf by (auto simp: units_wf_iff tbl_get_mem)
    then show ?thesis by (force simp: tbl_keys_get)
  qed
  define t1 where "t1 = map_units socket_before_target t"
  define t2 where "t2 = tbl_modify sockets_id (upd_deps (\<lambda>d. dedup (d\<lparr>after := after d @ ?ids\<rparr>))) t1"
  have eq: "add_socket_target_relations t = t2"
    using True by (simp add: add_socket_target_relations_def t1_def t2_def)
  have keys: "keys_of t1 = keys_of t" by (simp add: t1_def)
  have sets: "set (before (dedup (d\<lparr>after := after d @ ?ids\<rparr>))) = set (before d) \<union> {}"
    "set (after (dedup (d\<lparr>after := after d @ ?ids\<rparr>))) = set (after d) \<union> ?S" for d
    using ids by auto
  show ?thesis
    unfolding eq
  proof (rule growsI)
    show "same_units t t2"
      unfolding t2_def t1_def using wf
      by (intro same_units_then [OF _ same_units_modify] same_units_map)
         (auto simp: socket_before_target_def)
    have "dep_edges before t1 = dep_edges before t \<union> ?S \<times> {sockets_id}"
      unfolding t1_def edges_map_units dep_edges_def
      using units_wf_get [OF wf] by (auto simp: socket_sets tbl_keys_get)
    then show "dep_edges before t2 = dep_edges before t \<union> ?S \<times> {sockets_id}"
      unfolding t2_def edges_modify [where g = before, OF sets(1)] by simp
    have "dep_edges after t1 = dep_edges after t"
      unfolding t1_def edges_map_units dep_edges_def by (auto simp: socket_sets)
    then show "dep_edges after t2 = dep_edges after t \<union> {sockets_id} \<times> ?S"
      unfolding t2_def edges_modify [where g = after, OF sets(2)] keys using True by auto
  qed auto
qed

lemma same_units_get:
  "units_wf t' \<Longrightarrow> tbl_get t' = tbl_get t \<Longrightarrow> same_units t t'"
  by (auto simp: same_units_def tbl_keys_get)

lemma grows_get:
  "units_wf t' \<Longrightarrow> tbl_get t' = tbl_get t \<Longrightarrow> grows t t' X Y"
  by (rule growsI [where P = "{}" and Q = "{}"]) (auto simp: same_units_get dep_edges_def)

lemma grows_trans:
  assumes "grows t t1 X Y" "grows t1 t2 X Y" shows "grows t t2 X Y"
proof -
  obtain P Q where 1: "dep_edges before t1 = dep_edges before t \<union> P" "dep_edges after t1 = dep_edges after t \<union> Q"
      "P \<inter> (keys_of t \<times> keys_of t) \<subseteq> Q\<inverse> \<union> X" "Q \<inter> (keys_of t \<times> keys_of t) \<subseteq> P\<inverse> \<union> Y" "same_units t t1"
    using assms(1) unfolding grows_def by blast
  obtain P' Q' where 2: "dep_edges before t2 = dep_edges before t1 \<union> P'" "dep_edges after t2 = dep_edges after t1 \<union> Q'"
      "P' \<inter> (keys_of t1 \<times> keys_of t1) \<subseteq> Q'\<inverse> \<union> X" "Q' \<inter> (keys_of t1 \<times> keys_of t1) \<subseteq> P'\<inverse> \<union> Y" "same_units t1 t2"
    using assms(2) unfolding grows_def by blast
  have k: "keys_of t1 = keys_of t" using 1(5) by (simp add: same_units_def)
  show ?thesis
  proof (rule growsI [where P = "P \<union> P'" and Q = "Q \<union> Q'"])
    show "same_units t t2" using 1(5) 2(5) by (rule same_units_trans)
  qed (use 1(1-4) 2(1-4) k in \<open>auto 0 4\<close>)
qed

lemma units_wf_insert: "units_wf t \<Longrightarrow> units_wf (tbl_insert (unit_id x) x t)"
  by (auto simp: units_wf_iff split: if_splits)

lemma units_wf_remove: "units_wf t \<Longrightarrow> units_wf (tbl_remove k t)"
  by (auto simp: units_wf_iff split: if_splits)

text \<open>What matching one service does to the two units.\<close>

definition paired :: "unit \<Rightarrow> unit \<Rightarrow> unit \<Rightarrow> unit \<Rightarrow> bool" where
  "paired sock srvc sock' srvc' \<longleftrightarrow>
     set (before (deps sock')) = set (before (deps sock)) \<union> {unit_id srvc}
     \<and> set (after (deps sock')) = set (after (deps sock))
     \<and> set (after (deps srvc')) = set (after (deps srvc)) \<union> {unit_id sock}
     \<and> set (before (deps srvc')) = set (before (deps srvc))"

lemma sock_srvc_sets:
  assumes "add_sock_srvc_relations v vd vc s sd sc strong = (vd', vc', sd', sc')"
  shows "set (before sd') = set (before sd) \<union> {v} \<and> set (after sd') = set (after sd)
    \<and> set (after vd') = set (after vd) \<union> {s} \<and> set (before vd') = set (before vd)
    \<and> srvc_slice vc' = srvc_slice vc"
  using assms by (cases strong) (auto simp: add_sock_srvc_relations_def Let_def)

lemma match_socket_spec:
  assumes "match_socket sock srvc = (sock', srvc')"
  shows "unit_id sock' = unit_id sock \<and> unit_id srvc' = unit_id srvc
    \<and> slice_of sock' = slice_of sock \<and> slice_of srvc' = slice_of srvc
    \<and> (sock' = sock \<and> srvc' = srvc \<or> paired sock srvc sock' srvc')"
proof (cases "\<exists>sc vc. specific sock = Socket sc \<and> specific srvc = Service vc")
  case False
  then have "match_socket sock srvc = (sock, srvc)"
    by (auto simp: match_socket_def split: specific.split)
  with assms show ?thesis by simp
next
  case True
  then obtain sc vc where sp: "specific sock = Socket sc" "specific srvc = Service vc" by blast
  let ?n = "name_without_suffix (unit_id srvc) = name_without_suffix (unit_id sock)
      \<or> unit_id sock \<in> set (srvc_sockets vc)"
  obtain vd vc' sd sc' where rel: "add_sock_srvc_relations (unit_id srvc) (deps srvc) vc (unit_id sock) (deps sock) sc ?n
      = (vd, vc', sd, sc')" by (metis prod_cases4)
  have eq: "match_socket sock srvc =
      (if ?n \<or> unit_id srvc \<in> set (sock_services sc)
       then (sock\<lparr>deps := sd, specific := Socket sc'\<rparr>, srvc\<lparr>deps := vd, specific := Service vc'\<rparr>)
       else (sock, srvc))"
    unfolding match_socket_def Let_def sp specific.case prod.case rel by simp
  show ?thesis
    using assms sock_srvc_sets [OF rel] sp unfolding eq
    by (auto simp: paired_def slice_of_def split: if_splits)
qed

lemma pair_grows:
  assumes wf: "units_wf T'" and s: "tbl_get T (unit_id sock) = Some sock"
    and v: "tbl_get T (unit_id srvc) = Some srvc"
    and ne: "unit_id sock \<noteq> unit_id srvc" and m: "match_socket sock srvc = (sock', srvc')"
    and T': "tbl_get T' = (tbl_get T)(unit_id sock \<mapsto> sock', unit_id srvc \<mapsto> srvc')"
  shows "grows T T' {} {}"
proof -
  note spec = match_socket_spec [OF m]
  have keys: "keys_of T' = keys_of T" using s v by (auto simp: tbl_keys_get T' split: if_splits)
  have su: "same_units T T'" using wf keys spec s v by (auto simp: same_units_def T')
  from spec consider "sock' = sock \<and> srvc' = srvc" | "paired sock srvc sock' srvc'" by blast
  then show ?thesis
  proof cases
    case 1
    then have "tbl_get T' = tbl_get T" using T' s v by (auto simp: fun_eq_iff)
    then show ?thesis by (rule grows_get [OF wf])
  next
    case 2
    have "dep_edges before T' = dep_edges before T \<union> {(unit_id sock, unit_id srvc)}"
      "dep_edges after T' = dep_edges after T \<union> {(unit_id srvc, unit_id sock)}"
      using 2 s v ne unfolding dep_edges_def T' paired_def by (auto split: if_splits)
    then show ?thesis using su by (intro growsI) auto
  qed
qed

lemma services_loop_grows:
  "units_wf t \<Longrightarrow> tbl_get t (unit_id sock) = None \<Longrightarrow> set vs \<subseteq> keys_of t \<Longrightarrow>
     \<exists>sock' t'. services_loop vs sock t = Returns (sock', t') \<and> unit_id sock' = unit_id sock
       \<and> units_wf t' \<and> tbl_get t' (unit_id sock) = None
       \<and> grows (tbl_insert (unit_id sock) sock t) (tbl_insert (unit_id sock) sock' t') {} {}"
proof (induction vs arbitrary: sock t)
  case Nil
  have "units_wf (tbl_insert (unit_id sock) sock t)" using Nil.prems by (simp add: units_wf_insert)
  with Nil show ?case by (simp add: grows_refl)
next
  case (Cons v vs)
  then obtain srvc where v: "tbl_get t v = Some srvc" by (auto simp: tbl_keys_get)
  then have vid: "unit_id srvc = v" using units_wf_get [OF Cons.prems(1)] by blast
  obtain sock1 srvc1 where m: "match_socket sock srvc = (sock1, srvc1)" by (cases "match_socket sock srvc")
  note spec = match_socket_spec [OF m]
  let ?t = "tbl_insert (unit_id srvc1) srvc1 (tbl_remove v t)"
  have ne: "unit_id sock \<noteq> v" using Cons.prems(2) v by auto
  have t: "units_wf ?t" using Cons.prems(1) by (intro units_wf_insert units_wf_remove)
  have none: "tbl_get ?t (unit_id sock1) = None" using Cons.prems(2) spec vid ne by simp
  have sub: "set vs \<subseteq> keys_of ?t"
    using Cons.prems(3) spec vid by (auto simp: tbl_keys_get subset_iff)
  have "grows (tbl_insert (unit_id sock) sock t) (tbl_insert (unit_id sock) sock1 ?t) {} {}"
  proof (rule pair_grows [OF _ _ _ _ m])
    show "units_wf (tbl_insert (unit_id sock) sock1 ?t)"
      using units_wf_insert [OF t, of sock1] spec by simp
    show "tbl_get (tbl_insert (unit_id sock) sock1 ?t) =
        (tbl_get (tbl_insert (unit_id sock) sock t))(unit_id sock \<mapsto> sock1, unit_id srvc \<mapsto> srvc1)"
      using spec vid ne by (auto simp: fun_eq_iff)
  qed (use v vid ne in auto)
  moreover obtain sock' t' where "services_loop vs sock1 ?t = Returns (sock', t')" "unit_id sock' = unit_id sock"
      "units_wf t'" "tbl_get t' (unit_id sock) = None"
      "grows (tbl_insert (unit_id sock) sock1 ?t) (tbl_insert (unit_id sock) sock' t') {} {}"
    using Cons.IH [OF t none sub] spec by auto
  ultimately show ?case using v m by (auto intro: grows_trans)
qed

lemma sockets_loop_grows:
  "units_wf t \<Longrightarrow> set ss \<subseteq> keys_of t \<Longrightarrow> set vs \<subseteq> keys_of t \<Longrightarrow> set ss \<inter> set vs = {} \<Longrightarrow>
     \<exists>t'. sockets_loop vs ss t = Returns t' \<and> grows t t' {} {}"
proof (induction ss arbitrary: t)
  case Nil
  then show ?case by (simp add: grows_refl)
next
  case (Cons s ss)
  then obtain sock where s: "tbl_get t s = Some sock" by (auto simp: tbl_keys_get)
  then have sid: "unit_id sock = s" using units_wf_get [OF Cons.prems(1)] by blast
  let ?t = "tbl_remove s t"
  have t: "units_wf ?t" by (rule units_wf_remove [OF Cons.prems(1)])
  have join: "grows t (tbl_insert s sock ?t) {} {}"
    using units_wf_insert [OF t, of sock] s sid by (intro grows_get) (auto simp: fun_eq_iff)
  have sub: "set vs \<subseteq> keys_of ?t" using Cons.prems(3,4) by (auto simp: tbl_keys_get subset_iff)
  obtain sock' t' where l: "services_loop vs sock ?t = Returns (sock', t')" "unit_id sock' = s" "units_wf t'"
      "grows (tbl_insert s sock ?t) (tbl_insert s sock' t') {} {}"
    using services_loop_grows [OF t _ sub, of sock] sid by auto
  define r where "r = (case specific sock of Socket _ \<Rightarrow> (sock', t') | _ \<Rightarrow> (sock, ?t))"
  have r: "(case specific sock of Socket _ \<Rightarrow> services_loop vs sock ?t | _ \<Rightarrow> Returns (sock, ?t)) = Returns r"
    using l(1) by (auto simp: r_def split: specific.split)
  let ?t2 = "tbl_insert (unit_id (fst r)) (fst r) (snd r)"
  have g: "grows t ?t2 {} {}"
    using grows_trans [OF join l(4)] join l(2) sid by (auto simp: r_def split: specific.split)
  then have su: "units_wf ?t2" "keys_of ?t2 = keys_of t" using grows_same_units [OF g] by (auto simp: same_units_def)
  obtain t3 where "sockets_loop vs ss ?t2 = Returns t3" "grows ?t2 t3 {} {}"
    using Cons.IH [of ?t2] Cons.prems su by auto
  moreover have "sockets_loop vs (s # ss) t = sockets_loop vs ss ?t2"
    using s r by (cases r) simp
  ultimately show ?case using grows_trans [OF g] by auto
qed

lemma apply_sockets_grows:
  assumes "units_wf t" shows "\<exists>t'. apply_sockets_to_services t = Returns t' \<and> grows t t' {} {}"
  unfolding apply_sockets_to_services_def by (rule sockets_loop_grows [OF assms]) auto

text \<open>A service and the loaded slice it names.\<close>

definition slice_edges :: "unit_table \<Rightarrow> (unit_id \<times> unit_id) set" where
  "slice_edges t =
     {(u, v). \<exists>n. map_option slice_of (tbl_get t u) = Some (Some n) \<and> try_into_unit_id n = Some v \<and> v \<in> keys_of t}"

lemma slice_edges_same: "same_units t t' \<Longrightarrow> slice_edges t' = slice_edges t"
  by (simp add: slice_edges_def same_units_def)

lemma set_slice_pairs: "units_wf t \<Longrightarrow> set (slice_pairs t) = slice_edges t"
proof -
  assume wf: "units_wf t"
  then have 1: "tbl_wf t" by (simp add: units_wf_iff)
  have one: "p \<in> set (case slice_of x of None \<Rightarrow> [] | Some n \<Rightarrow>
        (case try_into_unit_id n of None \<Rightarrow> []
         | Some i \<Rightarrow> if i \<in> keys_of t then [(unit_id x, i)] else [])) \<longleftrightarrow>
      (\<exists>n i. slice_of x = Some n \<and> try_into_unit_id n = Some i \<and> i \<in> keys_of t \<and> p = (unit_id x, i))" for p x
    by (cases "slice_of x"; cases "try_into_unit_id (the (slice_of x))") auto
  have "p \<in> set (slice_pairs t) \<longleftrightarrow> p \<in> slice_edges t" for p
    unfolding slice_pairs_def slice_of_def [symmetric] mem_collect_pairs [OF 1] one
    using units_wf_get [OF wf] by (cases p) (fastforce simp: slice_edges_def)
  then show ?thesis by blast
qed

lemma slice_pass_grows:
  assumes wf: "units_wf t"
  shows "grows t (add_slice_dependencies t) {} (slice_edges t - dep_edges after t)"
proof -
  have sets: "set (before (add_slice_to s d)) = set (before d) \<union> {}"
    "set (after (add_slice_to s d)) = set (after d) \<union> {s}" for s d
    by (auto simp: add_slice_to_def push_new_def)
  let ?f = "\<lambda>(u, s). tbl_modify u (upd_deps (add_slice_to s))"
  have b: "dep_edges before (fold ?f ps t) = dep_edges before t" for ps t
    by (rule edges_fold_same) (auto simp: edges_modify [where g = before, OF sets(1)])
  have a: "dep_edges after (fold ?f ps t) = dep_edges after t \<union> set ps \<inter> (keys_of t \<times> UNIV)" for ps t
    by (induction ps arbitrary: t) (auto simp: edges_modify [where g = after, OF sets(2)])
  show ?thesis
    unfolding add_slice_dependencies_def
    by (rule growsI [where P = "{}" and Q = "slice_edges t \<inter> (keys_of t \<times> UNIV) - dep_edges after t"])
       (use wf in \<open>auto simp: a b set_slice_pairs intro!: same_units_fold same_units_modify\<close>)
qed

lemma grows_mono: "grows t t' X Y \<Longrightarrow> X \<subseteq> X' \<Longrightarrow> Y \<subseteq> Y' \<Longrightarrow> grows t t' X' Y'"
  unfolding grows_def by (elim conjE exE, intro conjI exI, assumption+) blast+

lemma grows_cleanup:
  assumes wf: "units_wf t"
  shows "grows t (map_units dedup_dependencies (map_units (upd_deps (retain_existing ks)) t)) {} {}"
proof (rule growsI [where P = "{}" and Q = "{}"])
  show "same_units t (map_units dedup_dependencies (map_units (upd_deps (retain_existing ks)) t))"
    using wf by (intro same_units_then [OF _ same_units_map] same_units_map) (simp_all add: dedup_dependencies_def)
qed (auto simp: dep_edges_def dedup_dependencies_def retain_existing_def Let_def)

text \<open>
  The edges that are written on one side only: the defaults of mounts and a service after its slice,
  where the edge was not there before.
\<close>

definition one_sided_before :: "unit_table \<Rightarrow> (unit_id \<times> unit_id) set" where
  "one_sided_before t = default_before t - dep_edges before t"

definition one_sided_after :: "unit_table \<Rightarrow> (unit_id \<times> unit_id) set" where
  "one_sided_after t = (default_after t \<union> slice_edges t) - dep_edges after t"

text \<open>The stages after the explicit one, put together.\<close>

lemma fill_dependencies_stages:
  assumes wf: "units_wf t"
  obtains t1 where "add_all_implicit_relations (fill_explicit t) = Returns t1"
    "fill_dependencies t = Returns (map_units dedup_dependencies (map_units (upd_deps (retain_existing (tbl_keys t1))) t1))"
    "grows (fill_explicit t) t1 (one_sided_before t) (one_sided_after t)"
proof -
  let ?X = "one_sided_before t" and ?Y = "one_sided_after t"
  let ?e = "fill_explicit t"
  let ?d = "add_default_dependency_relations ?e"
  let ?s = "add_socket_target_relations ?d"
  note explicit = fill_explicit_ordering [OF wf]
  have e: "same_units t ?e" "units_wf ?e" using explicit(1) by (auto simp: same_units_def)
  have sub: "dep_edges before t \<subseteq> dep_edges before ?e" "dep_edges after t \<subseteq> dep_edges after ?e"
    using explicit(2,3) by auto
  have d: "grows ?e ?d ?X ?Y" using default_pass_grows [OF e(2)]
    by (rule grows_mono) (use sub in \<open>auto simp: mount_defaults_explicit one_sided_before_def one_sided_after_def\<close>)
  have dw: "units_wf ?d" using grows_same_units [OF d] by (simp add: same_units_def)
  have s: "grows ?d ?s ?X ?Y" using socket_target_grows [OF dw] by (rule grows_mono) auto
  have sw: "units_wf ?s" using grows_same_units [OF s] by (simp add: same_units_def)
  obtain t2 where a: "apply_sockets_to_services ?s = Returns t2" "grows ?s t2 {} {}"
    using apply_sockets_grows [OF sw] by blast
  have a': "grows ?s t2 ?X ?Y" using a(2) by (rule grows_mono) auto
  have es: "grows ?e t2 ?X ?Y" by (rule grows_trans [OF grows_trans [OF d s] a'])
  have same: "same_units t t2" using same_units_trans [OF e(1) grows_same_units [OF es]] .
  then have aw: "units_wf t2" by (simp add: same_units_def)
  have after: "dep_edges after t \<subseteq> dep_edges after t2" using grows_edges [OF es] sub(2) by blast
  have "grows t2 (add_slice_dependencies t2) ?X ?Y"
    using slice_pass_grows [OF aw] unfolding slice_edges_same [OF same]
    by (rule grows_mono) (use after in \<open>auto simp: one_sided_after_def\<close>)
  then have g: "grows ?e (add_slice_dependencies t2) ?X ?Y" by (rule grows_trans [OF es])
  show ?thesis
    by (rule that [OF _ _ g]) (simp_all add: fill_dependencies_def add_all_implicit_relations_def a(1))
qed

lemma fill_dependencies_one_sided:
  assumes "units_wf t"
  shows "\<exists>t'. fill_dependencies t = Returns t' \<and> same_units t t'
     \<and> mirrored_but t' (one_sided_before t) (one_sided_after t)
     \<and> dep_edges before t \<subseteq> dep_edges before t' \<and> dep_edges after t \<subseteq> dep_edges after t'"
proof -
  let ?X = "one_sided_before t" and ?Y = "one_sided_after t"
  obtain t1 where t1: "fill_dependencies t = Returns (map_units dedup_dependencies (map_units (upd_deps (retain_existing (tbl_keys t1))) t1))"
      "grows (fill_explicit t) t1 ?X ?Y"
    by (rule fill_dependencies_stages [OF assms])
  let ?t' = "map_units dedup_dependencies (map_units (upd_deps (retain_existing (tbl_keys t1))) t1)"
  note e = fill_explicit_ordering [OF assms]
  have w: "units_wf t1" using grows_same_units [OF t1(2)] by (simp add: same_units_def)
  have "grows t1 ?t' ?X ?Y" using grows_cleanup [OF w] by (rule grows_mono) auto
  then have g: "grows (fill_explicit t) ?t' ?X ?Y" by (rule grows_trans [OF t1(2)])
  have k: "keys_of (fill_explicit t) = keys_of t" using e(1) by (simp add: same_units_def)
  have su: "same_units t ?t'" by (rule same_units_trans [OF e(1) grows_same_units [OF g]])
  have "mirrored_but (fill_explicit t) ?X ?Y"
    unfolding mirrored_but_def e(2,3) k by (auto dest: dep_edges_keys)
  then have m: "mirrored_but ?t' ?X ?Y" by (rule grows_mirrored [OF _ g])
  have "dep_edges before t \<subseteq> dep_edges before ?t'" "dep_edges after t \<subseteq> dep_edges after ?t'"
    using grows_edges [OF g] e(2,3) by blast+
  then show ?thesis using t1(1) su m by blast
qed

lemma fill_dependencies_mirrors:
  assumes "units_wf t"
  shows "\<exists>t'. fill_dependencies t = Returns t' \<and> same_units t t'
     \<and> mirrored_but t' mount_edges (mount_edges \<union> slice_edges t)
     \<and> dep_edges before t \<subseteq> dep_edges before t' \<and> dep_edges after t \<subseteq> dep_edges after t'"
proof -
  have "one_sided_before t \<subseteq> mount_edges" "one_sided_after t \<subseteq> mount_edges \<union> slice_edges t"
    using mount_defaults_kind [OF assms] by (auto simp: one_sided_before_def one_sided_after_def)
  then show ?thesis using fill_dependencies_one_sided [OF assms] mirrored_but_mono by blast
qed

text \<open>
  C10: Filling in dependencies of a well-formed table never panics, keeps the set of loaded units and
  every ordering edge that was there, and makes ordering visible on both sides: whenever one loaded
  unit is ordered before another, the other is ordered after it, and the other way round.  This holds
  for every ordering that a unit file states, of a mount as of any other unit.  The only exceptions
  are edges that an implicit pass adds on one side where there was none: the default orderings of a
  mount unit, and a service after the slice it runs in.
\<close>

theorem fill_makes_ordering_mutual:
  assumes "units_wf t"
  shows "\<exists>t'. fill_dependencies t = Returns t' \<and> units_wf t' \<and> set (tbl_keys t') = set (tbl_keys t)
     \<and> dep_edges before t \<subseteq> dep_edges before t' \<and> dep_edges after t \<subseteq> dep_edges after t'
     \<and> {(u, v). before_edge t' u v} \<subseteq> {(u, v). after_edge t' v u} \<union> (default_before t - dep_edges before t)
     \<and> {(u, v). after_edge t' u v} \<subseteq> {(u, v). before_edge t' v u} \<union> (default_after t \<union> slice_edges t - dep_edges after t)"
proof -
  obtain t' where t': "fill_dependencies t = Returns t'" "same_units t t'"
      "mirrored_but t' (one_sided_before t) (one_sided_after t)"
      "dep_edges before t \<subseteq> dep_edges before t'" "dep_edges after t \<subseteq> dep_edges after t'"
    using fill_dependencies_one_sided [OF assms] by blast
  moreover have "units_wf t'" "keys_of t' = keys_of t" using t'(2) by (simp_all only: same_units_def)
  ultimately show ?thesis using mirrored_edges [OF t'(3)] unfolding one_sided_before_def one_sided_after_def by blast
qed

text \<open>A service ordered before another one and running in a slice.\<close>

definition example_units :: unit_table where
  "example_units =
     (let a = UnitId Kind_Service ''a.service''; b = UnitId Kind_Service ''b.service'';
          s = UnitId Kind_Slice ''s.slice'';
          conf = \<lparr>srvc_sockets = [], srvc_slice = Some ''s.slice'', srvc_dbus_name = None\<rparr>
      in [(a, (plain_unit a (no_dependencies\<lparr>before := [b]\<rparr>))\<lparr>specific := Service conf\<rparr>),
          (b, plain_unit b no_dependencies), (s, plain_unit s no_dependencies)])"

lemma units_wf_example: "units_wf example_units"
  by code_simp

theorem fill_makes_ordering_mutual_witness:
  "\<exists>t'. fill_dependencies example_units = Returns t' \<and> units_wf t'
     \<and> set (tbl_keys t') = set (tbl_keys example_units)
     \<and> dep_edges before example_units \<subseteq> dep_edges before t' \<and> dep_edges after example_units \<subseteq> dep_edges after t'
     \<and> {(u, v). before_edge t' u v} \<subseteq> {(u, v). after_edge t' v u} \<union> (default_before example_units - dep_edges before example_units)
     \<and> {(u, v). after_edge t' u v} \<subseteq> {(u, v). before_edge t' v u}
         \<union> (default_after example_units \<union> slice_edges example_units - dep_edges after example_units)"
  by (rule fill_makes_ordering_mutual [OF units_wf_example])

text \<open>The exception is real: the slice is not told that the service is ordered after it.\<close>

lemma slice_dependency_one_sided:
  "case fill_dependencies example_units of
     Panics \<Rightarrow> False
   | Returns t' \<Rightarrow>
       (let a = UnitId Kind_Service ''a.service''; b = UnitId Kind_Service ''b.service'';
            s = UnitId Kind_Slice ''s.slice''
        in after_edge t' a s \<and> \<not> before_edge t' s a \<and> after_edge t' b a)"
  by code_simp

end
