(* ===== verification/Locking.thy ===== *)
theory Locking
  imports Units "HOL-Library.Multiset"
begin

text \<open>
  The status locks of \<open>units/unitset_manipulation/locking.rs\<close>: \<open>acquire_locks\<close> takes the write
  locks of some units and the read locks of others, in an order of its own.  A call is modelled
  by the sequence of its lock operations; several calls on different threads interleave in the
  step relation \<open>lock_step\<close>.

  Lemmas: which locks a call takes, that calls which agree on one order never deadlock, and that
  the order \<open>acquire_locks\<close> uses is not such an order.
\<close>

section \<open>The locks of one call\<close>

datatype lock = Write (locked: unit_id) | Read (locked: unit_id)

text \<open>The two vectors are ascending and popped at their end.\<close>

function lock_loop :: "unit_id list \<Rightarrow> unit_id list \<Rightarrow> lock list" where
  "lock_loop lock_exclusive lock_shared =
     (if lock_shared \<noteq> [] \<and> lock_exclusive \<noteq> [] then
        if name (last lock_exclusive) < name (last lock_shared)
        then Write (last lock_exclusive) # lock_loop (butlast lock_exclusive) lock_shared
        else Read (last lock_shared) # lock_loop lock_exclusive (butlast lock_shared)
      else map Read (rev lock_shared) @ map Write (rev lock_exclusive))"
  by pat_completeness auto
termination
  by (relation "measure (\<lambda>(e, s). length e + length s)") auto

declare lock_loop.simps [simp del]

definition lock_ids :: "unit_id list \<Rightarrow> unit_table \<Rightarrow> unit_id list" where
  "lock_ids ids t = filter (\<lambda>u. tbl_get t u \<noteq> None) (dedup_ids ids)"

definition acquire_locks :: "unit_id list \<Rightarrow> unit_id list \<Rightarrow> unit_table \<Rightarrow> lock list outcome" where
  "acquire_locks lock_exclusive lock_shared t =
     (let e = lock_ids lock_exclusive t; s = lock_ids lock_shared t in
      if list_ex (\<lambda>u. u \<in> set s) e then Panics else Returns (lock_loop e s))"

lemma mset_lock_loop: "mset (lock_loop e s) = image_mset Write (mset e) + image_mset Read (mset s)"
proof (induction e s rule: lock_loop.induct)
  case (1 e s)
  have e: "mset e = add_mset (last e) (mset (butlast e))" if "e \<noteq> []"
    using that append_butlast_last_id [of e] by (metis mset.simps(2) mset_append union_mset_add_mset_right add_0_right mset.simps(1))
  have s: "mset s = add_mset (last s) (mset (butlast s))" if "s \<noteq> []"
    using that append_butlast_last_id [of s] by (metis mset.simps(2) mset_append union_mset_add_mset_right add_0_right mset.simps(1))
  show ?case using 1 e s by (subst lock_loop.simps) auto
qed

lemma set_lock_loop: "set (lock_loop e s) = Write ` set e \<union> Read ` set s"
  using mset_lock_loop [of e s] by (metis mset_map mset_append set_append set_map set_mset_mset mset_eq_setD)

lemma distinct_lock_loop: "distinct e \<Longrightarrow> distinct s \<Longrightarrow> distinct (lock_loop e s)"
proof -
  assume "distinct e" "distinct s"
  then have "distinct (map Write e @ map Read s)" by (auto simp: distinct_map inj_on_def)
  moreover have "mset (lock_loop e s) = mset (map Write e @ map Read s)" by (simp add: mset_lock_loop)
  ultimately show ?thesis using mset_eq_imp_distinct_iff by blast
qed

lemma set_lock_ids: "set (lock_ids ids t) = {u \<in> set ids. tbl_get t u \<noteq> None}"
  by (auto simp: lock_ids_def)

lemma distinct_lock_ids: "\<forall>u\<in>set ids. id_wf u \<Longrightarrow> distinct (lock_ids ids t)"
  by (simp add: lock_ids_def distinct_dedup_ids)

text \<open>
  The locks of a call.  \<open>acquire_locks\<close> panics exactly when a loaded unit is asked for both
  ways; otherwise it takes the write lock of every loaded unit of the first list and the read
  lock of every loaded unit of the second, each lock once however often the unit is listed, and
  nothing for units that are not loaded.
\<close>

theorem locks_exact:
  assumes "\<forall>u\<in>set excl \<union> set shared. id_wf u"
  shows "case acquire_locks excl shared t of
           Panics \<Rightarrow> set excl \<inter> set shared \<inter> set (tbl_keys t) \<noteq> {}
         | Returns ls \<Rightarrow>
             set excl \<inter> set shared \<inter> set (tbl_keys t) = {} \<and> distinct ls
             \<and> set ls = Write ` (set excl \<inter> set (tbl_keys t)) \<union> Read ` (set shared \<inter> set (tbl_keys t))"
proof (cases "list_ex (\<lambda>u. u \<in> set (lock_ids shared t)) (lock_ids excl t)")
  case True
  then show ?thesis by (auto simp: acquire_locks_def list_ex_iff set_lock_ids tbl_keys_get)
next
  case False
  have "{u \<in> set ids. tbl_get t u \<noteq> None} = set ids \<inter> set (tbl_keys t)" for ids by (auto simp: tbl_keys_get)
  then show ?thesis
    using False assms distinct_lock_loop [OF distinct_lock_ids distinct_lock_ids, of excl shared t t]
    by (auto simp: acquire_locks_def list_ex_iff set_lock_ids set_lock_loop tbl_keys_get)
qed

section \<open>Threads\<close>

text \<open>
  A thread holds what it has taken and takes the rest in order; it releases all of it at the end
  of the call that needed the locks.  A write lock excludes every other lock of the same unit.
\<close>

record thread =
  held :: "lock list"
  todo :: "lock list"

fun clash :: "lock \<Rightarrow> lock \<Rightarrow> bool" where
  "clash (Read a) (Read b) \<longleftrightarrow> False"
| "clash l m \<longleftrightarrow> locked l = locked m"

definition free_for :: "thread list \<Rightarrow> nat \<Rightarrow> lock \<Rightarrow> bool" where
  "free_for ts i l \<longleftrightarrow> list_all (\<lambda>j. j = i \<or> list_all (\<lambda>m. \<not> clash l m) (held (ts ! j))) [0..<length ts]"

inductive lock_step :: "thread list \<Rightarrow> thread list \<Rightarrow> bool" where
  take_lock: "i < length ts \<Longrightarrow> todo (ts ! i) = l # ls \<Longrightarrow> free_for ts i l \<Longrightarrow>
     lock_step ts (ts[i := \<lparr>held = l # held (ts ! i), todo = ls\<rparr>])"
| release: "i < length ts \<Longrightarrow> todo (ts ! i) = [] \<Longrightarrow> held (ts ! i) \<noteq> [] \<Longrightarrow>
     lock_step ts (ts[i := \<lparr>held = [], todo = []\<rparr>])"

inductive_cases lock_stepE: "lock_step ts ts'"

definition stuck :: "thread list \<Rightarrow> bool" where
  "stuck ts \<longleftrightarrow> (\<exists>t\<in>set ts. todo t \<noteq> []) \<and> (\<nexists>ts'. lock_step ts ts')"

definition fresh_thread :: "lock list \<Rightarrow> thread" where
  "fresh_thread ls = \<lparr>held = [], todo = ls\<rparr>"

text \<open>What the code's comment promises: every thread locks in descending order of the names.\<close>

definition descending :: "thread \<Rightarrow> bool" where
  "descending t \<longleftrightarrow> sorted_wrt (\<lambda>l m. name (locked m) < name (locked l)) (rev (held t) @ todo t)"

lemma descending_step: "lock_step ts ts' \<Longrightarrow> list_all descending ts \<Longrightarrow> list_all descending ts'"
proof (induction rule: lock_step.induct)
  case (take_lock i ts l ls)
  then have "descending (ts ! i)" by (simp add: list_all_iff)
  then have "descending \<lparr>held = l # held (ts ! i), todo = ls\<rparr>" using take_lock by (simp add: descending_def)
  then show ?case using take_lock by (auto simp: list_all_iff dest: subsetD [OF set_update_subset_insert])
next
  case (release i ts)
  have "descending \<lparr>held = [], todo = []\<rparr>" by (simp add: descending_def)
  then show ?case using release by (auto simp: list_all_iff dest: subsetD [OF set_update_subset_insert])
qed

text \<open>Threads that all lock in descending order never block each other for good.\<close>

lemma descending_not_stuck: "list_all descending ts \<Longrightarrow> \<not> stuck ts"
proof
  assume desc: "list_all descending ts" and st: "stuck ts"
  define W where "W = {i. i < length ts \<and> todo (ts ! i) \<noteq> []}"
  define head where "head i = name (locked (hd (todo (ts ! i))))" for i
  have "finite W" "W \<noteq> {}" using st by (auto simp: W_def stuck_def in_set_conv_nth)
  then obtain i where i: "i \<in> W" "\<And>j. j \<in> W \<Longrightarrow> head i \<le> head j"
    using ex_min_if_finite [of "head ` W"] by (fastforce simp: not_less)
  then obtain l ls where l: "i < length ts" "todo (ts ! i) = l # ls" by (auto simp: W_def neq_Nil_conv)
  have "\<not> free_for ts i l" using st l take_lock unfolding stuck_def by blast
  then obtain j m where j: "j < length ts" "j \<noteq> i" "m \<in> set (held (ts ! j))" "clash l m"
    by (auto simp: free_for_def list_all_iff)
  have "j \<in> W" using st j release unfolding stuck_def W_def by fastforce
  then obtain k ks where k: "todo (ts ! j) = k # ks" by (auto simp: W_def neq_Nil_conv)
  have "descending (ts ! j)" using desc j(1) by (simp add: list_all_iff)
  then have "name (locked k) < name (locked m)" using j(3) k by (auto simp: descending_def sorted_wrt_append)
  moreover have "locked l = locked m" using j(4) by (cases l; cases m) simp_all
  ultimately have "head j < head i" using k l by (simp add: head_def)
  then show False using i(2) [OF \<open>j \<in> W\<close>] by simp
qed

text \<open>
  The order of \<open>lock_loop\<close> is another one: of the two last elements it takes the smaller.  Two
  calls can deadlock: one unit \<open>a\<close> starts after \<open>b\<close>, and \<open>b\<close>, which \<open>a\<close> and \<open>c\<close> require, stops.
\<close>

definition lock_a :: unit_id where "lock_a = UnitId Kind_Service ''a.service''"
definition lock_b :: unit_id where "lock_b = UnitId Kind_Service ''b.service''"
definition lock_c :: unit_id where "lock_c = UnitId Kind_Service ''c.service''"

definition lock_table :: unit_table where
  "lock_table = map (\<lambda>u. (u, plain_unit u no_dependencies)) [lock_a, lock_b, lock_c]"

lemmas lock_units = lock_a_def lock_b_def lock_c_def

lemma lock_table_calls:
  "acquire_locks [lock_a] [lock_b] lock_table = Returns [Write lock_a, Read lock_b]"
  "acquire_locks [lock_b] [lock_a, lock_c] lock_table = Returns [Write lock_b, Read lock_c, Read lock_a]"
proof -
  have get: "tbl_get lock_table lock_a \<noteq> None" "tbl_get lock_table lock_b \<noteq> None" "tbl_get lock_table lock_c \<noteq> None"
    by (simp_all add: lock_table_def tbl_get_def)
  have ne: "lock_a \<noteq> lock_b" "lock_b \<noteq> lock_c" "lock_a \<noteq> lock_c" "name lock_a < name lock_b" "name lock_b < name lock_c"
    by (simp_all add: lock_units less_char_def)
  have ids: "lock_ids [u] lock_table = [u]" if "u \<in> {lock_a, lock_b, lock_c}" for u
    using that get by (auto simp: lock_ids_def dedup_ids_def)
  have ac: "lock_ids [lock_a, lock_c] lock_table = [lock_a, lock_c]"
    using get ne by (simp add: lock_ids_def dedup_ids_def)
  have "lock_loop [lock_a] [lock_b] = [Write lock_a, Read lock_b]"
    using ne by (subst lock_loop.simps) (simp add: lock_loop.simps)
  moreover have "lock_loop [lock_b] [lock_a, lock_c] = [Write lock_b, Read lock_c, Read lock_a]"
    using ne by (subst lock_loop.simps) (simp add: lock_loop.simps)
  ultimately show "acquire_locks [lock_a] [lock_b] lock_table = Returns [Write lock_a, Read lock_b]"
    "acquire_locks [lock_b] [lock_a, lock_c] lock_table = Returns [Write lock_b, Read lock_c, Read lock_a]"
    using ids ac ne by (simp_all add: acquire_locks_def Let_def)
qed

theorem locks_exact_witness:
  "case acquire_locks [lock_b] [lock_a, lock_c, lock_a] lock_table of
     Panics \<Rightarrow> set [lock_b] \<inter> set [lock_a, lock_c, lock_a] \<inter> set (tbl_keys lock_table) \<noteq> {}
   | Returns ls \<Rightarrow>
       set [lock_b] \<inter> set [lock_a, lock_c, lock_a] \<inter> set (tbl_keys lock_table) = {} \<and> distinct ls
       \<and> set ls = Write ` (set [lock_b] \<inter> set (tbl_keys lock_table))
           \<union> Read ` (set [lock_a, lock_c, lock_a] \<inter> set (tbl_keys lock_table))"
  by (rule locks_exact) (simp add: lock_units id_wf_def try_into_unit_id_def ends_with_def)

theorem lock_order_can_deadlock:
  "acquire_locks [lock_a] [lock_b] lock_table = Returns [Write lock_a, Read lock_b]
   \<and> acquire_locks [lock_b] [lock_a, lock_c] lock_table = Returns [Write lock_b, Read lock_c, Read lock_a]
   \<and> (\<exists>ts. lock_step\<^sup>*\<^sup>* [fresh_thread [Write lock_a, Read lock_b], fresh_thread [Write lock_b, Read lock_c, Read lock_a]] ts
          \<and> stuck ts)"
proof -
  let ?start_a = "fresh_thread [Write lock_a, Read lock_b]" and ?start_b = "fresh_thread [Write lock_b, Read lock_c, Read lock_a]"
  let ?one_a = "\<lparr>held = [Write lock_a], todo = [Read lock_b]\<rparr>"
  let ?one_b = "\<lparr>held = [Write lock_b], todo = [Read lock_c, Read lock_a]\<rparr>"
  let ?two_b = "\<lparr>held = [Read lock_c, Write lock_b], todo = [Read lock_a]\<rparr>"
  note defs = free_for_def fresh_thread_def lock_units
  have "lock_step [?start_a, ?start_b] [?one_a, ?start_b]" using take_lock [of 0 "[?start_a, ?start_b]" "Write lock_a" "[Read lock_b]"] by (simp add: defs)
  moreover have "lock_step [?one_a, ?start_b] [?one_a, ?one_b]" using take_lock [of 1 "[?one_a, ?start_b]" "Write lock_b" "[Read lock_c, Read lock_a]"] by (simp add: defs)
  moreover have "lock_step [?one_a, ?one_b] [?one_a, ?two_b]" using take_lock [of 1 "[?one_a, ?one_b]" "Read lock_c" "[Read lock_a]"] by (simp add: defs)
  moreover have "stuck [?one_a, ?two_b]"
    by (auto simp: stuck_def defs less_Suc_eq nth_Cons' elim!: lock_stepE)
  ultimately show ?thesis using lock_table_calls by (meson converse_rtranclp_into_rtranclp rtranclp.rtrancl_refl)
qed

end
