(* ===== verification/Lifecycle.thy ===== *)
theory Lifecycle
  imports Locking
begin

text \<open>
  The life of a unit: the start rate limit (\<open>units/unitset_manipulation/activate.rs\<close>), the
  guarded state transitions (\<open>units/unit.rs\<close>) and stopping with its propagation
  (\<open>units/unitset_manipulation/deactivate.rs\<close>).  The table \<open>t\<close> holds what does not change
  here, the configuration and the dependencies; \<open>st\<close> is the status of every unit.

  What the operating system answers when a service is killed, a socket closed, a mount or a swap
  taken down is the argument \<open>os\<close>.

  Lemmas: the rate limit over every window of time; a stop reaches every dependent, stops it
  first, and succeeds when no unit depends on itself.
\<close>

section \<open>Start rate limit\<close>

text \<open>Instants and durations are in nanoseconds; the clock never goes back.\<close>

definition start_burst :: "unit_config \<Rightarrow> nat" where
  "start_burst c = (case start_limit_burst c of Some b \<Rightarrow> b | None \<Rightarrow> 5)"

definition start_interval :: "unit_config \<Rightarrow> nat" where
  "start_interval c =
     (case start_limit_interval_sec c of
        Some (Duration d) \<Rightarrow> d
      | Some Infinity \<Rightarrow> 10 * 10 ^ 9
      | None \<Rightarrow> 10 * 10 ^ 9)"

definition record_start_timestamp :: "nat \<Rightarrow> nat list \<Rightarrow> nat list" where
  "record_start_timestamp now start_timestamps = start_timestamps @ [now]"



definition start_rate_limit_would_block :: "unit_config \<Rightarrow> nat \<Rightarrow> nat list \<Rightarrow> nat list \<times> bool" where
  "start_rate_limit_would_block c now start_timestamps =
     (let burst = start_burst c; interval = start_interval c in
      if burst = 0 \<or> interval = 0 then (start_timestamps, False)
      else let kept = filter (\<lambda>t. now - t < interval) start_timestamps in (kept, length kept \<ge> burst))"








section \<open>State transitions\<close>

type_synonym statuses = "unit_id \<Rightarrow> unit_status"

definition transition_ready :: "dependencies \<Rightarrow> unit_id \<Rightarrow> unit_status \<Rightarrow> bool" where
  "transition_ready d e s =
     (let required = e \<in> set (requires d) \<or> e \<in> set (binds_to d);
          pulled = e \<in> set (wants d) \<or> e \<in> set (upholds d)
      in if required then
           is_started s
           \<or> (case s of Stopped StoppedFinal _ \<Rightarrow> True | Stopped ConditionSkipped _ \<Rightarrow> True | _ \<Rightarrow> False)
         else if required \<or> pulled then s \<noteq> NeverStarted
         else (case s of NeverStarted \<Rightarrow> True | Starting \<Rightarrow> False | _ \<Rightarrow> True))"

definition unready_deps :: "unit_table \<Rightarrow> statuses \<Rightarrow> dependencies \<Rightarrow> unit_id list" where
  "unready_deps t st d = filter (\<lambda>e. \<not> transition_ready d e (st e)) (lock_ids (after d) t)"

text \<open>The unit's own status is looked up with \<open>unwrap\<close>; a unit outside the table panics.\<close>

definition state_transition_starting ::
  "unit_table \<Rightarrow> statuses \<Rightarrow> unit \<Rightarrow> (unit_id list + statuses) outcome" where
  "state_transition_starting t st x =
     (case acquire_locks [unit_id x] (after (deps x)) t of
        Panics \<Rightarrow> Panics
      | Returns _ \<Rightarrow>
          (let unstarted = unready_deps t st (deps x) in
           if unstarted \<noteq> [] then Returns (Inl unstarted)
           else if tbl_get t (unit_id x) = None then Panics
           else Returns (Inr (st(unit_id x := Starting)))))"

definition state_transition_restarting ::
  "unit_table \<Rightarrow> statuses \<Rightarrow> unit \<Rightarrow> (unit_id list + statuses \<times> bool) outcome" where
  "state_transition_restarting t st x =
     (case acquire_locks [unit_id x] (after (deps x)) t of
        Panics \<Rightarrow> Panics
      | Returns _ \<Rightarrow>
          (let unstarted = unready_deps t st (deps x) in
           if unstarted \<noteq> [] then Returns (Inl unstarted)
           else if tbl_get t (unit_id x) = None then Panics
           else Returns (Inr (st(unit_id x := Restarting), is_started (st (unit_id x))))))"

definition unkilled_depending :: "unit_table \<Rightarrow> statuses \<Rightarrow> dependencies \<Rightarrow> unit_id list" where
  "unkilled_depending t st d = filter (\<lambda>e. is_started (st e)) (lock_ids (kill_before_this d) t)"

definition state_transition_stopping ::
  "unit_table \<Rightarrow> statuses \<Rightarrow> unit \<Rightarrow> (unit_id list + statuses) outcome" where
  "state_transition_stopping t st x =
     (case acquire_locks [unit_id x] (kill_before_this (deps x)) t of
        Panics \<Rightarrow> Panics
      | Returns _ \<Rightarrow>
          (let unkilled = unkilled_depending t st (deps x) in
           if unkilled \<noteq> [] then Returns (Inl unkilled)
           else if tbl_get t (unit_id x) = None then Panics
           else Returns (Inr (st(unit_id x := Stopping)))))"

section \<open>Stopping\<close>

record unit_operation_error =
  reason :: unit_operation_error_reason
  error_unit :: unit_id

text \<open>
  The result of a stop: the statuses, the units stopped in order, and the error.  An error ends
  the call it happens in (\<open>?\<close>).
\<close>

type_synonym stop_run = "(statuses \<times> unit_id list \<times> unit_operation_error option) outcome"

definition then_stop :: "stop_run \<Rightarrow> (statuses \<Rightarrow> stop_run) \<Rightarrow> stop_run" where
  "then_stop r f =
     (case r of
        Panics \<Rightarrow> Panics
      | Returns (st, tr, Some e) \<Rightarrow> Returns (st, tr, Some e)
      | Returns (st, tr, None) \<Rightarrow>
          (case f st of Panics \<Rightarrow> Panics | Returns (st', tr', e) \<Rightarrow> Returns (st', tr @ tr', e)))"

text \<open>\<open>if let Err(e) = ... { log::warn!(..) }\<close>\<close>

definition ignore_error :: "stop_run \<Rightarrow> stop_run" where
  "ignore_error r = (case r of Panics \<Rightarrow> Panics | Returns (st, tr, _) \<Rightarrow> Returns (st, tr, None))"

definition unit_not_found :: "unit_id \<Rightarrow> unit_operation_error" where
  "unit_not_found u =
     \<lparr>reason = GenericStartError ''Tried to activate a unit that can not be found'', error_unit = u\<rparr>"

text \<open>
  The specific part of \<open>Unit::deactivate\<close>: services, sockets, mounts and swaps ask the operating
  system; whatever it answers, they count as stopped.
\<close>

type_synonym os_answers = "unit_id \<Rightarrow> unit_operation_error_reason option"

definition stop_specific :: "os_answers \<Rightarrow> unit \<Rightarrow> unit_operation_error_reason option" where
  "stop_specific os x =
     (case specific x of
        Target \<Rightarrow> None
      | Slice \<Rightarrow> None
      | Device \<Rightarrow> None
      | Timer \<Rightarrow> None
      | Path \<Rightarrow> None
      | Service _ \<Rightarrow> os (unit_id x)
      | Socket _ \<Rightarrow> os (unit_id x)
      | Mount _ \<Rightarrow> os (unit_id x)
      | Swap \<Rightarrow> os (unit_id x))"

definition deactivate :: "unit_table \<Rightarrow> os_answers \<Rightarrow> unit \<Rightarrow> statuses \<Rightarrow> stop_run" where
  "deactivate t os x st =
     (let u = unit_id x in
      if is_stopped (st u) then Returns (st, [], None)
      else case state_transition_stopping t st x of
             Panics \<Rightarrow> Panics
           | Returns (Inl bad_ids) \<Rightarrow>
               Returns (st, [], Some \<lparr>reason = DependencyError bad_ids, error_unit = u\<rparr>)
           | Returns (Inr st') \<Rightarrow>
               (case stop_specific os x of
                  None \<Rightarrow> Returns (st'(u := Stopped StoppedFinal []), [u], None)
                | Some e \<Rightarrow>
                    Returns (st'(u := Stopped StoppedFinal [e]), [u], Some \<lparr>reason = e, error_unit = u\<rparr>)))"

definition deactivate_unit :: "unit_table \<Rightarrow> os_answers \<Rightarrow> unit_id \<Rightarrow> statuses \<Rightarrow> stop_run" where
  "deactivate_unit t os u st =
     (case tbl_get t u of
        None \<Rightarrow> Returns (st, [], Some (unit_not_found u))
      | Some x \<Rightarrow>
          then_stop (deactivate t os x st) (\<lambda>st.
            Returns (if kind u = Kind_Slice \<and> \<not> is_stopped (st u) then st(u := Stopped StoppedFinal []) else st,
                     [], None)))"

fun deactivate_units :: "unit_table \<Rightarrow> os_answers \<Rightarrow> unit_id list \<Rightarrow> statuses \<Rightarrow> stop_run" where
  "deactivate_units t os [] st = Returns (st, [], None)"
| "deactivate_units t os (u # us) st =
     then_stop (deactivate_unit t os u st) (deactivate_units t os us)"

lemma guard_less:
  assumes "u \<notin> g" "tbl_get t u = Some x"
  shows "card (set (tbl_keys t) - insert u g) < card (set (tbl_keys t) - g)"
proof -
  have "u \<in> set (tbl_keys t)" using assms(2) by (simp add: tbl_keys_get)
  then have "set (tbl_keys t) - insert u g \<subset> set (tbl_keys t) - g" using assms(1) by blast
  then show ?thesis by (intro psubset_card_mono) simp_all
qed

text \<open>
  The recursive stop.  \<open>g\<close> is the thread-local set of the units being deactivated up the stack:
  a unit is added before the calls for its dependents and removed at the end, whatever the result.
\<close>

function deactivate_unit_recursive :: "unit_table \<Rightarrow> os_answers \<Rightarrow> unit_id set \<Rightarrow> unit_id \<Rightarrow> statuses \<Rightarrow> stop_run"
  and deactivate_units_recursive :: "unit_table \<Rightarrow> os_answers \<Rightarrow> unit_id set \<Rightarrow> unit_id list \<Rightarrow> statuses \<Rightarrow> stop_run"
  and propagate_stop :: "unit_table \<Rightarrow> os_answers \<Rightarrow> unit_id set \<Rightarrow> unit_id list \<Rightarrow> statuses \<Rightarrow> stop_run" where
  "deactivate_unit_recursive t os g u st =
     (if u \<in> g then Returns (st, [], None)
      else case tbl_get t u of
             None \<Rightarrow> Returns (st, [], Some (unit_not_found u))
           | Some x \<Rightarrow>
               then_stop (deactivate_units_recursive t os (insert u g) (required_by (deps x)) st) (\<lambda>st.
               then_stop (deactivate_units_recursive t os (insert u g) (part_of_by (deps x)) st) (\<lambda>st.
               then_stop (deactivate_units_recursive t os (insert u g) (bound_by (deps x)) st) (\<lambda>st.
               then_stop (deactivate_unit t os u st) (\<lambda>st.
                 propagate_stop t os (insert u g) (propagates_stop_to (deps x)) st)))))"
| "deactivate_units_recursive t os g [] st = Returns (st, [], None)"
| "deactivate_units_recursive t os g (u # us) st =
     then_stop (deactivate_unit_recursive t os g u st) (\<lambda>st. deactivate_units_recursive t os g us st)"
| "propagate_stop t os g [] st = Returns (st, [], None)"
| "propagate_stop t os g (u # us) st =
     then_stop (ignore_error (deactivate_unit_recursive t os g u st)) (\<lambda>st. propagate_stop t os g us st)"
  by pat_completeness auto
termination
  by (relation "measures [\<lambda>r. case r of Inl (t, os, g, u, st) \<Rightarrow> card (set (tbl_keys t) - g)
          | Inr (Inl (t, os, g, us, st)) \<Rightarrow> card (set (tbl_keys t) - g)
          | Inr (Inr (t, os, g, us, st)) \<Rightarrow> card (set (tbl_keys t) - g),
        \<lambda>r. case r of Inl _ \<Rightarrow> 0 | Inr (Inl (t, os, g, us, st)) \<Rightarrow> Suc (length us)
          | Inr (Inr (t, os, g, us, st)) \<Rightarrow> Suc (length us)]")
     (simp_all add: guard_less del: card_Diff_insert)

declare deactivate_unit_recursive.simps [simp del]

definition is_unit_unneeded :: "unit_table \<Rightarrow> statuses \<Rightarrow> unit_id \<Rightarrow> bool" where
  "is_unit_unneeded t st u =
     (case tbl_get t u of
        None \<Rightarrow> False
      | Some x \<Rightarrow>
          if \<not> stop_when_unneeded (unit_conf x) then False
          else if \<not> is_started (st u) then False
          else \<not> list_ex (\<lambda>n. tbl_get t n \<noteq> None \<and> is_started (st n))
                 (wanted_by (deps x) @ required_by (deps x) @ bound_by (deps x) @ upheld_by (deps x)))"

section \<open>What a stop does\<close>

text \<open>The loaded units that must be down before a unit may stop.\<close>

definition dependents :: "unit_table \<Rightarrow> unit_id \<Rightarrow> unit_id list" where
  "dependents t u = (case tbl_get t u of None \<Rightarrow> [] | Some x \<Rightarrow> lock_ids (kill_before_this (deps x)) t)"

text \<open>Exactly the units in the trace went down, each of them once.\<close>

definition settles :: "statuses \<Rightarrow> statuses \<Rightarrow> unit_id list \<Rightarrow> bool" where
  "settles st st' tr \<longleftrightarrow>
     distinct tr \<and> (\<forall>v. if v \<in> set tr then \<not> is_stopped (st v) \<and> is_stopped (st' v) else st' v = st v)"

definition dependents_first :: "unit_table \<Rightarrow> statuses \<Rightarrow> unit_id list \<Rightarrow> bool" where
  "dependents_first t st tr \<longleftrightarrow>
     (\<forall>us u vs. tr = us @ u # vs \<longrightarrow> (\<forall>e\<in>set (dependents t u). is_started (st e) \<longrightarrow> e \<in> set us))"

definition safe_run :: "unit_table \<Rightarrow> statuses \<Rightarrow> stop_run \<Rightarrow> bool" where
  "safe_run t st r \<longleftrightarrow>
     (case r of Panics \<Rightarrow> True | Returns (st', tr, _) \<Rightarrow> settles st st' tr \<and> dependents_first t st tr)"

lemma settles_stopped: "settles st st' tr \<Longrightarrow> is_stopped (st v) \<Longrightarrow> is_stopped (st' v)"
  unfolding settles_def by metis

lemma settles_append: "settles st st1 tr \<Longrightarrow> settles st1 st2 tr' \<Longrightarrow> settles st st2 (tr @ tr')"
  unfolding settles_def by (auto split: if_splits; metis)

lemma dependents_first_append:
  assumes "dependents_first t st tr" "settles st st1 tr" "dependents_first t st1 tr'"
  shows "dependents_first t st (tr @ tr')"
  unfolding dependents_first_def
proof (intro allI impI ballI)
  fix us u vs e
  assume eq: "tr @ tr' = us @ u # vs" and e: "e \<in> set (dependents t u)" "is_started (st e)"
  show "e \<in> set us"
  proof (cases "length us < length tr")
    case True
    then obtain vs' where "tr = us @ u # vs'" using eq by (auto simp: append_eq_append_conv2 append_eq_Cons_conv)
    then show ?thesis using assms(1) e by (auto simp: dependents_first_def)
  next
    case False
    then obtain us' where us': "us = tr @ us'" "tr' = us' @ u # vs"
      using eq by (auto simp: append_eq_append_conv2 append_eq_Cons_conv)
    show ?thesis
    proof (cases "e \<in> set tr")
      case False
      then have "st1 e = st e" using assms(2) unfolding settles_def by metis
      then show ?thesis using assms(3) us' e by (auto simp: dependents_first_def)
    qed (simp add: us')
  qed
qed

lemma safe_run_Nil [simp]: "safe_run t st (Returns (st, [], e))"
  by (simp add: safe_run_def settles_def dependents_first_def)

lemma safe_run_then_stop:
  assumes "safe_run t st r" "\<And>st'. safe_run t st' (f st')"
  shows "safe_run t st (then_stop r f)"
proof (cases r)
  case (Returns p)
  obtain st1 tr e where p: "p = (st1, tr, e)" by (cases p)
  show ?thesis
  proof (cases e)
    case None
    then show ?thesis
      using assms(1) assms(2) [of st1]
      by (auto simp: Returns p then_stop_def safe_run_def intro: settles_append dependents_first_append
          split: outcome.splits)
  qed (use assms(1) in \<open>simp add: Returns p then_stop_def\<close>)
qed (simp add: then_stop_def safe_run_def)

lemma safe_run_ignore [simp]: "safe_run t st (ignore_error r) = safe_run t st r"
  by (simp add: safe_run_def ignore_error_def split: outcome.split)

lemma safe_run_deactivate: "units_wf t \<Longrightarrow> tbl_get t u = Some x \<Longrightarrow> safe_run t st (deactivate t os x st)"
proof (cases "is_stopped (st u)")
  case False
  assume wf: "units_wf t" and x: "tbl_get t u = Some x"
  then have u: "unit_id x = u" by (rule units_wf_get)
  have tr: "settles st (st(u := Stopping, u := Stopped StoppedFinal es)) [u]" for es
    using False by (simp add: settles_def)
  have "dependents_first t st [u]" if "unkilled_depending t st (deps x) = []"
    using that by (auto simp: dependents_first_def dependents_def x unkilled_depending_def filter_empty_conv Cons_eq_append_conv)
  then show ?thesis
    using tr by (auto simp: deactivate_def u Let_def state_transition_stopping_def safe_run_def x
        settles_def [of st st] dependents_first_def [of t st "[]"] split: outcome.split option.split)
qed (simp add: deactivate_def units_wf_get)

lemma deactivate_stops: "units_wf t \<Longrightarrow> tbl_get t u = Some x \<Longrightarrow> deactivate t os x st = Returns (st', tr, None) \<Longrightarrow> is_stopped (st' u)"
  using units_wf_get [of t u x]
  by (auto simp: deactivate_def Let_def split: if_splits outcome.splits sum.splits option.splits)

lemma deactivate_unit_eq:
  "units_wf t \<Longrightarrow> tbl_get t u = Some x \<Longrightarrow> deactivate_unit t os u st = deactivate t os x st"
  using deactivate_stops [of t u x os st]
  by (auto simp: deactivate_unit_def then_stop_def split: outcome.split option.split)

lemma safe_run_deactivate_unit: "units_wf t \<Longrightarrow> safe_run t st (deactivate_unit t os u st)"
  using deactivate_unit_eq safe_run_deactivate by (cases "tbl_get t u") (simp_all add: deactivate_unit_def)

lemma safe_run_recursive:
  assumes "units_wf t"
  shows "safe_run t st (deactivate_unit_recursive t os g u st)"
    "safe_run t st (deactivate_units_recursive t os g us st)"
    "safe_run t st (propagate_stop t os g us st)"
  using assms
proof (induction t os g u st and t os g us st and t os g us st
    rule: deactivate_unit_recursive_deactivate_units_recursive_propagate_stop.induct)
  case (1 t os g u st)
  show ?case
    using 1 by (subst deactivate_unit_recursive.simps)
      (auto intro!: safe_run_then_stop safe_run_deactivate_unit split: option.split)
qed (auto intro: safe_run_then_stop)

text \<open>
  C20: Order of a stop.  Whatever the dependency graph, the statuses and the answers of the
  operating system: a recursive stop takes down each unit at most once, changes nothing but the
  units it takes down, all of which end up stopped, and takes no unit down before the running
  units that require it, are part of it or are bound to it.
\<close>

theorem stop_is_ordered:
  assumes "units_wf t"
  shows "case deactivate_unit_recursive t os {} u st of
           Panics \<Rightarrow> True
         | Returns (st', tr, _) \<Rightarrow> settles st st' tr \<and> dependents_first t st tr"
  using safe_run_recursive(1) [OF assms] by (simp add: safe_run_def)

section \<open>A stop reaches the dependents\<close>

definition dependent :: "unit_table \<Rightarrow> unit_id \<Rightarrow> unit_id \<Rightarrow> bool" where
  "dependent t u v \<longleftrightarrow> (\<exists>x. tbl_get t u = Some x \<and> v \<in> set (kill_before_this (deps x)))"

definition reach_avoiding :: "unit_table \<Rightarrow> unit_id set \<Rightarrow> unit_id \<Rightarrow> unit_id \<Rightarrow> bool" where
  "reach_avoiding t g = (\<lambda>u v. dependent t u v \<and> v \<notin> g)\<^sup>*\<^sup>*"

lemma reach_avoiding_first:
  "reach_avoiding t g u v \<Longrightarrow> v = u \<or> (\<exists>d. dependent t u d \<and> d \<notin> insert u g \<and> reach_avoiding t (insert u g) d v)"
  unfolding reach_avoiding_def
proof (induction rule: rtranclp_induct)
  case (step v w)
  then show ?case by (cases "w = u") (auto intro: rtranclp.rtrancl_into_rtrancl)
qed simp

text \<open>What a run that ends well has stopped.\<close>

definition stopped_after :: "stop_run \<Rightarrow> unit_id set \<Rightarrow> bool" where
  "stopped_after r S \<longleftrightarrow>
     (case r of Returns (st', _, None) \<Rightarrow> (\<forall>v\<in>S. is_stopped (st' v)) | _ \<Rightarrow> True)"

lemma stopped_after_both:
  assumes "stopped_after r S" "\<And>st'. stopped_after (f st') T" "\<And>st'. safe_run t st' (f st')"
  shows "stopped_after (then_stop r f) (S \<union> T)"
proof (cases "\<exists>st1 tr. r = Returns (st1, tr, None)")
  case True
  then obtain st1 tr where r: "r = Returns (st1, tr, None)" by blast
  show ?thesis
    using assms(1) assms(2,3) [of st1] unfolding r
    by (auto simp: stopped_after_def then_stop_def safe_run_def intro: settles_stopped split: outcome.splits option.splits)
next
  case False
  then show ?thesis by (cases r) (auto simp: stopped_after_def then_stop_def split: option.splits)
qed

lemma stopped_after_subset: "stopped_after r S \<Longrightarrow> T \<subseteq> S \<Longrightarrow> stopped_after r T"
  by (auto simp: stopped_after_def split: outcome.splits option.splits)

lemma stopped_after_recursive:
  assumes "units_wf t"
  shows "u \<notin> g \<Longrightarrow> stopped_after (deactivate_unit_recursive t os g u st) {v. reach_avoiding t g u v}"
    "stopped_after (deactivate_units_recursive t os g us st) {v. \<exists>u\<in>set us - g. reach_avoiding t g u v}"
    "True"
  using assms
proof (induction t os g u st and t os g us st and t os g us st
    rule: deactivate_unit_recursive_deactivate_units_recursive_propagate_stop.induct)
  case (1 t os g u st)
  show ?case
  proof (cases "tbl_get t u")
    case None
    then show ?thesis using 1 by (subst deactivate_unit_recursive.simps) (simp add: stopped_after_def)
  next
    case (Some x)
    let ?g = "insert u g" and ?d = "deps x"
    let ?S = "\<lambda>us. {v. \<exists>w\<in>set us - ?g. reach_avoiding t ?g w v}"
    note wf = \<open>units_wf t\<close>
    note safe = safe_run_recursive [OF wf] safe_run_deactivate_unit [OF wf]
    have "stopped_after (deactivate_unit t os u st) {u}" for st
      using deactivate_unit_eq [OF wf Some] deactivate_stops [OF wf Some] by (auto simp: stopped_after_def split: outcome.split option.split)
    moreover have "stopped_after (deactivate_units_recursive t os ?g (required_by ?d) st) (?S (required_by ?d))"
      "stopped_after (deactivate_units_recursive t os ?g (part_of_by ?d) st') (?S (part_of_by ?d))"
      "stopped_after (deactivate_units_recursive t os ?g (bound_by ?d) st') (?S (bound_by ?d))"
      "stopped_after (propagate_stop t os ?g (propagates_stop_to ?d) st') {}" for st'
      using "1.IH" "1.prems" Some by (simp_all add: stopped_after_def split: outcome.split option.split)
    ultimately have "stopped_after (deactivate_unit_recursive t os g u st)
        (?S (required_by ?d) \<union> (?S (part_of_by ?d) \<union> (?S (bound_by ?d) \<union> ({u} \<union> {}))))"
      unfolding deactivate_unit_recursive.simps [of t os g u st] Some option.case if_not_P [OF \<open>u \<notin> g\<close>]
      by (intro stopped_after_both [where t = t] safe_run_then_stop safe)
    moreover have "{v. reach_avoiding t g u v} \<subseteq>
        ?S (required_by ?d) \<union> (?S (part_of_by ?d) \<union> (?S (bound_by ?d) \<union> ({u} \<union> {})))"
      using reach_avoiding_first by (fastforce simp: dependent_def Some kill_before_this_def)
    ultimately show ?thesis by (rule stopped_after_subset)
  qed
next
  case (3 t os g u us st)
  have "{v. \<exists>w\<in>set (u # us) - g. reach_avoiding t g w v}
      = (if u \<in> g then {} else {v. reach_avoiding t g u v}) \<union> {v. \<exists>w\<in>set us - g. reach_avoiding t g w v}" by auto
  moreover have "stopped_after (deactivate_unit_recursive t os g u st) (if u \<in> g then {} else {v. reach_avoiding t g u v})"
    using 3 by (simp add: stopped_after_def split: outcome.split option.split)
  ultimately show ?case
    using 3 safe_run_recursive(2) [OF \<open>units_wf t\<close>] by (simp add: stopped_after_both [where t = t])
qed (auto simp: stopped_after_def)

text \<open>
  A stop reaches the dependents.  When a recursive stop reports success, the unit is stopped
  and so is every unit that depends on it, directly or through others, by requiring it, being
  part of it or being bound to it.
\<close>

theorem stop_reaches_dependents:
  assumes "units_wf t" "deactivate_unit_recursive t os {} u st = Returns (st', tr, None)" "(dependent t)\<^sup>*\<^sup>* u v"
  shows "is_stopped (st' v)"
  using stopped_after_recursive(1) [OF assms(1), of u "{}" os st] assms(2,3)
  by (simp add: stopped_after_def reach_avoiding_def)

section \<open>When a stop succeeds\<close>

text \<open>Dependents are loaded, and no unit depends on itself, even through others.\<close>

definition dependents_ok :: "unit_table \<Rightarrow> bool" where
  "dependents_ok t \<longleftrightarrow>
     units_wf t \<and> (\<forall>u v. dependent t u v \<longrightarrow> tbl_get t v \<noteq> None) \<and> (\<forall>u. \<not> (dependent t)\<^sup>+\<^sup>+ u u)"

lemma dependents_ok_self: "dependents_ok t \<Longrightarrow> tbl_get t u = Some x \<Longrightarrow> u \<notin> set (kill_before_this (deps x))"
  using tranclp.r_into_trancl [of "dependent t" u u] unfolding dependents_ok_def by (auto simp: dependent_def)

definition done_run :: "stop_run \<Rightarrow> unit_id set \<Rightarrow> bool" where
  "done_run r S \<longleftrightarrow> (\<exists>st' tr. r = Returns (st', tr, None) \<and> (\<forall>v\<in>S. is_stopped (st' v)))"

lemma done_run_then:
  assumes "done_run r S" "\<And>st'. (\<forall>v\<in>S. is_stopped (st' v)) \<Longrightarrow> done_run (f st') T"
  shows "done_run (then_stop r f) T"
proof -
  obtain st1 tr where r: "r = Returns (st1, tr, None)" "\<forall>v\<in>S. is_stopped (st1 v)" using assms(1) by (auto simp: done_run_def)
  then show ?thesis using assms(2) [OF r(2)] by (auto simp: done_run_def then_stop_def)
qed

text \<open>What was stopped before a run is stopped after it.\<close>

lemma done_run_keep:
  "done_run r S \<Longrightarrow> safe_run t st r \<Longrightarrow> \<forall>v\<in>T. is_stopped (st v) \<Longrightarrow> done_run r (S \<union> T)"
  using settles_stopped unfolding done_run_def safe_run_def by fastforce

lemma done_run_empty: "done_run r {} \<longleftrightarrow> (\<exists>st' tr. r = Returns (st', tr, None))"
  by (simp add: done_run_def)

lemma then_stop_panics: "r \<noteq> Panics \<Longrightarrow> (\<And>st. f st \<noteq> Panics) \<Longrightarrow> then_stop r f \<noteq> Panics"
  by (auto simp: then_stop_def split: outcome.split option.split)

lemma acquire_locks_self: "v \<notin> set us \<Longrightarrow> acquire_locks [v] us t \<noteq> Panics"
  by (auto simp: acquire_locks_def Let_def list_ex_iff set_lock_ids)

lemma deactivate_no_panic:
  assumes "dependents_ok t" "tbl_get t u = Some x"
  shows "deactivate t os x st \<noteq> Panics"
  using acquire_locks_self [OF dependents_ok_self [OF assms], of t] units_wf_get [of t u x] assms
  by (auto simp: deactivate_def state_transition_stopping_def Let_def dependents_ok_def split: outcome.split option.split)

lemma deactivate_unit_no_panic: "dependents_ok t \<Longrightarrow> deactivate_unit t os u st \<noteq> Panics"
  using deactivate_no_panic [of t u] deactivate_unit_eq [of t u]
  by (cases "tbl_get t u") (simp_all add: deactivate_unit_def dependents_ok_def)

lemma recursive_no_panic:
  assumes "dependents_ok t"
  shows "deactivate_unit_recursive t os g u st \<noteq> Panics" "deactivate_units_recursive t os g us st \<noteq> Panics"
    "propagate_stop t os g us st \<noteq> Panics"
  using assms
proof (induction t os g u st and t os g us st and t os g us st
    rule: deactivate_unit_recursive_deactivate_units_recursive_propagate_stop.induct)
  case (1 t os g u st)
  show ?case
  proof (cases "u \<in> g \<or> tbl_get t u = None")
    case True
    then show ?thesis by (subst deactivate_unit_recursive.simps) auto
  next
    case False
    then obtain x where x: "u \<notin> g" "tbl_get t u = Some x" by blast
    have "deactivate_units_recursive t os (insert u g) (required_by (deps x)) st \<noteq> Panics"
      "deactivate_units_recursive t os (insert u g) (part_of_by (deps x)) st' \<noteq> Panics"
      "deactivate_units_recursive t os (insert u g) (bound_by (deps x)) st' \<noteq> Panics"
      "propagate_stop t os (insert u g) (propagates_stop_to (deps x)) st' \<noteq> Panics" for st'
      using "1.IH" "1.prems" x by simp_all
    then show ?thesis
      using deactivate_unit_no_panic [OF "1.prems"]
      unfolding deactivate_unit_recursive.simps [of t os g u st] x(2) option.case if_not_P [OF x(1)]
      by (intro then_stop_panics)
  qed
next
  case (5 t os g u us st)
  then have "ignore_error (deactivate_unit_recursive t os g u st) \<noteq> Panics"
    by (auto simp: ignore_error_def split: outcome.split)
  then show ?case using 5 by (simp add: then_stop_panics)
qed (simp_all add: then_stop_panics)

lemma propagate_done: "dependents_ok t \<Longrightarrow> done_run (propagate_stop t os g us st) {}"
proof (induction us arbitrary: st)
  case (Cons u us)
  obtain st1 tr e where "deactivate_unit_recursive t os g u st = Returns (st1, tr, e)"
    using recursive_no_panic(1) [OF Cons.prems] by (metis outcome.exhaust prod_cases3)
  moreover obtain st2 tr2 where "propagate_stop t os g us st1 = Returns (st2, tr2, None)"
    using Cons.IH [OF Cons.prems, of st1] by (auto simp: done_run_empty)
  ultimately show ?case by (simp add: done_run_empty ignore_error_def then_stop_def)
qed (simp add: done_run_def)

lemma deactivate_done:
  assumes ok: "dependents_ok t" and x: "tbl_get t u = Some x" and os: "os = (\<lambda>_. None)"
    and down: "\<And>v. v \<in> set (kill_before_this (deps x)) \<Longrightarrow> is_stopped (st v)"
  shows "done_run (deactivate_unit t os u st) {u}"
proof -
  have wf: "units_wf t" using ok by (simp add: dependents_ok_def)
  have "unkilled_depending t st (deps x) = []"
    using down by (auto simp: unkilled_depending_def filter_empty_conv set_lock_ids)
      (metis is_started.simps(2-6) is_stopped.elims(2))
  then obtain st' tr where "deactivate t os x st = Returns (st', tr, None)"
    using os deactivate_no_panic [OF ok x, of os st]
    by (auto simp: deactivate_def Let_def state_transition_stopping_def stop_specific_def
        split: outcome.splits option.splits specific.splits if_splits)
  then show ?thesis
    using deactivate_stops [OF wf x] by (simp add: deactivate_unit_eq [OF wf x] done_run_def)
qed

lemma recursive_done:
  assumes "dependents_ok t" "os = (\<lambda>_. None)"
  shows "tbl_get t u \<noteq> None \<Longrightarrow> \<forall>x\<in>g. \<not> (dependent t)\<^sup>*\<^sup>* u x \<Longrightarrow>
      done_run (deactivate_unit_recursive t os g u st) {u}"
    "\<forall>u\<in>set us. tbl_get t u \<noteq> None \<and> (\<forall>x\<in>g. \<not> (dependent t)\<^sup>*\<^sup>* u x) \<Longrightarrow>
      done_run (deactivate_units_recursive t os g us st) (set us)"
    "True"
  using assms
proof (induction t os g u st and t os g us st and t os g us st
    rule: deactivate_unit_recursive_deactivate_units_recursive_propagate_stop.induct)
  case (1 t os g u st)
  note ok = \<open>dependents_ok t\<close>
  have wf: "units_wf t" using ok by (simp add: dependents_ok_def)
  have u: "u \<notin> g" using "1.prems"(2) by blast
  obtain x where x: "tbl_get t u = Some x" using "1.prems"(1) by blast
  let ?g = "insert u g" and ?d = "deps x"
  have below: "tbl_get t v \<noteq> None \<and> (\<forall>y\<in>?g. \<not> (dependent t)\<^sup>*\<^sup>* v y)" if "v \<in> set (kill_before_this ?d)" for v
  proof -
    have d: "dependent t u v" using that x by (simp add: dependent_def)
    then have "\<not> (dependent t)\<^sup>*\<^sup>* v u" using ok by (metis dependents_ok_def rtranclp_into_tranclp2)
    moreover have "\<not> (dependent t)\<^sup>*\<^sup>* v y" if "y \<in> g" for y
      using that "1.prems"(2) d converse_rtranclp_into_rtranclp by metis
    ultimately show ?thesis using ok d by (auto simp: dependents_ok_def)
  qed
  have "done_run (deactivate_units_recursive t os ?g (required_by ?d) st) (set (required_by ?d))"
    "done_run (deactivate_units_recursive t os ?g (part_of_by ?d) st') (set (part_of_by ?d))"
    "done_run (deactivate_units_recursive t os ?g (bound_by ?d) st') (set (bound_by ?d))" for st'
    using "1.IH"(1) [OF u x] "1.IH"(2,3) [OF u x] below "1.prems"(3,4) by (simp_all add: kill_before_this_def)
  note runs = this
  have down: "done_run (deactivate_unit t os u st') {u}"
    if "\<forall>v\<in>set (required_by ?d). is_stopped (st' v)" "\<forall>v\<in>set (part_of_by ?d). is_stopped (st' v)"
      "\<forall>v\<in>set (bound_by ?d). is_stopped (st' v)" for st'
    using that by (intro deactivate_done [OF ok x "1.prems"(4)]) (auto simp: kill_before_this_def)
  note safe = safe_run_recursive(2) [OF wf] safe_run_recursive(3) [OF wf]
  have last: "done_run (then_stop (deactivate_unit t os u st') (\<lambda>st. propagate_stop t os ?g (propagates_stop_to ?d) st)) {u}"
    if "\<forall>v\<in>set (bound_by ?d) \<union> (set (part_of_by ?d) \<union> set (required_by ?d)). is_stopped (st' v)" for st'
    using done_run_keep [OF propagate_done [OF ok] safe(2), of "{u}"] down [of st'] that
    by (intro done_run_then [where S = "{u}"]) auto
  show ?case
    unfolding deactivate_unit_recursive.simps [of t os g u st] x option.case if_not_P [OF u]
    by (rule done_run_then [OF runs(1)], rule done_run_then [OF done_run_keep [OF runs(2) safe(1)]], assumption,
        rule done_run_then [OF done_run_keep [OF runs(3) safe(1)]], assumption, rule last)
next
  case (3 t os g u us st)
  have wf: "units_wf t" using 3 by (simp add: dependents_ok_def)
  have "done_run (deactivate_units_recursive t os g us st') (set us \<union> {u})" if "\<forall>v\<in>{u}. is_stopped (st' v)" for st'
    using 3 safe_run_recursive(2) [OF wf] that by (intro done_run_keep) simp_all
  then show ?case using 3 done_run_then [where S = "{u}"] by simp
qed (simp_all add: done_run_def)

text \<open>
  A stop succeeds.  When the dependents of every unit are loaded, no unit depends on itself
  and the operating system reports no failure, the recursive stop of a loaded unit returns, with
  success, and the unit and all its direct and indirect dependents are stopped.
\<close>

theorem stop_succeeds:
  assumes "dependents_ok t" "tbl_get t u \<noteq> None"
  shows "case deactivate_unit_recursive t (\<lambda>_. None) {} u st of
           Panics \<Rightarrow> False
         | Returns (st', tr, e) \<Rightarrow> e = None \<and> {v. (dependent t)\<^sup>*\<^sup>* u v} \<subseteq> {v. is_stopped (st' v)}"
proof -
  have "units_wf t" using assms(1) by (simp add: dependents_ok_def)
  then have "stopped_after (deactivate_unit_recursive t (\<lambda>_. None) {} u st) {v. (dependent t)\<^sup>*\<^sup>* u v}"
    using stopped_after_recursive(1) [of t u "{}"] by (simp add: reach_avoiding_def)
  moreover have "done_run (deactivate_unit_recursive t (\<lambda>_. None) {} u st) {u}"
    using recursive_done(1) [OF assms(1) refl assms(2), of "{}"] by simp
  ultimately show ?thesis by (auto simp: stopped_after_def done_run_def)
qed

section \<open>Examples\<close>

text \<open>Two units require \<open>b\<close>, and one of them is bound to the other.\<close>

definition stop_table :: unit_table where
  "stop_table =
     [(lock_a, plain_unit lock_a (no_dependencies\<lparr>bound_by := [lock_c]\<rparr>)),
      (lock_b, plain_unit lock_b (no_dependencies\<lparr>required_by := [lock_a, lock_c]\<rparr>)),
      (lock_c, plain_unit lock_c no_dependencies)]"

lemma stop_table_get:
  "tbl_get stop_table u =
     (if u = lock_a then Some (plain_unit lock_a (no_dependencies\<lparr>bound_by := [lock_c]\<rparr>))
      else if u = lock_b then Some (plain_unit lock_b (no_dependencies\<lparr>required_by := [lock_a, lock_c]\<rparr>))
      else if u = lock_c then Some (plain_unit lock_c no_dependencies) else None)"
  by (auto simp: stop_table_def tbl_get_def lock_units)

lemma stop_table_dependent:
  "dependent stop_table u v \<longleftrightarrow> u = lock_a \<and> v = lock_c \<or> u = lock_b \<and> (v = lock_a \<or> v = lock_c)"
  by (auto simp: dependent_def stop_table_get kill_before_this_def plain_unit_def no_dependencies_def lock_units)

lemma stop_table_ok: "dependents_ok stop_table"
proof -
  define rank where "rank u = (if u = lock_b then 2 else if u = lock_a then 1 else 0 :: nat)" for u
  have less: "rank v < rank u" if "dependent stop_table u v" for u v
    using that by (auto simp: stop_table_dependent rank_def lock_units)
  have "rank v < rank u" if "(dependent stop_table)\<^sup>+\<^sup>+ u v" for u v
    using that by induction (auto dest: less)
  then have "\<not> (dependent stop_table)\<^sup>+\<^sup>+ u u" for u by blast
  moreover have "units_wf stop_table" by (auto simp: units_wf_def tbl_wf_def stop_table_def lock_units plain_unit_def)
  moreover have "tbl_get stop_table v \<noteq> None" if "dependent stop_table u v" for u v
    using that by (auto simp: stop_table_dependent stop_table_get)
  ultimately show ?thesis by (simp add: dependents_ok_def)
qed

theorem stop_succeeds_witness:
  "case deactivate_unit_recursive stop_table (\<lambda>_. None) {} lock_b (\<lambda>_. Started Running) of
     Panics \<Rightarrow> False
   | Returns (st', tr, e) \<Rightarrow>
       e = None \<and> {v. (dependent stop_table)\<^sup>*\<^sup>* lock_b v} \<subseteq> {v. is_stopped (st' v)}"
  by (rule stop_succeeds) (simp_all add: stop_table_ok stop_table_get)

theorem stop_is_ordered_witness:
  "case deactivate_unit_recursive stop_table (\<lambda>_. None) {} lock_b (\<lambda>_. Started Running) of
     Panics \<Rightarrow> True
   | Returns (st', tr, _) \<Rightarrow>
       settles (\<lambda>_. Started Running) st' tr \<and> dependents_first stop_table (\<lambda>_. Started Running) tr"
  by (rule stop_is_ordered) (use stop_table_ok in \<open>simp add: dependents_ok_def\<close>)

text \<open>The run itself: \<open>c\<close> goes down before \<open>a\<close>, and \<open>a\<close> before \<open>b\<close>.\<close>

lemmas run_defs = deactivate_unit_recursive.simps then_stop_def ignore_error_def deactivate_unit_def deactivate_def
  state_transition_stopping_def acquire_locks_def lock_ids_def dedup_ids_def unkilled_depending_def
  stop_specific_def kill_before_this_def plain_unit_def no_dependencies_def Let_def

lemma stop_table_run:
  "deactivate_unit_recursive stop_table (\<lambda>_. None) {} lock_b (\<lambda>_. Started Running) =
     Returns ((\<lambda>_. Started Running)(lock_c := Stopped StoppedFinal [], lock_a := Stopped StoppedFinal [],
                lock_b := Stopped StoppedFinal []), [lock_c, lock_a, lock_b], None)"
proof -
  have ne: "lock_a \<noteq> lock_b" "lock_b \<noteq> lock_c" "lock_a \<noteq> lock_c" "name lock_a \<le> name lock_c"
    "kind lock_a \<noteq> Kind_Slice" "kind lock_b \<noteq> Kind_Slice" "kind lock_c \<noteq> Kind_Slice"
    by (simp_all add: lock_units less_eq_char_def)
  then show ?thesis by (simp add: run_defs stop_table_get ne ne(1-3) [symmetric] fun_upd_twist)
qed

theorem stop_reaches_dependents_witness:
  "is_stopped (((\<lambda>_. Started Running)(lock_c := Stopped StoppedFinal [], lock_a := Stopped StoppedFinal [],
      lock_b := Stopped StoppedFinal [])) lock_c)"
proof (rule stop_reaches_dependents [OF _ stop_table_run])
  show "units_wf stop_table" using stop_table_ok by (simp add: dependents_ok_def)
  show "(dependent stop_table)\<^sup>*\<^sup>* lock_b lock_c" by (rule r_into_rtranclp) (simp add: stop_table_dependent)
qed

text \<open>
  Two units that require each other cannot be stopped: the one reached first waits for the other,
  which the cycle guard has skipped.
\<close>

definition mutual_table :: unit_table where
  "mutual_table =
     [(lock_a, plain_unit lock_a (no_dependencies\<lparr>requires := [lock_b], required_by := [lock_b]\<rparr>)),
      (lock_b, plain_unit lock_b (no_dependencies\<lparr>requires := [lock_a], required_by := [lock_a]\<rparr>))]"

theorem mutual_requires_cannot_stop:
  "deactivate_unit_recursive mutual_table os {} lock_a (\<lambda>_. Started Running) =
     Returns (\<lambda>_. Started Running, [], Some \<lparr>reason = DependencyError [lock_a], error_unit = lock_b\<rparr>)"
proof -
  have ne: "lock_a \<noteq> lock_b" "kind lock_a \<noteq> Kind_Slice" "kind lock_b \<noteq> Kind_Slice" by (simp_all add: lock_units)
  have get: "tbl_get mutual_table lock_a = Some (plain_unit lock_a (no_dependencies\<lparr>requires := [lock_b], required_by := [lock_b]\<rparr>))"
    "tbl_get mutual_table lock_b = Some (plain_unit lock_b (no_dependencies\<lparr>requires := [lock_a], required_by := [lock_a]\<rparr>))"
    using ne by (simp_all add: mutual_table_def tbl_get_def)
  show ?thesis using ne by (simp add: run_defs get ne ne(1) [symmetric])
qed

end
