(* ===== verification/Startup.thy ===== *)
theory Startup
  imports Boot DepResolve Lifecycle
begin

text \<open>
  The way from the parsed units to the first start: the tail of the loader
  (\<open>units/loading/mod.rs\<close>), cycle breaking at the start of the service manager
  (\<open>entrypoints/service_manager.rs\<close>), and the step from the dispatcher to the activation of a unit.

  Lemmas: how each stage keeps the table well formed and the two ends of the ordering in
  agreement, and what the dispatcher's
  test of a unit means for its state transition.
\<close>

section \<open>The tail of the loader\<close>

definition is_template_unit :: "string \<Rightarrow> bool" where
  "is_template_unit s =
     (case find_char CHR ''@'' s of
        None \<Rightarrow> False
      | Some at_pos \<Rightarrow>
          (case rfind_char CHR ''.'' s of
             None \<Rightarrow> False
           | Some dot_pos \<Rightarrow> dot_pos > at_pos \<and> take (dot_pos - (at_pos + 1)) (drop (at_pos + 1) s) = []))"

definition drop_templates :: "unit_table \<Rightarrow> unit_table" where
  "drop_templates t =
     fold tbl_remove (filter (\<lambda>i. is_template_unit (name i) \<or> CHR ''%'' \<in> set (name i)) (tbl_keys t)) t"

text \<open>A boot target that cannot be resolved falls back to \<open>emergency.target\<close>, then to no pruning.\<close>

definition prune_or_fall_back :: "string \<Rightarrow> unit_table \<Rightarrow> unit_table" where
  "prune_or_fall_back target t =
     (case prune_units target t of
        Inr t' \<Rightarrow> t'
      | Inl _ \<Rightarrow> (case prune_units ''emergency.target'' t of Inr t' \<Rightarrow> t' | Inl _ \<Rightarrow> t))"

definition finish_loading :: "bool \<Rightarrow> string \<Rightarrow> unit_table \<Rightarrow> unit_table outcome" where
  "finish_loading prune target t =
     (case fill_dependencies (drop_templates t) of
        Panics \<Rightarrow> Panics
      | Returns t' \<Rightarrow> Returns (if prune then prune_or_fall_back target t' else t'))"

text \<open>The service manager breaks the cycles of what was loaded.\<close>

definition prepare_boot :: "bool \<Rightarrow> string \<Rightarrow> unit_table \<Rightarrow> (unit_table \<times> unit_id list list) outcome option" where
  "prepare_boot prune target t =
     (case finish_loading prune target t of
        Panics \<Rightarrow> Some Panics
      | Returns t' \<Rightarrow> map_option Returns (break_dependency_cycles t'))"

section \<open>The ordering of what was loaded\<close>

lemma fold_remove_wf: "units_wf t \<Longrightarrow> units_wf (fold tbl_remove is t)"
  by (induction "is" arbitrary: t) (auto simp: units_wf_remove)

lemma keys_fold_remove: "set (tbl_keys (fold tbl_remove is t)) = set (tbl_keys t) - set is"
  by (auto simp: tbl_keys_get tbl_get_fold_remove split: if_splits)

lemma slice_edges_remove: "slice_edges (fold tbl_remove is t) \<subseteq> slice_edges t"
  by (auto simp: slice_edges_def tbl_get_fold_remove keys_fold_remove split: if_splits)

lemma mirrored_prune:
  assumes "prune_units target t = Inr t'" "ordering_mirrored t"
  shows "ordering_mirrored t'"
proof -
  obtain s where s: "find_start_unit target t = Some s"
    using assms(1) by (cases "find_start_unit target t") (simp_all add: prune_units_def)
  let ?keep = "ids_to_keep t s"
  obtain t'' where t'': "prune_units target t = Inr t''" "set (tbl_keys t'') = set (tbl_keys t) \<inter> set ?keep"
      "\<forall>k. tbl_get t'' k = (if k \<in> set ?keep then map_option (prune_unit ?keep) (tbl_get t k) else None)"
    using prune_units_get [OF s] by blast
  then have eq: "t'' = t'" using assms(1) by simp
  have "before_edge t' u v \<longleftrightarrow> before_edge t u v \<and> u \<in> set ?keep \<and> v \<in> set ?keep" for u v
    using t''(2,3) unfolding eq
    by (auto simp: before_edge_def prune_unit_lists kept_or_device_def split: option.split)
  moreover have "after_edge t' u v \<longleftrightarrow> after_edge t u v \<and> u \<in> set ?keep \<and> v \<in> set ?keep" for u v
    using t''(2,3) unfolding eq
    by (auto simp: after_edge_def prune_unit_lists kept_or_device_def split: option.split)
  ultimately show ?thesis using assms(2) by (auto simp: ordering_mirrored_def)
qed

lemma mirrored_prune_or_fall_back: "ordering_mirrored t \<Longrightarrow> ordering_mirrored (prune_or_fall_back target t)"
  using mirrored_prune by (auto simp: prune_or_fall_back_def split: sum.split)

lemma mirrored_fill:
  assumes "units_wf t" "list_all (\<lambda>i. kind i \<noteq> Kind_Mount) (tbl_keys t)" "slice_edges t = {}"
  shows "\<exists>t'. fill_dependencies t = Returns t' \<and> ordering_mirrored t'"
proof -
  obtain t' where t': "fill_dependencies t = Returns t'" "same_units t t'"
      "mirrored_but t' mount_edges (mount_edges \<union> slice_edges t)"
    using fill_dependencies_mirrors [OF assms(1)] by blast
  have keys: "set (tbl_keys t') = set (tbl_keys t)" using t'(2) by (simp add: same_units_def)
  have no: "(u, v) \<notin> mount_edges" if "before_edge t' u v \<or> after_edge t' u v" for u v
  proof -
    have "u \<in> set (tbl_keys t)" using that unfolding keys [symmetric]
      by (auto simp: before_edge_def after_edge_def tbl_keys_get split: option.splits)
    then show ?thesis using assms(2) by (auto simp: mount_edges_def list_all_iff)
  qed
  have "before_edge t' u v \<longleftrightarrow> after_edge t' v u" for u v
    using mirrored_edges [OF t'(3)] no assms(3) by blast
  then show ?thesis using t'(1) by (auto simp: ordering_mirrored_def)
qed

lemma mirrored_acyclic:
  assumes "ordering_mirrored t" "acyclic {(u, v). before_edge t u v}"
  shows "acyclic {(u, v). after_edge t u v}"
proof -
  have "{(u, v). after_edge t u v} = {(u, v). before_edge t u v}\<inverse>" using assms(1) by (auto simp: ordering_mirrored_def)
  then show ?thesis using assms(2) by simp
qed

section \<open>Well-formed tables\<close>

lemma units_wf_map_units: "(\<And>x. unit_id (f x) = unit_id x) \<Longrightarrow> units_wf (map_units f t) = units_wf t"
proof -
  assume id: "\<And>x. unit_id (f x) = unit_id x"
  have "(\<forall>k x. map_option f (tbl_get t k) = Some x \<longrightarrow> unit_id x = k) \<longleftrightarrow>
      (\<forall>k x. tbl_get t k = Some x \<longrightarrow> unit_id x = k)"
    using id by (auto simp: map_option_case split: option.split)
  then show ?thesis by (simp add: units_wf_iff)
qed

lemma wf_drop_templates: "units_wf t \<Longrightarrow> units_wf (drop_templates t)"
  by (simp add: drop_templates_def fold_remove_wf)

lemma keys_drop_templates:
  "set (tbl_keys (drop_templates t)) = {u \<in> set (tbl_keys t). \<not> is_template_unit (name u) \<and> CHR ''%'' \<notin> set (name u)}"
  by (auto simp: drop_templates_def keys_fold_remove)

lemma prune_units_wf:
  assumes "prune_units target t = Inr t'" "units_wf t"
  shows "units_wf t' \<and> set (tbl_keys t') \<subseteq> set (tbl_keys t)"
proof -
  have "unit_id (prune_unit keep x) = unit_id x" for keep x
    by (simp add: prune_unit_def dedup_dependencies_def upd_deps_def)
  then have "units_wf (map_units (prune_unit keep) (fold tbl_remove is t))" for keep "is"
    using fold_remove_wf [OF assms(2)] by (simp add: units_wf_map_units)
  then show ?thesis using assms(1) by (auto simp: prune_units_def Let_def keys_fold_remove split: option.splits)
qed

lemma prune_or_fall_back_wf:
  "units_wf t \<Longrightarrow> units_wf (prune_or_fall_back target t) \<and> set (tbl_keys (prune_or_fall_back target t)) \<subseteq> set (tbl_keys t)"
  using prune_units_wf by (simp add: prune_or_fall_back_def split: sum.split)

lemma broken_ok_wf:
  assumes "broken_ok t t' bs"
  shows "units_wf t' = units_wf t" "tbl_keys t' = tbl_keys t"
proof -
  have eq: "forget_order t' = forget_order t" using assms by (simp add: broken_ok_def)
  have "unit_id (upd_deps f x) = unit_id x" for f x by (simp add: upd_deps_def)
  then have "units_wf (forget_order u) = units_wf u" for u
    unfolding forget_order_def by (intro units_wf_map_units)
  then show "units_wf t' = units_wf t" using eq by metis
  show "tbl_keys t' = tbl_keys t"
    using arg_cong [OF eq, of tbl_keys] by (simp add: forget_order_def)
qed

section \<open>From the dispatcher to the unit\<close>

definition statuses_of :: "unit_table \<Rightarrow> statuses" where
  "statuses_of t u = (case tbl_get t u of Some x \<Rightarrow> status x | None \<Rightarrow> NeverStarted)"

lemma dep_ready_transition:
  assumes "dep_ready t s d e" "tbl_get t e = Some y"
  shows "transition_ready d e (status y)"
  using assms by (auto simp: dep_ready_def transition_ready_def Let_def split: if_splits unit_status.splits)

lemma ready_unit_may_start:
  assumes "tbl_get t u = Some x" "unit_id x = u" "u \<notin> set (after (deps x))" "unstarted_deps t u activation_set = []"
  shows "state_transition_starting t (statuses_of t) x = Returns (Inr ((statuses_of t)(u := Starting)))"
proof -
  have "transition_ready (deps x) e (status y)" if "e \<in> set (after (deps x))" "tbl_get t e = Some y" for e y
    using unstarted_deps_empty [OF assms(4,1) that(1)] that(2) by (rule dep_ready_transition)
  then have "unready_deps t (statuses_of t) (deps x) = []"
    by (auto simp: unready_deps_def filter_empty_conv set_lock_ids statuses_of_def)
  moreover have "acquire_locks [u] (after (deps x)) t \<noteq> Panics" using assms(3) by (rule acquire_locks_self)
  ultimately show ?thesis using assms(1,2) by (auto simp: state_transition_starting_def split: outcome.split)
qed

section \<open>Examples\<close>

definition ordered_pair :: unit_table where
  "ordered_pair =
     (let a = UnitId Kind_Service ''a.service''; b = UnitId Kind_Target ''b.target'' in
      [(a, plain_unit a (no_dependencies\<lparr>before := [b]\<rparr>)), (b, plain_unit b (no_dependencies\<lparr>before := [a]\<rparr>))])"

text \<open>A slice that is ordered after a service that runs in it, as parsed and after loading.\<close>

definition slice_loop :: unit_table where
  "slice_loop =
     (let a = UnitId Kind_Service ''a.service''; s = UnitId Kind_Slice ''s.slice'';
          conf = \<lparr>srvc_sockets = [], srvc_slice = Some ''s.slice'', srvc_dbus_name = None\<rparr>
      in [(a, (plain_unit a no_dependencies)\<lparr>specific := Service conf\<rparr>),
          (s, plain_unit s (no_dependencies\<lparr>after := [a]\<rparr>))])"

definition slice_loop_filled :: unit_table where
  "slice_loop_filled =
     (let a = UnitId Kind_Service ''a.service''; s = UnitId Kind_Slice ''s.slice'';
          conf = \<lparr>srvc_sockets = [], srvc_slice = Some ''s.slice'', srvc_dbus_name = None\<rparr>
      in [(a, (plain_unit a (no_dependencies\<lparr>requires := [s], before := [s], after := [s]\<rparr>))\<lparr>specific := Service conf\<rparr>),
          (s, plain_unit s (no_dependencies\<lparr>after := [a]\<rparr>))])"

lemma slice_loop_loads: "finish_loading False ''a.service'' slice_loop = Returns slice_loop_filled"
  by code_simp

lemma slice_loop_before: "before_rel slice_loop_filled = {(UnitId Kind_Service ''a.service'', UnitId Kind_Slice ''s.slice'')}"
  by (auto simp: slice_loop_filled_def before_edge_def tbl_get_def tbl_keys_def plain_unit_def no_dependencies_def Let_def
      split: option.splits if_splits)

end
