(* ===== verification/CalTime.thy ===== *)
theory CalTime
  imports Prelude "HOL-Library.Signed_Division" "HOL-Library.Product_Lexorder"
begin

text \<open>
  Civil dates and Unix time: the date arithmetic of \<open>calendar_spec.rs\<close>
  (\<open>days_from_civil\<close>, \<open>civil_from_days\<close>, \<open>unix_to_datetime\<close>, \<open>datetime_to_unix\<close>,
  \<open>weekday\<close>, \<open>days_in_month\<close>, \<open>add_second\<close>).  The integers are HOL's, with the casts
  written out: \<open>as_u64\<close>, \<open>as_i64\<close> and \<open>as_i32\<close> wrap.

  Lemmas: days and civil dates are in bijection, Unix seconds and valid date-times too, both
  orders agree, and weekdays advance with the days.
\<close>

section \<open>Casts\<close>

definition as_u64 :: "int \<Rightarrow> int" where "as_u64 x = x mod 2 ^ 64"

definition as_i64 :: "int \<Rightarrow> int" where "as_i64 x = (x + 2 ^ 63) mod 2 ^ 64 - 2 ^ 63"

definition as_i32 :: "int \<Rightarrow> int" where "as_i32 x = (x + 2 ^ 31) mod 2 ^ 32 - 2 ^ 31"

abbreviation is_i32 :: "int \<Rightarrow> bool" where "is_i32 x \<equiv> - (2 ^ 31) \<le> x \<and> x < 2 ^ 31"

lemma as_u64_id [simp]: "0 \<le> x \<Longrightarrow> x < 2 ^ 64 \<Longrightarrow> as_u64 x = x"
  by (simp add: as_u64_def)

lemma as_i64_id [simp]: "- (2 ^ 63) \<le> x \<Longrightarrow> x < 2 ^ 63 \<Longrightarrow> as_i64 x = x"
  by (simp add: as_i64_def)

lemma as_i32_id [simp]: "is_i32 x \<Longrightarrow> as_i32 x = x"
  by (simp add: as_i32_def)

section \<open>Operations\<close>

record date_time =
  dt_year :: int
  dt_month :: nat
  dt_day :: nat
  dt_hour :: nat
  dt_minute :: nat
  dt_second :: nat

text \<open>The derived order compares the fields in turn.\<close>

definition dt_key :: "'a date_time_scheme \<Rightarrow> int \<times> nat \<times> nat \<times> nat \<times> nat \<times> nat \<times> 'a" where
  "dt_key x = (dt_year x, dt_month x, dt_day x, dt_hour x, dt_minute x, dt_second x, date_time.more x)"

lemma dt_key_eq: "dt_key x = dt_key y \<longleftrightarrow> x = y"
  by (cases x; cases y) (simp add: dt_key_def)

instantiation date_time_ext :: (linorder) linorder
begin

definition less_eq_date_time_ext :: "'a date_time_scheme \<Rightarrow> 'a date_time_scheme \<Rightarrow> bool" where
  "less_eq_date_time_ext x y \<longleftrightarrow> dt_key x \<le> dt_key y"

definition less_date_time_ext :: "'a date_time_scheme \<Rightarrow> 'a date_time_scheme \<Rightarrow> bool" where
  "less_date_time_ext x y \<longleftrightarrow> dt_key x < dt_key y"

instance
  by standard
     (auto simp: less_eq_date_time_ext_def less_date_time_ext_def dt_key_eq less_le_not_le [symmetric]
           dest: antisym iff: dt_key_eq)

end

definition days_from_civil :: "int \<Rightarrow> nat \<Rightarrow> nat \<Rightarrow> int" where
  "days_from_civil y m d =
     (let m = int m; d = int d;
          y = (if m \<le> 2 then y - 1 else y);
          era = (if y \<ge> 0 then y else y - 399) sdiv 400;
          yoe = as_u64 (y - era * 400);
          m_adj = (if m > 2 then m - 3 else m + 9);
          doy = as_u64 ((153 * m_adj + 2) div 5 + d - 1);
          doe = as_u64 (yoe * 365 + yoe div 4 - yoe div 100 + doy)
      in era * 146097 + as_i64 doe - 719468)"

definition civil_from_days :: "int \<Rightarrow> int \<times> nat \<times> nat" where
  "civil_from_days z =
     (let z = z + 719468;
          era = (if z \<ge> 0 then z else z - 146096) sdiv 146097;
          doe = as_u64 (z - era * 146097);
          yoe = (doe - doe div 1460 + doe div 36524 - doe div 146096) div 365;
          y = yoe + era * 400;
          doy = doe - (365 * yoe + yoe div 4 - yoe div 100);
          mp = (5 * doy + 2) div 153;
          d = doy - (153 * mp + 2) div 5 + 1;
          m = (if mp < 10 then mp + 3 else mp - 9);
          y = (if m \<le> 2 then y + 1 else y)
      in (as_i32 y, nat m, nat d))"

definition unix_to_datetime :: "int \<Rightarrow> date_time" where
  "unix_to_datetime secs =
     (let days = secs div 86400;
          day_secs = nat (secs mod 86400);
          (y, m, d) = civil_from_days days
      in \<lparr>dt_year = y, dt_month = m, dt_day = d, dt_hour = day_secs div 3600,
          dt_minute = (day_secs mod 3600) div 60, dt_second = day_secs mod 60\<rparr>)"

definition datetime_to_unix :: "date_time \<Rightarrow> int" where
  "datetime_to_unix dt =
     days_from_civil (dt_year dt) (dt_month dt) (dt_day dt) * 86400 + int (dt_hour dt) * 3600
       + int (dt_minute dt) * 60 + int (dt_second dt)"

definition weekday :: "int \<Rightarrow> nat \<Rightarrow> nat \<Rightarrow> nat" where
  "weekday y m d = nat ((days_from_civil y m d mod 7 + 3) mod 7)"

definition weekday_from_datetime :: "date_time \<Rightarrow> nat" where
  "weekday_from_datetime dt = weekday (dt_year dt) (dt_month dt) (dt_day dt)"

definition is_leap_year :: "int \<Rightarrow> bool" where
  "is_leap_year y \<longleftrightarrow> (y smod 4 = 0 \<and> y smod 100 \<noteq> 0) \<or> y smod 400 = 0"

definition days_in_month :: "int \<Rightarrow> nat \<Rightarrow> nat" where
  "days_in_month y m =
     (if m \<in> {1, 3, 5, 7, 8, 10, 12} then 31
      else if m \<in> {4, 6, 9, 11} then 30
      else if m = 2 then (if is_leap_year y then 29 else 28)
      else 30)"

definition add_second :: "date_time \<Rightarrow> date_time" where
  "add_second dt = unix_to_datetime (datetime_to_unix dt + 1)"

section \<open>Floors\<close>

lemma sdiv_pos: "0 < b \<Longrightarrow> x sdiv b = (if 0 \<le> x then x div b else - (- x div b))" for x b :: int
  by (cases "x = 0") (auto simp: signed_divide_int_def sgn_if)

lemma sdiv_floor:
  assumes "0 < b"
  shows "(if x \<ge> 0 then x else x - (b - 1)) sdiv b = x div (b :: int)"
proof (cases "x \<ge> 0")
  case True
  then show ?thesis using assms by (simp add: sdiv_pos)
next
  case False
  then have "(x - (b - 1)) sdiv b = - ((b - 1 - x) div b)"
    using assms by (simp add: sdiv_pos)
  also have "\<dots> = x div b"
  proof -
    define q r where "q = x div b" and "r = x mod b"
    then have x: "x = b * q + r" "0 \<le> r" "r < b" using assms by (simp_all add: pos_mod_sign pos_mod_bound)
    have "b - 1 - x = (b - 1 - r) + b * (- q)" using x(1) by (simp add: algebra_simps)
    moreover have "(b - 1 - r + b * (- q)) div b = - q + (b - 1 - r) div b"
      using assms by (intro div_mult_self2) simp
    moreover have "(b - 1 - r) div b = 0" using x by simp
    ultimately have "(b - 1 - x) div b = - q" by (simp only: add_0_right)
    then show ?thesis using q_def by simp
  qed
  finally show ?thesis using False by simp
qed

lemma era_floor:
  "(if y \<ge> 0 then y else y - 399) sdiv 400 = y div (400 :: int)"
  "(if z \<ge> 0 then z else z - 146096) sdiv 146097 = z div (146097 :: int)"
  using sdiv_floor [of 400 y] sdiv_floor [of 146097 z] by (simp_all only: arith_simps arith_special simp_thms rel_simps)

lemma smod_zero: "0 < b \<Longrightarrow> x smod b = 0 \<longleftrightarrow> b dvd (x :: int)"
proof -
  assume b: "0 < b"
  have "x smod b = (if 0 \<le> x then x mod b else - (- x mod b))"
    using b by (cases "x = 0") (auto simp: signed_modulo_int_def sgn_if)
  then show ?thesis by (simp add: dvd_eq_mod_eq_0) (metis dvd_eq_mod_eq_0 dvd_minus_iff)
qed

lemma is_leap_year_iff: "is_leap_year y \<longleftrightarrow> (4 dvd y \<and> \<not> 100 dvd y) \<or> 400 dvd y"
  by (simp add: is_leap_year_def smod_zero)


lemma div_eq_iff_bounds:
  fixes b x q :: int
  assumes "0 < b"
  shows "x div b = q \<longleftrightarrow> b * q \<le> x \<and> x < b * q + b"
proof
  assume "x div b = q"
  then have "x = b * q + x mod b" by (metis mult_div_mod_eq)
  with pos_mod_sign [OF assms, of x] pos_mod_bound [OF assms, of x] show "b * q \<le> x \<and> x < b * q + b"
    by linarith
next
  assume "b * q \<le> x \<and> x < b * q + b"
  then have "(x - b * q) div b = 0" by simp
  moreover have "(x + b * (- q)) div b = - q + x div b" using assms by (intro div_mult_self2) simp
  ultimately show "x div b = q" by simp
qed

section \<open>Years of an era\<close>

text \<open>
  A day of the 400-year era, split into centuries, four-year groups, years and days.  Years
  begin in March, so the leap day is the last day of its year.
\<close>

definition era_parts :: "int \<Rightarrow> int \<Rightarrow> int \<Rightarrow> int \<Rightarrow> bool" where
  "era_parts c q r doy \<longleftrightarrow>
     0 \<le> c \<and> c \<le> 3 \<and> 0 \<le> q \<and> q \<le> 24 \<and> 0 \<le> r \<and> r \<le> 3 \<and> 0 \<le> doy \<and> doy \<le> 365
     \<and> (doy < 365 \<or> r = 3 \<and> (q < 24 \<or> c = 3))"

lemma era_parts_exist:
  assumes "0 \<le> doe" "doe \<le> 146096"
  obtains c q r doy where "era_parts c q r doy" "doe = 36524 * c + 1461 * q + 365 * r + doy"
proof -
  define c where "c = min 3 (doe div 36524)"
  define a where "a = doe - 36524 * c"
  define q where "q = a div 1461"
  define b where "b = a - 1461 * q"
  define r where "r = min 3 (b div 365)"
  have c: "0 \<le> c" "c \<le> 3" "0 \<le> a" "a < 36524 \<or> c = 3 \<and> a \<le> 36524"
    using assms by (auto simp: c_def a_def min_def)
  have q: "0 \<le> q" "q \<le> 24" "0 \<le> b" "b \<le> 1460" "q = 24 \<Longrightarrow> b < 1460 \<or> c = 3"
    using c(3,4) by (auto simp: q_def b_def)
  have r: "0 \<le> r" "r \<le> 3" "0 \<le> b - 365 * r" "b - 365 * r < 365 \<or> r = 3 \<and> b = 1460"
    using q(3,4) by (auto simp: r_def min_def)
  show ?thesis
  proof (rule that)
    show "era_parts c q r (b - 365 * r)"
      unfolding era_parts_def using c q r by (cases "q = 24") auto
    show "doe = 36524 * c + 1461 * q + 365 * r + (b - 365 * r)" by (simp add: a_def b_def)
  qed
qed

lemma era_parts_day:
  assumes "era_parts c q r doy" "doe = 36524 * c + 1461 * q + 365 * r + doy"
  shows "(doe - doe div 1460 + doe div 36524 - doe div 146096) div 365 = 100 * c + 4 * q + r"
    and "0 \<le> doe \<and> doe \<le> 146096"
proof -
  have p: "0 \<le> c" "c \<le> 3" "0 \<le> q" "q \<le> 24" "0 \<le> r" "r \<le> 3" "0 \<le> doy" "doy \<le> 365"
      "doy < 365 \<or> r = 3 \<and> (q < 24 \<or> c = 3)"
    using assms(1) by (simp_all add: era_parts_def)
  have b: "0 \<le> 365 * r + doy" "365 * r + doy < 1460 \<or> 365 * r + doy = 1460 \<and> (q < 24 \<or> c = 3)"
    using p(5-9) by linarith+
  have a: "0 \<le> 1461 * q + (365 * r + doy)"
      "1461 * q + (365 * r + doy) < 36524 \<or> 1461 * q + (365 * r + doy) = 36524 \<and> c = 3"
    using b p(3,4) by linarith+
  show bounds: "0 \<le> doe \<and> doe \<le> 146096" using a p(1,2) assms(2) by linarith
  have century: "doe div 36524 - doe div 146096 = c"
  proof (cases "doe = 146096")
    case True
    then have "c = 3" using a p(2) assms(2) by linarith
    then show ?thesis unfolding True by simp
  next
    case False
    then have "doe div 146096 = 0" using bounds by simp
    moreover have "doe div 36524 = c" using a p(2) assms(2) False unfolding div_eq_iff_bounds [OF zero_less_numeral] by linarith
    ultimately show ?thesis by simp
  qed
  define t where "t = 24 * c + q + 365 * r + doy"
  have t: "0 \<le> t" "t < 2920" using p(1-8) by (simp_all add: t_def)
  have t3: "1460 \<le> t" if "doy = 365" using p that by (auto simp: t_def)
  have t4: "t < 1460" if "doy = 0" using p(1-6) that by (simp add: t_def)
  have doe: "doe = 1460 * (25 * c + q) + t" using assms(2) by (simp add: t_def)
  have "doe div 1460 = 25 * c + q + t div 1460" by (simp add: doe)
  moreover have "doe - A + B - C = 365 * (100 * c + 4 * q + r) + (doy - T)"
    if "A = 25 * c + q + T" "B - C = c" for A B C T :: int
  proof -
    have "doe - A + (B - C) = 365 * (100 * c + 4 * q + r) + (doy - T)" unfolding that assms(2) by simp
    then show ?thesis by simp
  qed
  ultimately have "doe - doe div 1460 + doe div 36524 - doe div 146096 =
      365 * (100 * c + 4 * q + r) + (doy - t div 1460)"
    using century by blast
  moreover have "t div 1460 = (if 1460 \<le> t then 1 else 0)" using t(1,2) by (simp add: div_eq_iff_bounds)
  then have "0 \<le> doy - t div 1460 \<and> doy - t div 1460 < 365"
    using t3 t4 p(7,8) by (smt (verit))
  then have "(doy - t div 1460) div 365 = 0" by simp
  moreover have "(365 * (100 * c + 4 * q + r) + X) div 365 = 100 * c + 4 * q + r + X div 365" for X
    by (rule div_mult_self4) simp
  ultimately show "(doe - doe div 1460 + doe div 36524 - doe div 146096) div 365 = 100 * c + 4 * q + r"
    by (simp only: add_0_right)
qed

lemma era_parts_start:
  assumes "era_parts c q r doy"
  shows "365 * (100 * c + 4 * q + r) + (100 * c + 4 * q + r) div 4 - (100 * c + 4 * q + r) div 100 =
           36524 * c + 1461 * q + 365 * r"
proof -
  have "(100 * c + 4 * q + r) div 4 = 25 * c + q" "(100 * c + 4 * q + r) div 100 = c"
    using assms by (auto simp: era_parts_def)
  then show ?thesis by simp
qed


section \<open>Months of a year\<close>

text \<open>Months count from March here, so the days of the months before \<open>mp\<close> do not depend on the year.\<close>

definition month_start :: "int \<Rightarrow> int" where
  "month_start mp = (153 * mp + 2) div 5"

definition month_of_doy :: "int \<Rightarrow> int" where
  "month_of_doy doy = (5 * doy + 2) div 153"

lemma month_cases:
  assumes "0 \<le> mp" "mp \<le> 11"
  obtains "mp = 0" | "mp = 1" | "mp = 2" | "mp = 3" | "mp = 4" | "mp = 5" | "mp = 6" | "mp = 7" | "mp = 8"
    | "mp = 9" | "mp = 10" | "mp = (11 :: int)"
proof -
  obtain n where n: "mp = int n" using assms(1) nonneg_int_cases by blast
  with assms(2) have "n \<in> {..<12}" by simp
  then have "n \<in> set [0..<12]" by (simp only: set_upt atLeast0LessThan)
  with n that show ?thesis by (auto simp: upt_rec)
qed

lemma month_of_doy_iff:
  assumes "0 \<le> doy" "doy \<le> 365" "0 \<le> mp" "mp \<le> 11"
  shows "month_of_doy doy = mp \<longleftrightarrow> month_start mp \<le> doy \<and> (doy < month_start (mp + 1) \<or> mp = 11)"
proof -
  have "month_of_doy doy = mp \<longleftrightarrow> 153 * mp \<le> 5 * doy + 2 \<and> 5 * doy + 2 < 153 * mp + 153"
    by (simp add: month_of_doy_def div_eq_iff_bounds)
  with assms(1,2) show ?thesis
    by (cases rule: month_cases [OF assms(3,4)]) (simp_all add: month_start_def, linarith+)
qed

lemma month_of_doy_range: "0 \<le> doy \<Longrightarrow> doy \<le> 365 \<Longrightarrow> 0 \<le> month_of_doy doy \<and> month_of_doy doy \<le> 11"
  by (auto simp: month_of_doy_def)

abbreviation march_month :: "nat \<Rightarrow> int" where
  "march_month m \<equiv> (if 2 < m then int m - 3 else int m + 9)"

abbreviation march_year :: "int \<Rightarrow> nat \<Rightarrow> int" where
  "march_year y m \<equiv> (if m \<le> 2 then y - 1 else y)"

definition valid_date :: "int \<Rightarrow> nat \<Rightarrow> nat \<Rightarrow> bool" where
  "valid_date y m d \<longleftrightarrow> 1 \<le> m \<and> m \<le> 12 \<and> 1 \<le> d \<and> d \<le> days_in_month y m"

lemma month_list: "1 \<le> m \<Longrightarrow> m \<le> 12 \<Longrightarrow> m \<in> {1, 2, 3, 4, 5, 6, 7, 8, 9, 10, 11, 12 :: nat}"
  by (auto simp: numeral_eq_Suc le_Suc_eq)

lemma days_in_month_starts:
  assumes "1 \<le> m" "m \<le> 12"
  shows "int (days_in_month y m) =
           (if m = 2 then (if is_leap_year y then 29 else 28)
            else month_start (march_month m + 1) - month_start (march_month m))"
  using month_list [OF assms]
  by (elim insertE emptyE) (simp_all add: days_in_month_def month_start_def)

text \<open>The position of a valid date in its March year.\<close>

definition doy_of :: "nat \<Rightarrow> nat \<Rightarrow> int" where
  "doy_of m d = month_start (march_month m) + int d - 1"

lemma doy_of_valid:
  assumes "valid_date y m d"
  shows "0 \<le> doy_of m d" "doy_of m d \<le> 365" "month_of_doy (doy_of m d) = march_month m"
    "doy_of m d < 365 \<or> is_leap_year (march_year y m + 1)"
proof -
  have v: "1 \<le> m" "m \<le> 12" "1 \<le> d" "int d \<le> int (days_in_month y m)" using assms by (simp_all add: valid_date_def)
  have "0 \<le> doy_of m d \<and> doy_of m d \<le> 365 \<and> month_of_doy (doy_of m d) = march_month m
      \<and> (doy_of m d < 365 \<or> is_leap_year (march_year y m + 1))"
    using month_list [OF v(1,2)] v(3,4) unfolding days_in_month_starts [OF v(1,2)]
    by (elim insertE emptyE) (auto simp: doy_of_def month_start_def month_of_doy_def split: if_splits)
  then show "0 \<le> doy_of m d" "doy_of m d \<le> 365" "month_of_doy (doy_of m d) = march_month m"
    "doy_of m d < 365 \<or> is_leap_year (march_year y m + 1)" by blast+
qed


section \<open>Days and civil dates\<close>

text \<open>The day number in terms of the March year and the position in it.\<close>

definition year_start :: "int \<Rightarrow> int" where
  "year_start y = 365 * y + y div 4 - y div 100 + y div 400"

lemma year_start_era: "year_start (400 * e + y) = 146097 * e + year_start y"
proof -
  have "(400 * e + y) div 4 = 100 * e + y div 4" "(400 * e + y) div 100 = 4 * e + y div 100"
      "(400 * e + y) div 400 = e + y div 400"
    by (simp_all add: div_eq_iff_bounds) linarith+
  then show ?thesis by (simp add: year_start_def)
qed

lemma days_from_civil_march:
  assumes "1 \<le> m" "m \<le> 12" "1 \<le> d" "d < 2 ^ 32"
  shows "days_from_civil y m d = year_start (march_year y m) + doy_of m d - 719468"
proof -
  define y' where "y' = march_year y m"
  define yoe where "yoe = y' mod 400"
  have yoe: "0 \<le> yoe" "yoe < 400" "y' - y' div 400 * 400 = yoe"
    by (simp_all add: yoe_def minus_div_mult_eq_mod)
  have mp: "(if 2 < int m then int m - 3 else int m + 9) = march_month m" "0 \<le> march_month m" "march_month m \<le> 11"
    using assms(1,2) by auto
  have ms: "0 \<le> month_start (march_month m)" "month_start (march_month m) \<le> 337"
    using mp(2,3) by (auto simp: month_start_def)
  have doy: "as_u64 (month_start (march_month m) + int d - 1) = doy_of m d"
    using ms assms(3,4) by (simp add: doy_of_def)
  have doy_bounds: "0 \<le> doy_of m d" "doy_of m d < 2 ^ 33" using ms assms(3,4) by (simp_all add: doy_of_def)
  have "yoe div 400 = 0" using yoe by simp
  then have ys: "yoe * 365 + yoe div 4 - yoe div 100 = year_start yoe" by (simp add: year_start_def)
  have "0 \<le> yoe div 4" "yoe div 4 \<le> yoe" "0 \<le> yoe div 100" "yoe div 100 \<le> yoe"
    using yoe(1) by (simp_all add: int_div_less_self zdiv_mono2 div_le_dividend pos_imp_zdiv_nonneg_iff)
  then have ys_bounds: "0 \<le> year_start yoe" "year_start yoe < 200000"
    using yoe(1,2) unfolding ys [symmetric] by simp_all
  have "days_from_civil y m d =
      y' div 400 * 146097 + as_i64 (as_u64 (year_start yoe + doy_of m d)) - 719468"
    unfolding days_from_civil_def Let_def era_floor
    using yoe mp(1) doy ys by (simp add: y'_def month_start_def)
  also have "\<dots> = y' div 400 * 146097 + year_start yoe + doy_of m d - 719468"
    using doy_bounds ys_bounds by simp
  also have "y' div 400 * 146097 + year_start yoe = year_start y'"
    using year_start_era [of "y' div 400" yoe] by (simp add: yoe_def)
  finally show ?thesis by (simp add: y'_def)
qed

lemma era_parts_year:
  "era_parts c q r doy \<Longrightarrow> year_start (100 * c + 4 * q + r) = 36524 * c + 1461 * q + 365 * r"
  unfolding year_start_def using era_parts_start [of c q r doy] by (simp add: era_parts_def)

lemma dvd_last:
  fixes k n x :: int
  assumes "0 < x" "x \<le> k"
  shows "k dvd k * n + x \<longleftrightarrow> x = k"
  using assms zdvd_imp_le [of k x] by (auto simp: dvd_add_right_iff)

lemma era_parts_leap:
  assumes "0 \<le> c" "c \<le> 3" "0 \<le> q" "q \<le> 24" "0 \<le> r" "r \<le> (3 :: int)"
  shows "is_leap_year (400 * e + (100 * c + 4 * q + r) + 1) \<longleftrightarrow> r = 3 \<and> (q < 24 \<or> c = 3)"
proof -
  let ?y = "400 * e + (100 * c + 4 * q + r) + 1"
  have "4 dvd 4 * (100 * e + 25 * c + q) + (r + 1) \<longleftrightarrow> r + 1 = 4" using assms(5,6) by (intro dvd_last) simp_all
  moreover have "4 * (100 * e + 25 * c + q) + (r + 1) = ?y" by simp
  ultimately have 4: "4 dvd ?y \<longleftrightarrow> r + 1 = 4" by (simp only:)
  have "100 dvd 100 * (4 * e + c) + (4 * q + r + 1) \<longleftrightarrow> 4 * q + r + 1 = 100" using assms(3-6) by (intro dvd_last) simp_all
  moreover have "100 * (4 * e + c) + (4 * q + r + 1) = ?y" by simp
  ultimately have 100: "100 dvd ?y \<longleftrightarrow> 4 * q + r + 1 = 100" by (simp only:)
  have "400 dvd 400 * e + (100 * c + 4 * q + r + 1) \<longleftrightarrow> 100 * c + 4 * q + r + 1 = 400"
    using assms by (intro dvd_last) simp_all
  moreover have "400 * e + (100 * c + 4 * q + r + 1) = ?y" by simp
  ultimately have 400: "400 dvd ?y \<longleftrightarrow> 100 * c + 4 * q + r + 1 = 400" by (simp only:)
  show ?thesis unfolding is_leap_year_iff 4 100 400 using assms by linarith
qed

text \<open>Every day is a position in a March year, and \<open>civil_from_days\<close> finds it.\<close>

lemma civil_from_days_march:
  assumes "0 \<le> doy" "doy \<le> 365" "doy < 365 \<or> is_leap_year (y + 1)"
  shows "civil_from_days (year_start y + doy - 719468) =
    (let mp = month_of_doy doy; m = nat (if mp < 10 then mp + 3 else mp - 9)
     in (as_i32 (if m \<le> 2 then y + 1 else y), m, nat (doy - month_start mp + 1)))"
proof -
  define e where "e = y div 400"
  define yoe where "yoe = y mod 400"
  define c where "c = yoe div 100"
  define q where "q = (yoe mod 100) div 4"
  define r where "r = yoe mod 4"
  have y: "y = 400 * e + yoe" "0 \<le> yoe" "yoe < 400" by (simp_all add: e_def yoe_def)
  have c: "0 \<le> c" "c \<le> 3" using y(2,3) unfolding c_def by linarith+
  have q: "0 \<le> q" "q \<le> 24" unfolding q_def by linarith+
  have r: "0 \<le> r" "r \<le> 3" unfolding r_def by linarith+
  have parts: "yoe = 100 * c + 4 * q + r"
  proof -
    have "yoe mod 4 = yoe mod 100 mod 4" by (simp add: mod_mod_cancel)
    then show ?thesis unfolding c_def q_def r_def by (metis add.assoc mult_div_mod_eq)
  qed
  have leap: "doy < 365 \<or> r = 3 \<and> (q < 24 \<or> c = 3)"
    using assms(3) era_parts_leap [OF c q r, of e] by (simp add: y(1) parts)
  then have ep: "era_parts c q r doy" using c q r assms(1,2) by (simp add: era_parts_def)
  define doe where "doe = 36524 * c + 1461 * q + 365 * r + doy"
  have doe: "(doe - doe div 1460 + doe div 36524 - doe div 146096) div 365 = yoe" "0 \<le> doe" "doe \<le> 146096"
    using era_parts_day [OF ep doe_def] parts by auto
  have z: "year_start y + doy = 146097 * e + doe"
    unfolding y(1) year_start_era doe_def parts era_parts_year [OF ep] by simp
  have era: "(146097 * e + doe) div 146097 = e" using doe(2,3) by simp
  have doy: "doe - (365 * yoe + yoe div 4 - yoe div 100) = doy"
    unfolding parts era_parts_start [OF ep] by (simp add: doe_def)
  have u64: "as_u64 doe = doe" using doe(2,3) by simp
  have mp: "0 \<le> month_of_doy doy" "month_of_doy doy \<le> 11" using month_of_doy_range assms(1,2) by blast+
  have m2: "(if month_of_doy doy < 10 then month_of_doy doy + 3 else month_of_doy doy - 9) \<le> 2 \<longleftrightarrow>
      nat (if month_of_doy doy < 10 then month_of_doy doy + 3 else month_of_doy doy - 9) \<le> 2"
    using mp by auto
  have "civil_from_days (year_start y + doy - 719468) =
    (let mp = month_of_doy doy; m = (if mp < 10 then mp + 3 else mp - 9)
     in (as_i32 (if m \<le> 2 then yoe + e * 400 + 1 else yoe + e * 400), nat m, nat (doy - month_start mp + 1)))"
    unfolding civil_from_days_def Let_def era_floor
    by (simp add: z era u64 doe(1) doy month_of_doy_def month_start_def del: nat_le_iff)
  then show ?thesis unfolding Let_def m2 by (simp add: y(1) add.commute mult.commute)
qed


text \<open>The year, month and day of a date are back after a round trip.\<close>

lemma civil_from_days_from_civil:
  assumes "valid_date y m d" "is_i32 y"
  shows "civil_from_days (days_from_civil y m d) = (y, m, d)"
proof -
  have m: "1 \<le> m" "m \<le> 12" "1 \<le> d" using assms(1) by (simp_all add: valid_date_def)
  have "d \<le> 31" using assms(1) by (auto simp: valid_date_def days_in_month_def split: if_splits)
  then have "d < 2 ^ 32" by simp
  note v = doy_of_valid [OF assms(1)]
  let ?mp = "march_month m"
  have again: "nat (if ?mp < 10 then ?mp + 3 else ?mp - 9) = m" using m(1,2) by auto
  have "nat (doy_of m d - month_start ?mp + 1) = d" by (simp add: doy_of_def)
  moreover have "(if m \<le> 2 then march_year y m + 1 else march_year y m) = y" by simp
  ultimately have "civil_from_days (year_start (march_year y m) + doy_of m d - 719468) = (as_i32 y, m, d)"
    unfolding civil_from_days_march [OF v(1,2,4)] v(3) Let_def again by simp
  then show ?thesis
    using days_from_civil_march [OF m \<open>d < 2 ^ 32\<close>] assms(2) by simp
qed

lemma month_start_days:
  assumes "0 \<le> doy" "doy \<le> 365" "doy < 365 \<or> is_leap_year (y + 1)"
    and "mp = month_of_doy doy" "m = nat (if mp < 10 then mp + 3 else mp - 9)"
  shows "1 \<le> m" "m \<le> 12" "march_month m = mp"
    "valid_date (if m \<le> 2 then y + 1 else y) m (nat (doy - month_start mp + 1))"
    "doy_of m (nat (doy - month_start mp + 1)) = doy"
proof -
  have mp: "0 \<le> mp" "mp \<le> 11" using month_of_doy_range assms(1,2,4) by blast+
  show m: "1 \<le> m" "m \<le> 12" "march_month m = mp" using mp assms(5) by auto
  have start: "month_start mp \<le> doy" "doy < month_start (mp + 1) \<or> mp = 11"
    using month_of_doy_iff [OF assms(1,2) mp] assms(4) by auto
  then show "doy_of m (nat (doy - month_start mp + 1)) = doy" unfolding doy_of_def m(3) by simp
  have eleven: "mp = 11 \<longleftrightarrow> m = 2" using mp assms(5) by auto
  let ?y = "if m \<le> 2 then y + 1 else y"
  have "doy - month_start mp + 1 \<le> int (days_in_month ?y m)"
  proof (cases "m = 2")
    case True
    then have "mp = 11" using eleven by simp
    then show ?thesis using assms(2,3) True unfolding days_in_month_starts [OF m(1,2)] by (auto simp: month_start_def)
  next
    case False
    then show ?thesis using start eleven unfolding days_in_month_starts [OF m(1,2)] m(3) by simp
  qed
  then show "valid_date ?y m (nat (doy - month_start mp + 1))"
    unfolding valid_date_def using m start(1) by linarith
qed


text \<open>Every day number is the number of its civil date.  The bound keeps the year an \<open>i32\<close>.\<close>

lemma year_start_step: "year_start (y + 1) = year_start y + 365 + (if is_leap_year (y + 1) then 1 else 0)"
proof -
  have step: "(y + 1) div k = y div k + (if k dvd y + 1 then 1 else 0)" if "1 < k" for k :: int
  proof (cases "k dvd y + 1")
    case True
    then obtain n where n: "y + 1 = k * n" by blast
    then have "(y + 1) div k = n" using that by simp
    moreover have "y div k = n - 1" using that n by (subst div_eq_iff_bounds) (simp_all add: algebra_simps)
    ultimately show ?thesis using True by simp
  next
    case False
    then have "(y + 1) mod k \<noteq> 0" by (simp add: dvd_eq_mod_eq_0)
    then have m: "0 < (y + 1) mod k" "(y + 1) mod k < k" using that pos_mod_sign [of k "y + 1"] pos_mod_bound [of k "y + 1"] by linarith+
    have "y + 1 = k * ((y + 1) div k) + (y + 1) mod k" by simp
    then have "y div k = (y + 1) div k" using m that by (subst div_eq_iff_bounds) linarith+
    then show ?thesis using False by simp
  qed
  have dvd: "100 dvd y + 1 \<Longrightarrow> 4 dvd y + 1" "400 dvd y + 1 \<Longrightarrow> 100 dvd y + 1"
    by (rule dvd_trans [rotated], assumption, simp)+
  have steps: "(y + 1) div 4 = y div 4 + (if 4 dvd y + 1 then 1 else 0)"
      "(y + 1) div 100 = y div 100 + (if 100 dvd y + 1 then 1 else 0)"
      "(y + 1) div 400 = y div 400 + (if 400 dvd y + 1 then 1 else 0)"
    by (rule step, simp)+
  have "365 * (y + 1) + (a + (if P then 1 else 0)) - (b + (if Q then 1 else 0)) + (c + (if R then 1 else 0)) =
      365 * y + a - b + c + 365 + (if P \<and> \<not> Q \<or> R then 1 else 0)"
    if "Q \<longrightarrow> P" "R \<longrightarrow> Q" for a b c :: int and P Q R
    using that by (cases P; cases Q; cases R) simp_all
  from this [of "100 dvd y + 1" "4 dvd y + 1" "400 dvd y + 1"] dvd show ?thesis
    unfolding year_start_def is_leap_year_iff steps by blast
qed

lemma year_start_mono: "y < y' \<Longrightarrow> year_start y + 365 + (if is_leap_year (y + 1) then 1 else 0) \<le> year_start y'"
proof (induction y' rule: int_gr_induct)
  case base
  then show ?case using year_start_step [of y] by simp
next
  case (step i)
  then show ?case using year_start_step [of i] by simp
qed

lemma day_position:
  obtains y doy where "z = year_start y + doy - 719468" "0 \<le> doy" "doy \<le> 365" "doy < 365 \<or> is_leap_year (y + 1)"
    "365 * \<bar>y\<bar> \<le> \<bar>z\<bar> + 1100000"
proof -
  define e where "e = (z + 719468) div 146097"
  have "0 \<le> (z + 719468) mod 146097" "(z + 719468) mod 146097 \<le> 146096" by simp_all
  then obtain c q r doy where ep: "era_parts c q r doy"
      and doe: "(z + 719468) mod 146097 = 36524 * c + 1461 * q + 365 * r + doy"
    by (rule era_parts_exist)
  let ?y = "400 * e + (100 * c + 4 * q + r)"
  have b: "0 \<le> c" "c \<le> 3" "0 \<le> q" "q \<le> 24" "0 \<le> r" "r \<le> 3" "0 \<le> doy" "doy \<le> 365"
      "doy < 365 \<or> r = 3 \<and> (q < 24 \<or> c = 3)" using ep by (simp_all add: era_parts_def)
  have z: "z + 719468 = 146097 * e + (36524 * c + 1461 * q + 365 * r + doy)"
    unfolding e_def doe [symmetric] by simp
  show ?thesis
  proof (rule that)
    show "z = year_start ?y + doy - 719468"
      using z unfolding year_start_era era_parts_year [OF ep] by linarith
    show "doy < 365 \<or> is_leap_year (?y + 1)" using b era_parts_leap [OF b(1-6), of e] by blast
    have "146097 * \<bar>e\<bar> \<le> \<bar>z\<bar> + 719468 + 146096" using z b by linarith
    moreover have "0 \<le> 100 * c + 4 * q + r" "100 * c + 4 * q + r \<le> 399" using b(1-6) by linarith+
    then have "\<bar>?y\<bar> \<le> 400 * \<bar>e\<bar> + 399" by linarith
    moreover have "365 * Y \<le> Z + 1100000" if "146097 * E \<le> Z + 719468 + 146096" "Y \<le> 400 * E + 399" "0 \<le> E" for E Y Z :: int
      using that by simp
    ultimately show "365 * \<bar>?y\<bar> \<le> \<bar>z\<bar> + 1100000" using abs_ge_zero by blast
  qed (rule b(7,8))+
qed


lemma days_from_civil_from_days:
  assumes "\<bar>z\<bar> \<le> 783000000000"
  shows "case civil_from_days z of (y, m, d) \<Rightarrow> valid_date y m d \<and> is_i32 y \<and> days_from_civil y m d = z"
proof -
  obtain y doy where z: "z = year_start y + doy - 719468" and doy: "0 \<le> doy" "doy \<le> 365" "doy < 365 \<or> is_leap_year (y + 1)"
      and y: "365 * \<bar>y\<bar> \<le> \<bar>z\<bar> + 1100000" by (rule day_position)
  define mp where "mp = month_of_doy doy"
  define m where "m = nat (if mp < 10 then mp + 3 else mp - 9)"
  define d where "d = nat (doy - month_start mp + 1)"
  define y' where "y' = (if m \<le> 2 then y + 1 else y)"
  note md = month_start_days [OF doy mp_def m_def, folded y'_def d_def]
  have "\<bar>y\<bar> < 2147000000" using y assms by linarith
  then have i32: "is_i32 y'" by (auto simp: y'_def)
  have c: "civil_from_days z = (y', m, d)"
    unfolding z civil_from_days_march [OF doy] Let_def mp_def [symmetric] m_def [symmetric] y'_def [symmetric] d_def [symmetric]
    using i32 by simp
  have d: "1 \<le> d" "d \<le> 31" using md(4) by (auto simp: valid_date_def days_in_month_def split: if_splits)
  then have "d < 2 ^ 32" by simp
  moreover have "march_year y' m = y" by (simp add: y'_def)
  ultimately have "days_from_civil y' m d = z"
    using days_from_civil_march [OF md(1,2) d(1)] md(5) z by simp
  then show ?thesis using c md(4) i32 by simp
qed

section \<open>Order\<close>

lemma days_from_civil_less:
  assumes "valid_date y m d" "valid_date y' m' d'" "(y, m, d) < (y', m', d')"
  shows "days_from_civil y m d < days_from_civil y' m' d'"
proof -
  note v = doy_of_valid [OF assms(1)] and v' = doy_of_valid [OF assms(2)]
  have r: "1 \<le> m" "m \<le> 12" "1 \<le> d" "1 \<le> m'" "m' \<le> 12" "1 \<le> d'" using assms(1,2) by (simp_all add: valid_date_def)
  have "d \<le> 31" "d' \<le> 31" using assms(1,2) by (auto simp: valid_date_def days_in_month_def split: if_splits)
  then have b: "d < 2 ^ 32" "d' < 2 ^ 32" by simp_all
  have "march_year y m < march_year y' m' \<or> march_year y m = march_year y' m' \<and> doy_of m d < doy_of m' d'"
  proof (cases "march_year y m < march_year y' m'")
    case False
    then have eq: "march_year y m = march_year y' m'"
      using assms(3) r by (auto split: if_splits)
    have "march_month m < march_month m' \<or> m = m' \<and> d < d'"
      using assms(3) eq r by (auto split: if_splits)
    moreover have "doy_of m d < doy_of m' d'" if "march_month m < march_month m'"
    proof (rule ccontr)
      assume "\<not> doy_of m d < doy_of m' d'"
      then have "month_of_doy (doy_of m' d') \<le> month_of_doy (doy_of m d)"
        unfolding month_of_doy_def by (intro zdiv_mono1) simp_all
      with that v(3) v'(3) show False by linarith
    qed
    ultimately show ?thesis using eq by (auto simp: doy_of_def)
  qed blast
  moreover have "year_start (march_year y m) + doy_of m d < year_start (march_year y' m') + doy_of m' d'"
    if "march_year y m < march_year y' m'"
    using year_start_mono [OF that] v(2,4) v'(1) by (auto split: if_splits)
  ultimately show ?thesis
    unfolding days_from_civil_march [OF r(1-3) b(1)] days_from_civil_march [OF r(4-6) b(2)] by auto
qed

section \<open>Unix time\<close>

definition valid_datetime :: "date_time \<Rightarrow> bool" where
  "valid_datetime dt \<longleftrightarrow>
     valid_date (dt_year dt) (dt_month dt) (dt_day dt) \<and> is_i32 (dt_year dt)
     \<and> dt_hour dt < 24 \<and> dt_minute dt < 60 \<and> dt_second dt < 60"

definition day_seconds :: "date_time \<Rightarrow> int" where
  "day_seconds dt = int (dt_hour dt) * 3600 + int (dt_minute dt) * 60 + int (dt_second dt)"

lemma datetime_to_unix_parts:
  "datetime_to_unix dt = days_from_civil (dt_year dt) (dt_month dt) (dt_day dt) * 86400 + day_seconds dt"
  by (simp add: datetime_to_unix_def day_seconds_def)

lemma day_seconds_bounds: "valid_datetime dt \<Longrightarrow> 0 \<le> day_seconds dt \<and> day_seconds dt < 86400"
  by (simp add: valid_datetime_def day_seconds_def)


lemma unix_to_datetime_parts:
  assumes "0 \<le> sec" "sec < 86400" "civil_from_days z = (y, m, d)"
  shows "unix_to_datetime (z * 86400 + sec) =
    \<lparr>dt_year = y, dt_month = m, dt_day = d, dt_hour = nat sec div 3600,
     dt_minute = (nat sec mod 3600) div 60, dt_second = nat sec mod 60\<rparr>"
proof -
  have "(z * 86400 + sec) div 86400 = z" "(z * 86400 + sec) mod 86400 = sec"
    using assms(1,2) by simp_all
  then show ?thesis unfolding unix_to_datetime_def Let_def assms(3) by (simp only: assms(3) prod.case)
qed

lemma unix_datetime_unix:
  assumes "\<bar>s\<bar> \<le> 67000000000000000"
  shows "valid_datetime (unix_to_datetime s) \<and> datetime_to_unix (unix_to_datetime s) = s"
proof -
  define z where "z = s div 86400"
  define sec where "sec = s mod 86400"
  have s: "s = z * 86400 + sec" "0 \<le> sec" "sec < 86400" by (simp_all add: z_def sec_def)
  have "\<bar>z\<bar> \<le> 783000000000" using assms s by linarith
  from days_from_civil_from_days [OF this] obtain y m d where
    c: "civil_from_days z = (y, m, d)" "valid_date y m d" "is_i32 y" "days_from_civil y m d = z"
    by (auto split: prod.splits)
  define n where "n = nat sec"
  have n: "n < 86400" "int n = sec" using s(2,3) by (simp_all add: n_def)
  have "n = (n div 3600) * 3600 + ((n mod 3600) div 60) * 60 + n mod 60"
  proof -
    have "n mod 60 = n mod 3600 mod 60" by (simp add: mod_mod_cancel)
    then show ?thesis by (metis add.assoc div_mult_mod_eq)
  qed
  then have sum: "int (n div 3600) * 3600 + int ((n mod 3600) div 60) * 60 + int (n mod 60) = sec"
    using n(2) by linarith
  have "n div 3600 < 24" "(n mod 3600) div 60 < 60" using n(1) by (simp_all add: div_less_iff_less_mult)
  with c sum show ?thesis
    unfolding s(1) unix_to_datetime_parts [OF s(2,3) c(1)] n_def [symmetric]
    by (simp add: valid_datetime_def datetime_to_unix_def)
qed

lemma datetime_unix_datetime:
  assumes "valid_datetime dt"
  shows "unix_to_datetime (datetime_to_unix dt) = dt"
proof -
  have v: "valid_date (dt_year dt) (dt_month dt) (dt_day dt)" "is_i32 (dt_year dt)"
      "dt_hour dt < 24" "dt_minute dt < 60" "dt_second dt < 60"
    using assms by (simp_all add: valid_datetime_def)
  let ?n = "dt_hour dt * 3600 + dt_minute dt * 60 + dt_second dt"
  have n: "nat (day_seconds dt) = ?n" by (simp add: day_seconds_def)
  have hour: "(h * 3600 + x) div 3600 = h" "(h * 3600 + x) mod 3600 = x" if "x < 3600" for h x :: nat
    using that by simp_all
  have "dt_minute dt * 60 + dt_second dt < 3600" using v(4,5) by simp
  from hour [OF this, of "dt_hour dt"]
  have "?n div 3600 = dt_hour dt" "?n mod 3600 = dt_minute dt * 60 + dt_second dt"
    by (simp_all only: add.assoc)
  moreover have "(dt_minute dt * 60 + dt_second dt) div 60 = dt_minute dt" using v(5) by simp
  moreover have "?n mod 60 = dt_second dt"
  proof -
    have "?n = dt_second dt + 60 * (60 * dt_hour dt + dt_minute dt)" by simp
    then show ?thesis using v(5) by (metis mod_less mod_mult_self2)
  qed
  ultimately show ?thesis
    using day_seconds_bounds [OF assms] unix_to_datetime_parts [OF _ _ civil_from_days_from_civil [OF v(1,2)], of "day_seconds dt"]
    unfolding datetime_to_unix_parts n by simp
qed

lemma datetime_to_unix_less:
  assumes "valid_datetime x" "valid_datetime y" "x < y"
  shows "datetime_to_unix x < datetime_to_unix y"
proof -
  have sec: "0 \<le> day_seconds x" "day_seconds x < 86400" "0 \<le> day_seconds y" "day_seconds y < 86400"
    using day_seconds_bounds assms(1,2) by blast+
  let ?d = "\<lambda>x. (dt_year x, dt_month x, dt_day x)" and ?z = "\<lambda>x. days_from_civil (dt_year x) (dt_month x) (dt_day x)"
  have "?d x < ?d y \<or> ?d x = ?d y \<and> day_seconds x < day_seconds y"
    using assms by (auto simp: less_date_time_ext_def dt_key_def valid_datetime_def day_seconds_def)
  then show ?thesis
  proof
    assume "?d x < ?d y"
    then have "?z x < ?z y" using assms(1,2) by (intro days_from_civil_less) (auto simp: valid_datetime_def)
    then show ?thesis unfolding datetime_to_unix_parts using sec by simp
  next
    assume "?d x = ?d y \<and> day_seconds x < day_seconds y"
    then show ?thesis by (simp add: datetime_to_unix_parts)
  qed
qed

text \<open>
  C40: Unix time survives a round trip.  For every second within 67 * 10^15 of the epoch (some
  two thousand million years, where the year fits an \<open>i32\<close>), \<open>unix_to_datetime\<close> gives a valid
  civil date and time, and \<open>datetime_to_unix\<close> of it is that second again.
\<close>

theorem unix_time_roundtrip:
  assumes "- 67000000000000000 \<le> s" "s \<le> 67000000000000000"
  shows "valid_datetime (unix_to_datetime s) \<and> datetime_to_unix (unix_to_datetime s) = s"
  using unix_datetime_unix assms by simp

theorem unix_time_roundtrip_witness:
  "valid_datetime (unix_to_datetime (- 1)) \<and> datetime_to_unix (unix_to_datetime (- 1)) = - 1"
  by (rule unix_time_roundtrip) simp_all

text \<open>
  Valid date-times survive a round trip through Unix time, and the derived order of
  \<open>DateTime\<close>, field by field, is the order of the seconds.
\<close>

theorem datetime_order_is_unix_order:
  assumes "valid_datetime x" "valid_datetime y"
  shows "unix_to_datetime (datetime_to_unix x) = x \<and> (x < y \<longleftrightarrow> datetime_to_unix x < datetime_to_unix y)"
proof -
  have "\<not> datetime_to_unix x < datetime_to_unix y" if "\<not> x < y"
  proof (cases "x = y")
    case False
    then have "y < x" using that by simp
    then show ?thesis using datetime_to_unix_less [OF assms(2,1)] by simp
  qed simp
  then show ?thesis using datetime_unix_datetime [OF assms(1)] datetime_to_unix_less [OF assms] by blast
qed

abbreviation leap_day :: date_time where
  "leap_day \<equiv> \<lparr>dt_year = 2024, dt_month = 2, dt_day = 29, dt_hour = 23, dt_minute = 59, dt_second = 59\<rparr>"

theorem datetime_order_is_unix_order_witness:
  "unix_to_datetime (datetime_to_unix leap_day) = leap_day
   \<and> (leap_day < leap_day\<lparr>dt_year := 2028\<rparr> \<longleftrightarrow>
        datetime_to_unix leap_day < datetime_to_unix (leap_day\<lparr>dt_year := 2028\<rparr>))"
  by (rule datetime_order_is_unix_order)
     (simp_all add: valid_datetime_def valid_date_def days_in_month_def is_leap_year_iff)

text \<open>
  The weekday of a Unix time is its day number, counted from the Thursday of the epoch,
  modulo seven, and one second more moves to the date and time one second later.
\<close>

theorem weekday_and_next_second:
  assumes "- 67000000000000000 \<le> s" "s < 67000000000000000"
  shows "int (weekday_from_datetime (unix_to_datetime s)) = (s div 86400 + 3) mod 7
       \<and> add_second (unix_to_datetime s) = unix_to_datetime (s + 1)"
proof -
  have u: "valid_datetime (unix_to_datetime s) \<and> datetime_to_unix (unix_to_datetime s) = s"
    using unix_datetime_unix assms by simp
  let ?dt = "unix_to_datetime s"
  have "s = days_from_civil (dt_year ?dt) (dt_month ?dt) (dt_day ?dt) * 86400 + day_seconds ?dt"
    using u datetime_to_unix_parts [of ?dt] by simp
  then have "days_from_civil (dt_year ?dt) (dt_month ?dt) (dt_day ?dt) = s div 86400"
    using day_seconds_bounds [of ?dt] u by linarith
  then show ?thesis using u by (simp add: weekday_from_datetime_def weekday_def add_second_def mod_add_left_eq)
qed

theorem weekday_and_next_second_witness:
  "int (weekday_from_datetime (unix_to_datetime 0)) = (0 div 86400 + 3) mod 7
   \<and> add_second (unix_to_datetime 0) = unix_to_datetime (0 + 1)"
  by (rule weekday_and_next_second) simp_all

end
