(* ===== verification/CalSpec.thy ===== *)
theory CalSpec
  imports CalTime
begin

text \<open>
  Calendar specifications and their next elapse: the types and the matching half of
  \<open>calendar_spec.rs\<close>.  A \<open>u32\<close> is a natural number; an addition or multiplication that can
  leave the range is followed by \<open>u32\<close>, which wraps.  A result \<open>None\<close> of the outer option
  says that the call does not return: a loop without end, or a division by zero that panics.

  Lemmas: the generated values are the matching values in order, also for days counted from
  the end of the month, and the next elapse is the least matching date and time.
\<close>

section \<open>Types\<close>

record weekday_range =
  wd_start :: nat
  wd_end :: nat

datatype calendar_value =
    Val_exact nat
  | Val_range nat nat
  | Val_repeat nat nat
  | Val_range_repeat nat nat nat

datatype calendar_component =
    Wildcard
  | Wildcard_repeat nat
  | Value_list "calendar_value list"

record calendar_spec =
  original :: string
  weekdays :: "weekday_range list option"
  cal_year :: "calendar_component option"
  cal_month :: calendar_component
  cal_day :: calendar_component
  day_from_end :: bool
  cal_hour :: calendar_component
  cal_minute :: calendar_component
  cal_second :: calendar_component
  utc :: bool
  fixed_instant :: "int option"

definition u32 :: "nat \<Rightarrow> nat" where "u32 x = x mod 2 ^ 32"

definition as_u32 :: "int \<Rightarrow> nat" where "as_u32 x = nat (x mod 2 ^ 32)"

definition div_ceil :: "nat \<Rightarrow> nat \<Rightarrow> nat" where
  "div_ceil a b = a div b + (if a mod b > 0 then 1 else 0)"

section \<open>Matching\<close>

fun value_matches :: "calendar_value \<Rightarrow> nat \<Rightarrow> bool" where
  "value_matches (Val_exact e) v \<longleftrightarrow> v = e"
| "value_matches (Val_range a b) v \<longleftrightarrow> v \<ge> a \<and> v \<le> b"
| "value_matches (Val_repeat start step) v \<longleftrightarrow> (if v < start then False else step dvd (v - start))"
| "value_matches (Val_range_repeat start stop step) v \<longleftrightarrow>
     (if v < start \<or> v > stop then False else step dvd (v - start))"

fun component_matches :: "calendar_component \<Rightarrow> nat \<Rightarrow> bool" where
  "component_matches Wildcard v \<longleftrightarrow> True"
| "component_matches (Wildcard_repeat step) v \<longleftrightarrow> step dvd v"
| "component_matches (Value_list vs) v \<longleftrightarrow> list_ex (\<lambda>cv. value_matches cv v) vs"

section \<open>Generating values\<close>

text \<open>\<open>while v <= max { push(v); v += step }\<close>\<close>

partial_function (option) count_up :: "nat \<Rightarrow> nat \<Rightarrow> nat \<Rightarrow> nat list option" where
  "count_up v step hi =
     (if v \<le> hi then Option.bind (count_up (u32 (v + step)) step hi) (\<lambda>vs. Some (v # vs)) else Some [])"

text \<open>\<open>Advance to first value >= from\<close>\<close>

definition first_from :: "nat \<Rightarrow> nat \<Rightarrow> nat \<Rightarrow> nat option" where
  "first_from start step lo =
     (if start < lo then
        (if step = 0 then None
         else Some (u32 (start + u32 (div_ceil (lo - start) step * step))))
      else Some start)"

fun collect_matching_values :: "calendar_value \<Rightarrow> nat \<Rightarrow> nat \<Rightarrow> nat list \<Rightarrow> nat list option" where
  "collect_matching_values (Val_exact e) lo hi out = Some (if e \<ge> lo \<and> e \<le> hi then out @ [e] else out)"
| "collect_matching_values (Val_range a b) lo hi out = Some (out @ [max a lo..<Suc (min b hi)])"
| "collect_matching_values (Val_repeat start step) lo hi out =
     Option.bind (first_from start step lo) (\<lambda>v. map_option (\<lambda>vs. out @ vs) (count_up v step hi))"
| "collect_matching_values (Val_range_repeat start stop step) lo hi out =
     Option.bind (first_from start step lo)
       (\<lambda>v. map_option (\<lambda>vs. out @ vs) (count_up v step (min stop hi)))"

fun collect_all_values :: "calendar_value list \<Rightarrow> nat \<Rightarrow> nat \<Rightarrow> nat list \<Rightarrow> nat list option" where
  "collect_all_values [] lo hi out = Some out"
| "collect_all_values (cv # cvs) lo hi out =
     Option.bind (collect_matching_values cv lo hi out) (collect_all_values cvs lo hi)"

fun matching_values_from :: "calendar_component \<Rightarrow> nat \<Rightarrow> nat \<Rightarrow> nat list option" where
  "matching_values_from Wildcard lo hi = Some [lo..<Suc hi]"
| "matching_values_from (Wildcard_repeat step) lo hi =
     (if lo = 0 then count_up 0 step hi
      else if step = 0 then None
      else let remainder = lo mod step;
               first = (if remainder = 0 then lo else u32 (lo + (step - remainder)))
           in count_up first step hi)"
| "matching_values_from (Value_list vs) lo hi =
     map_option (\<lambda>out. remdups_adj (sort out)) (collect_all_values vs lo hi [])"

definition abs_day :: "nat \<Rightarrow> nat \<Rightarrow> nat option" where
  "abs_day max_day n = (if 1 \<le> n \<and> n \<le> max_day then Some (max_day - n + 1) else None)"

text \<open>\<open>loop { push(d); if step == 0 { break } d += step; if d > max_day { break } }\<close>\<close>

partial_function (option) repeat_days :: "nat \<Rightarrow> nat \<Rightarrow> nat \<Rightarrow> nat list option" where
  "repeat_days d step max_day =
     (if step = 0 then Some [d]
      else if u32 (d + step) > max_day then Some [d]
      else Option.bind (repeat_days (u32 (d + step)) step max_day) (\<lambda>ds. Some (d # ds)))"

text \<open>\<open>while d <= hi { push(d); if step == 0 { break } d += step }\<close>\<close>

partial_function (option) range_days :: "nat \<Rightarrow> nat \<Rightarrow> nat \<Rightarrow> nat list option" where
  "range_days d step hi =
     (if d \<le> hi then
        (if step = 0 then Some [d]
         else Option.bind (range_days (u32 (d + step)) step hi) (\<lambda>ds. Some (d # ds)))
      else Some [])"

fun from_end_value :: "nat \<Rightarrow> calendar_value \<Rightarrow> nat list option" where
  "from_end_value max_day (Val_exact n) =
     Some (case abs_day max_day n of Some d \<Rightarrow> [d] | None \<Rightarrow> [])"
| "from_end_value max_day (Val_range a b) =
     Some (case (abs_day max_day a, abs_day max_day b) of
             (Some da, Some db) \<Rightarrow> [min da db..<Suc (max da db)]
           | _ \<Rightarrow> [])"
| "from_end_value max_day (Val_repeat start step) =
     (case abs_day max_day start of Some d \<Rightarrow> repeat_days d step max_day | None \<Rightarrow> Some [])"
| "from_end_value max_day (Val_range_repeat a b step) =
     (case (abs_day max_day a, abs_day max_day b) of
        (Some da, Some db) \<Rightarrow> range_days (min da db) step (max da db)
      | _ \<Rightarrow> Some [])"

fun from_end_values :: "nat \<Rightarrow> calendar_value list \<Rightarrow> nat list option" where
  "from_end_values max_day [] = Some []"
| "from_end_values max_day (cv # cvs) =
     Option.bind (from_end_value max_day cv)
       (\<lambda>ds. Option.bind (from_end_values max_day cvs) (\<lambda>es. Some (ds @ es)))"

definition resolve_from_end_days :: "calendar_component \<Rightarrow> nat \<Rightarrow> nat \<Rightarrow> nat list option" where
  "resolve_from_end_days c lo max_day =
     (case c of
        Value_list vs \<Rightarrow>
          map_option (\<lambda>ds. remdups_adj (sort (filter (\<lambda>d. d \<ge> lo) ds))) (from_end_values max_day vs)
      | _ \<Rightarrow> matching_values_from c lo max_day)"

section \<open>The next elapse\<close>

text \<open>A \<open>for\<close> loop whose body may return from the function.\<close>

fun for_return :: "('a \<Rightarrow> 'b option option) \<Rightarrow> 'a list \<Rightarrow> 'b option option" where
  "for_return body [] = Some None"
| "for_return body (x # xs) =
     (case body x of
        None \<Rightarrow> None
      | Some (Some r) \<Rightarrow> Some (Some r)
      | Some None \<Rightarrow> for_return body xs)"

definition weekday_allowed :: "weekday_range list option \<Rightarrow> nat \<Rightarrow> bool" where
  "weekday_allowed wds wd =
     (case wds of
        None \<Rightarrow> True
      | Some rs \<Rightarrow>
          list_ex (\<lambda>r. if wd_start r \<le> wd_end r then wd \<ge> wd_start r \<and> wd \<le> wd_end r
                       else wd \<ge> wd_start r \<or> wd \<le> wd_end r) rs)"

definition elapse_in_minute :: "calendar_spec \<Rightarrow> date_time \<Rightarrow> int \<Rightarrow> nat \<Rightarrow> nat \<Rightarrow> nat \<Rightarrow> nat \<Rightarrow> date_time option option" where
  "elapse_in_minute spec af y m d h mi =
     (let s_start = (if y = dt_year af \<and> m = dt_month af \<and> d = dt_day af \<and> h = dt_hour af \<and> mi = dt_minute af
                     then dt_second af else 0)
      in map_option
           (\<lambda>seconds. case seconds of
                        s # _ \<Rightarrow> Some \<lparr>dt_year = y, dt_month = m, dt_day = d, dt_hour = h, dt_minute = mi, dt_second = s\<rparr>
                      | [] \<Rightarrow> None)
           (matching_values_from (cal_second spec) s_start 59))"

definition elapse_in_hour :: "calendar_spec \<Rightarrow> date_time \<Rightarrow> int \<Rightarrow> nat \<Rightarrow> nat \<Rightarrow> nat \<Rightarrow> date_time option option" where
  "elapse_in_hour spec af y m d h =
     (let min_start = (if y = dt_year af \<and> m = dt_month af \<and> d = dt_day af \<and> h = dt_hour af then dt_minute af else 0)
      in Option.bind (matching_values_from (cal_minute spec) min_start 59)
           (for_return (elapse_in_minute spec af y m d h)))"

definition elapse_on_day :: "calendar_spec \<Rightarrow> date_time \<Rightarrow> int \<Rightarrow> nat \<Rightarrow> nat \<Rightarrow> date_time option option" where
  "elapse_on_day spec af y m d =
     (if \<not> weekday_allowed (weekdays spec) (weekday y m d) then Some None
      else let h_start = (if y = dt_year af \<and> m = dt_month af \<and> d = dt_day af then dt_hour af else 0)
           in Option.bind (matching_values_from (cal_hour spec) h_start 23) (for_return (elapse_in_hour spec af y m d)))"

definition elapse_in_month :: "calendar_spec \<Rightarrow> date_time \<Rightarrow> int \<Rightarrow> nat \<Rightarrow> date_time option option" where
  "elapse_in_month spec af y m =
     (let max_day = days_in_month y m;
          d_start = (if y = dt_year af \<and> m = dt_month af then dt_day af else 1);
          days = (if day_from_end spec then resolve_from_end_days (cal_day spec) d_start max_day
                  else matching_values_from (cal_day spec) d_start max_day)
      in Option.bind days (\<lambda>ds. for_return (elapse_on_day spec af y m) (takeWhile (\<lambda>d. \<not> d > max_day) ds)))"

definition elapse_in_year :: "calendar_spec \<Rightarrow> date_time \<Rightarrow> nat \<Rightarrow> date_time option option" where
  "elapse_in_year spec af y =
     (let y_i32 = as_i32 (int y);
          m_start = (if y_i32 = dt_year af then dt_month af else 1)
      in Option.bind (matching_values_from (cal_month spec) m_start 12) (for_return (elapse_in_month spec af y_i32)))"

definition next_elapse :: "calendar_spec \<Rightarrow> date_time \<Rightarrow> date_time option option" where
  "next_elapse spec af =
     (case fixed_instant spec of
        Some t \<Rightarrow> Some (if t > datetime_to_unix af then Some (unix_to_datetime t) else None)
      | None \<Rightarrow>
          let max_year = as_i32 (dt_year af + 5)
          in Option.bind
               (matching_values_from (case cal_year spec of None \<Rightarrow> Wildcard | Some c \<Rightarrow> c)
                  (as_u32 (dt_year af)) (as_u32 max_year))
               (for_return (elapse_in_year spec af)))"


section \<open>What the generators give\<close>

lemma u32_id [simp]: "x < 2 ^ 32 \<Longrightarrow> u32 x = x"
  by (simp add: u32_def)

text \<open>A generator returns the elements of a set, each once and in increasing order.\<close>

definition gives :: "nat list option \<Rightarrow> nat set \<Rightarrow> bool" where
  "gives r S \<longleftrightarrow> (\<exists>vs. r = Some vs \<and> sorted_wrt (<) vs \<and> set vs = S)"

lemma gives_filter:
  assumes "gives r {x. lo \<le> x \<and> x \<le> hi \<and> P x}"
  shows "r = Some (filter P [lo..<Suc hi])"
proof -
  obtain vs where vs: "r = Some vs" "sorted_wrt (<) vs" "set vs = {x. lo \<le> x \<and> x \<le> hi \<and> P x}"
    using assms by (auto simp: gives_def)
  have "sorted_wrt (<) (filter P [lo..<Suc hi])" by (intro sorted_wrt_filter sorted_wrt_upt)
  moreover have "set (filter P [lo..<Suc hi]) = set vs" unfolding vs(3) by auto
  ultimately show ?thesis using vs(1,2) strict_sorted_equal by metis
qed

lemma count_up_gives:
  assumes "0 < step" "hi + step < 2 ^ 32"
  shows "gives (count_up v step hi) {x. v \<le> x \<and> x \<le> hi \<and> step dvd (x - v)}"
proof (induction "Suc hi - v" arbitrary: v rule: less_induct)
  case less
  show ?case
  proof (cases "v \<le> hi")
    case False
    then show ?thesis by (subst count_up.simps) (auto simp: gives_def)
  next
    case True
    then have u: "u32 (v + step) = v + step" using assms(2) by simp
    have "gives (count_up (v + step) step hi) {x. v + step \<le> x \<and> x \<le> hi \<and> step dvd (x - (v + step))}"
      using True assms(1) by (intro less) simp
    then obtain vs where vs: "count_up (v + step) step hi = Some vs" "sorted_wrt (<) vs"
        "set vs = {x. v + step \<le> x \<and> x \<le> hi \<and> step dvd (x - (v + step))}"
      by (auto simp: gives_def)
    have "{x. v \<le> x \<and> x \<le> hi \<and> step dvd (x - v)} = insert v (set vs)"
    proof (intro set_eqI iffI)
      fix x assume "x \<in> {x. v \<le> x \<and> x \<le> hi \<and> step dvd (x - v)}"
      then obtain k where k: "v \<le> x" "x \<le> hi" "x - v = step * k" by blast
      show "x \<in> insert v (set vs)"
      proof (cases k)
        case 0
        then show ?thesis using k by simp
      next
        case (Suc n)
        then have "x = v + step + step * n" using k by simp
        then show ?thesis using k(2) by (simp add: vs(3))
      qed
    next
      fix x assume "x \<in> insert v (set vs)"
      then consider "x = v" | "v + step \<le> x" "x \<le> hi" "step dvd (x - (v + step))" by (auto simp: vs(3))
      then show "x \<in> {x. v \<le> x \<and> x \<le> hi \<and> step dvd (x - v)}"
      proof cases
        case 2
        then have "x - v = (x - (v + step)) + step" by simp
        then have "step dvd (x - v)" using 2(3) by (metis dvd_add dvd_refl)
        then show ?thesis using 2 by simp
      qed (simp add: True)
    qed
    moreover have "sorted_wrt (<) (v # vs)" using vs(2,3) assms(1) by auto
    ultimately show ?thesis
      unfolding gives_def using True u vs(1) by (subst count_up.simps) simp
  qed
qed

lemma div_ceil_bounds:
  assumes "0 < step" "0 < gap"
  shows "gap \<le> div_ceil gap step * step" "div_ceil gap step * step < gap + step"
proof -
  define q r where "q = gap div step" and "r = gap mod step"
  have g: "gap = q * step + r" "r < step" using assms(1) by (simp_all add: q_def r_def)
  have "div_ceil gap step = q + (if 0 < r then 1 else 0)" by (simp add: div_ceil_def q_def r_def)
  then show "gap \<le> div_ceil gap step * step" "div_ceil gap step * step < gap + step"
    unfolding g(1) using g(2) by simp_all
qed

text \<open>The first value at or after \<open>lo\<close> of the arithmetic sequence from \<open>start\<close>.\<close>

lemma first_from_spec:
  assumes "0 < step" "lo + step < 2 ^ 32"
  shows "\<exists>v. first_from start step lo = Some v \<and> start \<le> v \<and> step dvd (v - start) \<and> lo \<le> v
           \<and> (start < lo \<longrightarrow> v < lo + step) \<and> (\<not> start < lo \<longrightarrow> v = start)"
proof (cases "start < lo")
  case True
  let ?k = "div_ceil (lo - start) step"
  have b: "lo - start \<le> ?k * step" "?k * step < lo - start + step"
    using div_ceil_bounds [OF assms(1), of "lo - start"] True by simp_all
  then have "?k * step < 2 ^ 32" "start + ?k * step < 2 ^ 32" using assms(2) True by simp_all
  then have "first_from start step lo = Some (start + ?k * step)"
    using True assms(1) by (simp add: first_from_def)
  then show ?thesis using b True by auto
qed (simp add: first_from_def)

lemma sequence_from:
  fixes step start v lo x :: nat
  assumes "0 < step" "start \<le> v" "step dvd (v - start)" "start < lo \<Longrightarrow> v < lo + step" "\<not> start < lo \<Longrightarrow> v = start" "lo \<le> v"
  shows "v \<le> x \<and> step dvd (x - v) \<longleftrightarrow> lo \<le> x \<and> start \<le> x \<and> step dvd (x - start)"
proof
  assume x: "v \<le> x \<and> step dvd (x - v)"
  have "v \<le> x" using x ..
  with assms(2) have "x - start = (x - v) + (v - start)" by linarith
  then have "step dvd (x - start)" using x assms(3) by (metis dvd_add)
  then show "lo \<le> x \<and> start \<le> x \<and> step dvd (x - start)" using x assms(2,6) by simp
next
  assume x: "lo \<le> x \<and> start \<le> x \<and> step dvd (x - start)"
  show "v \<le> x \<and> step dvd (x - v)"
  proof (cases "v \<le> x")
    case True
    then have "x - v = (x - start) - (v - start)" using assms(2) x by simp
    moreover have "step dvd ((x - start) - (v - start))" by (rule dvd_diff_nat) (use x assms(3) in simp_all)
    ultimately show ?thesis using True by simp
  next
    case False
    then have "start < lo" using x assms(5) by force
    moreover have "lo \<le> x" using x by blast
    ultimately have less: "v - x < step" "0 < v - x" using assms(4) False by linarith+
    have "v - x = (v - start) - (x - start)" using x assms(2) by simp
    moreover have "step dvd ((v - start) - (x - start))" by (rule dvd_diff_nat) (use x assms(3) in simp_all)
    ultimately have "step dvd (v - x)" by simp
    then show ?thesis using less dvd_imp_le [of step "v - x"] by simp
  qed
qed


text \<open>Values whose steps leave room below \<open>2 ^ 32\<close>: no addition of a generator wraps.\<close>

fun value_ok :: "calendar_value \<Rightarrow> bool" where
  "value_ok (Val_repeat start step) \<longleftrightarrow> 0 < step \<and> step < 2 ^ 31"
| "value_ok (Val_range_repeat start stop step) \<longleftrightarrow> 0 < step \<and> step < 2 ^ 31"
| "value_ok _ \<longleftrightarrow> True"

fun component_ok :: "calendar_component \<Rightarrow> bool" where
  "component_ok Wildcard \<longleftrightarrow> True"
| "component_ok (Wildcard_repeat step) \<longleftrightarrow> 0 < step \<and> step < 2 ^ 31"
| "component_ok (Value_list vs) \<longleftrightarrow> list_all value_ok vs"

lemma collect_matching_values_spec:
  assumes "value_ok cv" "lo \<le> hi" "hi < 2 ^ 31"
  shows "\<exists>vs. collect_matching_values cv lo hi out = Some (out @ vs) \<and> set vs = {x. lo \<le> x \<and> x \<le> hi \<and> value_matches cv x}"
proof (cases cv)
  case (Val_exact e)
  then show ?thesis by (cases "lo \<le> e \<and> e \<le> hi") (auto intro: exI [of _ "[e]"] exI [of _ "[]"])
next
  case (Val_range a b)
  then show ?thesis by (intro exI [of _ "[max a lo..<Suc (min b hi)]"]) auto
next
  case (Val_repeat start step)
  then have step: "0 < step" "lo + step < 2 ^ 32" "hi + step < 2 ^ 32" using assms by simp_all
  obtain v where v: "first_from start step lo = Some v" "start \<le> v" "step dvd (v - start)" "lo \<le> v"
      "start < lo \<Longrightarrow> v < lo + step" "\<not> start < lo \<Longrightarrow> v = start"
    using first_from_spec [OF step(1,2), of start] by blast
  obtain vs where vs: "count_up v step hi = Some vs" "set vs = {x. v \<le> x \<and> x \<le> hi \<and> step dvd (x - v)}"
    using count_up_gives [OF step(1,3), of v] by (auto simp: gives_def)
  have "x \<in> set vs \<longleftrightarrow> lo \<le> x \<and> x \<le> hi \<and> value_matches cv x" for x
    unfolding vs(2) Val_repeat mem_Collect_eq value_matches.simps
    using sequence_from [OF step(1) v(2,3,5,6,4), of x] by (metis not_less min.bounded_iff)
  then have "set vs = {x. lo \<le> x \<and> x \<le> hi \<and> value_matches cv x}" by blast
  then show ?thesis using v(1) vs(1) Val_repeat by auto
next
  case (Val_range_repeat start stop step)
  then have step: "0 < step" "lo + step < 2 ^ 32" "min stop hi + step < 2 ^ 32"
    using assms by (simp_all add: min_def)
  obtain v where v: "first_from start step lo = Some v" "start \<le> v" "step dvd (v - start)" "lo \<le> v"
      "start < lo \<Longrightarrow> v < lo + step" "\<not> start < lo \<Longrightarrow> v = start"
    using first_from_spec [OF step(1,2), of start] by blast
  obtain vs where vs: "count_up v step (min stop hi) = Some vs" "set vs = {x. v \<le> x \<and> x \<le> min stop hi \<and> step dvd (x - v)}"
    using count_up_gives [OF step(1,3), of v] by (auto simp: gives_def)
  have "x \<in> set vs \<longleftrightarrow> lo \<le> x \<and> x \<le> hi \<and> value_matches cv x" for x
    unfolding vs(2) Val_range_repeat mem_Collect_eq value_matches.simps
    using sequence_from [OF step(1) v(2,3,5,6,4), of x] by (metis not_less min.bounded_iff)
  then have "set vs = {x. lo \<le> x \<and> x \<le> hi \<and> value_matches cv x}" by blast
  then show ?thesis using v(1) vs(1) Val_range_repeat by auto
qed

lemma collect_all_values_spec:
  assumes "list_all value_ok cvs" "lo \<le> hi" "hi < 2 ^ 31"
  shows "\<exists>vs. collect_all_values cvs lo hi out = Some vs
     \<and> set vs = set out \<union> {x. lo \<le> x \<and> x \<le> hi \<and> list_ex (\<lambda>cv. value_matches cv x) cvs}"
  using assms(1)
proof (induction cvs arbitrary: out)
  case (Cons cv cvs)
  obtain ws where ws: "collect_matching_values cv lo hi out = Some (out @ ws)"
      "set ws = {x. lo \<le> x \<and> x \<le> hi \<and> value_matches cv x}"
    using collect_matching_values_spec [OF _ assms(2,3), of cv out] Cons.prems by auto
  obtain vs where "collect_all_values cvs lo hi (out @ ws) = Some vs"
      "set vs = set (out @ ws) \<union> {x. lo \<le> x \<and> x \<le> hi \<and> list_ex (\<lambda>cv. value_matches cv x) cvs}"
    using Cons.IH [of "out @ ws"] Cons.prems by auto
  then show ?case using ws by auto
qed simp

lemma distinct_remdups_adj: "sorted xs \<Longrightarrow> distinct (remdups_adj xs)"
  by (induction xs rule: remdups_adj.induct) (auto simp: less_le)

lemma sort_dedup_gives: "set vs = S \<Longrightarrow> gives (Some (remdups_adj (sort vs))) S"
  by (simp add: gives_def strict_sorted_iff distinct_remdups_adj)


lemma matching_values_gives:
  assumes "component_ok c" "lo \<le> hi" "hi < 2 ^ 31"
  shows "gives (matching_values_from c lo hi) {x. lo \<le> x \<and> x \<le> hi \<and> component_matches c x}"
proof (cases c)
  case Wildcard
  have "sorted_wrt (<) [lo..<Suc hi]" by (rule sorted_wrt_upt)
  then show ?thesis unfolding Wildcard gives_def by (intro exI [of _ "[lo..<Suc hi]"]) (auto simp del: upt_Suc)
next
  case (Wildcard_repeat step)
  then have step: "0 < step" "hi + step < 2 ^ 32" "lo + step < 2 ^ 32" using assms by simp_all
  define v where "v = (if lo mod step = 0 then lo else lo + (step - lo mod step))"
  have m: "lo mod step < step" using step(1) by simp
  then have v: "step dvd v" "lo \<le> v" "v < lo + step" "v < 2 ^ 32"
  proof -
    have "v = (lo div step) * step + (if lo mod step = 0 then 0 else step)"
    proof (cases "lo mod step = 0")
      case True
      then show ?thesis by (auto simp: v_def)
    next
      case False
      then have "lo + (step - lo mod step) = lo div step * step + step"
        using m div_mult_mod_eq [of lo step] by linarith
      then show ?thesis using False by (simp add: v_def)
    qed
    then show "step dvd v" by simp
    define r where "r = lo mod step"
    have "r < step" "v = (if r = 0 then lo else lo + (step - r))" using m by (simp_all add: r_def v_def)
    then show "lo \<le> v" "v < lo + step" "v < 2 ^ 32" using step by (cases "r = 0", simp_all)+
  qed
  have call: "matching_values_from c lo hi = count_up v step hi"
    using v(4) step(1) Wildcard_repeat by (auto simp: v_def Let_def)
  have "v \<le> x \<and> step dvd (x - v) \<longleftrightarrow> lo \<le> x \<and> step dvd x" for x
    using sequence_from [of step 0 v lo x] step(1) v m by (auto simp: v_def split: if_splits)
  then have "{x. v \<le> x \<and> x \<le> hi \<and> step dvd (x - v)} = {x. lo \<le> x \<and> x \<le> hi \<and> component_matches c x}"
    using Wildcard_repeat by auto
  then show ?thesis using count_up_gives [OF step(1,2), of v] call by simp
next
  case (Value_list vs)
  obtain out where out: "collect_all_values vs lo hi [] = Some out"
      "set out = {x. lo \<le> x \<and> x \<le> hi \<and> component_matches c x}"
    using collect_all_values_spec [of vs lo hi "[]"] assms Value_list by auto
  then show ?thesis using sort_dedup_gives [OF out(2)] Value_list by simp
qed

section \<open>Days counted from the end of the month\<close>

text \<open>Which days of a month of \<open>max_day\<close> days a from-end value means.\<close>

fun from_end_matches :: "nat \<Rightarrow> calendar_value \<Rightarrow> nat \<Rightarrow> bool" where
  "from_end_matches max_day (Val_exact n) d \<longleftrightarrow> n + d = max_day + 1 \<and> 1 \<le> n"
| "from_end_matches max_day (Val_range a b) d \<longleftrightarrow>
     1 \<le> min a b \<and> max a b \<le> max_day \<and> min a b + d \<le> max_day + 1 \<and> max_day + 1 \<le> max a b + d"
| "from_end_matches max_day (Val_repeat start step) d \<longleftrightarrow>
     1 \<le> start \<and> start \<le> max_day \<and> d \<le> max_day \<and> max_day + 1 \<le> start + d \<and> step dvd (start + d - (max_day + 1))"
| "from_end_matches max_day (Val_range_repeat a b step) d \<longleftrightarrow>
     1 \<le> min a b \<and> max a b \<le> max_day \<and> min a b + d \<le> max_day + 1 \<and> max_day + 1 \<le> max a b + d
     \<and> step dvd (max a b + d - (max_day + 1))"

fun from_end_component :: "nat \<Rightarrow> calendar_component \<Rightarrow> nat \<Rightarrow> bool" where
  "from_end_component max_day (Value_list vs) d \<longleftrightarrow> list_ex (\<lambda>cv. from_end_matches max_day cv d) vs"
| "from_end_component max_day c d \<longleftrightarrow> component_matches c d"

lemma range_days_count_up: "0 < step \<Longrightarrow> hi + step < 2 ^ 32 \<Longrightarrow> range_days d step hi = count_up d step hi"
proof (induction "Suc hi - d" arbitrary: d rule: less_induct)
  case less
  then show ?case
    by (cases "d \<le> hi") (subst range_days.simps, subst count_up.simps, simp)+
qed

lemma repeat_days_count_up:
  "0 < step \<Longrightarrow> hi + step < 2 ^ 32 \<Longrightarrow> d \<le> hi \<Longrightarrow> repeat_days d step hi = count_up d step hi"
proof (induction "Suc hi - d" arbitrary: d rule: less_induct)
  case less
  have u: "u32 (d + step) = d + step" using less.prems by simp
  show ?case
  proof (cases "d + step \<le> hi")
    case True
    then have "repeat_days (d + step) step hi = count_up (d + step) step hi"
      using less.prems by (intro less.hyps) auto
    then show ?thesis
      using True u less.prems by (subst repeat_days.simps, subst count_up.simps) simp
  next
    case False
    then have "count_up (d + step) step hi = Some []" by (subst count_up.simps) simp
    then show ?thesis
      using False u less.prems by (subst repeat_days.simps, subst count_up.simps) simp
  qed
qed


lemma from_end_value_spec:
  assumes "value_ok cv" "max_day < 2 ^ 31"
  shows "\<exists>ds. from_end_value max_day cv = Some ds \<and> set ds = {d. 1 \<le> d \<and> d \<le> max_day \<and> from_end_matches max_day cv d}"
proof (cases cv)
  case (Val_exact n)
  then show ?thesis by (auto simp: abs_day_def)
next
  case (Val_range a b)
  show ?thesis
  proof (cases "1 \<le> a \<and> a \<le> max_day \<and> 1 \<le> b \<and> b \<le> max_day")
    case True
    then have "abs_day max_day a = Some (max_day - a + 1)" "abs_day max_day b = Some (max_day - b + 1)"
      by (simp_all add: abs_day_def)
    moreover have "{min (max_day - a + 1) (max_day - b + 1)..<Suc (max (max_day - a + 1) (max_day - b + 1))} =
        {d. 1 \<le> d \<and> d \<le> max_day \<and> from_end_matches max_day cv d}"
      using True by (auto simp: Val_range min_def max_def)
    ultimately show ?thesis by (simp add: Val_range del: upt_Suc)
  next
    case False
    then have "from_end_value max_day cv = Some []" by (auto simp: Val_range abs_day_def)
    moreover have "{d. 1 \<le> d \<and> d \<le> max_day \<and> from_end_matches max_day cv d} = {}"
      using False by (auto simp: Val_range min_def max_def)
    ultimately show ?thesis by simp
  qed
next
  case (Val_repeat start step)
  then have step: "0 < step" "max_day + step < 2 ^ 32" using assms by simp_all
  show ?thesis
  proof (cases "1 \<le> start \<and> start \<le> max_day")
    case True
    define d0 where "d0 = max_day - start + 1"
    have "1 \<le> start" "start \<le> max_day" using True by blast+
    then have d0: "d0 \<le> max_day" "1 \<le> d0" "d0 + start = max_day + 1" unfolding d0_def by linarith+
    obtain ds where ds: "count_up d0 step max_day = Some ds" "set ds = {x. d0 \<le> x \<and> x \<le> max_day \<and> step dvd (x - d0)}"
      using count_up_gives [OF step, of d0] by (auto simp: gives_def)
    have "from_end_value max_day cv = Some ds"
      using True ds(1) repeat_days_count_up [OF step d0(1)] by (simp add: Val_repeat abs_day_def d0_def)
    moreover have "start + d - (max_day + 1) = d - d0" if "d0 \<le> d" for d using d0 that by linarith
    then have "set ds = {d. 1 \<le> d \<and> d \<le> max_day \<and> from_end_matches max_day cv d}"
      using True d0 by (auto simp: ds(2) Val_repeat)
    ultimately show ?thesis by blast
  qed (auto simp: Val_repeat abs_day_def)
next
  case (Val_range_repeat a b step)
  show ?thesis
  proof (cases "1 \<le> a \<and> a \<le> max_day \<and> 1 \<le> b \<and> b \<le> max_day")
    case True
    define lo where "lo = min (max_day - a + 1) (max_day - b + 1)"
    define hi where "hi = max (max_day - a + 1) (max_day - b + 1)"
    have step: "0 < step" "hi + step < 2 ^ 32" using assms True by (auto simp: Val_range_repeat hi_def)
    have lo: "lo + max a b = max_day + 1" "hi + min a b = max_day + 1" "1 \<le> lo" "hi \<le> max_day"
      using True by (auto simp: lo_def hi_def min_def max_def)
    obtain ds where ds: "count_up lo step hi = Some ds" "set ds = {x. lo \<le> x \<and> x \<le> hi \<and> step dvd (x - lo)}"
      using count_up_gives [OF step, of lo] by (auto simp: gives_def)
    have "from_end_value max_day cv = Some ds"
      using True ds(1) range_days_count_up [OF step, of lo] by (simp add: Val_range_repeat abs_day_def lo_def hi_def)
    moreover have "max a b + d - (max_day + 1) = d - lo" if "lo \<le> d" for d using lo that by linarith
    then have "set ds = {d. 1 \<le> d \<and> d \<le> max_day \<and> from_end_matches max_day cv d}"
      using True lo by (auto simp: ds(2) Val_range_repeat)
    ultimately show ?thesis by blast
  next
    case False
    then have "from_end_value max_day cv = Some []" by (auto simp: Val_range_repeat abs_day_def)
    moreover have "{d. 1 \<le> d \<and> d \<le> max_day \<and> from_end_matches max_day cv d} = {}"
      using False by (auto simp: Val_range_repeat min_def max_def)
    ultimately show ?thesis by simp
  qed
qed

lemma from_end_values_spec:
  assumes "list_all value_ok cvs" "max_day < 2 ^ 31"
  shows "\<exists>ds. from_end_values max_day cvs = Some ds
     \<and> set ds = {d. 1 \<le> d \<and> d \<le> max_day \<and> list_ex (\<lambda>cv. from_end_matches max_day cv d) cvs}"
  using assms(1)
proof (induction cvs)
  case (Cons cv cvs)
  obtain ds where "from_end_value max_day cv = Some ds" "set ds = {d. 1 \<le> d \<and> d \<le> max_day \<and> from_end_matches max_day cv d}"
    using from_end_value_spec [OF _ assms(2), of cv] Cons.prems by auto
  moreover obtain es where "from_end_values max_day cvs = Some es"
      "set es = {d. 1 \<le> d \<and> d \<le> max_day \<and> list_ex (\<lambda>cv. from_end_matches max_day cv d) cvs}"
    using Cons by auto
  ultimately show ?case by auto
qed simp

lemma resolve_from_end_gives:
  assumes "component_ok c" "1 \<le> lo" "lo \<le> max_day" "max_day < 2 ^ 31"
  shows "gives (resolve_from_end_days c lo max_day) {d. lo \<le> d \<and> d \<le> max_day \<and> from_end_component max_day c d}"
proof (cases "\<exists>vs. c = Value_list vs")
  case True
  then obtain vs where vs: "c = Value_list vs" by blast
  obtain ds where ds: "from_end_values max_day vs = Some ds"
      "set ds = {d. 1 \<le> d \<and> d \<le> max_day \<and> list_ex (\<lambda>cv. from_end_matches max_day cv d) vs}"
    using from_end_values_spec [OF _ assms(4), of vs] assms(1) vs by auto
  have "set (filter (\<lambda>d. d \<ge> lo) ds) = {d. lo \<le> d \<and> d \<le> max_day \<and> from_end_component max_day c d}"
    using assms(2) by (auto simp: ds(2) vs)
  from sort_dedup_gives [OF this] show ?thesis by (simp add: resolve_from_end_days_def vs ds(1))
next
  case False
  then have c: "resolve_from_end_days c lo max_day = matching_values_from c lo max_day"
      "from_end_component max_day c d = component_matches c d" for d
    by (cases c; simp add: resolve_from_end_days_def)+
  show ?thesis unfolding c using matching_values_gives [OF assms(1,3,4)] .
qed


section \<open>The least matching date and time\<close>

text \<open>What a specification means, without any search.\<close>

definition spec_matches :: "calendar_spec \<Rightarrow> date_time \<Rightarrow> bool" where
  "spec_matches spec x \<longleftrightarrow>
     valid_date (dt_year x) (dt_month x) (dt_day x)
     \<and> dt_hour x < 24 \<and> dt_minute x < 60 \<and> dt_second x < 60
     \<and> (case cal_year spec of None \<Rightarrow> True | Some c \<Rightarrow> component_matches c (nat (dt_year x)))
     \<and> component_matches (cal_month spec) (dt_month x)
     \<and> (if day_from_end spec then from_end_component (days_in_month (dt_year x) (dt_month x)) (cal_day spec) (dt_day x)
        else component_matches (cal_day spec) (dt_day x))
     \<and> weekday_allowed (weekdays spec) (weekday (dt_year x) (dt_month x) (dt_day x))
     \<and> component_matches (cal_hour spec) (dt_hour x) \<and> component_matches (cal_minute spec) (dt_minute x)
     \<and> component_matches (cal_second spec) (dt_second x)"

definition spec_ok :: "calendar_spec \<Rightarrow> bool" where
  "spec_ok spec \<longleftrightarrow>
     fixed_instant spec = None \<and> (case cal_year spec of None \<Rightarrow> True | Some c \<Rightarrow> component_ok c)
     \<and> component_ok (cal_month spec) \<and> component_ok (cal_day spec) \<and> component_ok (cal_hour spec)
     \<and> component_ok (cal_minute spec) \<and> component_ok (cal_second spec)"

definition least_of :: "'a::linorder set \<Rightarrow> 'a option \<Rightarrow> bool" where
  "least_of S r \<longleftrightarrow> (case r of None \<Rightarrow> S = {} | Some x \<Rightarrow> x \<in> S \<and> S \<subseteq> {x..})"

text \<open>A loop over increasing values finds the least element when its body does for each value.\<close>

lemma for_return_least:
  assumes "sorted_wrt (<) xs"
    and "\<And>x. x \<in> set xs \<Longrightarrow> \<exists>r. body x = Some r \<and> least_of (S x) r"
    and "\<And>x y a b. x \<in> set xs \<Longrightarrow> y \<in> set xs \<Longrightarrow> x < y \<Longrightarrow> a \<in> S x \<Longrightarrow> b \<in> S y \<Longrightarrow> a \<le> b"
  shows "\<exists>r. for_return body xs = Some r \<and> least_of (\<Union>x \<in> set xs. S x) r"
  using assms
proof (induction xs)
  case Nil
  then show ?case by (simp add: least_of_def)
next
  case (Cons x xs)
  obtain r where r: "body x = Some r" "least_of (S x) r" using Cons.prems(2) [of x] by auto
  have "\<exists>q. for_return body xs = Some q \<and> least_of (\<Union>x \<in> set xs. S x) q"
  proof (rule Cons.IH)
    show "a \<le> b" if "u \<in> set xs" "v \<in> set xs" "u < v" "a \<in> S u" "b \<in> S v" for u v a b
      by (rule Cons.prems(3) [OF _ _ that(3-5)]) (use that in simp_all)
  qed (use Cons.prems(1,2) in auto)
  then obtain q where q: "for_return body xs = Some q" "least_of (\<Union>x \<in> set xs. S x) q" by blast
  show ?case
  proof (cases r)
    case None
    then show ?thesis using r q by (simp add: least_of_def)
  next
    case (Some a)
    have "(\<Union>x \<in> set (x # xs). S x) \<subseteq> {a..}"
    proof
      fix b assume "b \<in> (\<Union>x \<in> set (x # xs). S x)"
      then consider "b \<in> S x" | y where "y \<in> set xs" "b \<in> S y" by auto
      then show "b \<in> {a..}"
      proof cases
        case 1
        then show ?thesis using r(2) Some by (auto simp: least_of_def)
      next
        case 2
        then show ?thesis using Cons.prems(1) Cons.prems(3) [of x y a b] r(2) Some by (auto simp: least_of_def)
      qed
    qed
    then show ?thesis using r Some by (auto simp: least_of_def)
  qed
qed

lemma for_return_gives:
  assumes "gives vs V" "\<And>x. x \<in> V \<Longrightarrow> \<exists>r. body x = Some r \<and> least_of (S x) r"
    and "\<And>x y a b. x \<in> V \<Longrightarrow> y \<in> V \<Longrightarrow> x < y \<Longrightarrow> a \<in> S x \<Longrightarrow> b \<in> S y \<Longrightarrow> a \<le> b"
    and "T = (\<Union>x \<in> V. S x)"
  shows "\<exists>r. Option.bind vs (for_return body) = Some r \<and> least_of T r"
proof -
  obtain xs where "vs = Some xs" "sorted_wrt (<) xs" "set xs = V" using assms(1) by (auto simp: gives_def)
  then show ?thesis using for_return_least [of xs body S] assms(2-4) by auto
qed


text \<open>
  The candidates of a search that starts at \<open>af\<close>, and the values a loop tries: those at or after
  the field of \<open>af\<close> while the fields before it are the same.
\<close>

definition candidates :: "calendar_spec \<Rightarrow> date_time \<Rightarrow> (date_time \<Rightarrow> bool) \<Rightarrow> date_time set" where
  "candidates spec af P = {x. spec_matches spec x \<and> af \<le> x \<and> P x}"

lemma elapse_candidates_iff: "x \<in> candidates spec af P \<longleftrightarrow> spec_matches spec x \<and> dt_key af \<le> dt_key x \<and> P x"
  by (simp add: candidates_def less_eq_date_time_ext_def)

lemma minute_least:
  assumes ok: "spec_ok spec" and af: "valid_datetime af"
    and pre: "(dt_year af, dt_month af, dt_day af, dt_hour af, dt_minute af) \<le> (y, m, d, h, mi)"
    and match: "\<And>s. component_matches (cal_second spec) s \<Longrightarrow> s < 60 \<Longrightarrow>
      spec_matches spec \<lparr>dt_year = y, dt_month = m, dt_day = d, dt_hour = h, dt_minute = mi, dt_second = s\<rparr>"
  shows "\<exists>r. elapse_in_minute spec af y m d h mi = Some r
     \<and> least_of (candidates spec af (\<lambda>x. dt_year x = y \<and> dt_month x = m \<and> dt_day x = d \<and> dt_hour x = h \<and> dt_minute x = mi)) r"
proof -
  define s0 where "s0 = (if y = dt_year af \<and> m = dt_month af \<and> d = dt_day af \<and> h = dt_hour af \<and> mi = dt_minute af
                     then dt_second af else 0)"
  let ?C = "candidates spec af (\<lambda>x. dt_year x = y \<and> dt_month x = m \<and> dt_day x = d \<and> dt_hour x = h \<and> dt_minute x = mi)"
  let ?at = "\<lambda>s. \<lparr>dt_year = y, dt_month = m, dt_day = d, dt_hour = h, dt_minute = mi, dt_second = s\<rparr>"
  have "dt_second af < 60" using af by (simp add: valid_datetime_def)
  then have "gives (matching_values_from (cal_second spec) s0 59) {s. s0 \<le> s \<and> s \<le> 59 \<and> component_matches (cal_second spec) s}"
    using ok by (intro matching_values_gives) (auto simp: spec_ok_def s0_def)
  then obtain ss where ss: "matching_values_from (cal_second spec) s0 59 = Some ss" "sorted_wrt (<) ss"
      "set ss = {s. s0 \<le> s \<and> s \<le> 59 \<and> component_matches (cal_second spec) s}"
    by (auto simp: gives_def)
  have C: "x \<in> ?C \<longleftrightarrow> (\<exists>s \<in> set ss. x = ?at s)" for x
  proof
    assume x: "x \<in> ?C"
    then have eq: "x = ?at (dt_second x)" by (cases x) (simp add: elapse_candidates_iff)
    have "s0 \<le> dt_second x" using x by (auto simp: elapse_candidates_iff s0_def dt_key_def)
    moreover have "dt_second x < 60" "component_matches (cal_second spec) (dt_second x)"
      using x by (auto simp: elapse_candidates_iff spec_matches_def)
    ultimately have "dt_second x \<in> set ss" unfolding ss(3) by simp
    then show "\<exists>s \<in> set ss. x = ?at s" using eq by blast
  next
    assume "\<exists>s \<in> set ss. x = ?at s"
    then obtain s where s: "s0 \<le> s" "s \<le> 59" "component_matches (cal_second spec) s" "x = ?at s"
      unfolding ss(3) by blast
    have "spec_matches spec x" using match s by simp
    moreover have "dt_key af \<le> dt_key x"
      using pre s(1) unfolding s(4) dt_key_def by (auto simp: s0_def split: if_splits)
    ultimately show "x \<in> ?C" using s(4) by (simp add: elapse_candidates_iff)
  qed
  show ?thesis
  proof (cases ss)
    case Nil
    then have "?C = {}" using C by auto
    then show ?thesis using ss(1) Nil by (simp add: elapse_in_minute_def s0_def least_of_def)
  next
    case (Cons s rest)
    then have "?at s \<in> ?C" using C by auto
    moreover have "?C \<subseteq> {?at s..}"
      using ss(2) C unfolding Cons by (auto simp: less_eq_date_time_ext_def dt_key_def)
    ultimately show ?thesis using ss(1) Cons by (simp add: elapse_in_minute_def s0_def least_of_def)
  qed
qed


abbreviation in_hour :: "int \<Rightarrow> nat \<Rightarrow> nat \<Rightarrow> nat \<Rightarrow> date_time \<Rightarrow> bool" where
  "in_hour y m d h x \<equiv> dt_year x = y \<and> dt_month x = m \<and> dt_day x = d \<and> dt_hour x = h"

lemma hour_least:
  assumes ok: "spec_ok spec" and af: "valid_datetime af"
    and pre: "(dt_year af, dt_month af, dt_day af, dt_hour af) \<le> (y, m, d, h)"
    and match: "\<And>mi s. component_matches (cal_minute spec) mi \<Longrightarrow> mi < 60 \<Longrightarrow> component_matches (cal_second spec) s \<Longrightarrow> s < 60 \<Longrightarrow>
      spec_matches spec \<lparr>dt_year = y, dt_month = m, dt_day = d, dt_hour = h, dt_minute = mi, dt_second = s\<rparr>"
  shows "\<exists>r. elapse_in_hour spec af y m d h = Some r \<and> least_of (candidates spec af (in_hour y m d h)) r"
proof -
  define lo where "lo = (if y = dt_year af \<and> m = dt_month af \<and> d = dt_day af \<and> h = dt_hour af then dt_minute af else 0)"
  have "dt_minute af < 60" using af by (simp add: valid_datetime_def)
  then have g: "gives (matching_values_from (cal_minute spec) lo 59)
      {mi. lo \<le> mi \<and> mi \<le> 59 \<and> component_matches (cal_minute spec) mi}" (is "gives _ ?V")
    using ok by (intro matching_values_gives) (auto simp: spec_ok_def lo_def)
  let ?S = "\<lambda>mi. candidates spec af (\<lambda>x. dt_year x = y \<and> dt_month x = m \<and> dt_day x = d \<and> dt_hour x = h \<and> dt_minute x = mi)"
  show ?thesis
    unfolding elapse_in_hour_def Let_def lo_def [symmetric]
  proof (rule for_return_gives [OF g, where S = ?S])
    show "\<exists>r. elapse_in_minute spec af y m d h mi = Some r \<and> least_of (?S mi) r" if "mi \<in> ?V" for mi
    proof (rule minute_least [OF ok af])
      show "(dt_year af, dt_month af, dt_day af, dt_hour af, dt_minute af) \<le> (y, m, d, h, mi)"
        using pre that by (auto simp: lo_def split: if_splits)
    qed (use match that in auto)
    show "a \<le> b" if "mi < mi'" "a \<in> ?S mi" "b \<in> ?S mi'" for mi mi' a b
      using that by (auto simp: elapse_candidates_iff less_eq_date_time_ext_def dt_key_def)
    show "candidates spec af (in_hour y m d h) = (\<Union>mi \<in> ?V. ?S mi)"
    proof (intro set_eqI iffI)
      fix x assume x: "x \<in> candidates spec af (in_hour y m d h)"
      then have "lo \<le> dt_minute x" by (auto simp: elapse_candidates_iff lo_def dt_key_def)
      moreover have "dt_minute x \<le> 59" "component_matches (cal_minute spec) (dt_minute x)"
        using x by (auto simp: elapse_candidates_iff spec_matches_def)
      ultimately have "dt_minute x \<in> ?V" by simp
      moreover have "x \<in> ?S (dt_minute x)" using x by (simp add: elapse_candidates_iff)
      ultimately show "x \<in> (\<Union>mi \<in> ?V. ?S mi)" by blast
    qed (auto simp: elapse_candidates_iff)
  qed
qed

abbreviation on_day :: "int \<Rightarrow> nat \<Rightarrow> nat \<Rightarrow> date_time \<Rightarrow> bool" where
  "on_day y m d x \<equiv> dt_year x = y \<and> dt_month x = m \<and> dt_day x = d"

lemma day_least:
  assumes ok: "spec_ok spec" and af: "valid_datetime af"
    and pre: "(dt_year af, dt_month af, dt_day af) \<le> (y, m, d)"
    and match: "\<And>h mi s. weekday_allowed (weekdays spec) (weekday y m d) \<Longrightarrow>
      component_matches (cal_hour spec) h \<Longrightarrow> h < 24 \<Longrightarrow> component_matches (cal_minute spec) mi \<Longrightarrow> mi < 60 \<Longrightarrow>
      component_matches (cal_second spec) s \<Longrightarrow> s < 60 \<Longrightarrow>
      spec_matches spec \<lparr>dt_year = y, dt_month = m, dt_day = d, dt_hour = h, dt_minute = mi, dt_second = s\<rparr>"
  shows "\<exists>r. elapse_on_day spec af y m d = Some r \<and> least_of (candidates spec af (on_day y m d)) r"
proof (cases "weekday_allowed (weekdays spec) (weekday y m d)")
  case False
  then have "candidates spec af (on_day y m d) = {}" by (auto simp: elapse_candidates_iff spec_matches_def)
  then show ?thesis using False by (simp add: elapse_on_day_def least_of_def)
next
  case True
  define lo where "lo = (if y = dt_year af \<and> m = dt_month af \<and> d = dt_day af then dt_hour af else 0)"
  have "dt_hour af < 24" using af by (simp add: valid_datetime_def)
  then have g: "gives (matching_values_from (cal_hour spec) lo 23)
      {h. lo \<le> h \<and> h \<le> 23 \<and> component_matches (cal_hour spec) h}" (is "gives _ ?V")
    using ok by (intro matching_values_gives) (auto simp: spec_ok_def lo_def)
  let ?S = "\<lambda>h. candidates spec af (in_hour y m d h)"
  have "\<exists>r. Option.bind (matching_values_from (cal_hour spec) lo 23) (for_return (elapse_in_hour spec af y m d)) = Some r
      \<and> least_of (candidates spec af (on_day y m d)) r"
  proof (rule for_return_gives [OF g, where S = ?S])
    show "\<exists>r. elapse_in_hour spec af y m d h = Some r \<and> least_of (?S h) r" if "h \<in> ?V" for h
    proof (rule hour_least [OF ok af])
      show "(dt_year af, dt_month af, dt_day af, dt_hour af) \<le> (y, m, d, h)"
        using pre that by (auto simp: lo_def split: if_splits)
    qed (use match True that in auto)
    show "a \<le> b" if "h < h'" "a \<in> ?S h" "b \<in> ?S h'" for h h' a b
      using that by (auto simp: elapse_candidates_iff less_eq_date_time_ext_def dt_key_def)
    show "candidates spec af (on_day y m d) = (\<Union>h \<in> ?V. ?S h)"
    proof (intro set_eqI iffI)
      fix x assume x: "x \<in> candidates spec af (on_day y m d)"
      then have "lo \<le> dt_hour x" by (auto simp: elapse_candidates_iff lo_def dt_key_def)
      moreover have "dt_hour x \<le> 23" "component_matches (cal_hour spec) (dt_hour x)"
        using x by (auto simp: elapse_candidates_iff spec_matches_def)
      ultimately have "dt_hour x \<in> ?V" by simp
      moreover have "x \<in> ?S (dt_hour x)" using x by (simp add: elapse_candidates_iff)
      ultimately show "x \<in> (\<Union>h \<in> ?V. ?S h)" by blast
    qed (auto simp: elapse_candidates_iff)
  qed
  then show ?thesis unfolding elapse_on_day_def Let_def lo_def [symmetric] using True by simp
qed

abbreviation day_matches :: "calendar_spec \<Rightarrow> int \<Rightarrow> nat \<Rightarrow> nat \<Rightarrow> bool" where
  "day_matches spec y m d \<equiv>
     (if day_from_end spec then from_end_component (days_in_month y m) (cal_day spec) d
      else component_matches (cal_day spec) d)"

abbreviation time_matches :: "calendar_spec \<Rightarrow> date_time \<Rightarrow> bool" where
  "time_matches spec x \<equiv>
     weekday_allowed (weekdays spec) (weekday (dt_year x) (dt_month x) (dt_day x))
     \<and> component_matches (cal_hour spec) (dt_hour x) \<and> dt_hour x < 24
     \<and> component_matches (cal_minute spec) (dt_minute x) \<and> dt_minute x < 60
     \<and> component_matches (cal_second spec) (dt_second x) \<and> dt_second x < 60"

lemma month_least:
  assumes ok: "spec_ok spec" and af: "valid_datetime af"
    and pre: "(dt_year af, dt_month af) \<le> (y, m)" and m: "1 \<le> m" "m \<le> 12"
    and match: "\<And>x. dt_year x = y \<Longrightarrow> dt_month x = m \<Longrightarrow> 1 \<le> dt_day x \<Longrightarrow> dt_day x \<le> days_in_month y m \<Longrightarrow>
      day_matches spec y m (dt_day x) \<Longrightarrow> time_matches spec x \<Longrightarrow> spec_matches spec x"
  shows "\<exists>r. elapse_in_month spec af y m = Some r
     \<and> least_of (candidates spec af (\<lambda>x. dt_year x = y \<and> dt_month x = m)) r"
proof -
  define hi where "hi = days_in_month y m"
  define lo where "lo = (if y = dt_year af \<and> m = dt_month af then dt_day af else 1)"
  define days where "days = (if day_from_end spec then resolve_from_end_days (cal_day spec) lo hi
                             else matching_values_from (cal_day spec) lo hi)"
  have hi: "28 \<le> hi" "hi \<le> 31" by (auto simp: hi_def days_in_month_def)
  have lo: "1 \<le> lo" "lo \<le> hi"
    using af hi by (auto simp: lo_def hi_def valid_datetime_def valid_date_def)
  have day_ok: "component_ok (cal_day spec)" using ok by (simp add: spec_ok_def)
  let ?V = "{d. lo \<le> d \<and> d \<le> hi \<and> day_matches spec y m d}"
  have g: "gives days ?V"
    using matching_values_gives [OF day_ok lo(2)] resolve_from_end_gives [OF day_ok lo] hi
    by (auto simp: days_def hi_def)
  then obtain ds where ds: "days = Some ds" "set ds = ?V" by (auto simp: gives_def)
  then have take: "takeWhile (\<lambda>d. \<not> d > hi) ds = ds" by auto
  let ?S = "\<lambda>d. candidates spec af (on_day y m d)"
  have "\<exists>r. Option.bind days (for_return (elapse_on_day spec af y m)) = Some r
      \<and> least_of (candidates spec af (\<lambda>x. dt_year x = y \<and> dt_month x = m)) r"
  proof (rule for_return_gives [OF g, where S = ?S])
    show "\<exists>r. elapse_on_day spec af y m d = Some r \<and> least_of (?S d) r" if "d \<in> ?V" for d
    proof (rule day_least [OF ok af])
      show "(dt_year af, dt_month af, dt_day af) \<le> (y, m, d)"
        using pre that by (auto simp: lo_def split: if_splits)
    qed (use that lo(1) in \<open>auto intro!: match simp: hi_def\<close>)
    show "a \<le> b" if "d < d'" "a \<in> ?S d" "b \<in> ?S d'" for d d' a b
      using that by (auto simp: elapse_candidates_iff less_eq_date_time_ext_def dt_key_def)
    show "candidates spec af (\<lambda>x. dt_year x = y \<and> dt_month x = m) = (\<Union>d \<in> ?V. ?S d)"
    proof (intro set_eqI iffI)
      fix x assume x: "x \<in> candidates spec af (\<lambda>x. dt_year x = y \<and> dt_month x = m)"
      then have v: "valid_date y m (dt_day x)" "day_matches spec y m (dt_day x)"
        by (auto simp: elapse_candidates_iff spec_matches_def)
      then have "1 \<le> dt_day x" "dt_day x \<le> hi" by (simp_all add: valid_date_def hi_def)
      moreover have "lo \<le> dt_day x" using x \<open>1 \<le> dt_day x\<close> by (auto simp: elapse_candidates_iff lo_def dt_key_def)
      ultimately have "dt_day x \<in> ?V" using v(2) by simp
      moreover have "x \<in> ?S (dt_day x)" using x by (simp add: elapse_candidates_iff)
      ultimately show "x \<in> (\<Union>d \<in> ?V. ?S d)" by blast
    qed (auto simp: elapse_candidates_iff)
  qed
  then show ?thesis
    unfolding elapse_in_month_def Let_def hi_def [symmetric] lo_def [symmetric] days_def [symmetric]
    by (simp only: ds(1) take Option.bind.simps)
qed


lemma year_least:
  assumes ok: "spec_ok spec" and af: "valid_datetime af"
    and pre: "dt_year af \<le> int y" and y: "int y < 2 ^ 31"
    and match: "case cal_year spec of None \<Rightarrow> True | Some c \<Rightarrow> component_matches c y"
  shows "\<exists>r. elapse_in_year spec af y = Some r \<and> least_of (candidates spec af (\<lambda>x. dt_year x = int y)) r"
proof -
  have i32: "as_i32 (int y) = int y" using y by simp
  define lo where "lo = (if int y = dt_year af then dt_month af else 1)"
  have lo: "1 \<le> lo" "lo \<le> 12" using af by (auto simp: lo_def valid_datetime_def valid_date_def)
  then have g: "gives (matching_values_from (cal_month spec) lo 12)
      {m. lo \<le> m \<and> m \<le> 12 \<and> component_matches (cal_month spec) m}" (is "gives _ ?V")
    using ok by (intro matching_values_gives) (auto simp: spec_ok_def)
  let ?S = "\<lambda>m. candidates spec af (\<lambda>x. dt_year x = int y \<and> dt_month x = m)"
  show ?thesis
    unfolding elapse_in_year_def i32 Let_def lo_def [symmetric]
  proof (rule for_return_gives [OF g, where S = ?S])
    show "\<exists>r. elapse_in_month spec af (int y) m = Some r \<and> least_of (?S m) r" if "m \<in> ?V" for m
    proof (rule month_least [OF ok af])
      show "(dt_year af, dt_month af) \<le> (int y, m)" using pre that by (auto simp: lo_def split: if_splits)
      show "1 \<le> m" "m \<le> 12" using that lo(1) by simp_all
      show "spec_matches spec x"
        if "dt_year x = int y" "dt_month x = m" "1 \<le> dt_day x" "dt_day x \<le> days_in_month (int y) m"
          "day_matches spec (int y) m (dt_day x)" "time_matches spec x" for x
        using that \<open>m \<in> ?V\<close> lo(1) match unfolding spec_matches_def valid_date_def
        by (simp split: option.splits)
    qed
    show "a \<le> b" if "m < m'" "a \<in> ?S m" "b \<in> ?S m'" for m m' a b
      using that by (auto simp: elapse_candidates_iff less_eq_date_time_ext_def dt_key_def)
    show "candidates spec af (\<lambda>x. dt_year x = int y) = (\<Union>m \<in> ?V. ?S m)"
    proof (intro set_eqI iffI)
      fix x assume x: "x \<in> candidates spec af (\<lambda>x. dt_year x = int y)"
      then have v: "1 \<le> dt_month x" "dt_month x \<le> 12" "component_matches (cal_month spec) (dt_month x)"
        by (auto simp: elapse_candidates_iff spec_matches_def valid_date_def)
      moreover have "lo \<le> dt_month x" using x v(1) by (auto simp: elapse_candidates_iff lo_def dt_key_def)
      ultimately have "dt_month x \<in> ?V" by simp
      moreover have "x \<in> ?S (dt_month x)" using x by (simp add: elapse_candidates_iff)
      ultimately show "x \<in> (\<Union>m \<in> ?V. ?S m)" by blast
    qed (auto simp: elapse_candidates_iff)
  qed
qed

lemma next_elapse_least_of:
  assumes ok: "spec_ok spec" and af: "valid_datetime af" and y: "0 \<le> dt_year af" "dt_year af + 5 < 2 ^ 31"
  shows "\<exists>r. next_elapse spec af = Some r \<and> least_of (candidates spec af (\<lambda>x. dt_year x \<le> dt_year af + 5)) r"
proof -
  define c where "c = (case cal_year spec of None \<Rightarrow> Wildcard | Some c \<Rightarrow> c)"
  define lo where "lo = nat (dt_year af)"
  have lo: "dt_year af = int lo" using y(1) by (simp add: lo_def)
  have args: "as_u32 (dt_year af) = lo" "as_u32 (as_i32 (dt_year af + 5)) = lo + 5"
    using y by (simp_all add: as_u32_def lo_def nat_add_distrib)
  have c_ok: "component_ok c" and c_iff: "component_matches c v \<longleftrightarrow>
      (case cal_year spec of None \<Rightarrow> True | Some c \<Rightarrow> component_matches c v)" for v
    using ok by (auto simp: c_def spec_ok_def split: option.splits)
  have "lo + 5 < 2 ^ 31" using y by (simp add: lo_def nat_less_iff)
  then have g: "gives (matching_values_from c lo (lo + 5)) {v. lo \<le> v \<and> v \<le> lo + 5 \<and> component_matches c v}" (is "gives _ ?V")
    using c_ok by (intro matching_values_gives) simp_all
  let ?S = "\<lambda>v. candidates spec af (\<lambda>x. dt_year x = int v)"
  have "\<exists>r. Option.bind (matching_values_from c lo (lo + 5)) (for_return (elapse_in_year spec af)) = Some r
      \<and> least_of (candidates spec af (\<lambda>x. dt_year x \<le> dt_year af + 5)) r"
  proof (rule for_return_gives [OF g, where S = ?S])
    show "\<exists>r. elapse_in_year spec af v = Some r \<and> least_of (?S v) r" if "v \<in> ?V" for v
      using that \<open>lo + 5 < 2 ^ 31\<close> lo c_iff by (intro year_least [OF ok af]) auto
    show "a \<le> b" if "v < v'" "a \<in> ?S v" "b \<in> ?S v'" for v v' a b
      using that by (auto simp: elapse_candidates_iff less_eq_date_time_ext_def dt_key_def)
    show "candidates spec af (\<lambda>x. dt_year x \<le> dt_year af + 5) = (\<Union>v \<in> ?V. ?S v)"
    proof (intro set_eqI iffI)
      fix x assume x: "x \<in> candidates spec af (\<lambda>x. dt_year x \<le> dt_year af + 5)"
      then have "dt_year af \<le> dt_year x" by (auto simp: elapse_candidates_iff dt_key_def)
      then have v: "dt_year x = int (nat (dt_year x))" "lo \<le> nat (dt_year x)" "nat (dt_year x) \<le> lo + 5"
        using x lo by (auto simp: elapse_candidates_iff)
      moreover have "component_matches c (nat (dt_year x))"
        using x unfolding c_iff by (auto simp: elapse_candidates_iff spec_matches_def)
      ultimately have "nat (dt_year x) \<in> ?V" by simp
      moreover have "x \<in> ?S (nat (dt_year x))" using x v(1) by (simp add: elapse_candidates_iff)
      ultimately show "x \<in> (\<Union>v \<in> ?V. ?S v)" by blast
    qed (auto simp: elapse_candidates_iff lo)
  qed
  then show ?thesis using ok args by (simp add: next_elapse_def Let_def c_def spec_ok_def)
qed


text \<open>
  The value generator agrees with the matching predicate.  For a component whose steps are
  positive and below \<open>2 ^ 31\<close>, \<open>matching_values_from\<close> returns, and gives exactly the values from
  \<open>lo\<close> to \<open>hi\<close> that \<open>component_matches\<close> accepts, in increasing order and without repetition.
\<close>

theorem generator_agrees_with_matching:
  assumes "component_ok c" "lo \<le> hi" "hi < 2 ^ 31"
  shows "matching_values_from c lo hi = Some (filter (component_matches c) [lo..<Suc hi])"
  using gives_filter [OF matching_values_gives [OF assms]] .

theorem generator_agrees_with_matching_witness:
  "matching_values_from (Value_list [Val_repeat 1 7, Val_exact 2]) 0 9 =
     Some (filter (component_matches (Value_list [Val_repeat 1 7, Val_exact 2])) [0..<Suc 9])"
  by (rule generator_agrees_with_matching) simp_all

text \<open>
  Days counted from the end of the month.  In a month of \<open>max_day\<close> days,
  \<open>resolve_from_end_days\<close> returns, and gives in increasing order exactly the days from \<open>lo\<close> on
  that the component means: \<open>~N\<close> is the day \<open>max_day + 1 - N\<close>, a range or a repetition counts
  forward from its earliest day, and a value outside the month means no day.
\<close>

theorem from_end_days_exact:
  assumes "component_ok c" "1 \<le> lo" "lo \<le> max_day" "max_day < 2 ^ 31"
  shows "resolve_from_end_days c lo max_day = Some (filter (from_end_component max_day c) [lo..<Suc max_day])"
  using gives_filter [OF resolve_from_end_gives [OF assms]] .

theorem from_end_days_exact_witness:
  "resolve_from_end_days (Value_list [Val_range 1 3, Val_exact 31]) 1 30 =
     Some (filter (from_end_component 30 (Value_list [Val_range 1 3, Val_exact 31])) [1..<Suc 30])"
  by (rule from_end_days_exact) simp_all

text \<open>
  C13: The next elapse is the least match.  For a specification without a fixed instant whose
  steps are positive and below \<open>2 ^ 31\<close>, and a valid reference time, \<open>next_elapse\<close> returns.
  If it gives a date and time, that one is valid, matches the specification, is not before the
  reference, and no earlier one qualifies.  If it gives none, no match exists up to the end of
  the fifth year after the reference.
\<close>

theorem next_elapse_is_least:
  assumes "spec_ok spec" "valid_datetime af" "0 \<le> dt_year af" "dt_year af + 5 < 2 ^ 31"
  shows "case next_elapse spec af of
           None \<Rightarrow> False
         | Some None \<Rightarrow> {x. spec_matches spec x \<and> af \<le> x \<and> dt_year x \<le> dt_year af + 5} = {}
         | Some (Some x) \<Rightarrow>
             spec_matches spec x \<and> af \<le> x \<and> dt_year x \<le> dt_year af + 5
             \<and> {z. spec_matches spec z \<and> af \<le> z} \<subseteq> {x..}"
proof -
  obtain r where r: "next_elapse spec af = Some r" "least_of (candidates spec af (\<lambda>x. dt_year x \<le> dt_year af + 5)) r"
    using next_elapse_least_of [OF assms] by blast
  show ?thesis
  proof (cases r)
    case None
    then show ?thesis using r by (simp add: least_of_def candidates_def)
  next
    case (Some x)
    have x: "spec_matches spec x" "af \<le> x" "dt_year x \<le> dt_year af + 5"
        "\<And>z. spec_matches spec z \<Longrightarrow> af \<le> z \<Longrightarrow> dt_year z \<le> dt_year af + 5 \<Longrightarrow> x \<le> z"
      using r(2) Some by (auto simp: least_of_def candidates_def)
    have "x \<le> z" if "spec_matches spec z" "af \<le> z" for z
    proof (cases "dt_year z \<le> dt_year af + 5")
      case False
      then show ?thesis using x(3) by (simp add: less_eq_date_time_ext_def dt_key_def)
    qed (use x(4) that in blast)
    then show ?thesis using r(1) Some x(1-3) by auto
  qed
qed

text \<open>The last day of February at noon, from the first of March 2023.\<close>

definition last_of_february :: calendar_spec where
  "last_of_february =
     \<lparr>original = ''*-02~01 12:00:00'', weekdays = None, cal_year = None,
      cal_month = Value_list [Val_exact 2], cal_day = Value_list [Val_exact 1], day_from_end = True,
      cal_hour = Value_list [Val_exact 12], cal_minute = Value_list [Val_exact 0],
      cal_second = Value_list [Val_exact 0], utc = False, fixed_instant = None\<rparr>"

abbreviation first_of_march :: "int \<Rightarrow> date_time" where
  "first_of_march y \<equiv> \<lparr>dt_year = y, dt_month = 3, dt_day = 1, dt_hour = 0, dt_minute = 0, dt_second = 0\<rparr>"

theorem next_elapse_is_least_witness:
  "case next_elapse last_of_february (first_of_march 2023) of
     None \<Rightarrow> False
   | Some None \<Rightarrow> {x. spec_matches last_of_february x \<and> first_of_march 2023 \<le> x
       \<and> dt_year x \<le> dt_year (first_of_march 2023) + 5} = {}
   | Some (Some x) \<Rightarrow>
       spec_matches last_of_february x \<and> first_of_march 2023 \<le> x \<and> dt_year x \<le> dt_year (first_of_march 2023) + 5
       \<and> {z. spec_matches last_of_february z \<and> first_of_march 2023 \<le> z} \<subseteq> {x..}"
  by (rule next_elapse_is_least)
     (simp_all add: last_of_february_def spec_ok_def valid_datetime_def valid_date_def days_in_month_def)

section \<open>Limits of the search\<close>

text \<open>
  A step near \<open>2 ^ 32\<close> wraps: \<open>05/4294967295\<close> as a second gives the seconds 0 to 5, though the
  predicate rejects 0.
\<close>

lemma step_overflow_wraps:
  "matching_values_from (Value_list [Val_repeat 5 4294967295]) 0 59 = Some [0, 1, 2, 3, 4, 5]"
  "component_matches (Value_list [Val_repeat 5 4294967295]) 0 \<longleftrightarrow> False"
proof -
  have "count_up 5 4294967295 59 = Some [5, 4, 3, 2, 1, 0]"
    by (simp add: count_up.simps u32_def)
  then show "matching_values_from (Value_list [Val_repeat 5 4294967295]) 0 59 = Some [0, 1, 2, 3, 4, 5]"
    by (simp add: first_from_def)
qed simp

text \<open>The search ends five years on, so a leap day beyond the skipped one of 2100 is not found.\<close>

definition leap_days :: calendar_spec where
  "leap_days =
     \<lparr>original = ''*-02-29 00:00:00'', weekdays = None, cal_year = None,
      cal_month = Value_list [Val_exact 2], cal_day = Value_list [Val_exact 29], day_from_end = False,
      cal_hour = Value_list [Val_exact 0], cal_minute = Value_list [Val_exact 0],
      cal_second = Value_list [Val_exact 0], utc = False, fixed_instant = None\<rparr>"

lemma leap_day_not_found:
  "next_elapse leap_days (first_of_march 2096) = Some None"
  "spec_matches leap_days \<lparr>dt_year = 2104, dt_month = 2, dt_day = 29, dt_hour = 0, dt_minute = 0, dt_second = 0\<rparr>"
  by code_simp+

end
