(* ===== verification/RustText.thy ===== *)
theory RustText
  imports Prelude
begin

text \<open>
  The operations of Rust's \<open>str\<close> and of its number parsing and formatting that the text parsers
  of the program use, over UTF-8 bytes: trimming and splitting at Unicode white space,
  \<open>split_once\<close>, \<open>lines\<close>, lower and upper case, \<open>parse\<close> of unsigned integers and \<open>format!\<close> of decimals.  Also the
  results of fallible functions.

  Lemmas: parsing undoes decimal formatting, with or without leading zeros, and the splits undo
  the joins of texts without white space; trimming twice is trimming once.
\<close>

section \<open>Results\<close>

type_synonym 'a result = "string + 'a"

definition and_then :: "'a result \<Rightarrow> ('a \<Rightarrow> 'b result) \<Rightarrow> 'b result" where
  "and_then r f = (case r of Inl e \<Rightarrow> Inl e | Inr x \<Rightarrow> f x)"

lemma and_then_simps [simp]: "and_then (Inl e) f = Inl e" "and_then (Inr x) f = f x"
  by (simp_all add: and_then_def)

lemma and_then_Inr: "and_then r f = Inr y \<longleftrightarrow> (\<exists>x. r = Inr x \<and> f x = Inr y)"
  by (simp add: and_then_def split: sum.split)

definition ok_or :: "'a option \<Rightarrow> string \<Rightarrow> 'a result" where
  "ok_or x e = (case x of Some y \<Rightarrow> Inr y | None \<Rightarrow> Inl e)"

lemma ok_or_simps [simp]: "ok_or (Some x) e = Inr x" "ok_or None e = Inl e"
  by (simp_all add: ok_or_def)

lemma ok_or_Inr: "ok_or x e = Inr y \<longleftrightarrow> x = Some y"
  by (simp add: ok_or_def split: option.split)

section \<open>White space\<close>

text \<open>The number of bytes of the white-space character a text starts with, or 0.\<close>

fun ws_len :: "string \<Rightarrow> nat" where
  "ws_len [] = 0"
| "ws_len (a # s) =
     (if (9 \<le> byte_of a \<and> byte_of a \<le> 13) \<or> byte_of a = 32 then 1
      else if byte_of a = 194 then
        (case s of b # _ \<Rightarrow> if byte_of b = 133 \<or> byte_of b = 160 then 2 else 0 | [] \<Rightarrow> 0)
      else if byte_of a = 225 then
        (case s of b # c # _ \<Rightarrow> if byte_of b = 154 \<and> byte_of c = 128 then 3 else 0 | _ \<Rightarrow> 0)
      else if byte_of a = 226 then
        (case s of b # c # _ \<Rightarrow>
           if byte_of b = 128 \<and> ((128 \<le> byte_of c \<and> byte_of c \<le> 138) \<or> byte_of c \<in> {168, 169, 175})
              \<or> byte_of b = 129 \<and> byte_of c = 159 then 3 else 0
         | _ \<Rightarrow> 0)
      else if byte_of a = 227 then
        (case s of b # c # _ \<Rightarrow> if byte_of b = 128 \<and> byte_of c = 128 then 3 else 0 | _ \<Rightarrow> 0)
      else 0)"

lemma ws_len_le: "ws_len s \<le> length s"
  by (cases s rule: ws_len.cases) (auto split: list.splits)

function trim_start :: "string \<Rightarrow> string" where
  "trim_start s = (if ws_len s = 0 then s else trim_start (drop (ws_len s) s))"
  by pat_completeness auto
termination
  by (relation "measure length") (auto intro: diff_less dest: order_less_le_trans [OF _ ws_len_le])

declare trim_start.simps [simp del]

fun trim_end :: "string \<Rightarrow> string" where
  "trim_end [] = []"
| "trim_end (c # cs) = (if trim_start (c # cs) = [] then [] else c # trim_end cs)"

definition trim :: "string \<Rightarrow> string" where
  "trim s = trim_end (trim_start s)"

text \<open>The characters up to the next white space.\<close>

fun take_word :: "string \<Rightarrow> string \<times> string" where
  "take_word [] = ([], [])"
| "take_word (c # cs) =
     (if ws_len (c # cs) = 0 then (case take_word cs of (w, r) \<Rightarrow> (c # w, r)) else ([], c # cs))"

lemma length_trim_start: "length (trim_start s) \<le> length s"
proof (induction s rule: trim_start.induct)
  case (1 s)
  then show ?case by (subst trim_start.simps) (auto intro: order_trans)
qed

lemma ws_len_trim_start: "ws_len (trim_start s) = 0"
proof (induction s rule: trim_start.induct)
  case (1 s)
  then show ?case by (subst trim_start.simps) auto
qed

lemma length_take_word: "length (snd (take_word s)) \<le> length s"
  by (induction s rule: take_word.induct) (auto split: prod.split)

lemma take_word_less: "s \<noteq> [] \<Longrightarrow> ws_len s = 0 \<Longrightarrow> length (snd (take_word s)) < length s"
  using length_take_word [of "tl s"] by (cases s) (auto split: prod.split)

function split_whitespace :: "string \<Rightarrow> string list" where
  "split_whitespace s =
     (let t = trim_start s
      in if t = [] then [] else (case take_word t of (w, r) \<Rightarrow> w # split_whitespace r))"
  by pat_completeness auto
termination
proof (relation "measure length", goal_cases)
  case (2 s t w r)
  then have "length r < length t"
    using take_word_less [of t] ws_len_trim_start [of s] by (metis snd_conv)
  then show ?case using length_trim_start [of s] 2(1) by simp
qed simp

declare split_whitespace.simps [simp del]

section \<open>Splitting and case\<close>

text \<open>\<open>s.split_once(p)\<close> and \<open>s.split(p)\<close> for a non-empty pattern.\<close>

fun split_once :: "string \<Rightarrow> string \<Rightarrow> (string \<times> string) option" where
  "split_once p [] = None"
| "split_once p (c # cs) =
     (if starts_with (c # cs) p then Some ([], drop (length p) (c # cs))
      else map_option (\<lambda>(a, b). (c # a, b)) (split_once p cs))"

lemma split_once_less: "split_once p s = Some (a, b) \<Longrightarrow> p \<noteq> [] \<Longrightarrow> length b < length s"
  by (induction s arbitrary: a) (auto split: if_splits)

function split_str :: "string \<Rightarrow> string \<Rightarrow> string list" where
  "split_str p s =
     (if p = [] then [s]
      else case split_once p s of
             None \<Rightarrow> [s]
           | Some (a, b) \<Rightarrow> a # split_str p b)"
  by pat_completeness auto
termination
  by (relation "measure (\<lambda>(p, s). length s)") (auto dest: split_once_less)

declare split_str.simps [simp del]

definition strip_prefix :: "string \<Rightarrow> string \<Rightarrow> string option" where
  "strip_prefix p s = (if starts_with s p then Some (drop (length p) s) else None)"

text \<open>
  \<open>to_lowercase\<close> as far as a comparison with an ASCII word can tell: the only character outside
  ASCII whose lower case is in ASCII is the Kelvin sign (E2 84 AA), the others stay unequal.
\<close>

definition lower_byte :: "char \<Rightarrow> char" where
  "lower_byte c = (if is_ascii_upper c then chr (byte_of c + 32) else c)"

fun to_lowercase :: "string \<Rightarrow> string" where
  "to_lowercase (a # b # c # s) =
     (if byte_of a = 226 \<and> byte_of b = 132 \<and> byte_of c = 170 then CHR ''k'' # to_lowercase s
      else lower_byte a # to_lowercase (b # c # s))"
| "to_lowercase (a # s) = lower_byte a # to_lowercase s"
| "to_lowercase [] = []"

section \<open>Numbers\<close>

definition digit_value :: "char \<Rightarrow> nat" where
  "digit_value c = byte_of c - 48"

text \<open>\<open>u32::from_str\<close>: an optional plus sign, then digits, within the range.\<close>

definition parse_digits :: "string \<Rightarrow> nat option" where
  "parse_digits s =
     (if s = [] \<or> \<not> list_all is_digit s then None
      else Some (foldl (\<lambda>n c. 10 * n + digit_value c) 0 s))"

definition parse_unsigned :: "nat \<Rightarrow> string \<Rightarrow> nat option" where
  "parse_unsigned limit s =
     (case parse_digits (case s of c # t \<Rightarrow> if c = CHR ''+'' then t else s | [] \<Rightarrow> []) of
        None \<Rightarrow> None
      | Some n \<Rightarrow> if n < limit then Some n else None)"

definition parse_u32 :: "string \<Rightarrow> nat option" where
  "parse_u32 s = parse_unsigned (2 ^ 32) s"

fun show_nat :: "nat \<Rightarrow> string" where
  "show_nat n = (if n < 10 then [chr (48 + n)] else show_nat (n div 10) @ [chr (48 + n mod 10)])"

declare show_nat.simps [simp del]

definition pad_zero :: "nat \<Rightarrow> string \<Rightarrow> string" where
  "pad_zero width s = replicate (width - length s) CHR ''0'' @ s"

text \<open>\<open>{:04}\<close> of a signed number: the zeros come after the sign.\<close>

definition show_int_padded :: "nat \<Rightarrow> int \<Rightarrow> string" where
  "show_int_padded width x =
     (if x < 0 then CHR ''-'' # pad_zero (width - 1) (show_nat (nat (- x)))
      else pad_zero width (show_nat (nat x)))"

section \<open>Printing and parsing numbers\<close>

lemma show_nat_digits: "list_all is_digit (show_nat n) \<and> show_nat n \<noteq> []"
proof (induction n rule: show_nat.induct)
  case (1 n)
  have "n mod 10 < 10" by simp
  then have "is_digit (chr (48 + n mod 10))" "n < 10 \<Longrightarrow> is_digit (chr (48 + n))" by (simp_all add: is_digit_def)
  then show ?case using 1 by (subst (1 2) show_nat.simps) simp
qed

lemma show_nat_value: "foldl (\<lambda>n c. 10 * n + digit_value c) 0 (show_nat n) = n"
proof (induction n rule: show_nat.induct)
  case (1 n)
  then show ?case by (subst show_nat.simps) (auto simp: digit_value_def)
qed

lemma foldl_zeros: "foldl (\<lambda>n c. 10 * n + digit_value c) 0 (replicate k CHR ''0'' @ s) = foldl (\<lambda>n c. 10 * n + digit_value c) 0 s"
  by (induction k) (simp_all add: digit_value_def)

lemma pad_zero_digits: "list_all is_digit (pad_zero w (show_nat n)) \<and> pad_zero w (show_nat n) \<noteq> []"
  using show_nat_digits [of n] by (auto simp: pad_zero_def list_all_iff is_digit_def)

lemma digit_not_plus: "list_all is_digit s \<Longrightarrow> (case s of c # t \<Rightarrow> if c = CHR ''+'' then t else s | [] \<Rightarrow> []) = s"
  by (cases s) (auto simp: is_digit_def)

lemma parse_pad_zero: "n < limit \<Longrightarrow> parse_unsigned limit (pad_zero w (show_nat n)) = Some n"
  using pad_zero_digits [of w n]
  by (simp add: parse_unsigned_def digit_not_plus parse_digits_def)
     (simp add: pad_zero_def foldl_zeros show_nat_value del: foldl_append)

lemma pad_zero_0 [simp]: "pad_zero 0 s = s"
  by (simp add: pad_zero_def)

lemma parse_unsigned_bound: "parse_unsigned limit s = Some n \<Longrightarrow> n < limit"
  by (auto simp: parse_unsigned_def split: option.splits if_splits)

section \<open>Plain text\<close>

text \<open>Printable ASCII without the space: no byte of it is white space.\<close>

definition plain_text :: "string \<Rightarrow> bool" where
  "plain_text s \<longleftrightarrow> list_all (\<lambda>c. 33 \<le> byte_of c \<and> byte_of c \<le> 126) s"

lemma plain_text_simps [simp]:
  "plain_text []" "plain_text (c # s) \<longleftrightarrow> 33 \<le> byte_of c \<and> byte_of c \<le> 126 \<and> plain_text s"
  "plain_text (s @ t) \<longleftrightarrow> plain_text s \<and> plain_text t"
  by (auto simp: plain_text_def)

lemma ws_len_plain: "33 \<le> byte_of c \<Longrightarrow> byte_of c \<le> 126 \<Longrightarrow> ws_len (c # s) = 0"
  by simp

lemma trim_start_plain: "33 \<le> byte_of c \<Longrightarrow> byte_of c \<le> 126 \<Longrightarrow> trim_start (c # s) = c # s"
  by (subst trim_start.simps) simp

lemma trim_plain: "plain_text s \<Longrightarrow> trim s = s"
proof -
  have "trim_end t = t" if "plain_text t" for t
    using that by (induction t) (simp_all add: trim_start_plain)
  moreover assume "plain_text s"
  moreover from this have "trim_start s = s"
    by (cases s) (simp_all add: trim_start_plain, simp add: trim_start.simps)
  ultimately show ?thesis by (simp add: trim_def)
qed

lemma take_word_plain: "plain_text w \<Longrightarrow> take_word (w @ CHR '' '' # s) = (w, CHR '' '' # s)" "plain_text w \<Longrightarrow> take_word w = (w, [])"
  by (induction w) simp_all

lemma split_whitespace_plain:
  assumes "ws \<noteq> []" "list_all (\<lambda>w. plain_text w \<and> w \<noteq> []) ws"
  shows "split_whitespace (join_with '' '' ws) = ws"
  using assms
proof (induction ws)
  case (Cons w ws)
  then obtain c w' where w: "w = c # w'" "33 \<le> byte_of c" "byte_of c \<le> 126" "plain_text w'" by (cases w) auto
  show ?case
  proof (cases ws)
    case Nil
    have "trim_start [] = []" by (subst trim_start.simps) simp
    then have "split_whitespace [] = []" by (subst split_whitespace.simps) (simp add: Let_def)
    moreover have "take_word w = (w, [])" using w by (intro take_word_plain) simp
    ultimately show ?thesis
      using w by (subst split_whitespace.simps) (simp add: Nil trim_start_plain Let_def)
  next
    case (Cons v vs)
    let ?r = "join_with '' '' ws"
    have "split_whitespace (CHR '' '' # ?r) = split_whitespace ?r"
    proof -
      have "trim_start (CHR '' '' # ?r) = trim_start ?r" by (subst trim_start.simps) simp
      then show ?thesis by (subst (1 2) split_whitespace.simps) simp
    qed
    moreover have "split_whitespace ?r = ws" using Cons.IH Cons.prems Cons by simp
    moreover have "take_word (w @ CHR '' '' # ?r) = (w, CHR '' '' # ?r)" using w by (intro take_word_plain) simp
    moreover have "join_with '' '' (w # ws) = w @ CHR '' '' # ?r" by (simp add: Cons)
    ultimately show ?thesis
      using w by (subst split_whitespace.simps) (simp add: trim_start_plain Let_def)
  qed
qed simp

lemma split_once_none: "hd p \<notin> set s \<Longrightarrow> p \<noteq> [] \<Longrightarrow> split_once p s = None"
proof (induction s)
  case (Cons x s)
  then have "\<not> starts_with (x # s) p" by (cases p) auto
  with Cons show ?case by simp
qed simp

lemma split_once_first: "hd p \<notin> set a \<Longrightarrow> p \<noteq> [] \<Longrightarrow> split_once p (a @ p @ b) = Some (a, b)"
proof (induction a)
  case Nil
  then show ?case by (cases p) (simp_all add: starts_with_def)
next
  case (Cons x a)
  then have "\<not> starts_with (x # a @ p @ b) p" by (cases p) auto
  with Cons show ?case by simp
qed

lemma split_once_prefix: "split_once p s = Some (a, b) \<Longrightarrow> \<exists>r. s = a @ r"
  by (induction s arbitrary: a) (auto split: if_splits)

section \<open>Words\<close>

text \<open>No white space starts anywhere in the text.\<close>

definition no_ws :: "string \<Rightarrow> bool" where
  "no_ws s \<longleftrightarrow> (\<forall>a b. s = a @ b \<longrightarrow> ws_len b = 0)"

lemma ws_len_append: "ws_len (b @ r) = 0 \<Longrightarrow> ws_len b = 0"
  by (cases b rule: ws_len.cases) (auto split: if_splits list.splits)

lemma no_ws_prefix: "no_ws (a @ b) \<Longrightarrow> no_ws a"
  unfolding no_ws_def using ws_len_append by (metis append.assoc)

lemma no_ws_Cons: "no_ws (c # s) \<longleftrightarrow> ws_len (c # s) = 0 \<and> no_ws s"
proof
  assume a: "no_ws (c # s)"
  then have "ws_len (c # s) = 0" unfolding no_ws_def by (metis append_Nil)
  moreover have "no_ws s" unfolding no_ws_def
  proof (intro allI impI)
    fix u v assume "s = u @ v"
    then have "c # s = (c # u) @ v" by simp
    then show "ws_len v = 0" using a unfolding no_ws_def by blast
  qed
  ultimately show "ws_len (c # s) = 0 \<and> no_ws s" by blast
next
  assume a: "ws_len (c # s) = 0 \<and> no_ws s"
  show "no_ws (c # s)" unfolding no_ws_def
  proof (intro allI impI)
    fix u v assume "c # s = u @ v"
    then show "ws_len v = 0" using a by (cases u) (auto simp: no_ws_def simp del: ws_len.simps)
  qed
qed

lemma no_ws_Nil [simp]: "no_ws []"
  by (simp add: no_ws_def)

lemma trim_no_ws: "no_ws s \<Longrightarrow> trim s = s"
proof -
  have start: "trim_start t = t" if "no_ws t" for t
    using that by (subst trim_start.simps) (simp add: no_ws_def)
  have "trim_end t = t" if "no_ws t" for t
    using that
  proof (induction t)
    case (Cons c t)
    then have "trim_start (c # t) = c # t" by (intro start)
    with Cons show ?case by (simp add: no_ws_Cons del: ws_len.simps)
  qed simp
  then show "no_ws s \<Longrightarrow> trim s = s" by (simp add: trim_def start)
qed

lemma take_word_split: "fst (take_word s) @ snd (take_word s) = s"
  by (induction s rule: take_word.induct) (auto split: prod.splits simp del: ws_len.simps)

lemma take_word_no_ws: "no_ws (fst (take_word s))"
proof (induction s)
  case (Cons c s)
  show ?case
  proof (cases "ws_len (c # s) = 0")
    case True
    have "ws_len (c # fst (take_word s)) = 0"
      using True take_word_split [of s] ws_len_append [of "c # fst (take_word s)" "snd (take_word s)"]
      by (simp del: ws_len.simps)
    then show ?thesis using True Cons by (simp add: case_prod_beta no_ws_Cons del: ws_len.simps)
  qed (simp del: ws_len.simps)
qed simp

lemma split_whitespace_no_ws: "w \<in> set (split_whitespace s) \<Longrightarrow> no_ws w"
proof (induction s rule: split_whitespace.induct)
  case (1 s)
  show ?case
  proof (cases "trim_start s = []")
    case True
    then show ?thesis using 1(2) by (subst (asm) split_whitespace.simps) (simp add: Let_def)
  next
    case False
    then have "w = fst (take_word (trim_start s)) \<or> w \<in> set (split_whitespace (snd (take_word (trim_start s))))"
      using 1(2) by (subst (asm) split_whitespace.simps) (simp add: Let_def case_prod_beta)
    then show ?thesis using 1(1) [OF refl False] take_word_no_ws by (metis prod.collapse)
  qed
qed

lemma split_on_prefix: "split_on c s = p # ps \<Longrightarrow> \<exists>r. s = p @ r"
proof (induction s arbitrary: p ps)
  case (Cons x s)
  show ?case
  proof (cases "x = c")
    case False
    then obtain q qs where "split_on c s = q # qs" "p = x # q" using Cons.prems by (auto split: list.splits)
    then show ?thesis using Cons.IH by auto
  qed (use Cons.prems in auto)
qed simp

section \<open>Lines, suffixes and upper case\<close>

definition strip_suffix :: "string \<Rightarrow> string \<Rightarrow> string option" where
  "strip_suffix p s = (if ends_with s p then Some (take (length s - length p) s) else None)"

text \<open>\<open>str::lines\<close>: a carriage return goes with the line feed it precedes.\<close>

definition strip_cr :: "string \<Rightarrow> string" where
  "strip_cr s = (case strip_suffix [CHR 0x0D] s of Some t \<Rightarrow> t | None \<Rightarrow> s)"

definition str_lines :: "string \<Rightarrow> string list" where
  "str_lines s =
     (let ps = split_on newline s
      in map strip_cr (butlast ps) @ (if last ps = [] then [] else [last ps]))"

text \<open>
  \<open>to_uppercase\<close> as far as a comparison with an ASCII word can tell: the characters outside ASCII
  whose upper case is in ASCII are the dotless i, the long s, the sharp s and the Latin ligatures;
  the others stay unequal to every ASCII character.
\<close>

definition upper_byte :: "char \<Rightarrow> char" where
  "upper_byte c = (if 97 \<le> byte_of c \<and> byte_of c \<le> 122 then chr (byte_of c - 32) else c)"

definition upper_two :: "char \<Rightarrow> char \<Rightarrow> string option" where
  "upper_two a b =
     (if byte_of a = 196 \<and> byte_of b = 177 then Some ''I''
      else if byte_of a = 197 \<and> byte_of b = 191 then Some ''S''
      else if byte_of a = 195 \<and> byte_of b = 159 then Some ''SS''
      else None)"

definition upper_three :: "char \<Rightarrow> char \<Rightarrow> char \<Rightarrow> string option" where
  "upper_three a b c =
     (if byte_of a = 239 \<and> byte_of b = 172 \<and> 128 \<le> byte_of c \<and> byte_of c \<le> 134
      then Some ([''FF'', ''FI'', ''FL'', ''FFI'', ''FFL'', ''ST'', ''ST''] ! (byte_of c - 128))
      else None)"

fun to_uppercase :: "string \<Rightarrow> string" where
  "to_uppercase (a # b # c # s) =
     (case upper_two a b of
        Some u \<Rightarrow> u @ to_uppercase (c # s)
      | None \<Rightarrow>
          (case upper_three a b c of
             Some u \<Rightarrow> u @ to_uppercase s
           | None \<Rightarrow> upper_byte a # to_uppercase (b # c # s)))"
| "to_uppercase [a, b] =
     (case upper_two a b of Some u \<Rightarrow> u | None \<Rightarrow> [upper_byte a, upper_byte b])"
| "to_uppercase [a] = [upper_byte a]"
| "to_uppercase [] = []"

section \<open>Trimming twice\<close>

lemma ws_len_app: "ws_len a \<noteq> 0 \<Longrightarrow> ws_len (a @ r) = ws_len a"
proof (cases a)
  case a: (Cons x s)
  assume "ws_len a \<noteq> 0"
  then show ?thesis
  proof (cases s)
    case Nil
    then show ?thesis using a \<open>ws_len a \<noteq> 0\<close> by (auto split: if_split_asm)
  next
    case s: (Cons y t)
    show ?thesis
    proof (cases t)
      case Nil
      then show ?thesis using a s \<open>ws_len a \<noteq> 0\<close> by (auto split: if_split_asm)
    qed (simp add: a s)
  qed
qed simp

lemma trim_start_app: "trim_start a = [] \<Longrightarrow> trim_start (a @ r) = trim_start r"
proof (induction a rule: trim_start.induct)
  case (1 s)
  show ?case
  proof (cases "ws_len s = 0")
    case True
    then show ?thesis using 1(2) by (subst (asm) trim_start.simps) simp
  next
    case False
    then have "trim_start (drop (ws_len s) s) = []" using 1(2) by (subst (asm) trim_start.simps) simp
    moreover have "trim_start (s @ r) = trim_start (drop (ws_len s) s @ r)"
      using False ws_len_le [of s] by (subst trim_start.simps) (simp add: ws_len_app)
    ultimately show ?thesis using 1(1) False by simp
  qed
qed

lemma trim_end_split: "\<exists>r. s = trim_end s @ r \<and> trim_start r = []"
proof (induction s)
  case Nil
  show ?case by (auto intro!: exI [of _ "[]"] simp: trim_start.simps)
next
  case (Cons c cs)
  then show ?case by (cases "trim_start (c # cs) = []") auto
qed

lemma trim_start_id: "ws_len s = 0 \<Longrightarrow> trim_start s = s"
  by (subst trim_start.simps) simp

lemma trim_end_idem: "trim_end (trim_end s) = trim_end s"
proof (induction s)
  case (Cons c cs)
  show ?case
  proof (cases "trim_start (c # cs) = []")
    case False
    obtain r where r: "cs = trim_end cs @ r" "trim_start r = []" using trim_end_split by blast
    have "trim_start (c # trim_end cs) \<noteq> []"
    proof
      assume "trim_start (c # trim_end cs) = []"
      from trim_start_app [OF this, of r] r have "trim_start (c # cs) = []" by (metis append_Cons)
      with False show False by simp
    qed
    with False Cons show ?thesis by simp
  qed simp
qed simp

lemma trim_start_trim: "trim_start (trim s) = trim s"
proof -
  obtain r where "trim_start s = trim s @ r" using trim_end_split [of "trim_start s"] by (auto simp: trim_def)
  then show ?thesis using ws_len_trim_start [of s] by (intro trim_start_id) (metis ws_len_append)
qed

lemma trim_trim [simp]: "trim (trim s) = trim s"
proof -
  have "trim (trim s) = trim_end (trim s)" by (simp add: trim_def [of "trim s"] trim_start_trim)
  then show ?thesis by (simp add: trim_def trim_end_idem)
qed

lemma trim_Nil [simp]: "trim [] = []"
  by (simp add: trim_def trim_start.simps)

lemma set_trim: "set (trim s) \<subseteq> set s"
proof -
  have "set (trim_start t) \<subseteq> set t" for t
  proof (induction t rule: trim_start.induct)
    case (1 t)
    then show ?case by (subst trim_start.simps) (auto dest: in_set_dropD)
  qed
  moreover have "set (trim_end t) \<subseteq> set t" for t by (induction t) auto
  ultimately show ?thesis unfolding trim_def by blast
qed

lemma trim_strip_cr: "trim (strip_cr s) = trim s"
proof (cases "ends_with s [CHR 0x0D]")
  case True
  then obtain r where s: "s = r @ [CHR 0x0D]" by (auto simp: ends_with_iff)
  have cr: "trim_start [CHR 0x0D] = []" by (subst trim_start.simps) (simp add: trim_start.simps)
  have start: "trim_start (r @ [CHR 0x0D]) = (if trim_start r = [] then [] else trim_start r @ [CHR 0x0D])" for r
  proof (induction r rule: trim_start.induct)
    case (1 r)
    show ?case
    proof (cases "ws_len r = 0")
      case True
      show ?thesis
      proof (cases "r = []")
        case True
        then show ?thesis using cr by (simp add: trim_start.simps [of "[]"])
      next
        case False
        then have "ws_len (r @ [CHR 0x0D]) = 0"
          using True by (cases r rule: ws_len.cases) (auto split: if_splits list.splits)
        then show ?thesis using True False by (simp add: trim_start_id)
      qed
    next
      case False
      then show ?thesis using 1 ws_len_le [of r]
        by (subst (1 2 3) trim_start.simps) (simp add: ws_len_app)
    qed
  qed
  have "trim_end (t @ [CHR 0x0D]) = trim_end t" for t
  proof (induction t)
    case (Cons c t)
    have "trim_start (c # t @ [CHR 0x0D]) = [] \<longleftrightarrow> trim_start (c # t) = []" using start [of "c # t"] by simp
    with Cons show ?case by simp
  qed (simp add: cr)
  with start show ?thesis using True by (simp add: s strip_cr_def strip_suffix_def trim_def)
qed (simp add: strip_cr_def strip_suffix_def)

end
