(* ===== verification/CalParse.thy ===== *)
theory CalParse
  imports CalSpec RustText
begin

text \<open>
  The textual half of \<open>calendar_spec.rs\<close>: parsing a calendar expression, its error cases
  included, and the normalized form.

  Lemmas: what a successful parse guarantees (\<open>spec_wf\<close>), and that the normalized form parses
  back to the same specification.
\<close>

section \<open>Weekdays\<close>

definition parse_weekday_name :: "string \<Rightarrow> nat option" where
  "parse_weekday_name s =
     (let l = to_lowercase s in
      if l = ''mon'' \<or> l = ''monday'' then Some 0
      else if l = ''tue'' \<or> l = ''tuesday'' then Some 1
      else if l = ''wed'' \<or> l = ''wednesday'' then Some 2
      else if l = ''thu'' \<or> l = ''thursday'' then Some 3
      else if l = ''fri'' \<or> l = ''friday'' then Some 4
      else if l = ''sat'' \<or> l = ''saturday'' then Some 5
      else if l = ''sun'' \<or> l = ''sunday'' then Some 6
      else None)"

definition weekday_name :: "nat \<Rightarrow> string" where
  "weekday_name d =
     (if d = 0 then ''Mon'' else if d = 1 then ''Tue'' else if d = 2 then ''Wed'' else if d = 3 then ''Thu''
      else if d = 4 then ''Fri'' else if d = 5 then ''Sat'' else if d = 6 then ''Sun'' else ''???'')"

definition looks_like_weekday :: "string \<Rightarrow> bool" where
  "looks_like_weekday s \<longleftrightarrow>
     list_all (\<lambda>part. let part = trim part in
                 part \<noteq> [] \<and> list_all (\<lambda>a. parse_weekday_name (trim a) \<noteq> None) (split_str ''..'' part))
       (split_on CHR '','' s)"

fun parse_weekday_parts :: "string list \<Rightarrow> weekday_range list result" where
  "parse_weekday_parts [] = Inr []"
| "parse_weekday_parts (p # ps) =
     (let part = trim p in
      if part = [] then parse_weekday_parts ps
      else case split_once ''..'' part of
             Some (a, b) \<Rightarrow>
               and_then (ok_or (parse_weekday_name (trim a)) (''Invalid weekday: '' @ a)) (\<lambda>start.
               and_then (ok_or (parse_weekday_name (trim b)) (''Invalid weekday: '' @ b)) (\<lambda>stop.
               and_then (parse_weekday_parts ps) (\<lambda>rs. Inr (\<lparr>wd_start = start, wd_end = stop\<rparr> # rs))))
           | None \<Rightarrow>
               and_then (ok_or (parse_weekday_name part) (''Invalid weekday: '' @ part)) (\<lambda>d.
               and_then (parse_weekday_parts ps) (\<lambda>rs. Inr (\<lparr>wd_start = d, wd_end = d\<rparr> # rs))))"

definition parse_weekdays :: "string \<Rightarrow> weekday_range list result" where
  "parse_weekdays s =
     and_then (parse_weekday_parts (split_on CHR '','' s)) (\<lambda>ranges.
       if ranges = [] then Inl ''Empty weekday specification'' else Inr ranges)"

section \<open>Components\<close>

definition parse_single_value :: "string \<Rightarrow> calendar_value result" where
  "parse_single_value s =
     (case split_once ''/'' s of
        Some (base, step_str) \<Rightarrow>
          and_then (ok_or (parse_u32 step_str) (''Invalid step: '' @ step_str)) (\<lambda>step.
            if step = 0 then Inl ''Step cannot be zero''
            else case split_once ''..'' base of
                   Some (a_str, b_str) \<Rightarrow>
                     and_then (ok_or (parse_u32 a_str) (''Invalid value: '' @ a_str)) (\<lambda>a.
                     and_then (ok_or (parse_u32 b_str) (''Invalid value: '' @ b_str)) (\<lambda>b.
                       if a > b then Inl (''Range start after end: '' @ s)
                       else Inr (Val_range_repeat a b step)))
                 | None \<Rightarrow>
                     and_then (ok_or (parse_u32 base) (''Invalid value: '' @ base)) (\<lambda>v. Inr (Val_repeat v step)))
      | None \<Rightarrow>
          (case split_once ''..'' s of
             Some (a_str, b_str) \<Rightarrow>
               and_then (ok_or (parse_u32 a_str) (''Invalid value: '' @ a_str)) (\<lambda>a.
               and_then (ok_or (parse_u32 b_str) (''Invalid value: '' @ b_str)) (\<lambda>b.
                 if a > b then Inl (''Range start after end: '' @ s) else Inr (Val_range a b)))
           | None \<Rightarrow> and_then (ok_or (parse_u32 s) (''Invalid value: '' @ s)) (\<lambda>v. Inr (Val_exact v))))"

fun parse_values :: "string list \<Rightarrow> calendar_value list result" where
  "parse_values [] = Inr []"
| "parse_values (p # ps) =
     (let part = trim p in
      if part = [] then parse_values ps
      else and_then (parse_single_value part) (\<lambda>v. and_then (parse_values ps) (\<lambda>vs. Inr (v # vs))))"

definition parse_component :: "string \<Rightarrow> calendar_component result" where
  "parse_component s0 =
     (let s = trim s0 in
      if s = [] then Inl ''Empty component''
      else if s = ''*'' then Inr Wildcard
      else case strip_prefix ''*/'' s of
             Some rest \<Rightarrow>
               and_then (ok_or (parse_u32 rest) (''Invalid repeat step: '' @ rest)) (\<lambda>step.
                 if step = 0 then Inl ''Repeat step cannot be zero'' else Inr (Wildcard_repeat step))
           | None \<Rightarrow>
               and_then (parse_values (split_on CHR '','' s)) (\<lambda>values.
                 if values = [] then Inl (''Empty component: '' @ s) else Inr (Value_list values)))"

section \<open>Date and time\<close>

definition parse_year :: "string \<Rightarrow> calendar_component option result" where
  "parse_year s = (if s = ''*'' then Inr None else and_then (parse_component s) (\<lambda>c. Inr (Some c)))"

type_synonym date_part = "calendar_component option \<times> calendar_component \<times> calendar_component \<times> bool"

definition parse_from_end :: "string \<Rightarrow> nat \<Rightarrow> date_part result" where
  "parse_from_end s pos =
     (let head = take pos s; day_str = drop (pos + 1) s in
      if CHR ''~'' \<in> set day_str then Inl (''Invalid calendar expression: '' @ s)
      else and_then (parse_component day_str) (\<lambda>day.
           and_then (case split_on CHR ''-'' head of
                       [y, m] \<Rightarrow> and_then (parse_year y) (\<lambda>year. and_then (parse_component m) (\<lambda>month. Inr (year, month)))
                     | [m] \<Rightarrow> if m = [] then Inr (None, Wildcard)
                             else and_then (parse_component m) (\<lambda>month. Inr (None, month))
                     | _ \<Rightarrow> Inl (''Invalid date format: '' @ s)) (\<lambda>(year, month).
             Inr (year, month, day, True))))"

definition parse_date_part :: "string \<Rightarrow> date_part result" where
  "parse_date_part s =
     (case find_char CHR ''~'' s of
        Some pos \<Rightarrow> parse_from_end s pos
      | None \<Rightarrow>
          (case split_on CHR ''-'' s of
             [y, m, d] \<Rightarrow>
               and_then (parse_year y) (\<lambda>year.
               and_then (parse_component m) (\<lambda>month.
               and_then (parse_component d) (\<lambda>day. Inr (year, month, day, False))))
           | [m, d] \<Rightarrow>
               and_then (parse_component m) (\<lambda>month.
               and_then (parse_component d) (\<lambda>day. Inr (None, month, day, False)))
           | [d] \<Rightarrow> and_then (parse_component d) (\<lambda>day. Inr (None, Wildcard, day, False))
           | _ \<Rightarrow> Inl (''Invalid date format: '' @ s)))"

abbreviation zero_component :: calendar_component where
  "zero_component \<equiv> Value_list [Val_exact 0]"

definition parse_time_part :: "string \<Rightarrow> (calendar_component \<times> calendar_component \<times> calendar_component) result" where
  "parse_time_part s =
     (case split_on CHR '':'' s of
        [h, m, sec] \<Rightarrow>
          and_then (parse_component h) (\<lambda>hour.
          and_then (parse_component m) (\<lambda>minute.
          and_then (parse_component sec) (\<lambda>second. Inr (hour, minute, second))))
      | [h, m] \<Rightarrow>
          and_then (parse_component h) (\<lambda>hour.
          and_then (parse_component m) (\<lambda>minute. Inr (hour, minute, zero_component)))
      | [h] \<Rightarrow> and_then (parse_component h) (\<lambda>hour. Inr (hour, zero_component, zero_component))
      | _ \<Rightarrow> Inl (''Invalid time format: '' @ s))"

section \<open>Ranges\<close>

abbreviation range_text :: "nat \<Rightarrow> nat \<Rightarrow> string" where
  "range_text a b \<equiv> show_nat a @ ''..'' @ show_nat b"

fun validate_value :: "nat \<Rightarrow> nat \<Rightarrow> string \<Rightarrow> calendar_value \<Rightarrow> unit result" where
  "validate_value lo hi field (Val_exact n) =
     (if n < lo \<or> n > hi then Inl (field @ '' '' @ show_nat n @ '' out of range '' @ range_text lo hi) else Inr ())"
| "validate_value lo hi field (Val_range start stop) =
     (if start < lo \<or> start > hi \<or> stop < lo \<or> stop > hi
      then Inl (field @ '' range '' @ range_text start stop @ '' out of range '' @ range_text lo hi) else Inr ())"
| "validate_value lo hi field (Val_repeat start step) =
     (if start < lo \<or> start > hi
      then Inl (field @ '' repeat start '' @ show_nat start @ '' out of range '' @ range_text lo hi) else Inr ())"
| "validate_value lo hi field (Val_range_repeat start stop step) =
     (if start < lo \<or> start > hi \<or> stop < lo \<or> stop > hi
      then Inl (field @ '' range-repeat '' @ range_text start stop @ '' out of range '' @ range_text lo hi) else Inr ())"

fun validate_values :: "nat \<Rightarrow> nat \<Rightarrow> string \<Rightarrow> calendar_value list \<Rightarrow> unit result" where
  "validate_values lo hi field [] = Inr ()"
| "validate_values lo hi field (v # vs) =
     and_then (validate_value lo hi field v) (\<lambda>_. validate_values lo hi field vs)"

definition validate_component_range :: "calendar_component \<Rightarrow> nat \<Rightarrow> nat \<Rightarrow> string \<Rightarrow> unit result" where
  "validate_component_range c lo hi field =
     (case c of
        Wildcard \<Rightarrow> Inr ()
      | Wildcard_repeat _ \<Rightarrow> Inr ()
      | Value_list vs \<Rightarrow> validate_values lo hi field vs)"

section \<open>The expression\<close>

text \<open>\<open>@TIMESTAMP\<close>\<close>

definition parse_timestamp :: "string \<Rightarrow> string \<Rightarrow> calendar_spec result" where
  "parse_timestamp input rest =
     (if rest = [] \<or> \<not> list_all is_digit rest then Inl (''Invalid calendar expression: '' @ input)
      else and_then (ok_or (parse_unsigned (2 ^ 63) rest) (''Timestamp out of range: '' @ input)) (\<lambda>secs.
        let y = dt_year (unix_to_datetime (int secs)) in
        if \<not> (1970 \<le> y \<and> y \<le> 2199) then Inl (''Timestamp out of range: '' @ input)
        else Inr \<lparr>original = input, weekdays = None, cal_year = None, cal_month = Wildcard, cal_day = Wildcard,
                  day_from_end = False, cal_hour = Wildcard, cal_minute = Wildcard, cal_second = Wildcard,
                  utc = True, fixed_instant = Some (int secs)\<rparr>))"

definition shorthand_expansion :: "string \<Rightarrow> string option" where
  "shorthand_expansion input =
     (let l = to_lowercase input in
      if l = ''minutely'' then Some ''*-*-* *:*:00''
      else if l = ''hourly'' then Some ''*-*-* *:00:00''
      else if l = ''daily'' then Some ''*-*-* 00:00:00''
      else if l = ''monthly'' then Some ''*-*-01 00:00:00''
      else if l = ''weekly'' then Some ''Mon *-*-* 00:00:00''
      else if l = ''yearly'' \<or> l = ''annually'' then Some ''*-01-01 00:00:00''
      else if l = ''quarterly'' then Some ''*-01,04,07,10-01 00:00:00''
      else if l = ''semiannually'' \<or> l = ''semi-annually'' then Some ''*-01,07-01 00:00:00''
      else None)"

definition split_date_time :: "string \<Rightarrow> string list \<Rightarrow> (string option \<times> string option) result" where
  "split_date_time input parts =
     (case parts of
        [] \<Rightarrow> Inr (None, None)
      | [p] \<Rightarrow>
          if CHR ''-'' \<in> set p then Inr (Some p, None)
          else if CHR '':'' \<in> set p then Inr (None, Some p)
          else Inl (''Invalid calendar expression: '' @ input)
      | [d, t] \<Rightarrow> Inr (Some d, Some t)
      | _ \<Rightarrow> Inl (''Too many parts in calendar expression: '' @ input))"

text \<open>The function after the timestamp and the shorthands are dealt with.\<close>

definition parse_expression :: "string \<Rightarrow> calendar_spec result" where
  "parse_expression input =
     (let parts0 = split_whitespace input;
          utc_suffix = (length parts0 \<ge> 2 \<and> last parts0 = ''UTC'');
          parts = (if utc_suffix then butlast parts0 else parts0)
      in
      and_then (if parts \<noteq> [] \<and> looks_like_weekday (hd parts)
                then and_then (parse_weekdays (hd parts)) (\<lambda>wd. Inr (Some wd, tl parts))
                else Inr (None, parts)) (\<lambda>(wds, date_time_parts).
      and_then (split_date_time input date_time_parts) (\<lambda>(date_part, time_part).
      and_then (case date_part of Some d \<Rightarrow> parse_date_part d | None \<Rightarrow> Inr (None, Wildcard, Wildcard, False))
        (\<lambda>(year, month, day, from_end).
      and_then (case time_part of Some t \<Rightarrow> parse_time_part t | None \<Rightarrow> Inr (zero_component, zero_component, zero_component))
        (\<lambda>(hour, minute, second).
      and_then (validate_component_range month 1 12 ''month'') (\<lambda>_.
      and_then (validate_component_range day 1 (if from_end then 28 else 31) ''day'') (\<lambda>_.
      and_then (validate_component_range hour 0 23 ''hour'') (\<lambda>_.
      and_then (validate_component_range minute 0 59 ''minute'') (\<lambda>_.
      and_then (validate_component_range second 0 60 ''second'') (\<lambda>_.
        Inr \<lparr>original = input, weekdays = wds, cal_year = year, cal_month = month, cal_day = day,
             day_from_end = from_end, cal_hour = hour, cal_minute = minute, cal_second = second,
             utc = utc_suffix, fixed_instant = None\<rparr>))))))))))"

text \<open>
  A shorthand is parsed by a recursive call on its expansion; that one is no timestamp and no
  shorthand (\<open>expansion_plain\<close> below), so the call runs the rest of the function only.
\<close>

definition parse :: "string \<Rightarrow> calendar_spec result" where
  "parse input0 =
     (let input = trim input0 in
      if input = [] then Inl ''Empty calendar expression''
      else case strip_prefix ''@'' input of
             Some rest \<Rightarrow> parse_timestamp input rest
           | None \<Rightarrow>
               (case shorthand_expansion input of
                  Some expanded \<Rightarrow> and_then (parse_expression expanded) (\<lambda>spec. Inr (spec\<lparr>original := input\<rparr>))
                | None \<Rightarrow> parse_expression input))"

section \<open>Normalized form\<close>

fun format_value_padded :: "nat \<Rightarrow> calendar_value \<Rightarrow> string" where
  "format_value_padded w (Val_exact v) = pad_zero w (show_nat v)"
| "format_value_padded w (Val_range a b) = pad_zero w (show_nat a) @ ''..'' @ pad_zero w (show_nat b)"
| "format_value_padded w (Val_repeat start step) = pad_zero w (show_nat start) @ ''/'' @ show_nat step"
| "format_value_padded w (Val_range_repeat start stop step) =
     pad_zero w (show_nat start) @ ''..'' @ pad_zero w (show_nat stop) @ ''/'' @ show_nat step"

fun format_value :: "calendar_value \<Rightarrow> string" where
  "format_value (Val_exact v) = show_nat v"
| "format_value (Val_range a b) = show_nat a @ ''..'' @ show_nat b"
| "format_value (Val_repeat start step) = show_nat start @ ''/'' @ show_nat step"
| "format_value (Val_range_repeat start stop step) = show_nat start @ ''..'' @ show_nat stop @ ''/'' @ show_nat step"

fun format_component :: "calendar_component \<Rightarrow> string" where
  "format_component Wildcard = ''*''"
| "format_component (Wildcard_repeat step) = ''*/'' @ show_nat step"
| "format_component (Value_list vs) = join_with '','' (map format_value vs)"

fun format_component_padded :: "calendar_component \<Rightarrow> nat \<Rightarrow> string" where
  "format_component_padded Wildcard w = ''*''"
| "format_component_padded (Wildcard_repeat step) w = ''*/'' @ show_nat step"
| "format_component_padded (Value_list vs) w = join_with '','' (map (format_value_padded w) vs)"

definition format_weekday_range :: "weekday_range \<Rightarrow> string" where
  "format_weekday_range r =
     (if wd_start r = wd_end r then weekday_name (wd_start r)
      else weekday_name (wd_start r) @ ''..'' @ weekday_name (wd_end r))"

definition normalized :: "calendar_spec \<Rightarrow> string" where
  "normalized spec =
     (case fixed_instant spec of
        Some t \<Rightarrow>
          (let dt = unix_to_datetime t in
           show_int_padded 4 (dt_year dt) @ ''-'' @ pad_zero 2 (show_nat (dt_month dt)) @ ''-''
           @ pad_zero 2 (show_nat (dt_day dt)) @ '' '' @ pad_zero 2 (show_nat (dt_hour dt)) @ '':''
           @ pad_zero 2 (show_nat (dt_minute dt)) @ '':'' @ pad_zero 2 (show_nat (dt_second dt)) @ '' UTC'')
      | None \<Rightarrow>
          (case weekdays spec of
             None \<Rightarrow> []
           | Some wds \<Rightarrow> join_with '','' (map format_weekday_range wds) @ '' '')
          @ (case cal_year spec of None \<Rightarrow> ''*-'' | Some y \<Rightarrow> format_component y @ ''-'')
          @ format_component_padded (cal_month spec) 2
          @ (if day_from_end spec then ''~'' else ''-'')
          @ format_component_padded (cal_day spec) 2
          @ '' '' @ format_component_padded (cal_hour spec) 2 @ '':'' @ format_component_padded (cal_minute spec) 2
          @ '':'' @ format_component_padded (cal_second spec) 2
          @ (if utc spec then '' UTC'' else []))"

definition as_fixed_interval :: "calendar_spec \<Rightarrow> nat option" where
  "as_fixed_interval spec =
     (let l = to_lowercase (original spec) in
      if l = ''minutely'' then Some 60
      else if l = ''hourly'' then Some 3600
      else if l = ''daily'' then Some 86400
      else if l = ''weekly'' then Some (7 * 86400)
      else if l = ''monthly'' then Some (30 * 86400)
      else if l = ''yearly'' \<or> l = ''annually'' then Some (365 * 86400)
      else if l = ''quarterly'' then Some (90 * 86400)
      else if l = ''semiannually'' \<or> l = ''semi-annually'' then Some (182 * 86400)
      else None)"


section \<open>What a parse guarantees\<close>

fun value_wf :: "calendar_value \<Rightarrow> bool" where
  "value_wf (Val_exact n) \<longleftrightarrow> n < 2 ^ 32"
| "value_wf (Val_range a b) \<longleftrightarrow> a \<le> b \<and> b < 2 ^ 32"
| "value_wf (Val_repeat start step) \<longleftrightarrow> start < 2 ^ 32 \<and> 0 < step \<and> step < 2 ^ 32"
| "value_wf (Val_range_repeat a b step) \<longleftrightarrow> a \<le> b \<and> b < 2 ^ 32 \<and> 0 < step \<and> step < 2 ^ 32"

fun component_wf :: "calendar_component \<Rightarrow> bool" where
  "component_wf Wildcard \<longleftrightarrow> True"
| "component_wf (Wildcard_repeat step) \<longleftrightarrow> 0 < step \<and> step < 2 ^ 32"
| "component_wf (Value_list vs) \<longleftrightarrow> vs \<noteq> [] \<and> list_all value_wf vs"

definition ranges_wf :: "weekday_range list \<Rightarrow> bool" where
  "ranges_wf rs \<longleftrightarrow> rs \<noteq> [] \<and> list_all (\<lambda>r. wd_start r < 7 \<and> wd_end r < 7) rs"

definition year_wf :: "calendar_component option \<Rightarrow> bool" where
  "year_wf y \<longleftrightarrow> (case y of None \<Rightarrow> True | Some c \<Rightarrow> component_wf c \<and> c \<noteq> Wildcard)"

definition spec_wf :: "calendar_spec \<Rightarrow> bool" where
  "spec_wf spec \<longleftrightarrow>
     fixed_instant spec = None
     \<and> (case weekdays spec of None \<Rightarrow> True | Some rs \<Rightarrow> ranges_wf rs) \<and> year_wf (cal_year spec)
     \<and> component_wf (cal_month spec) \<and> component_wf (cal_day spec) \<and> component_wf (cal_hour spec)
     \<and> component_wf (cal_minute spec) \<and> component_wf (cal_second spec)
     \<and> validate_component_range (cal_month spec) 1 12 ''month'' = Inr ()
     \<and> validate_component_range (cal_day spec) 1 (if day_from_end spec then 28 else 31) ''day'' = Inr ()
     \<and> validate_component_range (cal_hour spec) 0 23 ''hour'' = Inr ()
     \<and> validate_component_range (cal_minute spec) 0 59 ''minute'' = Inr ()
     \<and> validate_component_range (cal_second spec) 0 60 ''second'' = Inr ()"

named_theorems parse_elims \<open>taking a successful parse apart\<close>

declare and_then_Inr [parse_elims] ok_or_Inr [parse_elims]

lemma parse_u32_bound: "parse_u32 s = Some n \<Longrightarrow> n < 2 ^ 32"
  unfolding parse_u32_def by (rule parse_unsigned_bound)

lemma parse_single_value_wf: "parse_single_value s = Inr v \<Longrightarrow> value_wf v"
  unfolding parse_single_value_def
  by (auto simp: parse_elims dest!: parse_u32_bound split: option.splits if_splits)

lemma parse_values_wf: "parse_values ps = Inr vs \<Longrightarrow> list_all value_wf vs"
  by (induction ps arbitrary: vs) (auto simp: parse_elims Let_def parse_single_value_wf split: if_splits)

lemma parse_component_wf: "parse_component s = Inr c \<Longrightarrow> component_wf c"
  unfolding parse_component_def Let_def
  by (auto simp: parse_elims dest!: parse_u32_bound parse_values_wf split: option.splits if_splits)

lemma parse_year_wf: "parse_year s = Inr y \<Longrightarrow> no_ws s \<Longrightarrow> year_wf y"
  using trim_no_ws [of s] unfolding parse_year_def year_wf_def
  by (auto simp: parse_elims parse_component_wf split: if_splits)
     (auto simp: parse_component_def Let_def parse_elims split: option.splits if_splits)

lemma parse_weekday_name_bound: "parse_weekday_name s = Some d \<Longrightarrow> d < 7"
  by (auto simp: parse_weekday_name_def Let_def split: if_splits)

lemma parse_weekday_parts_wf: "parse_weekday_parts ps = Inr rs \<Longrightarrow> list_all (\<lambda>r. wd_start r < 7 \<and> wd_end r < 7) rs"
  by (induction ps arbitrary: rs)
     (auto simp: parse_elims Let_def dest!: parse_weekday_name_bound split: option.splits if_splits)

lemma parse_weekdays_wf: "parse_weekdays s = Inr rs \<Longrightarrow> ranges_wf rs"
  unfolding parse_weekdays_def ranges_wf_def
  by (auto simp: parse_elims dest!: parse_weekday_parts_wf split: if_splits)


lemma parse_from_end_wf:
  assumes "parse_from_end s pos = Inr (y, m, d, e)" "no_ws s"
  shows "year_wf y \<and> component_wf m \<and> component_wf d \<and> e"
proof -
  have y: "no_ws p" if "split_on CHR ''-'' (take pos s) = p # ps" for p ps
    using split_on_prefix [OF that] no_ws_prefix [of "take pos s" "drop pos s"] assms(2) no_ws_prefix
    by auto
  show ?thesis
    using assms(1) unfolding parse_from_end_def Let_def
    by (auto simp: parse_elims dest!: parse_component_wf split: if_splits list.splits)
       (auto simp: year_wf_def dest: parse_year_wf [unfolded year_wf_def] y)
qed

lemma parse_date_part_wf:
  assumes "parse_date_part s = Inr (y, m, d, e)" "no_ws s"
  shows "year_wf y \<and> component_wf m \<and> component_wf d"
proof (cases "find_char CHR ''~'' s")
  case (Some pos)
  then show ?thesis using assms parse_from_end_wf by (auto simp: parse_date_part_def)
next
  case None
  have y: "no_ws p" if "split_on CHR ''-'' s = p # ps" for p ps
    using split_on_prefix [OF that] no_ws_prefix assms(2) by auto
  show ?thesis
    using assms(1) None unfolding parse_date_part_def
    by (auto simp: parse_elims dest!: parse_component_wf split: list.splits)
       (auto simp: year_wf_def dest: parse_year_wf [unfolded year_wf_def] y)
qed

lemma parse_time_part_wf:
  "parse_time_part s = Inr (h, m, sec) \<Longrightarrow> component_wf h \<and> component_wf m \<and> component_wf sec"
  unfolding parse_time_part_def by (auto simp: parse_elims dest!: parse_component_wf split: list.splits)

lemma split_date_time_words: "split_date_time input parts = Inr (Some d, t) \<Longrightarrow> d \<in> set parts"
  by (auto simp: split_date_time_def split: list.splits if_splits)

text \<open>Elimination of one step of a chain, with the tuple it binds.\<close>

lemma and_thenE: "and_then r f = Inr y \<Longrightarrow> (\<And>x. r = Inr x \<Longrightarrow> f x = Inr y \<Longrightarrow> thesis) \<Longrightarrow> thesis"
  by (auto simp: and_then_Inr)

lemma and_then_pairE:
  "and_then r (\<lambda>(a, b). f a b) = Inr y \<Longrightarrow> (\<And>a b. r = Inr (a, b) \<Longrightarrow> f a b = Inr y \<Longrightarrow> thesis) \<Longrightarrow> thesis"
  by (auto simp: and_then_Inr)

lemma and_then_tripleE:
  "and_then r (\<lambda>(a, b, c). f a b c) = Inr y
   \<Longrightarrow> (\<And>a b c. r = Inr (a, b, c) \<Longrightarrow> f a b c = Inr y \<Longrightarrow> thesis) \<Longrightarrow> thesis"
  by (auto simp: and_then_Inr)

lemma and_then_quadE:
  "and_then r (\<lambda>(a, b, c, d). f a b c d) = Inr y
   \<Longrightarrow> (\<And>a b c d. r = Inr (a, b, c, d) \<Longrightarrow> f a b c d = Inr y \<Longrightarrow> thesis) \<Longrightarrow> thesis"
  by (auto simp: and_then_Inr)

lemma and_then_unitE:
  "and_then r (\<lambda>_. f) = Inr y \<Longrightarrow> (r = Inr () \<Longrightarrow> f = Inr y \<Longrightarrow> thesis) \<Longrightarrow> thesis"
  by (auto simp: and_then_Inr)

lemma parse_expression_wf:
  assumes "parse_expression input = Inr spec"
  shows "spec_wf spec"
proof -
  define parts0 where "parts0 = split_whitespace input"
  define parts where "parts = (if length parts0 \<ge> 2 \<and> last parts0 = ''UTC'' then butlast parts0 else parts0)"
  have words: "no_ws w" if "w \<in> set parts" for w
    using that by (auto simp: parts_def parts0_def split_whitespace_no_ws split: if_splits dest: in_set_butlastD)
  from assms obtain wds dtp dp tp y m d e h mi s where steps:
      "(if parts \<noteq> [] \<and> looks_like_weekday (hd parts)
        then and_then (parse_weekdays (hd parts)) (\<lambda>wd. Inr (Some wd, tl parts))
        else Inr (None, parts)) = Inr (wds, dtp)"
      "split_date_time input dtp = Inr (dp, tp)"
      "(case dp of Some d \<Rightarrow> parse_date_part d | None \<Rightarrow> Inr (None, Wildcard, Wildcard, False)) = Inr (y, m, d, e)"
      "(case tp of Some t \<Rightarrow> parse_time_part t | None \<Rightarrow> Inr (zero_component, zero_component, zero_component)) = Inr (h, mi, s)"
      "validate_component_range m 1 12 ''month'' = Inr ()"
      "validate_component_range d 1 (if e then 28 else 31) ''day'' = Inr ()"
      "validate_component_range h 0 23 ''hour'' = Inr ()"
      "validate_component_range mi 0 59 ''minute'' = Inr ()"
      "validate_component_range s 0 60 ''second'' = Inr ()"
      "spec = \<lparr>original = input, weekdays = wds, cal_year = y, cal_month = m, cal_day = d, day_from_end = e,
         cal_hour = h, cal_minute = mi, cal_second = s, utc = (length parts0 \<ge> 2 \<and> last parts0 = ''UTC''), fixed_instant = None\<rparr>"
    unfolding parse_expression_def Let_def parts0_def [symmetric] parts_def [symmetric]
    apply (elim and_then_quadE and_then_tripleE and_then_pairE and_then_unitE)
    by (rule that) (assumption | (simp only: sum.inject))+
  have dtp: "set dtp \<subseteq> set parts" using steps(1) by (auto simp: parse_elims split: if_splits dest: list.set_sel(2))
  have "case wds of None \<Rightarrow> True | Some rs \<Rightarrow> ranges_wf rs"
    using steps(1) parse_weekdays_wf by (auto simp: parse_elims split: if_splits)
  moreover have "year_wf y \<and> component_wf m \<and> component_wf d"
  proof (cases dp)
    case None
    then show ?thesis using steps(3) by (simp add: year_wf_def)
  next
    case (Some dd)
    then have "no_ws dd" using split_date_time_words steps(2) dtp words by blast
    then show ?thesis using parse_date_part_wf steps(3) Some by simp
  qed
  moreover have "component_wf h \<and> component_wf mi \<and> component_wf s"
    using steps(4) parse_time_part_wf by (cases tp) auto
  ultimately show ?thesis using steps(5-10) unfolding spec_wf_def by simp
qed

lemma parse_wf: "parse s = Inr spec \<Longrightarrow> fixed_instant spec = None \<Longrightarrow> spec_wf spec"
  unfolding parse_def parse_timestamp_def Let_def
  by (auto simp: parse_elims spec_wf_def dest!: parse_expression_wf split: if_splits option.splits)

section \<open>Parsing the normalized form\<close>

lemma digits_text:
  "list_all is_digit s \<Longrightarrow> plain_text s"
  "list_all is_digit s \<Longrightarrow> \<not> is_digit c \<Longrightarrow> c \<notin> set s"
  by (auto simp: plain_text_def list_all_iff is_digit_def)

lemma number_text [simp]:
  "plain_text (pad_zero w (show_nat n))" "plain_text (show_nat n)"
  "\<not> is_digit c \<Longrightarrow> c \<notin> set (pad_zero w (show_nat n))" "\<not> is_digit c \<Longrightarrow> c \<notin> set (show_nat n)"
  "pad_zero w (show_nat n) \<noteq> []" "show_nat n \<noteq> []"
  using pad_zero_digits [of w n] show_nat_digits [of n] digits_text by blast+

lemma parse_u32_number [simp]:
  "n < 2 ^ 32 \<Longrightarrow> parse_u32 (pad_zero w (show_nat n)) = Some n" "n < 2 ^ 32 \<Longrightarrow> parse_u32 (show_nat n) = Some n"
  using parse_pad_zero [of n "2 ^ 32" w] parse_pad_zero [of n "2 ^ 32" 0] by (simp_all add: parse_u32_def)

lemma split_slash:
  "CHR ''/'' \<notin> set a \<Longrightarrow> split_once ''/'' (a @ CHR ''/'' # b) = Some (a, b)"
  "CHR ''/'' \<notin> set a \<Longrightarrow> split_once ''/'' a = None"
  using split_once_first [of "''/''" a b] split_once_none [of "''/''" a] by simp_all

lemma split_dots:
  "CHR ''.'' \<notin> set a \<Longrightarrow> split_once ''..'' (a @ CHR ''.'' # CHR ''.'' # b) = Some (a, b)"
  "CHR ''.'' \<notin> set a \<Longrightarrow> split_once ''..'' a = None"
  using split_once_first [of "''..''" a b] split_once_none [of "''..''" a] by simp_all

lemma not_digits [simp]:
  "\<not> is_digit CHR ''/''" "\<not> is_digit CHR ''.''" "\<not> is_digit CHR '',''" "\<not> is_digit CHR ''-''"
  "\<not> is_digit CHR ''~''" "\<not> is_digit CHR '':''" "\<not> is_digit CHR ''*''" "\<not> is_digit CHR ''@''"
  by (simp_all add: is_digit_def)

lemma parse_format_value: "value_wf v \<Longrightarrow> parse_single_value (format_value_padded w v) = Inr v"
proof (cases v)
  case (Val_range_repeat a b step)
  let ?head = "pad_zero w (show_nat a) @ CHR ''.'' # CHR ''.'' # pad_zero w (show_nat b)"
  have "split_once ''/'' (?head @ CHR ''/'' # show_nat step) = Some (?head, show_nat step)"
    by (rule split_slash) simp
  moreover assume "value_wf v"
  ultimately show ?thesis by (simp add: Val_range_repeat parse_single_value_def split_dots)
qed (simp_all add: parse_single_value_def split_dots split_slash)

lemma format_value_0: "format_value v = format_value_padded 0 v"
  by (cases v) simp_all

lemma format_component_0: "format_component c = format_component_padded c 0"
  by (cases c) (simp_all add: format_value_0 cong: map_cong)

lemma number_chars: "c \<in> set (pad_zero w (show_nat n)) \<Longrightarrow> is_digit c" "c \<in> set (show_nat n) \<Longrightarrow> is_digit c"
  using number_text by blast+

text \<open>The characters of a component's text.\<close>

definition component_chars :: "char set" where
  "component_chars = {c. is_digit c} \<union> {CHR ''*'', CHR ''/'', CHR ''.'', CHR '',''}"

lemma value_text:
  "set (format_value_padded w v) \<subseteq> component_chars - {CHR '','', CHR ''*''}"
  "\<exists>c t. format_value_padded w v = c # t \<and> is_digit c"
proof -
  have h: "\<exists>c t. pad_zero w (show_nat n) = c # t \<and> is_digit c" for n
    using pad_zero_digits [of w n] by (cases "pad_zero w (show_nat n)") auto
  show "set (format_value_padded w v) \<subseteq> component_chars - {CHR '','', CHR ''*''}"
    by (cases v) (auto simp: component_chars_def dest: number_chars)
  show "\<exists>c t. format_value_padded w v = c # t \<and> is_digit c"
    using h by (cases v) (simp; metis append_Cons)+
qed

text \<open>Printable ASCII that ends in no space is trimmed, and no shorthand if it has a space.\<close>

definition printable :: "string \<Rightarrow> bool" where
  "printable s \<longleftrightarrow> list_all (\<lambda>c. 32 \<le> byte_of c \<and> byte_of c \<le> 126) s"

lemma space_byte: "byte_of c = 32 \<longleftrightarrow> c = CHR '' ''"
  using of_char_eq_iff [where 'a = nat, of c "CHR '' ''"] by simp

lemma trim_start_printable: "printable s \<Longrightarrow> s \<noteq> [] \<Longrightarrow> last s \<noteq> CHR '' '' \<Longrightarrow> trim_start s \<noteq> []"
proof (induction s)
  case (Cons c s)
  show ?case
  proof (cases "byte_of c = 32")
    case True
    then have "c = CHR '' ''" by (simp add: space_byte)
    then have "trim_start (c # s) = trim_start s" by (subst trim_start.simps) simp
    moreover have "s \<noteq> []" using Cons.prems \<open>c = CHR '' ''\<close> by auto
    ultimately show ?thesis using Cons by (simp add: printable_def)
  next
    case False
    then show ?thesis using Cons.prems by (simp add: trim_start_plain printable_def)
  qed
qed simp

lemma trim_printable:
  assumes "printable s" "s \<noteq> []" "last s \<noteq> CHR '' ''" "hd s \<noteq> CHR '' ''"
  shows "trim s = s"
proof -
  have "trim_end t = t" if "printable t" "last t \<noteq> CHR '' ''" for t
    using that
  proof (induction t)
    case (Cons c t)
    then have "trim_start (c # t) \<noteq> []" by (intro trim_start_printable) simp_all
    moreover have "trim_end t = t" using Cons by (cases t) (simp_all add: printable_def)
    ultimately show ?case by simp
  qed simp
  moreover have "trim_start s = s"
  proof (cases s)
    case (Cons c r)
    then have "32 \<le> byte_of c" "byte_of c \<le> 126" "byte_of c \<noteq> 32"
      using assms by (simp_all add: printable_def space_byte)
    then show ?thesis unfolding Cons by (intro trim_start_plain) simp_all
  qed (use assms in simp)
  ultimately show ?thesis using assms by (simp add: trim_def)
qed

lemma lowercase_space: "CHR '' '' \<in> set s \<Longrightarrow> CHR '' '' \<in> set (to_lowercase s)"
proof -
  have [simp]: "lower_byte CHR '' '' = CHR '' ''" by (simp add: lower_byte_def is_ascii_upper_def)
  show "CHR '' '' \<in> set s \<Longrightarrow> CHR '' '' \<in> set (to_lowercase s)"
    by (induction s rule: to_lowercase.induct) auto
qed

lemma no_shorthand: "CHR '' '' \<in> set s \<Longrightarrow> shorthand_expansion s = None"
  using lowercase_space [of s] by (auto simp: shorthand_expansion_def Let_def)

lemma parse_plain:
  assumes "printable s" "s \<noteq> []" "last s \<noteq> CHR '' ''" "hd s \<noteq> CHR '' ''" "hd s \<noteq> CHR ''@''" "CHR '' '' \<in> set s"
  shows "parse s = parse_expression s"
  using assms trim_printable [of s] no_shorthand [of s] by (cases s) (simp_all add: parse_def strip_prefix_def)

text \<open>The recursive call of a shorthand runs \<open>parse_expression\<close>.\<close>

lemma expansion_plain: "shorthand_expansion s = Some e \<Longrightarrow> parse e = parse_expression e"
proof -
  assume "shorthand_expansion s = Some e"
  then have e: "e \<in> {''*-*-* *:*:00'', ''*-*-* *:00:00'', ''*-*-* 00:00:00'', ''*-*-01 00:00:00'',
    ''Mon *-*-* 00:00:00'', ''*-01-01 00:00:00'', ''*-01,04,07,10-01 00:00:00'', ''*-01,07-01 00:00:00''}"
    by (simp add: shorthand_expansion_def Let_def split: if_splits)
  then show ?thesis by (intro parse_plain) (auto simp: printable_def)
qed


text \<open>A component's text and its parse.\<close>

lemma parse_values_format:
  "list_all value_wf vs \<Longrightarrow> parse_values (map (format_value_padded w) vs) = Inr vs"
proof (induction vs)
  case (Cons v vs)
  have "plain_text (format_value_padded w v)"
    using value_text(1) [of w v]
    by (auto simp: plain_text_def list_all_iff component_chars_def is_digit_def subset_iff)
  moreover have "format_value_padded w v \<noteq> []" using value_text(2) [of w v] by auto
  ultimately show ?case using Cons parse_format_value [of v w] by (simp add: trim_plain Let_def)
qed simp

lemma set_join_with: "set (join_with sep ps) \<subseteq> set sep \<union> (\<Union>p\<in>set ps. set p)"
  by (induction sep ps rule: join_with.induct) auto

lemma join_with_hd: "ps \<noteq> [] \<Longrightarrow> \<exists>t. join_with sep (p # ps) = p @ t" "\<exists>t. join_with sep (p # ps) = p @ t"
  by (cases ps; simp)+

lemma component_text:
  assumes "component_wf c"
  shows "set (format_component_padded c w) \<subseteq> component_chars"
    "\<exists>h t. format_component_padded c w = h # t \<and> (is_digit h \<or> h = CHR ''*'')"
proof -
  show "set (format_component_padded c w) \<subseteq> component_chars"
  proof (cases c)
    case (Value_list vs)
    have "set (format_value_padded w v) \<subseteq> component_chars" for v using value_text(1) by blast
    then show ?thesis
      using set_join_with [of "'',''" "map (format_value_padded w) vs"] unfolding Value_list
      by (force simp: component_chars_def)
  qed (auto simp: component_chars_def dest: number_chars)
  show "\<exists>h t. format_component_padded c w = h # t \<and> (is_digit h \<or> h = CHR ''*'')"
  proof (cases c)
    case (Value_list vs)
    then obtain v us where vs: "vs = v # us" using assms by (cases vs) auto
    obtain h t where "format_value_padded w v = h # t" "is_digit h" using value_text(2) by blast
    moreover obtain r where "join_with '','' (map (format_value_padded w) vs) = format_value_padded w v @ r"
      unfolding vs using join_with_hd(2) by (metis list.simps(9))
    ultimately show ?thesis using Value_list by simp
  qed auto
qed

lemma component_plain: "component_wf c \<Longrightarrow> plain_text (format_component_padded c w)"
  using component_text(1) [of c w]
  by (force simp: plain_text_def list_all_iff component_chars_def is_digit_def subset_iff)

lemma parse_format_component:
  assumes "component_wf c"
  shows "parse_component (format_component_padded c w) = Inr c"
proof (cases c)
  case (Value_list vs)
  let ?s = "join_with '','' (map (format_value_padded w) vs)"
  have wf: "list_all value_wf vs" "vs \<noteq> []" using assms Value_list by simp_all
  obtain v us where vs: "vs = v # us" using wf by (cases vs) auto
  obtain h t where h: "format_value_padded w v = h # t" "is_digit h" using value_text(2) by blast
  obtain r where "?s = format_value_padded w v @ r"
    unfolding vs using join_with_hd(2) by (metis list.simps(9))
  then have "?s = h # t @ r" "h \<noteq> CHR ''*''" using h by (auto simp: is_digit_def)
  moreover have "trim ?s = ?s" using component_plain [OF assms, of w] Value_list by (simp add: trim_plain)
  moreover have "split_on CHR '','' ?s = map (format_value_padded w) vs"
    using value_text(1) wf(2) by (intro split_join_with) auto
  ultimately show ?thesis
    using parse_values_format [OF wf(1), of w] wf(2)
    by (simp add: Value_list parse_component_def strip_prefix_def)
qed (use assms in \<open>simp_all add: parse_component_def strip_prefix_def trim_plain Let_def\<close>)

text \<open>The date and the time of the normalized form.\<close>

definition year_text :: "calendar_component option \<Rightarrow> string" where
  "year_text y = (case y of None \<Rightarrow> ''*'' | Some c \<Rightarrow> format_component c)"

definition date_text :: "calendar_spec \<Rightarrow> string" where
  "date_text spec = year_text (cal_year spec) @ ''-'' @ format_component_padded (cal_month spec) 2
     @ (if day_from_end spec then ''~'' else ''-'') @ format_component_padded (cal_day spec) 2"

definition time_text :: "calendar_spec \<Rightarrow> string" where
  "time_text spec = format_component_padded (cal_hour spec) 2 @ '':''
     @ format_component_padded (cal_minute spec) 2 @ '':'' @ format_component_padded (cal_second spec) 2"

lemma year_chars: "year_wf y \<Longrightarrow> set (year_text y) \<subseteq> component_chars"
  "year_wf y \<Longrightarrow> \<exists>h t. year_text y = h # t \<and> (is_digit h \<or> h = CHR ''*'')"
  using component_text [of "the y" 0]
  by (auto simp: year_text_def year_wf_def format_component_0 component_chars_def split: option.splits)

lemma parse_year_text: "year_wf y \<Longrightarrow> parse_year (year_text y) = Inr y"
proof (cases y)
  case (Some c)
  assume "year_wf y"
  then have c: "component_wf c" "c \<noteq> Wildcard" using Some by (simp_all add: year_wf_def)
  have "format_component c \<noteq> ''*''"
    using c parse_format_component [OF c(1), of 0]
    by (auto simp: format_component_0 parse_component_def trim_plain)
  then show ?thesis
    using c parse_format_component [OF c(1), of 0] by (simp add: Some parse_year_def year_text_def format_component_0)
qed (simp add: parse_year_def year_text_def)

lemma chars_no_sep:
  "set s \<subseteq> component_chars \<Longrightarrow> c \<notin> component_chars \<Longrightarrow> c \<notin> set s"
  "CHR ''-'' \<notin> component_chars" "CHR ''~'' \<notin> component_chars" "CHR '':'' \<notin> component_chars"
  by (auto simp: component_chars_def)

lemma parse_date_text:
  assumes "year_wf (cal_year spec)" "component_wf (cal_month spec)" "component_wf (cal_day spec)"
  shows "parse_date_part (date_text spec) = Inr (cal_year spec, cal_month spec, cal_day spec, day_from_end spec)"
proof -
  let ?y = "year_text (cal_year spec)" and ?m = "format_component_padded (cal_month spec) 2"
  let ?d = "format_component_padded (cal_day spec) 2"
  have chars: "set ?y \<subseteq> component_chars" "set ?m \<subseteq> component_chars" "set ?d \<subseteq> component_chars"
    using assms year_chars component_text by blast+
  note free = chars [THEN chars_no_sep(1)] chars_no_sep(2-4)
  note parts = parse_year_text [OF assms(1)] parse_format_component [OF assms(2)] parse_format_component [OF assms(3)]
  show ?thesis
  proof (cases "day_from_end spec")
    case True
    have none: "find_char CHR ''~'' (?y @ CHR ''-'' # ?m) = None" by (simp add: find_char_None free)
    have pos: "find_char CHR ''~'' (date_text spec) = Some (length (?y @ CHR ''-'' # ?m))"
      using find_char_append [of "CHR ''~''" "?y @ CHR ''-'' # ?m" "CHR ''~'' # ?d"] none True
      by (simp add: date_text_def)
    have whole: "date_text spec = (?y @ CHR ''-'' # ?m) @ CHR ''~'' # ?d" using True by (simp add: date_text_def)
    have "take (length (?y @ CHR ''-'' # ?m)) (date_text spec) = ?y @ CHR ''-'' # ?m"
      "drop (length (?y @ CHR ''-'' # ?m) + 1) (date_text spec) = ?d" unfolding whole by simp_all
    then show ?thesis
      using True unfolding parse_date_part_def pos
      by (simp add: parse_from_end_def split_on_append_sep split_on_id free parts)
  next
    case False
    have "find_char CHR ''~'' (date_text spec) = None" using False by (simp add: date_text_def find_char_None free)
    then show ?thesis
      using False by (simp add: parse_date_part_def date_text_def split_on_append_sep split_on_id free parts)
  qed
qed

lemma parse_time_text:
  assumes "component_wf (cal_hour spec)" "component_wf (cal_minute spec)" "component_wf (cal_second spec)"
  shows "parse_time_part (time_text spec) = Inr (cal_hour spec, cal_minute spec, cal_second spec)"
proof -
  note free = component_text(1) [OF assms(1), THEN chars_no_sep(1)] component_text(1) [OF assms(2), THEN chars_no_sep(1)]
    component_text(1) [OF assms(3), THEN chars_no_sep(1)] chars_no_sep(4)
  show ?thesis
    by (simp add: parse_time_part_def time_text_def split_on_append_sep split_on_id free
        parse_format_component [OF assms(1)] parse_format_component [OF assms(2)] parse_format_component [OF assms(3)])
qed

text \<open>The weekdays of the normalized form.\<close>

lemma weekday_name_cases: "d < 7 \<Longrightarrow> weekday_name d \<in> {''Mon'', ''Tue'', ''Wed'', ''Thu'', ''Fri'', ''Sat'', ''Sun''}"
  by (auto simp: weekday_name_def)

lemma weekday_name_text:
  assumes "d < 7"
  shows "plain_text (weekday_name d)" "weekday_name d \<noteq> []" "CHR ''.'' \<notin> set (weekday_name d)"
    "CHR '','' \<notin> set (weekday_name d)" "CHR ''@'' \<notin> set (weekday_name d)"
  using weekday_name_cases [OF assms] by auto

lemma parse_weekday_name_name: "d < 7 \<Longrightarrow> parse_weekday_name (weekday_name d) = Some d"
proof -
  assume "d < 7"
  then consider "d = 0" | "d = 1" | "d = 2" | "d = 3" | "d = 4" | "d = 5" | "d = 6" by linarith
  then show ?thesis
    by cases (hypsubst, code_simp)+
qed

lemma weekday_range_text:
  assumes "wd_start r < 7" "wd_end r < 7"
  shows "plain_text (format_weekday_range r)" "format_weekday_range r \<noteq> []" "CHR '','' \<notin> set (format_weekday_range r)"
    "CHR ''@'' \<notin> set (format_weekday_range r)"
    "list_all (\<lambda>a. parse_weekday_name (trim a) \<noteq> None) (split_str ''..'' (format_weekday_range r))"
proof -
  note t = weekday_name_text [OF assms(1)] weekday_name_text [OF assms(2)]
  show "plain_text (format_weekday_range r)" "format_weekday_range r \<noteq> []" "CHR '','' \<notin> set (format_weekday_range r)"
    "CHR ''@'' \<notin> set (format_weekday_range r)"
    using t by (simp_all add: format_weekday_range_def)
  have 1: "split_str ''..'' (weekday_name d) = [weekday_name d]" if "d < 7" for d
    using weekday_name_text [OF that] by (subst split_str.simps) (simp add: split_dots)
  have "split_str ''..'' (weekday_name (wd_start r) @ ''..'' @ weekday_name (wd_end r))
      = [weekday_name (wd_start r), weekday_name (wd_end r)]"
    using t 1 [OF assms(2)] by (subst split_str.simps) (simp add: split_dots)
  then show "list_all (\<lambda>a. parse_weekday_name (trim a) \<noteq> None) (split_str ''..'' (format_weekday_range r))"
    using t 1 assms by (simp add: format_weekday_range_def trim_plain parse_weekday_name_name)
qed

lemma parse_weekday_parts_format:
  "list_all (\<lambda>r. wd_start r < 7 \<and> wd_end r < 7) rs \<Longrightarrow> parse_weekday_parts (map format_weekday_range rs) = Inr rs"
proof (induction rs)
  case (Cons r rs)
  then have b: "wd_start r < 7" "wd_end r < 7" by simp_all
  note t = weekday_name_text [OF b(1)] weekday_name_text [OF b(2)]
  show ?case
    using Cons weekday_range_text(1,2) [OF b] t b
    by (simp add: trim_plain Let_def format_weekday_range_def split_dots parse_weekday_name_name)
qed simp

lemma weekdays_text:
  assumes "ranges_wf rs"
  defines "s \<equiv> join_with '','' (map format_weekday_range rs)"
  shows "looks_like_weekday s" "parse_weekdays s = Inr rs" "plain_text s" "s \<noteq> []" "CHR ''@'' \<notin> set s"
proof -
  have b: "list_all (\<lambda>r. wd_start r < 7 \<and> wd_end r < 7) rs" "rs \<noteq> []"
    using assms(1) by (simp_all add: ranges_wf_def)
  have each: "\<And>r. r \<in> set rs \<Longrightarrow> wd_start r < 7 \<and> wd_end r < 7" using b by (simp add: list_all_iff)
  have split: "split_on CHR '','' s = map format_weekday_range rs"
    unfolding s_def using b(2) each weekday_range_text(3) by (intro split_join_with) auto
  then show "parse_weekdays s = Inr rs"
    using parse_weekday_parts_format [OF b(1)] b(2) by (simp add: parse_weekdays_def)
  have "list_all (\<lambda>p. trim p \<noteq> [] \<and> list_all (\<lambda>a. parse_weekday_name (trim a) \<noteq> None) (split_str ''..'' (trim p)))
      (map format_weekday_range rs)"
    unfolding list.pred_map comp_def list_all_iff [of _ rs]
  proof
    fix r assume "r \<in> set rs"
    then have "wd_start r < 7" "wd_end r < 7" using each by blast+
    from weekday_range_text(1,2,5) [OF this]
    show "trim (format_weekday_range r) \<noteq> [] \<and> list_all (\<lambda>a. parse_weekday_name (trim a) \<noteq> None)
        (split_str ''..'' (trim (format_weekday_range r)))" by (simp only: trim_plain simp_thms)
  qed
  then show "looks_like_weekday s" by (simp add: looks_like_weekday_def split Let_def)
  have "plain_text (join_with '','' ps)" if "list_all plain_text ps" for ps
    using that by (induction "'',''" ps rule: join_with.induct) auto
  then show "plain_text s" unfolding s_def using each weekday_range_text(1) by (simp add: list_all_iff)
  show "s \<noteq> []"
    using join_with_eq_Nil [of "'',''" "map format_weekday_range rs" "format_weekday_range (hd rs)"] b(2)
      weekday_range_text(2) [of "hd rs"] each [of "hd rs"] unfolding s_def by auto
  show "CHR ''@'' \<notin> set s"
    using set_join_with [of "'',''" "map format_weekday_range rs"] each weekday_range_text(4) unfolding s_def by fastforce
qed

text \<open>The words of the normalized form.\<close>

definition normal_words :: "calendar_spec \<Rightarrow> string list" where
  "normal_words spec =
     (case weekdays spec of None \<Rightarrow> [] | Some rs \<Rightarrow> [join_with '','' (map format_weekday_range rs)])
     @ [date_text spec, time_text spec] @ (if utc spec then [''UTC''] else [])"

lemma normalized_words: "fixed_instant spec = None \<Longrightarrow> normalized spec = join_with '' '' (normal_words spec)"
  by (simp add: normalized_def normal_words_def date_text_def time_text_def year_text_def split: option.split)

lemma component_start:
  "component_wf c \<Longrightarrow> \<exists>h t. format_component_padded c w @ r = h # t \<and> (is_digit h \<or> h = CHR ''*'')"
  using component_text(2) [of c w] by force

lemma date_time_text:
  assumes "spec_wf spec"
  shows "plain_text (date_text spec)" "plain_text (time_text spec)"
    "\<exists>h t. date_text spec = h # t \<and> (is_digit h \<or> h = CHR ''*'')"
    "\<exists>h t. time_text spec = h # t \<and> (is_digit h \<or> h = CHR ''*'')"
proof -
  have wf: "year_wf (cal_year spec)" "component_wf (cal_month spec)" "component_wf (cal_day spec)"
      "component_wf (cal_hour spec)" "component_wf (cal_minute spec)" "component_wf (cal_second spec)"
    using assms by (simp_all add: spec_wf_def)
  have "plain_text (year_text (cal_year spec))"
    using wf(1) component_plain by (simp add: year_text_def year_wf_def format_component_0 split: option.splits)
  then show "plain_text (date_text spec)" using wf component_plain by (simp add: date_text_def)
  show "plain_text (time_text spec)" using wf component_plain by (simp add: time_text_def)
  show "\<exists>h t. date_text spec = h # t \<and> (is_digit h \<or> h = CHR ''*'')"
    using year_chars(2) [OF wf(1)] by (auto simp: date_text_def)
  show "\<exists>h t. time_text spec = h # t \<and> (is_digit h \<or> h = CHR ''*'')"
    using component_start [OF wf(4)] unfolding time_text_def .
qed

lemma not_weekday_text:
  assumes "plain_text (h # t)" "is_digit h \<or> h = CHR ''*''"
  shows "\<not> looks_like_weekday (h # t)"
proof -
  have h: "h \<noteq> CHR '',''" "h \<noteq> CHR ''.''" "byte_of h < 65" using assms(2) by (auto simp: is_digit_def)
  obtain p ps where p: "split_on CHR '','' (h # t) = (h # p) # ps"
    using h by (cases "split_on CHR '','' t") simp_all
  have plain: "plain_text (h # p)" using assms(1) split_on_prefix [OF p] by auto
  obtain a as where a: "split_str ''..'' (h # p) = (h # a) # as" "plain_text (h # a)"
  proof (cases "split_once ''..'' (h # p)")
    case None
    then have "split_str ''..'' (h # p) = [h # p]" by (subst split_str.simps) simp
    then show ?thesis using plain that by blast
  next
    case (Some x)
    then obtain a b where x: "split_once ''..'' (h # p) = Some (h # a, b)" "\<exists>r. p = a @ r"
      using h split_once_prefix by (cases x) (force split: if_splits)
    then have "split_str ''..'' (h # p) = (h # a) # split_str ''..'' b" by (subst split_str.simps) simp
    then show ?thesis using plain that x(2) by auto
  qed
  have "hd (to_lowercase (h # a)) = h"
    using h(3) by (cases "(h # a)" rule: to_lowercase.cases) (auto simp: lower_byte_def is_ascii_upper_def)
  then have "parse_weekday_name (h # a) = None"
    using h(3) by (auto simp: parse_weekday_name_def Let_def)
  then show ?thesis using plain a(2) unfolding looks_like_weekday_def p by (simp add: a(1) trim_plain)
qed

lemma printable_join:
  "list_all plain_text ws \<Longrightarrow> printable (join_with '' '' ws)"
  by (induction "'' ''" ws rule: join_with.induct) (auto simp: printable_def plain_text_def list_all_iff)

lemma last_join_with: "ws \<noteq> [] \<Longrightarrow> last ws \<noteq> [] \<Longrightarrow> last (join_with sep ws) = last (last ws)"
proof (induction sep ws rule: join_with.induct)
  case (3 sep x y ys)
  define z where "z = last (y # ys)"
  have "z \<in> set (y # ys)" "z \<noteq> []" using 3(3) last_in_set [of "y # ys"] by (simp_all add: z_def)
  then have "join_with sep (y # ys) \<noteq> []" using join_with_eq_Nil by blast
  then show ?case using 3 by (simp split: if_splits)
qed simp_all

lemma normal_words_text:
  assumes "spec_wf spec"
  shows "list_all (\<lambda>w. plain_text w \<and> w \<noteq> []) (normal_words spec)" "\<not> starts_with (hd (normal_words spec)) ''@''"
proof -
  have at: "\<not> starts_with s ''@''" if "CHR ''@'' \<notin> set s" for s using that by (cases s) auto
  note dt = date_time_text [OF assms]
  have "plain_text w \<and> w \<noteq> []" if "w \<in> {date_text spec, time_text spec, ''UTC''}" for w using dt that by auto
  moreover have "plain_text (join_with '','' (map format_weekday_range rs)) \<and> join_with '','' (map format_weekday_range rs) \<noteq> []
      \<and> \<not> starts_with (join_with '','' (map format_weekday_range rs)) ''@''" if "weekdays spec = Some rs" for rs
    using weekdays_text(3-5) [of rs] at that assms by (simp add: spec_wf_def)
  moreover have "\<not> starts_with (date_text spec) ''@''" using dt(3) by auto
  ultimately show "list_all (\<lambda>w. plain_text w \<and> w \<noteq> []) (normal_words spec)" "\<not> starts_with (hd (normal_words spec)) ''@''"
    by (auto simp: normal_words_def split: option.split)
qed

lemma parse_normal_words:
  assumes wf: "spec_wf spec" and words: "split_whitespace s = normal_words spec"
  shows "parse_expression s = Inr (spec\<lparr>original := s\<rparr>)"
proof -
  let ?parts = "normal_words spec"
  obtain h t where h: "time_text spec = h # t" "is_digit h \<or> h = CHR ''*''" using date_time_text(4) [OF wf] by blast
  have "time_text spec \<noteq> ''UTC''" using h by (auto simp: is_digit_def)
  then have utc: "(length ?parts \<ge> 2 \<and> last ?parts = ''UTC'') = utc spec" by (auto simp: normal_words_def split: option.split)
  let ?body = "if utc spec then butlast ?parts else ?parts"
  have body: "?body = (case weekdays spec of None \<Rightarrow> [] | Some rs \<Rightarrow> [join_with '','' (map format_weekday_range rs)])
      @ [date_text spec, time_text spec]"
    by (simp add: normal_words_def split: option.split)
  have date: "\<not> looks_like_weekday (date_text spec)"
    using date_time_text(1,3) [OF wf] not_weekday_text by metis
  have wds: "(if ?body \<noteq> [] \<and> looks_like_weekday (hd ?body)
      then and_then (parse_weekdays (hd ?body)) (\<lambda>wd. Inr (Some wd, tl ?body)) else Inr (None, ?body))
      = Inr (weekdays spec, [date_text spec, time_text spec])"
    unfolding body using date weekdays_text(1,2) wf by (simp add: spec_wf_def split: option.splits)
  have "fixed_instant spec = None" and v:
      "validate_component_range (cal_month spec) 1 12 ''month'' = Inr ()"
      "validate_component_range (cal_day spec) 1 (if day_from_end spec then 28 else 31) ''day'' = Inr ()"
      "validate_component_range (cal_hour spec) 0 23 ''hour'' = Inr ()"
      "validate_component_range (cal_minute spec) 0 59 ''minute'' = Inr ()"
      "validate_component_range (cal_second spec) 0 60 ''second'' = Inr ()"
    using wf unfolding spec_wf_def by blast+
  have parts: "parse_date_part (date_text spec) = Inr (cal_year spec, cal_month spec, cal_day spec, day_from_end spec)"
      "parse_time_part (time_text spec) = Inr (cal_hour spec, cal_minute spec, cal_second spec)"
    using wf parse_date_text parse_time_text by (simp_all add: spec_wf_def)
  have whole: "\<lparr>original = s, weekdays = weekdays spec, cal_year = cal_year spec, cal_month = cal_month spec,
      cal_day = cal_day spec, day_from_end = day_from_end spec, cal_hour = cal_hour spec, cal_minute = cal_minute spec,
      cal_second = cal_second spec, utc = utc spec, fixed_instant = None\<rparr> = spec\<lparr>original := s\<rparr>"
    using \<open>fixed_instant spec = None\<close> by (cases spec) simp
  show ?thesis
    unfolding parse_expression_def words Let_def utc wds
    by (simp only: split_date_time_def list.case prod.case option.case and_then_simps parts v whole)
qed

text \<open>
  C14: A parse whose result is a recurring specification is stable under normalization: the
  normalized form of the specification parses, to the same weekdays, date, time and zone.
\<close>

theorem normalized_parses_back:
  assumes "parse s = Inr spec" "fixed_instant spec = None"
  shows "parse (normalized spec) = Inr (spec\<lparr>original := normalized spec\<rparr>)"
proof -
  have wf: "spec_wf spec" using assms by (rule parse_wf)
  have ne: "normal_words spec \<noteq> []" by (simp add: normal_words_def)
  note ws = normal_words_text [OF wf]
  let ?t = "join_with '' '' (normal_words spec)"
  obtain w us where w: "normal_words spec = w # us" "us \<noteq> []" by (cases "normal_words spec") (auto simp: normal_words_def split: option.splits)
  obtain r where r: "?t = w @ r" using join_with_hd(2) w by metis
  have "plain_text w" "w \<noteq> []" "\<not> starts_with w ''@''" using ws w by simp_all
  then have first: "?t \<noteq> []" "hd ?t \<noteq> CHR '' ''" "hd ?t \<noteq> CHR ''@''" unfolding r by (cases w; auto)+
  have "CHR '' '' \<in> set ?t" using w by (cases us) auto
  moreover have "last ?t \<noteq> CHR '' ''"
  proof -
    have l: "plain_text (last (normal_words spec))" "last (normal_words spec) \<noteq> []"
      using ws(1) ne by (simp_all add: list_all_iff)
    then have "last (last (normal_words spec)) \<noteq> CHR '' ''" using last_in_set by (fastforce simp: plain_text_def list_all_iff)
    then show ?thesis using last_join_with [OF ne l(2)] by simp
  qed
  moreover have "printable ?t" using ws(1) by (intro printable_join) (simp add: list_all_iff)
  ultimately have "parse ?t = parse_expression ?t" using first by (intro parse_plain)
  also have "\<dots> = Inr (spec\<lparr>original := ?t\<rparr>)"
    using split_whitespace_plain [OF ne ws(1)] parse_normal_words [OF wf] by blast
  finally show ?thesis using normalized_words [OF assms(2)] by simp
qed

definition weekdays_at_nine :: calendar_spec where
  "weekdays_at_nine = \<lparr>original = ''Mon..Fri *-*-* 09:00'', weekdays = Some [\<lparr>wd_start = 0, wd_end = 4\<rparr>],
     cal_year = None, cal_month = Wildcard, cal_day = Wildcard, day_from_end = False,
     cal_hour = Value_list [Val_exact 9], cal_minute = Value_list [Val_exact 0], cal_second = Value_list [Val_exact 0],
     utc = False, fixed_instant = None\<rparr>"

lemma trim_start_Nil [simp]: "trim_start [] = []"
  by (subst trim_start.simps) simp

lemma parse_weekdays_at_nine: "parse ''Mon..Fri *-*-* 09:00'' = Inr weekdays_at_nine"
proof -
  have ws: "split_whitespace ''Mon..Fri *-*-* 09:00'' = [''Mon..Fri'', ''*-*-*'', ''09:00'']"
    using split_whitespace_plain [of "[''Mon..Fri'', ''*-*-*'', ''09:00'']"] by simp
  have days: "looks_like_weekday ''Mon..Fri''" "parse_weekdays ''Mon..Fri'' = Inr [\<lparr>wd_start = 0, wd_end = 4\<rparr>]"
    using weekdays_text(1,2) [of "[\<lparr>wd_start = 0, wd_end = 4\<rparr>]"]
    by (simp_all add: ranges_wf_def format_weekday_range_def weekday_name_def)
  have "parse_date_part ''*-*-*'' = Inr (None, Wildcard, Wildcard, False)"
    by (simp add: parse_date_part_def parse_year_def parse_component_def trim_plain)
  moreover have "parse_u32 ''09'' = Some 9" "parse_u32 ''00'' = Some 0"
    by (simp_all add: parse_u32_def parse_unsigned_def parse_digits_def digit_value_def is_digit_def)
  then have "parse_time_part ''09:00'' = Inr (Value_list [Val_exact 9], Value_list [Val_exact 0], Value_list [Val_exact 0])"
    by (simp add: parse_time_part_def parse_component_def trim_plain strip_prefix_def parse_single_value_def)
  moreover have "parse ''Mon..Fri *-*-* 09:00'' = parse_expression ''Mon..Fri *-*-* 09:00''"
    by (intro parse_plain) (simp_all add: printable_def)
  ultimately show ?thesis
    unfolding parse_expression_def Let_def ws
    by (simp add: days split_date_time_def validate_component_range_def weekdays_at_nine_def)
qed

theorem normalized_parses_back_witness:
  "parse (normalized weekdays_at_nine) = Inr (weekdays_at_nine\<lparr>original := normalized weekdays_at_nine\<rparr>)"
  by (rule normalized_parses_back [OF parse_weekdays_at_nine]) (simp add: weekdays_at_nine_def)

section \<open>Parsed specifications elapse\<close>

fun value_step :: "calendar_value \<Rightarrow> nat" where
  "value_step (Val_repeat start step) = step"
| "value_step (Val_range_repeat start stop step) = step"
| "value_step _ = 1"

fun component_steps :: "calendar_component \<Rightarrow> nat list" where
  "component_steps Wildcard = []"
| "component_steps (Wildcard_repeat step) = [step]"
| "component_steps (Value_list vs) = map value_step vs"

definition spec_steps :: "calendar_spec \<Rightarrow> nat list" where
  "spec_steps spec =
     (case cal_year spec of None \<Rightarrow> [] | Some c \<Rightarrow> component_steps c) @ component_steps (cal_month spec)
     @ component_steps (cal_day spec) @ component_steps (cal_hour spec) @ component_steps (cal_minute spec)
     @ component_steps (cal_second spec)"

lemma component_ok_steps: "component_wf c \<Longrightarrow> list_all (\<lambda>n. n < 2 ^ 31) (component_steps c) \<Longrightarrow> component_ok c"
proof (cases c)
  case (Value_list vs)
  have "value_ok v" if "value_wf v" "value_step v < 2 ^ 31" for v using that by (cases v) simp_all
  moreover assume "component_wf c" "list_all (\<lambda>n. n < 2 ^ 31) (component_steps c)"
  ultimately show ?thesis unfolding Value_list by (simp add: list_all_iff)
qed simp_all

lemma spec_ok_steps: "spec_wf spec \<Longrightarrow> list_all (\<lambda>n. n < 2 ^ 31) (spec_steps spec) \<Longrightarrow> spec_ok spec"
  by (auto simp: spec_wf_def spec_ok_def spec_steps_def year_wf_def component_ok_steps split: option.splits)

text \<open>
  C15: Every recurring expression that parses has a next elapse that is computed: no step
  of the specification is zero, so the loops that step through the values of a component end.
  The steps must stay below \<open>2 ^ 31\<close>; a larger one can wrap around.
\<close>

theorem parsed_expression_elapses:
  assumes "parse s = Inr spec" "fixed_instant spec = None" "list_all (\<lambda>n. n < 2 ^ 31) (spec_steps spec)"
    and "valid_datetime af" "0 \<le> dt_year af" "dt_year af + 5 < 2 ^ 31"
  shows "next_elapse spec af \<noteq> None"
  using next_elapse_least_of [OF spec_ok_steps [OF parse_wf [OF assms(1,2)] assms(3)] assms(4-6)] by auto

theorem parsed_expression_elapses_witness: "next_elapse weekdays_at_nine (first_of_march 2023) \<noteq> None"
  by (rule parsed_expression_elapses [OF parse_weekdays_at_nine])
     (simp_all add: weekdays_at_nine_def spec_steps_def valid_datetime_def valid_date_def days_in_month_def)

end
