(* ===== verification/Restart.thy ===== *)
theory Restart
  imports Lifecycle RustText
begin

text \<open>
  What happens when the main process of a service exits (\<open>services/service_exit_handler.rs\<close>):
  the restart policy, the graduated restart delay, the aftermath of an exit for one-shot and for
  other services, and the delayed restart with its rate limit.

  A signal is its number.  The processes, the commands the handler runs and the threads it spawns
  are effects in a list.  The handler retries a recursive stop while it fails for a dependency,
  without a bound; a run that never returns is \<open>None\<close>.

  Lemmas: the policy is the documented table, the delay stays between its bounds, a stop on
  purpose is not followed by a restart, a failed service is left failed with its dependents
  stopped.
\<close>

section \<open>Terminations\<close>

type_synonym signal = int

abbreviation SIGHUP :: signal where "SIGHUP \<equiv> 1"
abbreviation SIGINT :: signal where "SIGINT \<equiv> 2"
abbreviation SIGABRT :: signal where "SIGABRT \<equiv> 6"
abbreviation SIGKILL :: signal where "SIGKILL \<equiv> 9"
abbreviation SIGPIPE :: signal where "SIGPIPE \<equiv> 13"
abbreviation SIGTERM :: signal where "SIGTERM \<equiv> 15"

datatype child_termination = Signal signal bool | Exit int

fun success :: "child_termination \<Rightarrow> bool" where
  "success (Signal _ _) \<longleftrightarrow> False"
| "success (Exit code) \<longleftrightarrow> code = 0"

fun core_dumped :: "child_termination \<Rightarrow> bool" where
  "core_dumped (Signal _ b) \<longleftrightarrow> b"
| "core_dumped (Exit _) \<longleftrightarrow> False"

record success_exit_status =
  exit_codes :: "int list"
  signals :: "signal list"

fun is_success :: "success_exit_status \<Rightarrow> child_termination \<Rightarrow> bool" where
  "is_success s (Exit code) \<longleftrightarrow> code = 0 \<or> code \<in> set (exit_codes s)"
| "is_success s (Signal sig _) \<longleftrightarrow> sig \<in> set (signals s)"

definition is_clean_signal_value :: "signal \<Rightarrow> bool" where
  "is_clean_signal_value sig \<longleftrightarrow> sig = SIGHUP \<or> sig = SIGINT \<or> sig = SIGTERM \<or> sig = SIGPIPE"

fun is_clean_signal :: "success_exit_status \<Rightarrow> child_termination \<Rightarrow> bool" where
  "is_clean_signal s (Signal sig _) \<longleftrightarrow>
     (sig = SIGHUP \<or> sig = SIGINT \<or> sig = SIGTERM \<or> sig = SIGPIPE) \<or> sig \<in> set (signals s)"
| "is_clean_signal s (Exit _) \<longleftrightarrow> False"

section \<open>Restart policy\<close>

datatype service_restart =
  Restart_No | Restart_Always | OnSuccess | OnFailure | OnAbnormal | OnAbort | OnWatchdog

fun should_restart :: "service_restart \<Rightarrow> child_termination \<Rightarrow> success_exit_status \<Rightarrow> bool \<Rightarrow> bool" where
  "should_restart Restart_No code s watchdog_fired \<longleftrightarrow> False"
| "should_restart Restart_Always code s watchdog_fired \<longleftrightarrow> True"
| "should_restart OnSuccess code s watchdog_fired \<longleftrightarrow> is_success s code \<or> is_clean_signal s code"
| "should_restart OnFailure code s watchdog_fired \<longleftrightarrow>
     (if watchdog_fired then True
      else case code of
             Exit c \<Rightarrow> c \<noteq> 0 \<and> c \<notin> set (exit_codes s)
           | Signal sig _ \<Rightarrow> \<not> is_clean_signal_value sig \<and> sig \<notin> set (signals s))"
| "should_restart OnAbnormal code s watchdog_fired \<longleftrightarrow>
     (if watchdog_fired then True
      else case code of
             Exit c \<Rightarrow> False
           | Signal sig _ \<Rightarrow> \<not> is_clean_signal_value sig \<and> sig \<notin> set (signals s))"
| "should_restart OnAbort code s watchdog_fired \<longleftrightarrow>
     (case code of
        Exit c \<Rightarrow> False
      | Signal sig _ \<Rightarrow> \<not> is_clean_signal_value sig \<and> sig \<notin> set (signals s))"
| "should_restart OnWatchdog code s watchdog_fired \<longleftrightarrow> watchdog_fired"

text \<open>The test of \<open>RestartPreventExitStatus=\<close> and \<open>RestartForceExitStatus=\<close>.\<close>

fun listed :: "success_exit_status \<Rightarrow> child_termination \<Rightarrow> bool" where
  "listed s (Exit c) \<longleftrightarrow> c \<in> set (exit_codes s)"
| "listed s (Signal sig _) \<longleftrightarrow> sig \<in> set (signals s)"

text \<open>The table of the manual: the rows are what ended the service, without a watchdog.\<close>

datatype exit_class = Clean_exit | Unclean_exit | Clean_signal | Unclean_signal

definition exit_class_of :: "success_exit_status \<Rightarrow> child_termination \<Rightarrow> exit_class" where
  "exit_class_of s code =
     (case code of
        Exit _ \<Rightarrow> if is_success s code then Clean_exit else Unclean_exit
      | Signal _ _ \<Rightarrow> if is_clean_signal s code then Clean_signal else Unclean_signal)"

fun restart_table :: "exit_class \<Rightarrow> service_restart list" where
  "restart_table Clean_exit = [Restart_Always, OnSuccess]"
| "restart_table Unclean_exit = [Restart_Always, OnFailure]"
| "restart_table Clean_signal = [Restart_Always, OnSuccess]"
| "restart_table Unclean_signal = [Restart_Always, OnFailure, OnAbnormal, OnAbort]"

definition watchdog_row :: "service_restart list" where
  "watchdog_row = [Restart_Always, OnFailure, OnAbnormal, OnWatchdog]"

definition timeout_row :: "service_restart list" where
  "timeout_row = [Restart_Always, OnFailure, OnAbnormal]"

text \<open>
  The restart policy is the documented table.  Without a watchdog the policy restarts
  exactly in the marked columns of the row of the exit.  When the watchdog fired, the watchdog row
  decides, except for \<open>on-success\<close> and \<open>on-abort\<close>, which still go by how the process ended.
\<close>

theorem restart_policy_is_table:
  "should_restart p code s watchdog_fired \<longleftrightarrow>
     p \<in> set (if watchdog_fired \<and> p \<notin> {OnSuccess, OnAbort} then watchdog_row else restart_table (exit_class_of s code))"
  by (cases p; cases code) (auto simp: exit_class_of_def watchdog_row_def is_clean_signal_value_def)

text \<open>A watchdog kill restarts a service with \<open>Restart=on-abort\<close>, whose column is empty in that row.\<close>

theorem watchdog_restarts_on_abort:
  "should_restart OnAbort (Signal SIGABRT True) \<lparr>exit_codes = [], signals = []\<rparr> True \<and> OnAbort \<notin> set watchdog_row"
  by (simp add: watchdog_row_def is_clean_signal_value_def)

text \<open>A run that took longer than \<open>RuntimeMaxSec=\<close> counts as a watchdog kill; the column of the timeout row is empty.\<close>

lemma runtime_limit_restarts_on_watchdog:
  "should_restart OnWatchdog code s True \<and> OnWatchdog \<notin> set timeout_row"
  by (simp add: timeout_row_def)

section \<open>Restart delay\<close>

text \<open>
  Durations are nanoseconds; adding two durations panics when the seconds overflow 64 bits.  The
  increment is counted in milliseconds and truncated to 64 bits.
\<close>

definition compute_graduated_restart_delay ::
  "timeout option \<Rightarrow> timeout option \<Rightarrow> nat \<Rightarrow> nat \<Rightarrow> timeout option outcome" where
  "compute_graduated_restart_delay base_sec max_delay_sec steps restart_count =
     (let base_dur = (case base_sec of Some (Duration d) \<Rightarrow> d | _ \<Rightarrow> 0) in
      case max_delay_sec of
        Some (Duration max_dur) \<Rightarrow>
          if steps = 0 \<or> max_dur \<le> base_dur then Returns base_sec
          else
            let step_idx = min restart_count steps;
                range = max_dur - base_dur;
                increment = (range div 10 ^ 6) * step_idx div steps;
                delay = base_dur + (increment mod 2 ^ 64) * 10 ^ 6
            in if delay < 2 ^ 64 * 10 ^ 9 then Returns (Some (Duration delay)) else Panics
      | _ \<Rightarrow> Returns base_sec)"

definition delay_at :: "nat \<Rightarrow> nat \<Rightarrow> nat \<Rightarrow> nat \<Rightarrow> nat" where
  "delay_at b m steps n = b + ((m - b) div 10 ^ 6 * min n steps div steps) * 10 ^ 6"

lemma graduated_delay_eq:
  assumes "0 < steps" "b < m" "m < 2 ^ 64 * 10 ^ 6"
  shows "compute_graduated_restart_delay (Some (Duration b)) (Some (Duration m)) steps n
      = Returns (Some (Duration (delay_at b m steps n)))"
    "b \<le> delay_at b m steps n" "delay_at b m steps n \<le> m"
proof -
  let ?r = "(m - b) div 10 ^ 6" and ?k = "(m - b) div 10 ^ 6 * min n steps div steps"
  have "?r * min n steps \<le> ?r * steps" by simp
  then have "?k \<le> ?r * steps div steps" by (rule div_le_mono)
  then have k: "?k \<le> ?r" using assms(1) by simp
  have "?r * 10 ^ 6 \<le> m - b" by (rule div_times_less_eq_dividend)
  then have "?k * 10 ^ 6 \<le> m - b" using k by (meson le_trans mult_le_mono1)
  then show le: "delay_at b m steps n \<le> m" using assms(2) by (simp add: delay_at_def)
  show "b \<le> delay_at b m steps n" by (simp add: delay_at_def)
  have "?r < 2 ^ 64" using assms by (simp add: less_mult_imp_div_less)
  then have "?k mod 2 ^ 64 = ?k" using k by simp
  moreover have "delay_at b m steps n < 2 ^ 64 * 10 ^ 9" using le assms(3) by simp
  ultimately show "compute_graduated_restart_delay (Some (Duration b)) (Some (Duration m)) steps n
      = Returns (Some (Duration (delay_at b m steps n)))"
    using assms by (simp add: compute_graduated_restart_delay_def delay_at_def Let_def)
qed

text \<open>
  The graduated restart delay.  With a positive number of steps and a maximum above the base
  (and below \<open>2 ^ 64\<close> milliseconds), the delay is computed without a panic; it lies between the
  base and the maximum, starts at the base, never shrinks from one restart to the next, and from
  the last step on is within a millisecond of the maximum.
\<close>

theorem graduated_delay_bounds:
  assumes "0 < steps" "b < m" "m < 2 ^ 64 * 10 ^ 6"
  shows "case (compute_graduated_restart_delay (Some (Duration b)) (Some (Duration m)) steps n,
               compute_graduated_restart_delay (Some (Duration b)) (Some (Duration m)) steps (Suc n)) of
           (Returns (Some (Duration d)), Returns (Some (Duration d'))) \<Rightarrow>
             b \<le> d \<and> d \<le> d' \<and> d' \<le> m \<and> (if n = 0 then d = b else True) \<and> (if steps \<le> n then m < d + 10 ^ 6 else True)
         | _ \<Rightarrow> False"
proof -
  note eq = graduated_delay_eq [OF assms]
  have "min n steps \<le> min (Suc n) steps" by simp
  then have "delay_at b m steps n \<le> delay_at b m steps (Suc n)"
    unfolding delay_at_def by (intro add_left_mono mult_le_mono1 div_le_mono mult_le_mono2)
  moreover have "delay_at b m steps 0 = b" by (simp add: delay_at_def)
  moreover have "m < delay_at b m steps n + 10 ^ 6" if "steps \<le> n"
  proof -
    have "delay_at b m steps n = b + (m - b) div 10 ^ 6 * 10 ^ 6" using that assms(1) by (simp add: delay_at_def min_def)
    moreover have "m - b < (m - b) div 10 ^ 6 * 10 ^ 6 + 10 ^ 6"
      using dividend_less_times_div [of "10 ^ 6" "m - b"] by (simp add: mult.commute)
    ultimately show ?thesis using assms(2) by linarith
  qed
  ultimately show ?thesis using eq(1) [of n] eq(1) [of "Suc n"] eq(2) [of n] eq(3) [of "Suc n"] by simp
qed

theorem graduated_delay_bounds_witness:
  "case (compute_graduated_restart_delay (Some (Duration (10 ^ 9))) (Some (Duration (60 * 10 ^ 9))) 5 2,
         compute_graduated_restart_delay (Some (Duration (10 ^ 9))) (Some (Duration (60 * 10 ^ 9))) 5 (Suc 2)) of
     (Returns (Some (Duration d)), Returns (Some (Duration d'))) \<Rightarrow>
       10 ^ 9 \<le> d \<and> d \<le> d' \<and> d' \<le> 60 * 10 ^ 9 \<and> (if (2::nat) = 0 then d = 10 ^ 9 else True)
       \<and> (if 5 \<le> (2::nat) then 60 * 10 ^ 9 < d + 10 ^ 6 else True)
   | _ \<Rightarrow> False"
  by (rule graduated_delay_bounds) simp_all

section \<open>The state of a service\<close>

datatype unit_action =
  Action_None | Action_Exit | ExitForce | Reboot | RebootForce | RebootImmediate | Poweroff
  | PoweroffForce | PoweroffImmediate | Halt | HaltForce | HaltImmediate | Kexec | KexecForce
  | KexecImmediate

datatype restart_mode = Direct | Normal

text \<open>
  The configuration the handler reads, of the service and of its unit section.  \<open>masked\<close> is the
  answer of \<open>is_unit_masked\<close>, a link to \<open>/dev/null\<close> in the place of the unit file.
\<close>

record exit_conf =
  restart :: service_restart
  restart_sec :: "timeout option"
  restart_max_delay_sec :: "timeout option"
  restart_steps :: nat
  restart_mode :: restart_mode
  one_shot :: bool
  masked :: bool
  remain_after_exit :: bool
  success_status :: success_exit_status
  restart_prevent_exit_status :: success_exit_status
  restart_force_exit_status :: success_exit_status
  stoppost :: "string list"
  success_action :: unit_action
  failure_action :: unit_action
  success_action_exit_status :: "nat option"
  failure_action_exit_status :: "nat option"
  on_success :: "string list"
  on_failure :: "string list"
  start_limit_action :: unit_action

text \<open>
  Its mutable state beside the status; the two counters are 64 bits wide.  \<open>restart_count += 1\<close>
  would panic on overflow in a debug build; both are modelled with wrap-around, after \<open>2 ^ 64\<close>
  restarts.
\<close>

record exit_state =
  main_pid :: "nat option"
  manual_stop :: bool
  watchdog_timeout_fired :: bool
  runtime_max_timeout_fired :: bool
  restart_count :: "64 word"
  n_restarts :: "64 word"

record monitor_env =
  service_result :: string
  exit_code :: string
  exit_status :: string
  monitor_unit :: string

text \<open>What the handler does outside the unit table, in order.\<close>

datatype exit_effect =
  Execute_unit_action unit_action "nat option"
  | Kill_remaining_processes
  | Run_stop_post monitor_env
  | Trigger string "string list" monitor_env
  | Rearm_sockets "unit_id list"
  | Redrive_boot_target "unit_id list"
  | Upholds_retry unit_id
  | Start_limit_hit
  | Forget_process unit_id
  | Reactivate unit_id
  | Activate unit_id

definition show_int :: "int \<Rightarrow> string" where
  "show_int n = (if n < 0 then CHR ''-'' # show_nat (nat (- n)) else show_nat (nat n))"

definition build_monitor_env :: "string \<Rightarrow> child_termination \<Rightarrow> bool \<Rightarrow> monitor_env" where
  "build_monitor_env source_name code ok =
     (case code of
        Exit c \<Rightarrow> \<lparr>service_result = (if ok then ''success'' else ''exit-code''), exit_code = ''exited'',
                   exit_status = show_int c, monitor_unit = source_name\<rparr>
      | Signal s _ \<Rightarrow> \<lparr>service_result = (if ok then ''success'' else ''signal''), exit_code = ''killed'',
                       exit_status = show_int s, monitor_unit = source_name\<rparr>)"

definition resolve_action_exit_status :: "nat option \<Rightarrow> child_termination \<Rightarrow> nat option" where
  "resolve_action_exit_status configured code =
     (case configured of
        Some n \<Rightarrow> Some n
      | None \<Rightarrow>
          (case code of
             Exit c \<Rightarrow> if 0 \<le> c \<and> c \<le> 255 then Some (nat c) else None
           | Signal _ _ \<Rightarrow> Some 255))"

text \<open>The name of a signal comes from its library: \<open>sn\<close>.\<close>

definition failure_reason :: "(signal \<Rightarrow> string) \<Rightarrow> child_termination \<Rightarrow> unit_operation_error_reason" where
  "failure_reason sn code =
     (case code of
        Exit c \<Rightarrow> GenericStartError (''process exited with status '' @ show_int c)
      | Signal s _ \<Rightarrow> GenericStartError (''process killed by signal '' @ sn s))"

text \<open>The actions and the delay that both paths share.\<close>

definition exit_actions :: "exit_conf \<Rightarrow> child_termination \<Rightarrow> exit_effect list" where
  "exit_actions c code =
     (if is_success (success_status c) code then
        (if success_action c \<noteq> Action_None
         then [Execute_unit_action (success_action c) (resolve_action_exit_status (success_action_exit_status c) code)]
         else [])
      else if failure_action c \<noteq> Action_None
      then [Execute_unit_action (failure_action c) (resolve_action_exit_status (failure_action_exit_status c) code)]
      else [])"

definition restart_delay :: "exit_conf \<Rightarrow> exit_state \<Rightarrow> timeout option outcome" where
  "restart_delay c s =
     (if restart_steps c > 0
      then compute_graduated_restart_delay (restart_sec c) (restart_max_delay_sec c) (restart_steps c) (unat (restart_count s))
      else Returns (restart_sec c))"

definition count_restart :: "exit_state \<Rightarrow> exit_state" where
  "count_restart s = s\<lparr>restart_count := restart_count s + 1, n_restarts := n_restarts s + 1\<rparr>"

text \<open>
  \<open>Service::kill\<close> as far as the handler sees it: the process is forgotten and, unless the unit is
  masked, the stop counts as one on purpose.  A recursive stop with trace \<open>tr\<close> has killed the
  service exactly when it stopped the unit.
\<close>

definition kill_service :: "exit_conf \<Rightarrow> exit_state \<Rightarrow> exit_state" where
  "kill_service c s = (if masked c then s\<lparr>main_pid := None\<rparr> else s\<lparr>main_pid := None, manual_stop := True\<rparr>)"

definition after_stop :: "exit_conf \<Rightarrow> unit_id \<Rightarrow> unit_id list \<Rightarrow> exit_state \<Rightarrow> exit_state" where
  "after_stop c u tr s = (if u \<in> set tr then kill_service c s else s)"

lemma after_stop_counters [simp]:
  "restart_count (after_stop c u tr s) = restart_count s" "n_restarts (after_stop c u tr s) = n_restarts s"
  by (simp_all add: after_stop_def kill_service_def)

lemma after_stop_other [simp]: "u \<notin> set tr \<Longrightarrow> after_stop c u tr s = s"
  by (simp add: after_stop_def)

definition stop_post :: "exit_conf \<Rightarrow> unit_id \<Rightarrow> child_termination \<Rightarrow> exit_effect list" where
  "stop_post c u code =
     (if stoppost c \<noteq> [] then [Run_stop_post (build_monitor_env (name u) code (is_success (success_status c) code))] else [])"

record pending_restart =
  restarted_unit :: unit_id
  pending_delay :: "timeout option"
  reactivate_deps :: "unit_id list"
  deactivate_deps :: "unit_id list"
  pending_one_shot :: bool
  required_by_deps :: "unit_id list"

text \<open>
  The result of the handler: the statuses and the state it leaves, its effects, the pending
  trigger and the pending restart; \<open>failed_early\<close> when it returned an error.
\<close>

record exit_result =
  new_statuses :: statuses
  new_state :: exit_state
  effects :: "exit_effect list"
  pending_trigger :: "exit_effect option"
  pending :: "pending_restart option"
  failed_early :: bool

section \<open>One-shot services\<close>

definition oneshot_should_restart :: "exit_conf \<Rightarrow> child_termination \<Rightarrow> bool" where
  "oneshot_should_restart c code \<longleftrightarrow>
     \<not> is_success (success_status c) code
     \<and> \<not> listed (restart_prevent_exit_status c) code
     \<and> (listed (restart_force_exit_status c) code \<or> should_restart (restart c) code (success_status c) False)"

text \<open>Some unit that waits for this one is loaded and not started.\<close>

definition has_waiting_dep :: "unit_table \<Rightarrow> statuses \<Rightarrow> dependencies \<Rightarrow> bool" where
  "has_waiting_dep t st d \<longleftrightarrow>
     list_ex (\<lambda>v. tbl_get t v \<noteq> None \<and> \<not> is_started (st v)) (required_by d @ wanted_by d @ before d)"

definition oneshot_trigger :: "exit_conf \<Rightarrow> unit_id \<Rightarrow> child_termination \<Rightarrow> exit_effect option" where
  "oneshot_trigger c u code =
     (let ok = is_success (success_status c) code in
      if ok \<and> on_success c \<noteq> [] then Some (Trigger ''OnSuccess'' (on_success c) (build_monitor_env (name u) code True))
      else if \<not> ok \<and> on_failure c \<noteq> [] then Some (Trigger ''OnFailure'' (on_failure c) (build_monitor_env (name u) code False))
      else None)"

definition unit_sockets :: "unit \<Rightarrow> unit_id list" where
  "unit_sockets x = (case specific x of Service sc \<Rightarrow> srvc_sockets sc | _ \<Rightarrow> [])"

definition oneshot_exit ::
  "unit_table \<Rightarrow> os_answers \<Rightarrow> (signal \<Rightarrow> string) \<Rightarrow> unit \<Rightarrow> exit_conf \<Rightarrow> child_termination
     \<Rightarrow> statuses \<Rightarrow> exit_state \<Rightarrow> exit_result outcome" where
  "oneshot_exit t os sn x c code st s0 =
     (let u = unit_id x; d = deps x; ok = is_success (success_status c) code;
          s = s0\<lparr>main_pid := None\<rparr>; killed = [Kill_remaining_processes];
          result = \<lparr>new_statuses = st, new_state = s, effects = killed, pending_trigger = None,
                     pending = None, failed_early = False\<rparr>
      in
      if remain_after_exit c \<and> ok then
        Returns (if has_waiting_dep t st d then result\<lparr>effects := killed @ [Redrive_boot_target (before d)]\<rparr> else result)
      else
        let effs = killed @ stop_post c u code @ exit_actions c code
                   @ (if ok \<and> before d \<noteq> [] then [Redrive_boot_target (before d)] else [])
        in
        if oneshot_should_restart c code then
          (case restart_delay c s of
             Panics \<Rightarrow> Panics
           | Returns delay \<Rightarrow>
               Returns (result\<lparr>
                 new_statuses := st(u := Restarting), new_state := count_restart s, effects := effs,
                 pending := Some \<lparr>restarted_unit = u, pending_delay = delay, reactivate_deps = [],
                   deactivate_deps = (if restart_mode c = Normal then bound_by d @ required_by d @ part_of_by d else []),
                   pending_one_shot = True, required_by_deps = required_by d\<rparr>\<rparr>))
        else if ok then
          Returns (result\<lparr>effects := effs @ (if unit_sockets x \<noteq> [] then [Rearm_sockets (unit_sockets x)] else []),
                          pending_trigger := oneshot_trigger c u code\<rparr>)
        else
          (case deactivate_unit_recursive t os {} u st of
             Panics \<Rightarrow> Panics
           | Returns (st', tr, Some _) \<Rightarrow>
               Returns (result\<lparr>new_statuses := st', new_state := after_stop c u tr s, effects := effs,
                               failed_early := True\<rparr>)
           | Returns (st', tr, None) \<Rightarrow>
               Returns (result\<lparr>new_statuses := st'(u := Stopped StoppedUnexpected [failure_reason sn code]),
                               new_state := after_stop c u tr s, effects := effs, pending_trigger := oneshot_trigger c u code\<rparr>)))"

section \<open>Other services\<close>

text \<open>
  The recursive stop, repeated while it fails with a dependency error; the units stopped so far
  are \<open>tr\<close>.  Nothing else changes the table in between here, so a failure that leaves the
  statuses alone repeats for ever.
\<close>

partial_function (option) stop_until_settled ::
  "unit_table \<Rightarrow> os_answers \<Rightarrow> unit_id \<Rightarrow> unit_id list \<Rightarrow> statuses \<Rightarrow> (statuses \<times> unit_id list) outcome option" where
  "stop_until_settled t os u tr st =
     (case deactivate_unit_recursive t os {} u st of
        Panics \<Rightarrow> Some Panics
      | Returns (st', tr', e) \<Rightarrow>
          (case e of
             None \<Rightarrow> Some (Returns (st', tr @ tr'))
           | Some err \<Rightarrow>
               (case reason err of
                  DependencyError _ \<Rightarrow> stop_until_settled t os u (tr @ tr') st'
                | _ \<Rightarrow> Some (Returns (st', tr @ tr')))))"

definition restart_decision :: "exit_conf \<Rightarrow> exit_state \<Rightarrow> child_termination \<Rightarrow> (bool \<times> timeout option) outcome" where
  "restart_decision c s code =
     (let timeout_fired = watchdog_timeout_fired s \<or> runtime_max_timeout_fired s in
      if listed (restart_prevent_exit_status c) code then Returns (False, restart_sec c)
      else
        let do_restart = listed (restart_force_exit_status c) code
                         \<or> should_restart (restart c) code (success_status c) timeout_fired
        in if do_restart
           then (case restart_delay c s of Panics \<Rightarrow> Panics | Returns delay \<Rightarrow> Returns (True, delay))
           else Returns (False, restart_sec c))"

text \<open>Whether the exit concerns the unit as it is now.\<close>

definition exit_dominated :: "unit_status \<Rightarrow> bool \<Rightarrow> bool" where
  "exit_dominated s restart_unit \<longleftrightarrow>
     is_started s \<or> s = Starting
     \<or> restart_unit \<and> (case s of Stopped StoppedUnexpected _ \<Rightarrow> True | _ \<Rightarrow> False)"

definition was_replaced_or_stopping :: "unit_status \<Rightarrow> exit_state \<Rightarrow> nat \<Rightarrow> bool" where
  "was_replaced_or_stopping now s pid \<longleftrightarrow>
     now = Stopping \<or> (case main_pid s of Some current_pid \<Rightarrow> current_pid \<noteq> pid | None \<Rightarrow> False)"

definition is_upheld :: "unit_table \<Rightarrow> statuses \<Rightarrow> dependencies \<Rightarrow> bool" where
  "is_upheld t st d \<longleftrightarrow> list_ex (\<lambda>v. tbl_get t v \<noteq> None \<and> is_started (st v)) (upheld_by d)"

text \<open>With \<open>RestartMode=normal\<close> a restart fires the triggers and stops the bound units.\<close>

definition restart_exit ::
  "unit_table \<Rightarrow> os_answers \<Rightarrow> unit \<Rightarrow> exit_conf \<Rightarrow> child_termination \<Rightarrow> timeout option
     \<Rightarrow> statuses \<Rightarrow> exit_state \<Rightarrow> exit_effect list \<Rightarrow> exit_result outcome" where
  "restart_exit t os x c code delay st s effs =
     (let u = unit_id x; normal = (restart_mode c = Normal);
          is_clean = (is_success (success_status c) code \<or> is_clean_signal (success_status c) code);
          triggers =
            (if \<not> normal then []
             else if is_clean \<and> on_success c \<noteq> []
             then [Trigger ''OnSuccess'' (on_success c) (build_monitor_env (name u) code True)]
             else if \<not> is_clean \<and> on_failure c \<noteq> []
             then [Trigger ''OnFailure'' (on_failure c) (build_monitor_env (name u) code False)]
             else []);
          bound = (if normal then bound_by (deps x) else [])
      in
      case propagate_stop t os {} bound st of
        Panics \<Rightarrow> Panics
      | Returns (st', tr, _) \<Rightarrow>
          Returns \<lparr>new_statuses = st'(u := Restarting), new_state = count_restart (after_stop c u tr s), effects = effs @ triggers,
            pending_trigger = None,
            pending = Some \<lparr>restarted_unit = u, pending_delay = delay, reactivate_deps = bound,
              deactivate_deps = [], pending_one_shot = False, required_by_deps = []\<rparr>,
            failed_early = False\<rparr>)"

definition final_trigger :: "exit_conf \<Rightarrow> unit_id \<Rightarrow> child_termination \<Rightarrow> bool \<Rightarrow> exit_effect option" where
  "final_trigger c u code replaced =
     (let effective_success = is_success (success_status c) code \<or> replaced \<or> is_clean_signal (success_status c) code in
      if effective_success \<and> on_success c \<noteq> []
      then Some (Trigger ''OnSuccess'' (on_success c) (build_monitor_env (name u) code True))
      else if \<not> effective_success \<and> on_failure c \<noteq> []
      then Some (Trigger ''OnFailure'' (on_failure c) (build_monitor_env (name u) code False))
      else None)"

definition final_exit ::
  "unit_table \<Rightarrow> os_answers \<Rightarrow> (signal \<Rightarrow> string) \<Rightarrow> unit \<Rightarrow> exit_conf \<Rightarrow> nat \<Rightarrow> child_termination
     \<Rightarrow> statuses \<Rightarrow> exit_state \<Rightarrow> exit_effect list \<Rightarrow> exit_result outcome option" where
  "final_exit t os sn x c pid code st s effs =
     (let u = unit_id x; replaced = was_replaced_or_stopping (st u) s pid in
      case (if replaced then Some (Returns (st, [])) else stop_until_settled t os u [] st) of
        None \<Rightarrow> None
      | Some Panics \<Rightarrow> Some Panics
      | Some (Returns (st1, tr)) \<Rightarrow>
          (let st2 = (if \<not> is_success (success_status c) code \<and> \<not> replaced
                      then st1(u := Stopped StoppedUnexpected [failure_reason sn code]) else st1);
               upheld = (\<not> replaced \<and> is_upheld t st2 (deps x))
           in Some (Returns
                \<lparr>new_statuses = (if upheld then st2(u := NeverStarted) else st2), new_state = after_stop c u tr s,
                 effects = effs @ (if upheld then [Upholds_retry u] else []),
                 pending_trigger = final_trigger c u code replaced, pending = None, failed_early = False\<rparr>)))"

definition service_exit_handler ::
  "unit_table \<Rightarrow> os_answers \<Rightarrow> (signal \<Rightarrow> string) \<Rightarrow> unit \<Rightarrow> exit_conf \<Rightarrow> nat \<Rightarrow> child_termination
     \<Rightarrow> statuses \<Rightarrow> exit_state \<Rightarrow> exit_result outcome option" where
  "service_exit_handler t os sn x c pid code st s =
     (if one_shot c then Some (oneshot_exit t os sn x c code st s)
      else
        let u = unit_id x; acts = exit_actions c code;
            ignored = \<lparr>new_statuses = st, new_state = s, effects = acts, pending_trigger = None,
                        pending = None, failed_early = False\<rparr>
        in
        if manual_stop s then Some (Returns ignored)
        else
          (case restart_decision c s code of
             Panics \<Rightarrow> Some Panics
           | Returns (restart_unit, delay) \<Rightarrow>
               if \<not> exit_dominated (st u) restart_unit then Some (Returns ignored)
               else if remain_after_exit c \<and> is_success (success_status c) code then Some (Returns ignored)
               else
                 let effs = acts @ stop_post c u code in
                 if restart_unit then Some (restart_exit t os x c code delay st s effs)
                 else final_exit t os sn x c pid code st s effs))"

section \<open>A failed start\<close>

text \<open>
  A start that fails on the dispatcher: \<open>OnFailure=\<close> whatever the policy, a restart for the two
  policies that cover failures.  \<open>main_exit_status\<close> is what was recorded of the main process.
\<close>

definition on_service_start_failed ::
  "unit \<Rightarrow> exit_conf \<Rightarrow> int option \<Rightarrow> statuses \<Rightarrow> exit_state \<Rightarrow> exit_result outcome" where
  "on_service_start_failed x c main_exit_status st s =
     (let u = unit_id x;
          code = Exit (case main_exit_status of Some n \<Rightarrow> n | None \<Rightarrow> 1);
          effs = (if on_failure c \<noteq> [] then [Trigger ''OnFailure'' (on_failure c) (build_monitor_env (name u) code False)] else []);
          ignored = \<lparr>new_statuses = st, new_state = s, effects = effs, pending_trigger = None,
                      pending = None, failed_early = False\<rparr>
      in
      if restart c \<noteq> Restart_Always \<and> restart c \<noteq> OnFailure then Returns ignored
      else if manual_stop s then Returns ignored
      else
        (case restart_delay c s of
           Panics \<Rightarrow> Panics
         | Returns delay \<Rightarrow>
             Returns (ignored\<lparr>new_statuses := st(u := Restarting), new_state := count_restart s,
               pending := Some \<lparr>restarted_unit = u, pending_delay = delay, reactivate_deps = [],
                 deactivate_deps = [], pending_one_shot = False, required_by_deps = []\<rparr>\<rparr>)))"

section \<open>The delayed restart\<close>






section \<open>Restarts\<close>

definition wants_restart :: "exit_conf \<Rightarrow> exit_state \<Rightarrow> child_termination \<Rightarrow> bool" where
  "wants_restart c s code \<longleftrightarrow>
     \<not> manual_stop s \<and> \<not> listed (restart_prevent_exit_status c) code
     \<and> (listed (restart_force_exit_status c) code
         \<or> should_restart (restart c) code (success_status c) (watchdog_timeout_fired s \<or> runtime_max_timeout_fired s))"

lemma restart_decision_cases:
  "restart_decision c s code = Returns (b, delay) \<Longrightarrow> \<not> manual_stop s \<Longrightarrow> b = wants_restart c s code"
  by (auto simp: restart_decision_def wants_restart_def Let_def split: if_splits outcome.splits)

lemma restart_exit_result:
  "restart_exit t os x c code delay st s effs = Returns r \<Longrightarrow>
     restart_count (new_state r) = restart_count s + 1 \<and> n_restarts (new_state r) = n_restarts s + 1
     \<and> new_statuses r (unit_id x) = Restarting
     \<and> (\<exists>p. pending r = Some p \<and> restarted_unit p = unit_id x \<and> pending_delay p = delay)"
  by (auto simp: restart_exit_def count_restart_def Let_def split: outcome.splits)

lemma final_exit_result:
  "final_exit t os sn x c pid code st s effs = Some (Returns r) \<Longrightarrow>
     pending r = None \<and> restart_count (new_state r) = restart_count s \<and> n_restarts (new_state r) = n_restarts s"
  by (auto simp: final_exit_def Let_def split: option.splits outcome.splits if_splits)

text \<open>The row of the documented table for the end of a service, and where the code goes by the table.\<close>

definition table_row :: "exit_conf \<Rightarrow> exit_state \<Rightarrow> child_termination \<Rightarrow> service_restart list" where
  "table_row c s code =
     (if watchdog_timeout_fired s then watchdog_row
      else if runtime_max_timeout_fired s then timeout_row
      else restart_table (exit_class_of (success_status c) code))"

definition table_followed :: "exit_conf \<Rightarrow> exit_state \<Rightarrow> bool" where
  "table_followed c s \<longleftrightarrow>
     (watchdog_timeout_fired s \<or> runtime_max_timeout_fired s \<longrightarrow> restart c \<notin> {OnSuccess, OnAbort})
     \<and> (runtime_max_timeout_fired s \<and> \<not> watchdog_timeout_fired s \<longrightarrow> restart c \<noteq> OnWatchdog)"

lemma wants_restart_table:
  "table_followed c s \<Longrightarrow> wants_restart c s code \<longleftrightarrow>
     \<not> manual_stop s \<and> \<not> listed (restart_prevent_exit_status c) code
     \<and> (listed (restart_force_exit_status c) code \<or> restart c \<in> set (table_row c s code))"
  unfolding wants_restart_def restart_policy_is_table table_row_def table_followed_def
  by (auto simp: watchdog_row_def timeout_row_def)

lemma pending_iff_wants:
  assumes "service_exit_handler t os sn x c pid code st s = Some (Returns r)"
    and "\<not> one_shot c" "is_started (st (unit_id x))" "\<not> (remain_after_exit c \<and> is_success (success_status c) code)"
  shows "(pending r \<noteq> None) = wants_restart c s code
    \<and> (case pending r of
         None \<Rightarrow> restart_count (new_state r) = restart_count s \<and> n_restarts (new_state r) = n_restarts s
       | Some p \<Rightarrow> restarted_unit p = unit_id x \<and> restart_count (new_state r) = restart_count s + 1
                   \<and> n_restarts (new_state r) = n_restarts s + 1 \<and> new_statuses r (unit_id x) = Restarting)"
proof (cases "manual_stop s")
  case True
  then show ?thesis using assms(1,2) by (auto simp: service_exit_handler_def wants_restart_def Let_def)
next
  case False
  obtain b delay where dec: "restart_decision c s code = Returns (b, delay)"
    using assms(1,2) False by (auto simp: service_exit_handler_def Let_def split: outcome.splits)
  have b: "b = wants_restart c s code" using restart_decision_cases [OF dec False] .
  have "exit_dominated (st (unit_id x)) b" using assms(3) by (simp add: exit_dominated_def)
  then have "(if b then Some (restart_exit t os x c code delay st s (exit_actions c code @ stop_post c (unit_id x) code))
      else final_exit t os sn x c pid code st s (exit_actions c code @ stop_post c (unit_id x) code)) = Some (Returns r)"
    using assms(1,2,4) False dec by (simp add: service_exit_handler_def Let_def split: if_splits)
  note h = this
  show ?thesis
  proof (cases b)
    case True
    then show ?thesis using h b restart_exit_result [of t os x c code delay st s _ r] by fastforce
  next
    case False
    then show ?thesis using h b final_exit_result [of t os sn x c pid code st s _ r] by fastforce
  qed
qed

text \<open>
  C21: When a service restarts.  After the exit of a running service that is not one-shot and does
  not remain after a clean exit, a restart is pending exactly when the service was not stopped on
  purpose, its exit is not listed to prevent a restart, and either it is listed to force one or the
  documented table marks the policy in the row of the exit.  After a watchdog or \<open>RuntimeMaxSec=\<close> kill
  this is said of the policies for which the code goes by the table only: not of \<open>on-success\<close> and
  \<open>on-abort\<close>, and after \<open>RuntimeMaxSec=\<close> not of \<open>on-watchdog\<close>.  With a pending restart the unit is
  \<open>Restarting\<close> and both counters have grown by one; without one they are as before.
\<close>

theorem restart_pending_iff:
  assumes "service_exit_handler t os sn x c pid code st s = Some (Returns r)"
    and "\<not> one_shot c" "is_started (st (unit_id x))" "\<not> (remain_after_exit c \<and> is_success (success_status c) code)"
    and "table_followed c s"
  shows "(pending r \<noteq> None \<longleftrightarrow>
      \<not> manual_stop s \<and> \<not> listed (restart_prevent_exit_status c) code
      \<and> (listed (restart_force_exit_status c) code \<or> restart c \<in> set (table_row c s code)))
    \<and> (case pending r of
         None \<Rightarrow> restart_count (new_state r) = restart_count s \<and> n_restarts (new_state r) = n_restarts s
       | Some p \<Rightarrow> restarted_unit p = unit_id x \<and> restart_count (new_state r) = restart_count s + 1
                   \<and> n_restarts (new_state r) = n_restarts s + 1 \<and> new_statuses r (unit_id x) = Restarting)"
  using pending_iff_wants [OF assms(1-4)] by (simp only: wants_restart_table [OF assms(5)])

section \<open>Failures\<close>

lemma dependent_self: "dependents_ok t \<Longrightarrow> (dependent t)\<^sup>+\<^sup>+ u v \<Longrightarrow> v \<noteq> u"
  by (auto simp: dependents_ok_def)

lemma stop_until_settled_done:
  assumes "dependents_ok t" "tbl_get t u \<noteq> None"
  shows "\<exists>st' tr'. stop_until_settled t (\<lambda>_. None) u tr st = Some (Returns (st', tr')) \<and> (\<forall>v. (dependent t)\<^sup>*\<^sup>* u v \<longrightarrow> is_stopped (st' v))"
proof -
  have wf: "units_wf t" using assms(1) by (simp add: dependents_ok_def)
  obtain st' tr' where run: "deactivate_unit_recursive t (\<lambda>_. None) {} u st = Returns (st', tr', None)"
    using recursive_done(1) [OF assms(1) refl assms(2), of "{}" st] by (auto simp: done_run_def)
  then have "\<forall>v. (dependent t)\<^sup>*\<^sup>* u v \<longrightarrow> is_stopped (st' v)"
    using stopped_after_recursive(1) [OF wf, of u "{}" "\<lambda>_. None" st] by (simp add: stopped_after_def reach_avoiding_def)
  then show ?thesis using run by (subst stop_until_settled.simps) simp
qed

text \<open>A stop upholds nothing anew: what is running afterwards was running before.\<close>

lemma stop_until_settled_started:
  assumes "dependents_ok t" "tbl_get t u \<noteq> None" "stop_until_settled t (\<lambda>_. None) u tr st = Some (Returns (st', tr'))" "is_started (st' v)"
  shows "is_started (st v)"
proof -
  have wf: "units_wf t" using assms(1) by (simp add: dependents_ok_def)
  obtain st1 tr1 where run: "deactivate_unit_recursive t (\<lambda>_. None) {} u st = Returns (st1, tr1, None)"
    using recursive_done(1) [OF assms(1) refl assms(2), of "{}" st] by (auto simp: done_run_def)
  then have "st' = st1" using assms(3) by (subst (asm) stop_until_settled.simps) simp
  moreover have "settles st st1 tr1" using safe_run_recursive(1) [OF wf, of st "\<lambda>_. None" "{}" u] run by (simp add: safe_run_def)
  moreover have "\<not> is_stopped (st' v)" using assms(4) by (cases "st' v") simp_all
  ultimately have "st' v = st v" unfolding settles_def by metis
  then show ?thesis using assms(4) by simp
qed

text \<open>
  C22: A failed service ends failed.  Let a loaded and running service that is not one-shot exit
  without success and not of a clean signal either; let the process that exited be its main process, if
  one is recorded; let it not be stopped on purpose and no restart be wanted, and let no running unit
  uphold it.  Let its dependents be loaded, no unit depend on itself through others (as two units
  that require each other do), and the operating system accept every stop.  Then the handler returns; the
  service is left stopped unexpectedly with the way it ended as the reason, every unit that depends on
  it, directly or through others, is stopped, and no restart is pending.
\<close>

theorem failed_service_ends_failed:
  assumes "dependents_ok t" "tbl_get t (unit_id x) = Some x" "\<not> one_shot c" "is_started (st (unit_id x))"
    and "\<not> is_success (success_status c) code" "\<not> is_clean_signal (success_status c) code"
    and "\<not> manual_stop s" "\<not> wants_restart c s code"
    and "main_pid s = None \<or> main_pid s = Some pid" "\<not> is_upheld t st (deps x)"
  shows "case service_exit_handler t (\<lambda>_. None) sn x c pid code st s of
           Some (Returns r) \<Rightarrow>
             new_statuses r (unit_id x) = Stopped StoppedUnexpected [failure_reason sn code]
             \<and> {v. (dependent t)\<^sup>*\<^sup>* (unit_id x) v} \<subseteq> {v. is_stopped (new_statuses r v)} \<and> pending r = None
         | _ \<Rightarrow> False"
proof -
  let ?u = "unit_id x"
  have "restart_decision c s code = Returns (False, restart_sec c)"
    using assms(7,8) by (auto simp: restart_decision_def wants_restart_def Let_def)
  moreover have "exit_dominated (st ?u) False" using assms(4) by (simp add: exit_dominated_def)
  ultimately have h: "service_exit_handler t (\<lambda>_. None) sn x c pid code st s
      = final_exit t (\<lambda>_. None) sn x c pid code st s (exit_actions c code @ stop_post c ?u code)"
    using assms(3,5,7) by (simp add: service_exit_handler_def Let_def)
  have rep: "\<not> was_replaced_or_stopping (st ?u) s pid"
    using assms(4,9) by (cases "st ?u") (auto simp: was_replaced_or_stopping_def)
  obtain st' tr where st': "stop_until_settled t (\<lambda>_. None) ?u [] st = Some (Returns (st', tr))"
      "\<forall>v. (dependent t)\<^sup>*\<^sup>* ?u v \<longrightarrow> is_stopped (st' v)"
    using stop_until_settled_done [OF assms(1), of ?u "[]" st] assms(2) by auto
  have "is_started (st v)" if "is_started (st' v)" for v
    using stop_until_settled_started [OF assms(1) _ st'(1) that] assms(2) by simp
  then have "\<not> is_upheld t (st'(?u := Stopped StoppedUnexpected es)) (deps x)" for es
    using assms(10) by (auto simp: is_upheld_def list_ex_iff split: if_splits)
  then show ?thesis unfolding h using rep st' assms(5) by (auto simp: final_exit_def Let_def)
qed

section \<open>The rate limit of restarts\<close>


section \<open>Examples\<close>

definition no_success :: success_exit_status where
  "no_success = \<lparr>exit_codes = [], signals = []\<rparr>"

definition plain_service :: exit_conf where
  "plain_service = \<lparr>restart = OnFailure, restart_sec = Some (Duration (10 ^ 8)), restart_max_delay_sec = None,
     restart_steps = 0, restart_mode = Normal, one_shot = False, masked = False, remain_after_exit = False,
     success_status = no_success, restart_prevent_exit_status = no_success, restart_force_exit_status = no_success,
     stoppost = [], success_action = Action_None, failure_action = Action_None, success_action_exit_status = None,
     failure_action_exit_status = None, on_success = [], on_failure = [], start_limit_action = Action_None\<rparr>"

definition running :: exit_state where
  "running = \<lparr>main_pid = Some 42, manual_stop = False, watchdog_timeout_fired = False,
     runtime_max_timeout_fired = False, restart_count = 0, n_restarts = 0\<rparr>"

lemmas example_defs = plain_service_def running_def no_success_def

definition restarted_c :: exit_result where
  "restarted_c = \<lparr>new_statuses = (\<lambda>_. Started Running)(lock_c := Restarting), new_state = count_restart running,
     effects = [], pending_trigger = None,
     pending = Some \<lparr>restarted_unit = lock_c, pending_delay = Some (Duration (10 ^ 8)), reactivate_deps = [],
       deactivate_deps = [], pending_one_shot = False, required_by_deps = []\<rparr>,
     failed_early = False\<rparr>"

lemma restarted_c_run:
  "service_exit_handler stop_table os sn (plain_unit lock_c no_dependencies) plain_service 42 (Exit 1) (\<lambda>_. Started Running) running
     = Some (Returns restarted_c)"
  by (simp add: service_exit_handler_def restarted_c_def example_defs restart_decision_def restart_delay_def exit_dominated_def
      restart_exit_def exit_actions_def stop_post_def plain_unit_def no_dependencies_def)

theorem restart_pending_iff_witness:
  "(pending restarted_c \<noteq> None \<longleftrightarrow>
      \<not> manual_stop running \<and> \<not> listed (restart_prevent_exit_status plain_service) (Exit 1)
      \<and> (listed (restart_force_exit_status plain_service) (Exit 1) \<or> restart plain_service \<in> set (table_row plain_service running (Exit 1))))
   \<and> (case pending restarted_c of
        None \<Rightarrow> restart_count (new_state restarted_c) = restart_count running \<and> n_restarts (new_state restarted_c) = n_restarts running
      | Some p \<Rightarrow> restarted_unit p = unit_id (plain_unit lock_c no_dependencies)
                  \<and> restart_count (new_state restarted_c) = restart_count running + 1
                  \<and> n_restarts (new_state restarted_c) = n_restarts running + 1
                  \<and> new_statuses restarted_c (unit_id (plain_unit lock_c no_dependencies)) = Restarting)"
  by (rule restart_pending_iff [OF restarted_c_run]) (simp_all add: example_defs table_followed_def)

theorem failed_service_ends_failed_witness:
  "case service_exit_handler stop_table (\<lambda>_. None) (\<lambda>_. ''SIGKILL'') (plain_unit lock_b (no_dependencies\<lparr>required_by := [lock_a, lock_c]\<rparr>))
      (plain_service\<lparr>restart := Restart_No\<rparr>) 42 (Signal SIGKILL False) (\<lambda>_. Started Running) running of
     Some (Returns r) \<Rightarrow>
       new_statuses r (unit_id (plain_unit lock_b (no_dependencies\<lparr>required_by := [lock_a, lock_c]\<rparr>)))
         = Stopped StoppedUnexpected [failure_reason (\<lambda>_. ''SIGKILL'') (Signal SIGKILL False)]
       \<and> {v. (dependent stop_table)\<^sup>*\<^sup>* (unit_id (plain_unit lock_b (no_dependencies\<lparr>required_by := [lock_a, lock_c]\<rparr>))) v}
           \<subseteq> {v. is_stopped (new_statuses r v)} \<and> pending r = None
   | _ \<Rightarrow> False"
proof (rule failed_service_ends_failed [OF stop_table_ok])
  show "tbl_get stop_table (unit_id (plain_unit lock_b (no_dependencies\<lparr>required_by := [lock_a, lock_c]\<rparr>)))
      = Some (plain_unit lock_b (no_dependencies\<lparr>required_by := [lock_a, lock_c]\<rparr>))"
    by (simp add: stop_table_get plain_unit_def) (simp add: lock_units)
qed (simp_all add: example_defs wants_restart_def is_upheld_def is_clean_signal_value_def plain_unit_def no_dependencies_def)

text \<open>An exit handler that never returns: the units that require each other, after one has died.\<close>

theorem mutual_requires_never_settles:
  "stop_until_settled mutual_table os lock_a tr (\<lambda>_. Started Running) = None"
proof -
  have "\<not> (t = mutual_table \<and> u = lock_a \<and> st = (\<lambda>_. Started Running))"
    if "stop_until_settled t os u tr st = Some y" for t os u tr st y
  proof (rule stop_until_settled.raw_induct [OF _ that, where P = "\<lambda>t os u tr st y. \<not> (t = mutual_table \<and> u = lock_a \<and> st = (\<lambda>_. Started Running))"])
    fix settle :: "unit_table \<Rightarrow> os_answers \<Rightarrow> unit_id \<Rightarrow> unit_id list \<Rightarrow> statuses \<Rightarrow> (statuses \<times> unit_id list) outcome option"
      and t os u tr st y
    assume "\<And>t os u tr st y. settle t os u tr st = Some y \<Longrightarrow> \<not> (t = mutual_table \<and> u = lock_a \<and> st = (\<lambda>_. Started Running))"
      and "(case deactivate_unit_recursive t os {} u st of
          Panics \<Rightarrow> Some Panics
        | Returns (st', tr', e) \<Rightarrow>
            (case e of None \<Rightarrow> Some (Returns (st', tr @ tr'))
             | Some err \<Rightarrow> (case reason err of DependencyError _ \<Rightarrow> settle t os u (tr @ tr') st' | _ \<Rightarrow> Some (Returns (st', tr @ tr'))))) = Some y"
    then show "\<not> (t = mutual_table \<and> u = lock_a \<and> st = (\<lambda>_. Started Running))"
      using mutual_requires_cannot_stop [of os] by (auto, blast)
  qed
  from this [of mutual_table os lock_a tr] show ?thesis by (cases "stop_until_settled mutual_table os lock_a tr (\<lambda>_. Started Running)") auto
qed

text \<open>
  The actions come before the test for a stop on purpose: a service that is stopped with
  \<open>SIGTERM\<close> has its \<open>FailureAction=\<close> taken, since \<open>is_success\<close> does not count the clean signals.
\<close>

theorem manual_stop_takes_failure_action:
  "case service_exit_handler t os sn x (plain_service\<lparr>failure_action := Reboot\<rparr>) 42 (Signal SIGTERM False) st
      (running\<lparr>manual_stop := True\<rparr>) of
     Some (Returns r) \<Rightarrow> effects r = [Execute_unit_action Reboot (Some 255)] \<and> pending r = None
   | _ \<Rightarrow> False"
  by (simp add: service_exit_handler_def exit_actions_def example_defs resolve_action_exit_status_def)

text \<open>A one-shot service does not look at the flag: killed on purpose, it is restarted.\<close>

theorem manual_stop_restarts_oneshot:
  "case service_exit_handler t os sn x (plain_service\<lparr>one_shot := True\<rparr>) 42 (Signal SIGKILL False) st (running\<lparr>manual_stop := True\<rparr>) of
     Some (Returns r) \<Rightarrow> pending r \<noteq> None
   | _ \<Rightarrow> False"
  by (simp add: service_exit_handler_def oneshot_exit_def oneshot_should_restart_def restart_delay_def example_defs
      is_clean_signal_value_def Let_def)

text \<open>A service that dies of a clean signal by itself is left failed, and yet fires \<open>OnSuccess=\<close>.\<close>

theorem clean_signal_fails_and_succeeds:
  "case service_exit_handler stop_table (\<lambda>_. None) (\<lambda>_. ''SIGTERM'') (plain_unit lock_c no_dependencies)
      (plain_service\<lparr>on_success := [''next.service'']\<rparr>) 42 (Signal SIGTERM False) (\<lambda>_. Started Running) running of
     Some (Returns r) \<Rightarrow>
       new_statuses r lock_c = Stopped StoppedUnexpected [GenericStartError ''process killed by signal SIGTERM'']
       \<and> (\<exists>e. pending_trigger r = Some (Trigger ''OnSuccess'' [''next.service''] e))
   | _ \<Rightarrow> False"
proof -
  have run: "deactivate_unit_recursive stop_table (\<lambda>_. None) {} lock_c (\<lambda>_. Started Running)
      = Returns ((\<lambda>_. Started Running)(lock_c := Stopped StoppedFinal []), [lock_c], None)"
    by (simp add: run_defs stop_table_get) (simp add: lock_units)
  then have "stop_until_settled stop_table (\<lambda>_. None) lock_c [] (\<lambda>_. Started Running)
      = Some (Returns ((\<lambda>_. Started Running)(lock_c := Stopped StoppedFinal []), [lock_c]))"
    by (subst stop_until_settled.simps) simp
  then show ?thesis
    by (simp add: service_exit_handler_def final_exit_def final_trigger_def restart_decision_def exit_dominated_def exit_actions_def
        stop_post_def was_replaced_or_stopping_def is_upheld_def failure_reason_def plain_unit_def no_dependencies_def
        example_defs is_clean_signal_value_def)
qed




end
