(* ===== verification/StopChain.thy ===== *)
theory StopChain
  imports Restart
begin

text \<open>
  Stopping one unit on the dispatcher (\<open>units/unitset_manipulation/stop_chain.rs\<close>): the chain of
  \<open>ExecStop=\<close> commands, \<open>SIGTERM\<close>, \<open>ExecStopPost=\<close> commands and the final sweep, advanced by exit and
  timeout events, beside the inline sequence of \<open>Service::kill\<close> (\<open>services/services.rs\<close>) it mirrors.

  What the operating system will answer is the argument \<open>env\<close>: for the helper of each phase whether
  it can be spawned and how it ends, and how the main process takes its signal.

  Lemmas: the chain ends within a bound on its events and does what the inline sequence does; a
  step touches no other unit.
\<close>

section \<open>Commands and phases\<close>

datatype commandline_prefix =
  Prefix_minus | Prefix_at_sign | Prefix_plus | Prefix_colon | Prefix_exclamation
  | Prefix_double_exclamation | Prefix_pipe

record commandline =
  cmd :: string
  cmd_args :: "string list"
  prefixes :: "commandline_prefix list"

fun show_prefix :: "commandline_prefix \<Rightarrow> string" where
  "show_prefix Prefix_minus = ''-''"
| "show_prefix Prefix_at_sign = ''@''"
| "show_prefix Prefix_plus = ''+''"
| "show_prefix Prefix_colon = '':''"
| "show_prefix Prefix_exclamation = ''!''"
| "show_prefix Prefix_double_exclamation = ''!!''"
| "show_prefix Prefix_pipe = ''|''"

definition show_commandline :: "commandline \<Rightarrow> string" where
  "show_commandline c = concat (map show_prefix (prefixes c)) @ cmd c @ concat (map (\<lambda>a. '' '' @ a) (cmd_args c))"

datatype kill_mode = Kill_control_group | Kill_process | Kill_mixed | Kill_none

record stop_conf =
  stop_cmds :: "commandline list"
  stoppost_cmds :: "commandline list"
  stop_kill_mode :: kill_mode
  stop_timeout :: "nat option"
  stop_masked :: bool

datatype stop_phase = Exec_stop nat | Await_main_exit | Poststop nat

text \<open>\<open>usize::MAX\<close>\<close>

definition usize_max :: nat where
  "usize_max = 2 ^ 64 - 1"

record stop_chain =
  chain_unit :: unit_id
  phase :: stop_phase
  chain_errors :: "string list"

section \<open>The operating system\<close>

datatype helper_answer =
  Spawn_error string
  | Exits child_termination
  | Overruns

text \<open>
  The main process, resolved from its recorded ids and the process table: not alive, a signal that
  fails, or the process signalled, and whether it then exits within its window.
\<close>

datatype main_answer =
  Not_alive
  | Signal_fails
  | Signalled nat bool

record stop_env =
  helper :: "stop_phase \<Rightarrow> helper_answer"
  helper_pid :: "stop_phase \<Rightarrow> nat"
  main :: main_answer
  show_termination :: "child_termination \<Rightarrow> string"
  show_error :: "unit_operation_error \<Rightarrow> string"

datatype stop_effect =
  Run_helper commandline
  | Send_sigterm nat
  | Send_sigkill nat
  | Kill_sweep
  | Deactivate_inline

datatype stop_outcome =
  Forked_helper nat commandline "nat option"
  | Awaiting_main nat "nat option"
  | Stop_finished

record stop_result =
  outcome_of :: stop_outcome
  chain :: stop_chain
  stop_statuses :: statuses
  stop_state :: exit_state
  stop_effects :: "stop_effect list"

section \<open>The chain\<close>

fun advance_stop_index :: "stop_phase \<Rightarrow> stop_phase" where
  "advance_stop_index (Exec_stop i) = Exec_stop (i + 1)"
| "advance_stop_index Await_main_exit = Await_main_exit"
| "advance_stop_index (Poststop i) = Poststop (i + 1)"

fun skip_current_stop_phase :: "stop_phase \<Rightarrow> stop_phase" where
  "skip_current_stop_phase (Exec_stop i) = Await_main_exit"
| "skip_current_stop_phase Await_main_exit = Poststop 0"
| "skip_current_stop_phase (Poststop i) = Poststop usize_max"

definition is_poststop :: "stop_phase \<Rightarrow> bool" where
  "is_poststop p \<longleftrightarrow> (case p of Poststop _ \<Rightarrow> True | _ \<Rightarrow> False)"

definition has_minus :: "commandline \<Rightarrow> bool" where
  "has_minus c \<longleftrightarrow> Prefix_minus \<in> set (prefixes c)"

text \<open>The tail: the sweep, the cleared process, the final status with the collected errors.\<close>

definition finalize_stop_chain :: "stop_chain \<Rightarrow> statuses \<Rightarrow> exit_state \<Rightarrow> statuses \<times> exit_state" where
  "finalize_stop_chain c st s =
     (st(chain_unit c := Stopped StoppedFinal (map GenericStartError (chain_errors c))), s\<lparr>main_pid := None\<rparr>)"

definition add_effects :: "stop_effect list \<Rightarrow> stop_result outcome \<Rightarrow> stop_result outcome" where
  "add_effects es r =
     (case r of Panics \<Rightarrow> Panics | Returns x \<Rightarrow> Returns (x\<lparr>stop_effects := es @ stop_effects x\<rparr>))"

definition spawn_failed :: "stop_env \<Rightarrow> commandline \<Rightarrow> string \<Rightarrow> stop_chain \<Rightarrow> stop_chain" where
  "spawn_failed env k e c =
     (if has_minus k then c\<lparr>phase := advance_stop_index (phase c)\<rparr>
      else c\<lparr>chain_errors := chain_errors c @ [''Failed to spawn '' @ show_commandline k @ '': '' @ e],
             phase := skip_current_stop_phase (phase c)\<rparr>)"

text \<open>How many processes a chain may still wait for.\<close>

fun phase_rank :: "stop_conf \<Rightarrow> stop_phase \<Rightarrow> nat" where
  "phase_rank k (Exec_stop i) = (length (stop_cmds k) - i) + length (stoppost_cmds k) + 2"
| "phase_rank k Await_main_exit = length (stoppost_cmds k) + 1"
| "phase_rank k (Poststop i) = length (stoppost_cmds k) - i"

text \<open>
  One call.  It goes on through phases that need no process; a length of a vector is below
  \<open>usize::MAX\<close>, which the recursion writes as the test for the end of the last phase.
\<close>

function service_stop_chain_step ::
  "unit_table \<Rightarrow> os_answers \<Rightarrow> (unit_id \<Rightarrow> stop_conf) \<Rightarrow> stop_env \<Rightarrow> stop_chain \<Rightarrow> statuses \<Rightarrow> exit_state
     \<Rightarrow> stop_result outcome" where
  "service_stop_chain_step t os cf env c st s =
     (let u = chain_unit c; k = cf u;
          done = (\<lambda>c st s es. Returns \<lparr>outcome_of = Stop_finished, chain = c, stop_statuses = st, stop_state = s, stop_effects = es\<rparr>);
          finish = (let (st', s') = finalize_stop_chain c st s in done c st' s' [Kill_sweep])
      in
      case tbl_get t u of
        None \<Rightarrow> done c st s []
      | Some x \<Rightarrow>
          (case specific x of
             Service _ \<Rightarrow>
               if stop_masked k \<and> \<not> is_poststop (phase c) then finish
               else
                 (case phase c of
                    Exec_stop i \<Rightarrow>
                      if i \<ge> length (stop_cmds k) then service_stop_chain_step t os cf env (c\<lparr>phase := Await_main_exit\<rparr>) st s
                      else
                        (case helper env (phase c) of
                           Spawn_error e \<Rightarrow>
                             add_effects [Run_helper (stop_cmds k ! i)]
                               (service_stop_chain_step t os cf env (spawn_failed env (stop_cmds k ! i) e c) st s)
                         | _ \<Rightarrow>
                             Returns \<lparr>outcome_of = Forked_helper (helper_pid env (phase c)) (stop_cmds k ! i) (stop_timeout k),
                               chain = c, stop_statuses = st, stop_state = s, stop_effects = [Run_helper (stop_cmds k ! i)]\<rparr>)
                  | Await_main_exit \<Rightarrow>
                      (let st' = (if is_stopped (st u) then st else st(u := Stopping));
                           s' = s\<lparr>manual_stop := True\<rparr>;
                           post = (\<lambda>es. add_effects es (service_stop_chain_step t os cf env (c\<lparr>phase := Poststop 0\<rparr>) st' s'))
                       in if stop_kill_mode k = Kill_none then post []
                          else
                            (case main env of
                               Not_alive \<Rightarrow> post []
                             | Signal_fails \<Rightarrow> post []
                             | Signalled pid _ \<Rightarrow>
                                 Returns \<lparr>outcome_of = Awaiting_main pid (stop_timeout k), chain = c, stop_statuses = st',
                                   stop_state = s', stop_effects = [Send_sigterm pid]\<rparr>))
                  | Poststop i \<Rightarrow>
                      if i \<ge> length (stoppost_cmds k) \<or> i \<ge> usize_max then finish
                      else
                        (case helper env (phase c) of
                           Spawn_error e \<Rightarrow>
                             add_effects [Run_helper (stoppost_cmds k ! i)]
                               (service_stop_chain_step t os cf env (spawn_failed env (stoppost_cmds k ! i) e c) st s)
                         | _ \<Rightarrow>
                             Returns \<lparr>outcome_of = Forked_helper (helper_pid env (phase c)) (stoppost_cmds k ! i) (stop_timeout k),
                               chain = c, stop_statuses = st, stop_state = s, stop_effects = [Run_helper (stoppost_cmds k ! i)]\<rparr>))
           | _ \<Rightarrow>
               (case deactivate_unit t os u st of
                  Panics \<Rightarrow> Panics
                | Returns (st', _, None) \<Rightarrow> done c st' s [Deactivate_inline]
                | Returns (st', _, Some e) \<Rightarrow>
                    done (c\<lparr>chain_errors := chain_errors c @ [show_error env e]\<rparr>) st' s [Deactivate_inline])))"
  by pat_completeness auto
termination
  by (relation "measure (\<lambda>(t, os, cf, env, c, st, s). phase_rank (cf (chain_unit c)) (phase c))")
     (auto simp: spawn_failed_def not_le)

declare service_stop_chain_step.simps [simp del]

section \<open>Events\<close>

text \<open>A helper of the chain has exited, has overrun its window; the main process has.\<close>

definition service_stop_chain_helper_exited ::
  "unit_table \<Rightarrow> os_answers \<Rightarrow> (unit_id \<Rightarrow> stop_conf) \<Rightarrow> stop_env \<Rightarrow> stop_chain \<Rightarrow> commandline \<Rightarrow> child_termination
     \<Rightarrow> statuses \<Rightarrow> exit_state \<Rightarrow> stop_result outcome" where
  "service_stop_chain_helper_exited t os cf env c k code st s =
     service_stop_chain_step t os cf env
       (if success code \<or> has_minus k then c\<lparr>phase := advance_stop_index (phase c)\<rparr>
        else c\<lparr>chain_errors := chain_errors c @ [show_commandline k @ '' exited with '' @ show_termination env code],
               phase := skip_current_stop_phase (phase c)\<rparr>) st s"

definition service_stop_chain_helper_timeout_skip ::
  "unit_table \<Rightarrow> os_answers \<Rightarrow> (unit_id \<Rightarrow> stop_conf) \<Rightarrow> stop_env \<Rightarrow> stop_chain \<Rightarrow> statuses \<Rightarrow> exit_state
     \<Rightarrow> stop_result outcome" where
  "service_stop_chain_helper_timeout_skip t os cf env c st s =
     service_stop_chain_step t os cf env (c\<lparr>phase := skip_current_stop_phase (phase c)\<rparr>) st s"

definition expire_stop_helper ::
  "unit_table \<Rightarrow> os_answers \<Rightarrow> (unit_id \<Rightarrow> stop_conf) \<Rightarrow> stop_env \<Rightarrow> stop_chain \<Rightarrow> commandline \<Rightarrow> nat
     \<Rightarrow> statuses \<Rightarrow> exit_state \<Rightarrow> stop_result outcome" where
  "expire_stop_helper t os cf env c k pid st s =
     add_effects [Send_sigkill pid]
       (service_stop_chain_helper_timeout_skip t os cf env
          (c\<lparr>chain_errors := chain_errors c @ [show_commandline k @ '' timed out'']\<rparr>) st s)"

definition service_stop_chain_main_timeout ::
  "unit_table \<Rightarrow> os_answers \<Rightarrow> (unit_id \<Rightarrow> stop_conf) \<Rightarrow> stop_env \<Rightarrow> stop_chain \<Rightarrow> nat \<Rightarrow> statuses \<Rightarrow> exit_state
     \<Rightarrow> stop_result outcome" where
  "service_stop_chain_main_timeout t os cf env c pid st s =
     add_effects [Send_sigkill pid]
       (service_stop_chain_step t os cf env
          (c\<lparr>chain_errors := chain_errors c @ [''stop timed out''], phase := Poststop 0\<rparr>) st s)"

definition service_stop_chain_main_exited ::
  "unit_table \<Rightarrow> os_answers \<Rightarrow> (unit_id \<Rightarrow> stop_conf) \<Rightarrow> stop_env \<Rightarrow> stop_chain \<Rightarrow> statuses \<Rightarrow> exit_state
     \<Rightarrow> stop_result outcome" where
  "service_stop_chain_main_exited t os cf env c st s =
     service_stop_chain_step t os cf env (c\<lparr>phase := Poststop 0\<rparr>) st s"

text \<open>
  The event that a parked chain waits for, as the environment answers it.  Without a timeout there is no
  deadline, and a process that does not end leaves the chain parked.
\<close>

definition resume_stop_chain ::
  "unit_table \<Rightarrow> os_answers \<Rightarrow> (unit_id \<Rightarrow> stop_conf) \<Rightarrow> stop_env \<Rightarrow> stop_result \<Rightarrow> stop_result outcome" where
  "resume_stop_chain t os cf env x =
     (let c = chain x; st = stop_statuses x; s = stop_state x in
      case outcome_of x of
        Forked_helper pid k window \<Rightarrow>
          (case helper env (phase c) of
             Exits code \<Rightarrow> service_stop_chain_helper_exited t os cf env c k code st s
           | _ \<Rightarrow> if window = None then Returns (x\<lparr>stop_effects := []\<rparr>) else expire_stop_helper t os cf env c k pid st s)
      | Awaiting_main pid window \<Rightarrow>
          (case main env of
             Signalled _ True \<Rightarrow> service_stop_chain_main_exited t os cf env c st s
           | _ \<Rightarrow> if window = None then Returns (x\<lparr>stop_effects := []\<rparr>) else service_stop_chain_main_timeout t os cf env c pid st s)
      | Stop_finished \<Rightarrow> Returns x)"

text \<open>A chain with at most \<open>n\<close> more events.\<close>

fun run_stop_chain ::
  "nat \<Rightarrow> unit_table \<Rightarrow> os_answers \<Rightarrow> (unit_id \<Rightarrow> stop_conf) \<Rightarrow> stop_env \<Rightarrow> stop_result outcome
     \<Rightarrow> stop_result outcome option" where
  "run_stop_chain n t os cf env Panics = Some Panics"
| "run_stop_chain n t os cf env (Returns x) =
     (if outcome_of x = Stop_finished then Some (Returns x)
      else case n of
             0 \<Rightarrow> None
           | Suc m \<Rightarrow> run_stop_chain m t os cf env (add_effects (stop_effects x) (resume_stop_chain t os cf env x)))"

definition start_stop_chain :: "unit_id \<Rightarrow> stop_chain" where
  "start_stop_chain u = \<lparr>chain_unit = u, phase = Exec_stop 0, chain_errors = []\<rparr>"

section \<open>The inline sequence\<close>

text \<open>
  \<open>Service::kill\<close> with the same answers: the commands up to the first that fails, the signal, the
  commands after it; the sweep and the cleared process follow in every case.
\<close>

fun run_cmd :: "helper_answer \<Rightarrow> commandline \<Rightarrow> bool" where
  "run_cmd (Spawn_error e) k = has_minus k"
| "run_cmd (Exits code) k = (success code \<or> has_minus k)"
| "run_cmd Overruns k = False"

fun run_all_cmds :: "(nat \<Rightarrow> helper_answer) \<Rightarrow> nat \<Rightarrow> commandline list \<Rightarrow> commandline list \<times> bool" where
  "run_all_cmds f i [] = ([], True)"
| "run_all_cmds f i (k # ks) =
     (if run_cmd (f i) k then (case run_all_cmds f (i + 1) ks of (run, ok) \<Rightarrow> (k # run, ok)) else ([k], False))"

definition terminate_gracefully :: "stop_conf \<Rightarrow> main_answer \<Rightarrow> stop_effect list" where
  "terminate_gracefully k a =
     (if stop_kill_mode k = Kill_none then [] else case a of Signalled pid _ \<Rightarrow> [Send_sigterm pid] | _ \<Rightarrow> [])"

definition service_kill :: "stop_conf \<Rightarrow> stop_env \<Rightarrow> stop_effect list \<times> bool" where
  "service_kill k env =
     (if stop_masked k then ([], True)
      else
        (case run_all_cmds (\<lambda>i. helper env (Exec_stop i)) 0 (stop_cmds k) of
           (stops, stop_ok) \<Rightarrow>
             (case run_all_cmds (\<lambda>i. helper env (Poststop i)) 0 (stoppost_cmds k) of
                (posts, post_ok) \<Rightarrow>
                  (map Run_helper stops @ terminate_gracefully k (main env) @ map Run_helper posts,
                   stop_ok \<and> post_ok))))"

section \<open>The chain does what the inline sequence does\<close>

definition visible :: "stop_effect \<Rightarrow> bool" where
  "visible e \<longleftrightarrow> (case e of Run_helper _ \<Rightarrow> True | Send_sigterm _ \<Rightarrow> True | _ \<Rightarrow> False)"

definition main_in_time :: "stop_conf \<Rightarrow> stop_env \<Rightarrow> bool" where
  "main_in_time k env \<longleftrightarrow> stop_kill_mode k = Kill_none \<or> (case main env of Signalled _ b \<Rightarrow> b | _ \<Rightarrow> True)"

text \<open>Nothing overruns its window; and every window ends, or nothing needs it to.\<close>

definition calm :: "stop_conf \<Rightarrow> stop_env \<Rightarrow> bool" where
  "calm k env \<longleftrightarrow> (\<forall>p. helper env p \<noteq> Overruns) \<and> main_in_time k env"

definition windows_end :: "stop_conf \<Rightarrow> stop_env \<Rightarrow> bool" where
  "windows_end k env \<longleftrightarrow> stop_timeout k \<noteq> None \<or> calm k env"

text \<open>What is left to do from a phase on, and whether it goes without an error.\<close>

definition expected_post :: "stop_conf \<Rightarrow> stop_env \<Rightarrow> nat \<Rightarrow> stop_effect list \<times> bool" where
  "expected_post k env i =
     (case run_all_cmds (\<lambda>i. helper env (Poststop i)) i (drop i (stoppost_cmds k)) of (run, ok) \<Rightarrow> (map Run_helper run, ok))"

definition expected_main :: "stop_conf \<Rightarrow> stop_env \<Rightarrow> stop_effect list \<times> bool" where
  "expected_main k env =
     (case expected_post k env 0 of (es, ok) \<Rightarrow> (terminate_gracefully k (main env) @ es, ok \<and> main_in_time k env))"

definition expected_stop :: "stop_conf \<Rightarrow> stop_env \<Rightarrow> nat \<Rightarrow> stop_effect list \<times> bool" where
  "expected_stop k env i =
     (case run_all_cmds (\<lambda>i. helper env (Exec_stop i)) i (drop i (stop_cmds k)) of
        (run, ok) \<Rightarrow> (case expected_main k env of (es, ok') \<Rightarrow> (map Run_helper run @ es, ok \<and> ok')))"

fun expected :: "stop_conf \<Rightarrow> stop_env \<Rightarrow> stop_phase \<Rightarrow> stop_effect list \<times> bool" where
  "expected k env (Exec_stop i) = expected_stop k env i"
| "expected k env Await_main_exit = expected_main k env"
| "expected k env (Poststop i) = expected_post k env i"

lemma expected_end:
  "length (stop_cmds k) \<le> i \<Longrightarrow> expected_stop k env i = expected_main k env"
  "length (stoppost_cmds k) \<le> i \<Longrightarrow> expected_post k env i = ([], True)"
  by (simp_all add: expected_stop_def expected_post_def split: prod.split)

lemma expected_next:
  assumes "i < length (stop_cmds k)"
  shows "expected_stop k env i =
    (if run_cmd (helper env (Exec_stop i)) (stop_cmds k ! i)
     then (case expected_stop k env (i + 1) of (es, ok) \<Rightarrow> (Run_helper (stop_cmds k ! i) # es, ok))
     else (case expected_main k env of (es, ok) \<Rightarrow> (Run_helper (stop_cmds k ! i) # es, False)))"
  using Cons_nth_drop_Suc [OF assms, symmetric] by (auto simp: expected_stop_def split: prod.split)

lemma expected_next_post:
  assumes "i < length (stoppost_cmds k)"
  shows "expected_post k env i =
    (if run_cmd (helper env (Poststop i)) (stoppost_cmds k ! i)
     then (case expected_post k env (i + 1) of (es, ok) \<Rightarrow> (Run_helper (stoppost_cmds k ! i) # es, ok))
     else ([Run_helper (stoppost_cmds k ! i)], False))"
  using Cons_nth_drop_Suc [OF assms, symmetric] by (auto simp: expected_post_def split: prod.split)

text \<open>A run of the chain from given errors: what it has done and how it leaves the unit.\<close>

definition ended ::
  "bool \<Rightarrow> unit_id \<Rightarrow> string list \<Rightarrow> stop_effect list \<times> bool \<Rightarrow> statuses \<Rightarrow> bool \<Rightarrow> stop_result outcome option \<Rightarrow> bool" where
  "ended q u es ex st marked r \<longleftrightarrow>
     (case r of
        Some (Returns y) \<Rightarrow>
          outcome_of y = Stop_finished
          \<and> (\<exists>vs. stop_effects y = vs @ [Kill_sweep] \<and> filter visible vs = fst ex \<and> (q \<longrightarrow> list_all visible vs))
          \<and> (\<exists>es'. chain_errors (chain y) = es @ es' \<and> (es' = []) = snd ex)
          \<and> stop_statuses y = st(u := Stopped StoppedFinal (map GenericStartError (chain_errors (chain y))))
          \<and> main_pid (stop_state y) = None \<and> (marked \<longrightarrow> manual_stop (stop_state y))
      | _ \<Rightarrow> False)"

lemma ended_add:
  assumes "ended q u es ex st m r" "q \<longrightarrow> list_all visible es0"
  shows "ended q u es (filter visible es0 @ fst ex, snd ex) st m (map_option (add_effects es0) r)"
proof -
  obtain y vs where y: "r = Some (Returns y)" "stop_effects y = vs @ [Kill_sweep]" "filter visible vs = fst ex" "q \<longrightarrow> list_all visible vs"
    using assms(1) by (auto simp: ended_def split: option.splits outcome.splits)
  then have "es0 @ stop_effects y = (es0 @ vs) @ [Kill_sweep]" "filter visible (es0 @ vs) = filter visible es0 @ fst ex"
    "q \<longrightarrow> list_all visible (es0 @ vs)" using assms(2) by auto
  then show ?thesis using assms(1) y(1) by (auto simp: ended_def add_effects_def)
qed

lemma ended_error: "ended q u (es @ es') ex st m r \<Longrightarrow> ended q u es (fst ex, es' = [] \<and> snd ex) st m r"
  by (auto simp: ended_def split: option.splits outcome.splits)

lemma ended_status [simp]: "ended q u es ex (st(u := x)) m r = ended q u es ex st m r"
  unfolding ended_def fun_upd_upd ..

lemma add_effects_add [simp]: "add_effects es (add_effects es' r) = add_effects (es @ es') r"
  by (simp add: add_effects_def split: outcome.split)

lemma run_add_effects: "run_stop_chain n t os cf env (add_effects es r) = map_option (add_effects es) (run_stop_chain n t os cf env r)"
proof (induction n arbitrary: es r)
  case 0
  then show ?case by (cases r) (auto simp: add_effects_def)
next
  case (Suc n)
  show ?case
  proof (cases r)
    case (Returns x)
    have "resume_stop_chain t os cf env (x\<lparr>stop_effects := es'\<rparr>) = resume_stop_chain t os cf env x"
      if "outcome_of x \<noteq> Stop_finished" for es'
      using that by (cases "outcome_of x")
        (auto simp: resume_stop_chain_def Let_def split: helper_answer.split main_answer.split bool.split)
    then show ?thesis
      using Returns Suc.IH [of es "add_effects (stop_effects x) (resume_stop_chain t os cf env x)"]
      by (simp add: add_effects_def [of es "Returns x"])
  qed (simp add: add_effects_def)
qed

text \<open>A phase with a helper: one command is run, now or after one event.\<close>

fun helper_cmd :: "stop_conf \<Rightarrow> stop_phase \<Rightarrow> commandline option" where
  "helper_cmd k (Exec_stop i) = (if i < length (stop_cmds k) then Some (stop_cmds k ! i) else None)"
| "helper_cmd k Await_main_exit = None"
| "helper_cmd k (Poststop i) = (if i < length (stoppost_cmds k) \<and> i < usize_max then Some (stoppost_cmds k ! i) else None)"

lemma helper_step:
  assumes "tbl_get t (chain_unit c) = Some x" "specific x = Service sc" "\<not> stop_masked (cf (chain_unit c))"
    and cmd: "helper_cmd (cf (chain_unit c)) (phase c) = Some k" and ends: "windows_end (cf (chain_unit c)) env"
  shows "\<exists>c' vs es l. run_stop_chain (Suc m) t os cf env (service_stop_chain_step t os cf env c st s)
        = map_option (add_effects vs) (run_stop_chain l t os cf env (service_stop_chain_step t os cf env c' st s))
      \<and> m \<le> l \<and> filter visible vs = [Run_helper k] \<and> (calm (cf (chain_unit c)) env \<longrightarrow> list_all visible vs) \<and> chain_unit c' = chain_unit c
      \<and> phase c' = (if run_cmd (helper env (phase c)) k then advance_stop_index (phase c) else skip_current_stop_phase (phase c))
      \<and> chain_errors c' = chain_errors c @ es \<and> (es = []) = run_cmd (helper env (phase c)) k"
proof (cases "helper env (phase c)")
  case (Spawn_error e)
  have "service_stop_chain_step t os cf env c st s
      = add_effects [Run_helper k] (service_stop_chain_step t os cf env (spawn_failed env k e c) st s)"
    using assms Spawn_error
    by (subst service_stop_chain_step.simps) (auto simp: Let_def is_poststop_def split: stop_phase.splits if_splits)
  then show ?thesis
    by (intro exI [of _ "spawn_failed env k e c"] exI [of _ "[Run_helper k]"]
        exI [of _ "if has_minus k then [] else [''Failed to spawn '' @ show_commandline k @ '': '' @ e]"] exI [of _ "Suc m"])
       (simp add: run_add_effects Spawn_error spawn_failed_def visible_def)
next
  case (Exits code)
  let ?c = "if success code \<or> has_minus k then c\<lparr>phase := advance_stop_index (phase c)\<rparr>
        else c\<lparr>chain_errors := chain_errors c @ [show_commandline k @ '' exited with '' @ show_termination env code],
               phase := skip_current_stop_phase (phase c)\<rparr>"
  have "service_stop_chain_step t os cf env c st s
      = Returns \<lparr>outcome_of = Forked_helper (helper_pid env (phase c)) k (stop_timeout (cf (chain_unit c))),
          chain = c, stop_statuses = st, stop_state = s, stop_effects = [Run_helper k]\<rparr>"
    using assms Exits
    by (subst service_stop_chain_step.simps) (auto simp: Let_def is_poststop_def split: stop_phase.splits if_splits)
  then have "run_stop_chain (Suc m) t os cf env (service_stop_chain_step t os cf env c st s)
      = map_option (add_effects [Run_helper k]) (run_stop_chain m t os cf env (service_stop_chain_step t os cf env ?c st s))"
    by (simp add: resume_stop_chain_def Exits service_stop_chain_helper_exited_def run_add_effects)
  then show ?thesis
    by (intro exI [of _ ?c] exI [of _ "[Run_helper k]"]
        exI [of _ "if success code \<or> has_minus k then [] else [show_commandline k @ '' exited with '' @ show_termination env code]"]
        exI [of _ m]) (simp add: Exits visible_def)
next
  case Overruns
  obtain w where w: "stop_timeout (cf (chain_unit c)) = Some w"
    using ends Overruns by (auto simp: windows_end_def calm_def)
  let ?c = "c\<lparr>chain_errors := chain_errors c @ [show_commandline k @ '' timed out''], phase := skip_current_stop_phase (phase c)\<rparr>"
  have "service_stop_chain_step t os cf env c st s
      = Returns \<lparr>outcome_of = Forked_helper (helper_pid env (phase c)) k (stop_timeout (cf (chain_unit c))),
          chain = c, stop_statuses = st, stop_state = s, stop_effects = [Run_helper k]\<rparr>"
    using assms Overruns
    by (subst service_stop_chain_step.simps) (auto simp: Let_def is_poststop_def split: stop_phase.splits if_splits)
  then have "run_stop_chain (Suc m) t os cf env (service_stop_chain_step t os cf env c st s)
      = map_option (add_effects [Run_helper k, Send_sigkill (helper_pid env (phase c))])
          (run_stop_chain m t os cf env (service_stop_chain_step t os cf env ?c st s))"
    by (simp add: w option.map_comp comp_def resume_stop_chain_def Overruns expire_stop_helper_def service_stop_chain_helper_timeout_skip_def run_add_effects)
  then show ?thesis
    by (intro exI [of _ ?c] exI [of _ "[Run_helper k, Send_sigkill (helper_pid env (phase c))]"]
        exI [of _ "[show_commandline k @ '' timed out'']"] exI [of _ m]) (simp add: Overruns visible_def calm_def, metis Overruns)
qed

text \<open>The phases without a helper.\<close>

lemma step_finish:
  assumes "tbl_get t (chain_unit c) = Some x" "specific x = Service sc"
    and "case phase c of Poststop i \<Rightarrow> helper_cmd (cf (chain_unit c)) (Poststop i) = None | _ \<Rightarrow> stop_masked (cf (chain_unit c))"
  shows "service_stop_chain_step t os cf env c st s
    = Returns \<lparr>outcome_of = Stop_finished, chain = c,
        stop_statuses = st(chain_unit c := Stopped StoppedFinal (map GenericStartError (chain_errors c))),
        stop_state = s\<lparr>main_pid := None\<rparr>, stop_effects = [Kill_sweep]\<rparr>"
  using assms by (subst service_stop_chain_step.simps)
    (auto simp: Let_def finalize_stop_chain_def is_poststop_def split: stop_phase.splits if_splits)

lemma step_await:
  assumes "tbl_get t (chain_unit c) = Some x" "specific x = Service sc" "\<not> stop_masked (cf (chain_unit c))" "phase c = Await_main_exit" "windows_end (cf (chain_unit c)) env"
  shows "\<exists>c' vs es l st'. run_stop_chain (Suc m) t os cf env (service_stop_chain_step t os cf env c st s)
        = map_option (add_effects vs) (run_stop_chain l t os cf env (service_stop_chain_step t os cf env c' st' (s\<lparr>manual_stop := True\<rparr>)))
      \<and> m \<le> l \<and> filter visible vs = terminate_gracefully (cf (chain_unit c)) (main env)
      \<and> (calm (cf (chain_unit c)) env \<longrightarrow> list_all visible vs) \<and> chain_unit c' = chain_unit c
      \<and> phase c' = Poststop 0 \<and> chain_errors c' = chain_errors c @ es \<and> (es = []) = main_in_time (cf (chain_unit c)) env
      \<and> (st' = st \<or> st' = st(chain_unit c := Stopping))"
proof -
  let ?u = "chain_unit c" and ?s = "s\<lparr>manual_stop := True\<rparr>"
  let ?st = "if is_stopped (st ?u) then st else st(?u := Stopping)"
  let ?step = "service_stop_chain_step t os cf env"
  have cases: "?step c st s =
      (if stop_kill_mode (cf ?u) = Kill_none \<or> (\<forall>pid b. main env \<noteq> Signalled pid b) then ?step (c\<lparr>phase := Poststop 0\<rparr>) ?st ?s
       else case main env of Signalled pid _ \<Rightarrow>
         Returns \<lparr>outcome_of = Awaiting_main pid (stop_timeout (cf ?u)), chain = c, stop_statuses = ?st, stop_state = ?s,
           stop_effects = [Send_sigterm pid]\<rparr>)"
    using assms by (subst service_stop_chain_step.simps)
      (auto simp: Let_def is_poststop_def add_effects_def split: main_answer.splits outcome.split)
  show ?thesis
  proof (cases "stop_kill_mode (cf ?u) = Kill_none \<or> (\<forall>pid b. main env \<noteq> Signalled pid b)")
    case True
    then have "terminate_gracefully (cf ?u) (main env) = []" "main_in_time (cf ?u) env"
      by (auto simp: terminate_gracefully_def main_in_time_def split: main_answer.split)
    moreover have "map_option (add_effects []) r = r" for r :: "stop_result outcome option"
      by (cases r; cases "the r") (auto simp: add_effects_def)
    ultimately show ?thesis using True cases
      by (intro exI [of _ "c\<lparr>phase := Poststop 0\<rparr>"] exI [of _ "[]"] exI [of _ "[]"] exI [of _ "Suc m"] exI [of _ ?st]) simp
  next
    case False
    then obtain pid b where sig: "main env = Signalled pid b" "stop_kill_mode (cf ?u) \<noteq> Kill_none" by blast
    have park: "?step c st s = Returns \<lparr>outcome_of = Awaiting_main pid (stop_timeout (cf ?u)), chain = c, stop_statuses = ?st,
        stop_state = ?s, stop_effects = [Send_sigterm pid]\<rparr>"
      using cases sig by auto
    show ?thesis
    proof (cases b)
      case True
      then show ?thesis
        using sig park
        by (intro exI [of _ "c\<lparr>phase := Poststop 0\<rparr>"] exI [of _ "[Send_sigterm pid]"] exI [of _ "[]"] exI [of _ m] exI [of _ ?st])
          (simp add: resume_stop_chain_def service_stop_chain_main_exited_def run_add_effects visible_def
            terminate_gracefully_def main_in_time_def)
    next
      case False
      let ?e = "chain_errors c @ [''stop timed out'']"
      obtain w where w: "stop_timeout (cf ?u) = Some w"
        using False sig assms(5) by (auto simp: windows_end_def calm_def main_in_time_def)
      have "run_stop_chain (Suc m) t os cf env (?step c st s)
          = map_option (add_effects [Send_sigterm pid, Send_sigkill pid])
              (run_stop_chain m t os cf env (?step (c\<lparr>chain_errors := ?e, phase := Poststop 0\<rparr>) ?st ?s))"
        using False sig park w
        by (simp add: resume_stop_chain_def service_stop_chain_main_timeout_def
            run_add_effects option.map_comp comp_def)
      then show ?thesis
        using False sig
        by (intro exI [of _ "c\<lparr>chain_errors := ?e, phase := Poststop 0\<rparr>"] exI [of _ "[Send_sigterm pid, Send_sigkill pid]"]
            exI [of _ "[''stop timed out'']"] exI [of _ m] exI [of _ ?st])
          (simp add: visible_def terminate_gracefully_def main_in_time_def calm_def)
    qed
  qed
qed

lemma chain_ends:
  assumes "tbl_get t u = Some x" "specific x = Service sc" "\<not> stop_masked (cf u)" "length (stoppost_cmds (cf u)) \<le> usize_max" "windows_end (cf u) env"
  shows "chain_unit c = u \<Longrightarrow> phase_rank (cf u) (phase c) \<le> n \<Longrightarrow>
    ended (calm (cf u) env) u (chain_errors c) (expected (cf u) env (phase c)) st (is_poststop (phase c) \<longrightarrow> manual_stop s)
      (run_stop_chain n t os cf env (service_stop_chain_step t os cf env c st s))"
proof (induction "phase_rank (cf u) (phase c)" arbitrary: n c st s rule: less_induct)
  case less
  let ?k = "cf u"
  show ?case
  proof (cases "helper_cmd ?k (phase c)")
    case (Some k)
    have pos: "0 < phase_rank ?k (phase c)" using Some by (cases "phase c") (auto split: if_splits)
    then obtain m where n: "n = Suc m" using less.prems(2) by (cases n) auto
    obtain c' vs es l where step: "run_stop_chain n t os cf env (service_stop_chain_step t os cf env c st s)
          = map_option (add_effects vs) (run_stop_chain l t os cf env (service_stop_chain_step t os cf env c' st s))"
        "m \<le> l" "filter visible vs = [Run_helper k]" "calm ?k env \<longrightarrow> list_all visible vs" "chain_unit c' = u" "chain_errors c' = chain_errors c @ es"
        "(es = []) = run_cmd (helper env (phase c)) k"
        "phase c' = (if run_cmd (helper env (phase c)) k then advance_stop_index (phase c) else skip_current_stop_phase (phase c))"
      using helper_step [of t c x sc cf k env m os st s] assms(1-3,5) less.prems(1) Some unfolding n by blast
    have rank: "phase_rank ?k (phase c') < phase_rank ?k (phase c)"
      using step(8) Some by (cases "phase c") (auto split: if_splits)
    have ex: "expected ?k env (phase c) =
        (Run_helper k # fst (expected ?k env (phase c')), es = [] \<and> snd (expected ?k env (phase c')))"
      using step(7,8) Some assms(4)
      by (cases "phase c") (auto simp: expected_next expected_next_post expected_end split: if_splits prod.splits)
    have mark: "(is_poststop (phase c) \<longrightarrow> manual_stop s) \<longrightarrow> (is_poststop (phase c') \<longrightarrow> manual_stop s)"
      using step(8) Some by (cases "phase c") (auto simp: is_poststop_def split: if_splits)
    have "ended (calm ?k env) u (chain_errors c @ es) (expected ?k env (phase c')) st (is_poststop (phase c') \<longrightarrow> manual_stop s)
        (run_stop_chain l t os cf env (service_stop_chain_step t os cf env c' st s))"
      using less.hyps [OF rank step(5), of l st s] step(2,6) rank less.prems(2) n by simp
    from ended_add [OF ended_error [OF this] step(4)] show ?thesis
      unfolding step(1) using ex step(3) mark by (auto simp: ended_def split: option.splits outcome.splits)
  next
    case None
    show ?thesis
    proof (cases "phase c")
      case (Exec_stop i)
      let ?c = "c\<lparr>phase := Await_main_exit\<rparr>"
      have i: "length (stop_cmds ?k) \<le> i" using None Exec_stop by (simp split: if_splits)
      have "service_stop_chain_step t os cf env c st s = service_stop_chain_step t os cf env ?c st s"
        using assms(1-3) less.prems(1) Exec_stop i
        by (subst service_stop_chain_step.simps) (simp add: is_poststop_def)
      then show ?thesis
        using less.hyps [of ?c n st s] less.prems Exec_stop i by (simp add: expected_end is_poststop_def)
    next
      case Await_main_exit
      then obtain m where n: "n = Suc m" using less.prems(2) by (cases n) auto
      obtain c' vs es l st' where step: "run_stop_chain n t os cf env (service_stop_chain_step t os cf env c st s)
            = map_option (add_effects vs) (run_stop_chain l t os cf env (service_stop_chain_step t os cf env c' st' (s\<lparr>manual_stop := True\<rparr>)))"
          "m \<le> l" "filter visible vs = terminate_gracefully ?k (main env)" "calm ?k env \<longrightarrow> list_all visible vs" "chain_unit c' = u" "phase c' = Poststop 0"
          "chain_errors c' = chain_errors c @ es" "(es = []) = main_in_time ?k env" "st' = st \<or> st' = st(u := Stopping)"
        using step_await [of t c x sc cf env m os st s] assms(1-3,5) less.prems(1) Await_main_exit unfolding n by blast
      have "ended (calm ?k env) u (chain_errors c @ es) (expected_post ?k env 0) st True
          (run_stop_chain l t os cf env (service_stop_chain_step t os cf env c' st' (s\<lparr>manual_stop := True\<rparr>)))"
        using less.hyps [of c' l st' "s\<lparr>manual_stop := True\<rparr>"] step less.prems(2) n Await_main_exit by auto
      from ended_add [OF ended_error [OF this] step(4)] show ?thesis
        unfolding step(1) using step(3,8) Await_main_exit
        by (auto simp: ended_def expected_main_def is_poststop_def split: option.splits outcome.splits prod.splits)
    next
      case (Poststop i)
      have "length (stoppost_cmds ?k) \<le> i" using None Poststop assms(4) by (auto split: if_splits)
      then show ?thesis
        using step_finish [of t c x sc cf os env st s] assms(1,2) less.prems(1) Poststop None
        by (cases n) (auto simp: ended_def visible_def expected_end is_poststop_def)
    qed
  qed
qed

text \<open>
  C23: A stop chain does what \<open>Service::kill\<close> does, up to \<open>SIGKILL\<close>.  For every loaded service, and
  whatever the operating system answers as long as there is a stop timeout or nothing overruns, the
  chain that starts with its first \<open>ExecStop=\<close> command waits for at most one process per command and
  one more, and then has finished, with the sweep as the last thing it did.  The commands it has run
  and the \<open>SIGTERM\<close> it has sent are those of the inline sequence in the same order; if nothing overruns
  its window it did nothing else, and otherwise a \<open>SIGKILL\<close> to what overran is added, which the inline
  sequence sends elsewhere.  The unit is stopped, with an error exactly when the inline sequence
  reports one or, which that does not report, the main process overran its window; a masked unit has
  no error.  But for a masked unit the stop counts as one on purpose.
\<close>

theorem stop_chain_refines_kill:
  assumes "tbl_get t u = Some x" "specific x = Service sc" "length (stoppost_cmds (cf u)) \<le> usize_max"
    and "windows_end (cf u) env"
  shows "case run_stop_chain (length (stop_cmds (cf u)) + length (stoppost_cmds (cf u)) + 2) t os cf env
             (service_stop_chain_step t os cf env (start_stop_chain u) st s) of
           Some (Returns y) \<Rightarrow>
             outcome_of y = Stop_finished
             \<and> (\<exists>vs. stop_effects y = vs @ [Kill_sweep] \<and> filter visible vs = fst (service_kill (cf u) env)
                     \<and> (calm (cf u) env \<longrightarrow> vs = fst (service_kill (cf u) env)))
             \<and> (\<exists>es. stop_statuses y = st(u := Stopped StoppedFinal es)
                     \<and> (es = []) = (snd (service_kill (cf u) env) \<and> main_in_time (cf u) env \<or> stop_masked (cf u)))
             \<and> main_pid (stop_state y) = None \<and> (manual_stop (stop_state y) \<or> stop_masked (cf u))
         | _ \<Rightarrow> False"
proof (cases "stop_masked (cf u)")
  case True
  then show ?thesis
    using step_finish [of t "start_stop_chain u" x sc cf os env st s] assms(1,2)
    by (auto simp: start_stop_chain_def service_kill_def visible_def)
next
  case False
  let ?n = "length (stop_cmds (cf u)) + length (stoppost_cmds (cf u)) + 2"
  let ?r = "run_stop_chain ?n t os cf env (service_stop_chain_step t os cf env (start_stop_chain u) st s)"
  have "expected (cf u) env (Exec_stop 0)
      = (fst (service_kill (cf u) env), snd (service_kill (cf u) env) \<and> main_in_time (cf u) env)"
    using False by (auto simp: expected_stop_def expected_main_def expected_post_def service_kill_def split: prod.split)
  then have "ended (calm (cf u) env) u [] (fst (service_kill (cf u) env), snd (service_kill (cf u) env) \<and> main_in_time (cf u) env) st True ?r"
    using chain_ends [where cf = cf and u = u and env = env and c = "start_stop_chain u" and n = ?n and st = st and s = s and os = os,
      OF assms(1,2) False assms(3,4)]
    by (simp add: start_stop_chain_def is_poststop_def)
  moreover have "list_all visible vs \<Longrightarrow> filter visible vs = vs" for vs by (simp add: list_all_iff)
  ultimately show ?thesis using False by (auto simp: ended_def split: option.splits outcome.splits)
qed

section \<open>Examples\<close>

definition service_table :: unit_table where
  "service_table = [(lock_c, (plain_unit lock_c no_dependencies)
     \<lparr>specific := Service \<lparr>srvc_sockets = [], srvc_slice = None, srvc_dbus_name = None\<rparr>\<rparr>)]"

definition two_commands :: stop_conf where
  "two_commands = \<lparr>stop_cmds = [\<lparr>cmd = ''/bin/a'', cmd_args = [], prefixes = [Prefix_minus]\<rparr>],
     stoppost_cmds = [\<lparr>cmd = ''/bin/b'', cmd_args = [], prefixes = []\<rparr>],
     stop_kill_mode = Kill_control_group, stop_timeout = Some 90, stop_masked = False\<rparr>"

definition failing_env :: stop_env where
  "failing_env = \<lparr>helper = (\<lambda>_. Exits (Exit 1)), helper_pid = (\<lambda>_. 7), main = Signalled 42 True,
     show_termination = (\<lambda>_. ''Exit(1)''), show_error = (\<lambda>_. [])\<rparr>"

theorem stop_chain_refines_kill_witness:
  "case run_stop_chain (length (stop_cmds two_commands) + length (stoppost_cmds two_commands) + 2) service_table (\<lambda>_. None)
           (\<lambda>_. two_commands) failing_env
           (service_stop_chain_step service_table (\<lambda>_. None) (\<lambda>_. two_commands) failing_env (start_stop_chain lock_c)
              (\<lambda>_. Started Running) running) of
     Some (Returns y) \<Rightarrow>
       outcome_of y = Stop_finished
       \<and> (\<exists>vs. stop_effects y = vs @ [Kill_sweep] \<and> filter visible vs = fst (service_kill two_commands failing_env)
               \<and> (calm two_commands failing_env \<longrightarrow> vs = fst (service_kill two_commands failing_env)))
       \<and> (\<exists>es. stop_statuses y = (\<lambda>_. Started Running)(lock_c := Stopped StoppedFinal es)
               \<and> (es = []) = (snd (service_kill two_commands failing_env) \<and> main_in_time two_commands failing_env
                             \<or> stop_masked two_commands))
       \<and> main_pid (stop_state y) = None \<and> (manual_stop (stop_state y) \<or> stop_masked two_commands)
   | _ \<Rightarrow> False"
proof (rule stop_chain_refines_kill)
  show "tbl_get service_table lock_c = Some (plain_unit lock_c no_dependencies
      \<lparr>specific := Service \<lparr>srvc_sockets = [], srvc_slice = None, srvc_dbus_name = None\<rparr>\<rparr>)"
    by (simp add: service_table_def tbl_get_def)
qed (simp_all add: two_commands_def usize_max_def windows_end_def)

text \<open>
  The chain marks the unit only after its \<open>ExecStop=\<close> commands.  A main process that ends because of
  such a command finds its unit still running and the stop not on purpose, and is restarted.
\<close>

theorem exec_stop_can_restart:
  "case service_stop_chain_step service_table os (\<lambda>_. two_commands) failing_env (start_stop_chain lock_c) (\<lambda>_. Started Running) running of
     Returns y \<Rightarrow>
       outcome_of y = Forked_helper 7 \<lparr>cmd = ''/bin/a'', cmd_args = [], prefixes = [Prefix_minus]\<rparr> (Some 90)
       \<and> (case service_exit_handler service_table os sn (plain_unit lock_c no_dependencies) (plain_service\<lparr>restart := Restart_Always\<rparr>)
                42 (Exit 0) (stop_statuses y) (stop_state y) of
            Some (Returns r) \<Rightarrow> pending r \<noteq> None
          | _ \<Rightarrow> False)
   | _ \<Rightarrow> False"
proof -
  have "service_stop_chain_step service_table os (\<lambda>_. two_commands) failing_env (start_stop_chain lock_c) (\<lambda>_. Started Running) running
      = Returns \<lparr>outcome_of = Forked_helper 7 \<lparr>cmd = ''/bin/a'', cmd_args = [], prefixes = [Prefix_minus]\<rparr> (Some 90),
          chain = start_stop_chain lock_c, stop_statuses = (\<lambda>_. Started Running), stop_state = running,
          stop_effects = [Run_helper \<lparr>cmd = ''/bin/a'', cmd_args = [], prefixes = [Prefix_minus]\<rparr>]\<rparr>"
    by (subst service_stop_chain_step.simps)
      (simp add: service_table_def tbl_get_def two_commands_def failing_env_def start_stop_chain_def is_poststop_def)
  then show ?thesis
    by (simp add: service_exit_handler_def example_defs restart_decision_def restart_delay_def exit_dominated_def
      restart_exit_def exit_actions_def stop_post_def plain_unit_def no_dependencies_def)
qed

end
