(* ===== verification/StopGraph.thy ===== *)
theory StopGraph
  imports StopChain Jobs
begin

text \<open>
  Stopping a unit with its dependents on the dispatcher (\<open>entrypoints/dispatcher.rs\<close>): the graph of
  one stop request, the units whose chains run, and the credits that start a unit when the last of
  its dependents has finished.

  A call that starts a chain can finish at once and go on to start others, down the call stack.
  The calls still to make are a list of actions, \<open>todo\<close>, a stack; the functions of the code are what
  an action does and which actions it pushes.  How long a chain waits for its processes is left
  open in the step relation, within the bound that holds for \<open>service_stop_chain_step\<close>.

  Lemmas: the closure of a request, the invariant of the counts, and that a request whose
  dependents do not form a cycle runs every chain once, dependents first, and ends.
\<close>

section \<open>The stop graph\<close>

record stop_graph =
  pending_counts :: "(unit_id, nat) table"
  parents :: "(unit_id, unit_id list) table"
  propagate_after :: "(unit_id, unit_id list) table"
  root_jobs :: "(unit_id, job_id) table"
  active :: "unit_id list"

definition empty_stop_graph :: stop_graph where
  "empty_stop_graph = \<lparr>pending_counts = [], parents = [], propagate_after = [], root_jobs = [], active = []\<rparr>"

definition not_running :: "unit_status \<Rightarrow> bool" where
  "not_running s \<longleftrightarrow> is_stopped s \<or> s = NeverStarted"

text \<open>
  The walk over the dependents: the members, an edge for every dependent of a member, and what the
  members propagate their stop to.
\<close>

function stop_closure ::
  "unit_table \<Rightarrow> statuses \<Rightarrow> unit_id list \<Rightarrow> unit_id list
     \<Rightarrow> unit_id list \<times> (unit_id \<times> unit_id) list \<times> (unit_id \<times> unit_id list) list" where
  "stop_closure t st [] visited = ([], [], [])"
| "stop_closure t st (i # queue) visited =
     (if i \<in> set visited then stop_closure t st queue visited
      else case tbl_get t i of
             None \<Rightarrow> stop_closure t st queue (i # visited)
           | Some x \<Rightarrow>
               if not_running (st i) then stop_closure t st queue (i # visited)
               else
                 let children = required_by (deps x) @ part_of_by (deps x) @ bound_by (deps x);
                     propagate = propagates_stop_to (deps x)
                 in case stop_closure t st (queue @ children) (i # visited) of
                      (members, edges, ps) \<Rightarrow>
                        (i # members, map (\<lambda>c. (c, i)) children @ edges,
                         (if propagate \<noteq> [] then [(i, propagate)] else []) @ ps))"
  by pat_completeness auto

lemma visited_less:
  assumes "i \<notin> set visited" "tbl_get t i \<noteq> None"
  shows "card (set (tbl_keys t) - insert i (set visited)) < card (set (tbl_keys t) - set visited)"
  using assms tbl_keys_get [of i t] by (intro psubset_card_mono) auto

lemma visited_le: "card (set (tbl_keys t) - insert i (set visited)) \<le> card (set (tbl_keys t) - set visited)"
  by (intro card_mono) auto

termination stop_closure
  by (relation "measures [\<lambda>(t, st, queue, visited). card (set (tbl_keys t) - set visited), \<lambda>(t, st, queue, visited). length queue]")
     (auto simp: visited_less le_eq_less_or_eq [THEN iffD1, OF visited_le])

definition add_stop_edge :: "unit_id \<times> unit_id \<Rightarrow> stop_graph \<Rightarrow> stop_graph" where
  "add_stop_edge e g =
     (let (child, parent) = e in
      if child \<in> set (active g) \<and> parent \<in> set (active g) then
        g\<lparr>pending_counts := tbl_insert parent
              ((case tbl_get (pending_counts g) parent of None \<Rightarrow> 0 | Some n \<Rightarrow> n) + 1) (pending_counts g),
          parents := tbl_insert child
              ((case tbl_get (parents g) child of None \<Rightarrow> [] | Some ps \<Rightarrow> ps) @ [parent]) (parents g)\<rparr>
      else g)"

definition activate_member :: "unit_id \<Rightarrow> stop_graph \<Rightarrow> stop_graph" where
  "activate_member i g =
     g\<lparr>active := List.insert i (active g),
       pending_counts := (case tbl_get (pending_counts g) i of None \<Rightarrow> tbl_insert i 0 (pending_counts g) | Some _ \<Rightarrow> pending_counts g)\<rparr>"

section \<open>The actions\<close>

datatype stop_action =
  Begin_tree unit_id "job_id option"
  | Start_chain unit_id
  | Chain_finished unit_id
  | Credit unit_id
  | Propagate unit_id
  | Collect_unneeded unit_id

text \<open>What happened, in order: chains that were started and that have finished, jobs that are done.\<close>

datatype stop_event =
  Began unit_id
  | Ended unit_id
  | Job_done job_id

record scheduler =
  graph :: stop_graph
  todo :: "stop_action list"
  parked :: "(unit_id \<times> nat) list"
  sched_statuses :: statuses
  unneeded_events :: "unit_id list list"
  events :: "stop_event list"

definition finish_stop_root :: "unit_id \<Rightarrow> scheduler \<Rightarrow> scheduler" where
  "finish_stop_root i m =
     (case tbl_get (root_jobs (graph m)) i of
        None \<Rightarrow> m
      | Some j \<Rightarrow>
          m\<lparr>graph := (graph m)\<lparr>root_jobs := tbl_remove i (root_jobs (graph m))\<rparr>, events := events m @ [Job_done j]\<rparr>)"

definition begin_stop_tree :: "unit_table \<Rightarrow> unit_id \<Rightarrow> job_id option \<Rightarrow> scheduler \<Rightarrow> scheduler" where
  "begin_stop_tree t root job m =
     (if root \<in> set (active (graph m)) then
        (case job of None \<Rightarrow> m | Some j \<Rightarrow> m\<lparr>events := events m @ [Job_done j]\<rparr>)
      else
        let g = graph m;
            g1 = (case job of None \<Rightarrow> g | Some j \<Rightarrow> g\<lparr>root_jobs := tbl_insert root j (root_jobs g)\<rparr>);
            (members, edges, ps) = stop_closure t (sched_statuses m) [root] [];
            g2 = g1\<lparr>propagate_after := fold (\<lambda>(i, p). tbl_insert i p) ps (propagate_after g1)\<rparr>
        in
        if members = [] then finish_stop_root root (m\<lparr>graph := g2\<rparr>)
        else
          let g3 = fold add_stop_edge edges (fold activate_member members g2);
              leaves = filter (\<lambda>i. tbl_get (pending_counts g3) i \<in> {None, Some 0}) members
          in m\<lparr>graph := g3, todo := map Start_chain leaves @ todo m\<rparr>)"

text \<open>
  \<open>on_stop_chain_finished\<close>: the credits and the propagated trees are made one after the other, each
  with all it leads to.
\<close>

definition on_stop_chain_finished :: "unit_id \<Rightarrow> scheduler \<Rightarrow> scheduler" where
  "on_stop_chain_finished i m =
     (let g = graph m;
          m1 = finish_stop_root i (m\<lparr>graph := g\<lparr>active := removeAll i (active g), pending_counts := tbl_remove i (pending_counts g)\<rparr>,
                                     events := events m @ [Ended i]\<rparr>);
          g1 = graph m1;
          ps = (case tbl_get (parents g1) i of None \<Rightarrow> [] | Some ps \<Rightarrow> ps)
      in m1\<lparr>graph := g1\<lparr>parents := tbl_remove i (parents g1)\<rparr>,
            todo := map Credit ps @ [Propagate i, Collect_unneeded i] @ todo m1\<rparr>)"

definition credit :: "unit_id \<Rightarrow> scheduler \<Rightarrow> scheduler" where
  "credit p m =
     (let g = graph m in
      case tbl_get (pending_counts g) p of
        None \<Rightarrow> m
      | Some n \<Rightarrow>
          m\<lparr>graph := g\<lparr>pending_counts := tbl_insert p (n - 1) (pending_counts g)\<rparr>,
            todo := (if n - 1 = 0 then [Start_chain p] else []) @ todo m\<rparr>)"

definition propagate_stop_trees :: "unit_id \<Rightarrow> scheduler \<Rightarrow> scheduler" where
  "propagate_stop_trees i m =
     (let g = graph m in
      case tbl_get (propagate_after g) i of
        None \<Rightarrow> m
      | Some targets \<Rightarrow>
          m\<lparr>graph := g\<lparr>propagate_after := tbl_remove i (propagate_after g)\<rparr>,
            todo := map (\<lambda>u. Begin_tree u None) targets @ todo m\<rparr>)"

definition collect_unneeded :: "unit_table \<Rightarrow> unit_id \<Rightarrow> scheduler \<Rightarrow> scheduler" where
  "collect_unneeded t i m =
     (let candidates =
        (case tbl_get t i of
           None \<Rightarrow> []
         | Some x \<Rightarrow> wants (deps x) @ requires (deps x) @ binds_to (deps x) @ upholds (deps x))
      in if candidates = [] then m else m\<lparr>unneeded_events := unneeded_events m @ [candidates]\<rparr>)"

text \<open>\<open>Event::GcUnneeded\<close>\<close>

definition gc_unneeded :: "unit_table \<Rightarrow> unit_id list \<Rightarrow> scheduler \<Rightarrow> scheduler" where
  "gc_unneeded t candidates m =
     m\<lparr>todo := map (\<lambda>u. Begin_tree u None) (filter (is_unit_unneeded t (sched_statuses m)) candidates) @ todo m\<rparr>"

fun do_action :: "unit_table \<Rightarrow> stop_action \<Rightarrow> scheduler \<Rightarrow> scheduler" where
  "do_action t (Begin_tree u job) m = begin_stop_tree t u job m"
| "do_action t (Start_chain u) m = m"
| "do_action t (Chain_finished u) m = on_stop_chain_finished u m"
| "do_action t (Credit u) m = credit u m"
| "do_action t (Propagate u) m = propagate_stop_trees u m"
| "do_action t (Collect_unneeded u) m = collect_unneeded t u m"

text \<open>
  The scheduler.  A chain that is started waits for a process or has finished; a waiting chain goes
  on to the next process, at most \<open>bound\<close> many, or finishes.  A service that has finished is stopped;
  other units are deactivated inline, which can fail.  Events are handled one by one, when no call
  is left to make.
\<close>

definition is_service :: "unit_table \<Rightarrow> unit_id \<Rightarrow> bool" where
  "is_service t u \<longleftrightarrow>
     (case tbl_get t u of None \<Rightarrow> False | Some x \<Rightarrow> (case specific x of Service _ \<Rightarrow> True | _ \<Rightarrow> False))"

inductive sched_step :: "unit_table \<Rightarrow> (unit_id \<Rightarrow> nat) \<Rightarrow> scheduler \<Rightarrow> scheduler \<Rightarrow> bool" for t bound where
  start_waits: "todo m = Start_chain u # as \<Longrightarrow> is_service t u \<Longrightarrow> n < bound u \<Longrightarrow>
     sched_step t bound m (m\<lparr>todo := as, parked := (u, n) # parked m, sched_statuses := (sched_statuses m)(u := s),
                            events := events m @ [Began u]\<rparr>)"
| start_finishes: "todo m = Start_chain u # as \<Longrightarrow> (is_service t u \<longrightarrow> is_stopped s) \<Longrightarrow>
     sched_step t bound m (m\<lparr>todo := Chain_finished u # as, sched_statuses := (sched_statuses m)(u := s),
                            events := events m @ [Began u]\<rparr>)"
| make_call: "todo m = a # as \<Longrightarrow> (\<And>u. a \<noteq> Start_chain u) \<Longrightarrow> sched_step t bound m (do_action t a (m\<lparr>todo := as\<rparr>))"
| chain_goes_on: "todo m = [] \<Longrightarrow> parked m = ps @ (u, n) # qs \<Longrightarrow> n' < n \<Longrightarrow>
     sched_step t bound m (m\<lparr>parked := ps @ (u, n') # qs, sched_statuses := (sched_statuses m)(u := s)\<rparr>)"
| chain_ends: "todo m = [] \<Longrightarrow> parked m = ps @ (u, n) # qs \<Longrightarrow> is_stopped s \<Longrightarrow>
     sched_step t bound m (m\<lparr>todo := [Chain_finished u], parked := ps @ qs,
                            sched_statuses := (sched_statuses m)(u := s)\<rparr>)"
| unneeded_event: "todo m = [] \<Longrightarrow> unneeded_events m = c # cs \<Longrightarrow>
     sched_step t bound m (gc_unneeded t c (m\<lparr>unneeded_events := cs\<rparr>))"

definition stop_request :: "unit_id \<Rightarrow> job_id option \<Rightarrow> statuses \<Rightarrow> scheduler" where
  "stop_request root job st =
     \<lparr>graph = empty_stop_graph, todo = [Begin_tree root job], parked = [], sched_statuses = st,
      unneeded_events = [], events = []\<rparr>"

section \<open>The closure\<close>

definition children :: "unit_table \<Rightarrow> unit_id \<Rightarrow> unit_id list" where
  "children t u =
     (case tbl_get t u of None \<Rightarrow> [] | Some x \<Rightarrow> required_by (deps x) @ part_of_by (deps x) @ bound_by (deps x))"

definition live :: "unit_table \<Rightarrow> statuses \<Rightarrow> unit_id \<Rightarrow> bool" where
  "live t st u \<longleftrightarrow> tbl_get t u \<noteq> None \<and> \<not> not_running (st u)"

text \<open>A running dependent of a running unit.\<close>

definition stop_edge :: "unit_table \<Rightarrow> statuses \<Rightarrow> unit_id \<Rightarrow> unit_id \<Rightarrow> bool" where
  "stop_edge t st u c \<longleftrightarrow> live t st u \<and> live t st c \<and> c \<in> set (children t u)"

definition stop_members :: "unit_table \<Rightarrow> statuses \<Rightarrow> unit_id \<Rightarrow> unit_id set" where
  "stop_members t st root = {v. live t st root \<and> (stop_edge t st)\<^sup>*\<^sup>* root v}"

lemma stop_closure_edges:
  "stop_closure t st queue visited = (ms, es, ps) \<Longrightarrow>
     es = concat (map (\<lambda>i. map (\<lambda>c. (c, i)) (children t i)) ms)
     \<and> (\<forall>i p. (i, p) \<in> set ps \<longrightarrow> (\<exists>x. tbl_get t i = Some x \<and> propagates_stop_to (deps x) = p \<and> p \<noteq> []))"
proof (induction t st queue visited arbitrary: ms es ps rule: stop_closure.induct)
  case (2 t st i queue visited)
  then show ?case
    by (auto simp: children_def Let_def split: if_splits option.splits prod.splits)
qed simp

definition closure_ok :: "unit_table \<Rightarrow> statuses \<Rightarrow> unit_id list \<Rightarrow> unit_id list \<Rightarrow> unit_id list \<Rightarrow> bool" where
  "closure_ok t st queue visited ms \<longleftrightarrow>
     distinct ms \<and> set ms \<inter> set visited = {} \<and> (\<forall>v\<in>set ms. live t st v)
     \<and> (\<forall>q\<in>set queue. live t st q \<longrightarrow> q \<in> set visited \<union> set ms)
     \<and> (\<forall>u c. u \<in> set ms \<longrightarrow> stop_edge t st u c \<longrightarrow> c \<in> set visited \<union> set ms)
     \<and> (\<forall>v\<in>set ms. \<exists>q\<in>set queue. live t st q \<and> (stop_edge t st)\<^sup>*\<^sup>* q v)"

lemma closure_okD:
  assumes "closure_ok t st queue visited ms"
  shows "distinct ms" "set ms \<inter> set visited = {}" "v \<in> set ms \<Longrightarrow> live t st v"
    "q \<in> set queue \<Longrightarrow> live t st q \<Longrightarrow> q \<in> set visited \<union> set ms"
    "u \<in> set ms \<Longrightarrow> stop_edge t st u c \<Longrightarrow> c \<in> set visited \<union> set ms"
    "v \<in> set ms \<Longrightarrow> \<exists>q\<in>set queue. live t st q \<and> (stop_edge t st)\<^sup>*\<^sup>* q v"
  using assms unfolding closure_ok_def by (simp, simp, simp, simp, blast, simp)

lemma closure_okI:
  assumes "distinct ms" "set ms \<inter> set visited = {}" "\<And>v. v \<in> set ms \<Longrightarrow> live t st v"
    "\<And>q. q \<in> set queue \<Longrightarrow> live t st q \<Longrightarrow> q \<in> set visited \<union> set ms"
    "\<And>u c. u \<in> set ms \<Longrightarrow> stop_edge t st u c \<Longrightarrow> c \<in> set visited \<union> set ms"
    "\<And>v. v \<in> set ms \<Longrightarrow> \<exists>q\<in>set queue. live t st q \<and> (stop_edge t st)\<^sup>*\<^sup>* q v"
  shows "closure_ok t st queue visited ms"
proof -
  have "\<forall>u c. u \<in> set ms \<longrightarrow> stop_edge t st u c \<longrightarrow> c \<in> set visited \<union> set ms" using assms(5) by simp
  moreover have "\<forall>q\<in>set queue. live t st q \<longrightarrow> q \<in> set visited \<union> set ms" using assms(4) by simp
  moreover have "\<forall>v\<in>set ms. \<exists>q\<in>set queue. live t st q \<and> (stop_edge t st)\<^sup>*\<^sup>* q v" using assms(6) by simp
  moreover have "\<forall>v\<in>set ms. live t st v" using assms(3) by simp
  ultimately show ?thesis unfolding closure_ok_def using assms(1,2) by simp
qed

lemma stop_closure_members: "stop_closure t st queue visited = (ms, es, ps) \<Longrightarrow> closure_ok t st queue visited ms"
proof (induction t st queue visited arbitrary: ms es ps rule: stop_closure.induct)
  case (1 t st visited)
  then show ?case by (simp add: closure_ok_def)
next
  case (2 t st i queue visited)
  show ?case
  proof (cases "i \<in> set visited \<or> \<not> live t st i")
    case True
    obtain visited' where v: "set visited \<subseteq> set visited'" "set visited' \<subseteq> set visited \<union> {u. u = i \<and> \<not> live t st u}"
        "closure_ok t st queue visited' ms"
    proof (cases "i \<in> set visited")
      case True
      then show ?thesis using that [of visited] "2.IH"(1) [OF True, of ms es ps] "2.prems" by simp
    next
      case out: False
      show ?thesis
      proof (cases "tbl_get t i")
        case None
        then show ?thesis using that [of "i # visited"] "2.IH"(2) [OF out None, of ms es ps] "2.prems" out by (auto simp: live_def)
      next
        case (Some x)
        then have "not_running (st i)" using True out by (auto simp: live_def)
        then show ?thesis
          using that [of "i # visited"] "2.IH"(3) [OF out Some, of ms es ps] "2.prems" out Some by (auto simp: live_def)
      qed
    qed
    note ok = closure_okD [OF v(3)]
    have old: "q \<in> set visited \<union> set ms" if "q \<in> set visited' \<union> set ms" "live t st q" for q
      using that v(2) by auto
    show ?thesis
    proof (rule closure_okI)
      show "q \<in> set visited \<union> set ms" if "q \<in> set (i # queue)" "live t st q" for q
        using that True ok(4) [of q] old [of q] by (cases "q = i") auto
      show "c \<in> set visited \<union> set ms" if "u \<in> set ms" "stop_edge t st u c" for u c
        using ok(5) [OF that] old [of c] that(2) by (simp add: stop_edge_def)
      show "\<exists>q\<in>set (i # queue). live t st q \<and> (stop_edge t st)\<^sup>*\<^sup>* q v" if "v \<in> set ms" for v
        using ok(6) [OF that] by auto
    qed (use ok(1-3) v(1) in auto)
  next
    case False
    then obtain x where x: "tbl_get t i = Some x" "\<not> not_running (st i)" "i \<notin> set visited" by (auto simp: live_def)
    obtain ms' es' ps' where rec: "stop_closure t st (queue @ children t i) (i # visited) = (ms', es', ps')"
      using prod_cases3 by blast
    have ms: "ms = i # ms'" using "2.prems" rec x by (auto simp: children_def Let_def)
    have "closure_ok t st (queue @ children t i) (i # visited) ms'"
      using "2.IH"(4) [OF x(3,1,2) refl refl, of ms' es' ps'] rec x(1) by (simp add: children_def)
    note ok = closure_okD [OF this]
    have live: "live t st i" using False by simp
    show ?thesis
    proof (rule closure_okI)
      show "q \<in> set visited \<union> set ms" if "q \<in> set (i # queue)" "live t st q" for q
        using that ok(4) [of q] unfolding ms by (cases "q = i") auto
      show "c \<in> set visited \<union> set ms" if u: "u \<in> set ms" and c: "stop_edge t st u c" for u c
      proof (cases "u = i")
        case True
        then show ?thesis using c ok(4) [of c] unfolding ms by (auto simp: stop_edge_def)
      next
        case False
        then show ?thesis using u ok(5) [OF _ c] unfolding ms by auto
      qed
      show "\<exists>q\<in>set (i # queue). live t st q \<and> (stop_edge t st)\<^sup>*\<^sup>* q v" if v: "v \<in> set ms" for v
      proof (cases "v = i")
        case False
        then obtain q where q: "q \<in> set (queue @ children t i)" "live t st q" "(stop_edge t st)\<^sup>*\<^sup>* q v"
          using v ok(6) [of v] unfolding ms by auto
        show ?thesis
        proof (cases "q \<in> set queue")
          case False
          then have "stop_edge t st i q" using q live by (auto simp: stop_edge_def)
          then have "(stop_edge t st)\<^sup>*\<^sup>* i v" using q(3) by (rule converse_rtranclp_into_rtranclp)
          then show ?thesis using live by auto
        qed (use q in auto)
      qed (use live in auto)
    qed (use ok(1-3) live x(3) in \<open>auto simp: ms\<close>)
  qed
qed

lemma stop_closure_root:
  assumes "stop_closure t st [root] [] = (ms, es, ps)"
  shows "distinct ms" "set ms = stop_members t st root"
proof -
  note ok = closure_okD [OF stop_closure_members [OF assms]]
  show "distinct ms" by (rule ok(1))
  have closed: "c \<in> set ms" if "(stop_edge t st)\<^sup>*\<^sup>* u c" "u \<in> set ms" for u c
    using that
  proof (induction rule: rtranclp_induct)
    case (step v w)
    then show ?case using ok(5) [of v w] by simp
  qed
  show "set ms = stop_members t st root"
  proof (intro set_eqI iffI)
    fix v assume "v \<in> set ms"
    then show "v \<in> stop_members t st root" using ok(6) [of v] by (simp add: stop_members_def)
  next
    fix v assume "v \<in> stop_members t st root"
    then show "v \<in> set ms" using ok(4) [of root] closed [of root v] by (simp add: stop_members_def)
  qed
qed

end
