(* ===== verification/StopRun.thy ===== *)
theory StopRun
  imports StopGraph "HOL-Library.Multiset"
begin

section \<open>The counts\<close>

text \<open>The dependents in \<open>A\<close> that a unit still waits for.\<close>

definition open_deps :: "unit_table \<Rightarrow> unit_id set \<Rightarrow> unit_id \<Rightarrow> nat" where
  "open_deps t A p = length (filter (\<lambda>c. c \<in> A) (children t p))"

definition parents_of :: "stop_graph \<Rightarrow> unit_id \<Rightarrow> unit_id list" where
  "parents_of g c = (case tbl_get (parents g) c of None \<Rightarrow> [] | Some ps \<Rightarrow> ps)"

lemma open_deps_remove:
  assumes "u \<in> A"
  shows "open_deps t A p = open_deps t (A - {u}) p + count_list (children t p) u"
proof -
  have "length (filter (\<lambda>c. c \<in> A) xs) = length (filter (\<lambda>c. c \<in> A - {u}) xs) + count_list xs u" for xs
    using assms by (induction xs) auto
  then show ?thesis by (simp add: open_deps_def)
qed

lemma count_list_map_Credit: "count_list (map Credit ps) (Credit p) = count_list ps p"
  by (induction ps) auto

lemma activated:
  "set (active (fold activate_member ms g)) = set (active g) \<union> set ms"
  "tbl_get (pending_counts (fold activate_member ms g)) p
     = (case tbl_get (pending_counts g) p of None \<Rightarrow> if p \<in> set ms then Some 0 else None | Some n \<Rightarrow> Some n)"
  "parents (fold activate_member ms g) = parents g"
  "root_jobs (fold activate_member ms g) = root_jobs g"
  "propagate_after (fold activate_member ms g) = propagate_after g"
  by (induction ms arbitrary: g) (auto simp: activate_member_def split: option.splits)

lemma edges_added_rest:
  "active (fold add_stop_edge es g) = active g"
  "root_jobs (fold add_stop_edge es g) = root_jobs g"
  "propagate_after (fold add_stop_edge es g) = propagate_after g"
  by (induction es arbitrary: g) (auto simp: add_stop_edge_def Let_def)

lemma edges_added_count:
  "p \<in> set (active g) \<Longrightarrow> tbl_get (pending_counts g) p = Some n \<Longrightarrow>
     tbl_get (pending_counts (fold add_stop_edge es g)) p
       = Some (n + length (filter (\<lambda>(c, q). q = p \<and> c \<in> set (active g)) es))"
proof (induction es arbitrary: g n)
  case (Cons e es)
  obtain c q where e: "e = (c, q)" by (cases e)
  let ?g = "add_stop_edge e g"
  have "tbl_get (pending_counts ?g) p = Some (if q = p \<and> c \<in> set (active g) then n + 1 else n)"
    using Cons.prems by (auto simp: e add_stop_edge_def Let_def)
  then show ?case
    using Cons.IH [of ?g] Cons.prems edges_added_rest(1) [of "[e]" g] by (simp add: e)
qed simp

lemma edges_added_none:
  "p \<notin> set (active g) \<Longrightarrow> tbl_get (pending_counts (fold add_stop_edge es g)) p = tbl_get (pending_counts g) p"
proof (induction es arbitrary: g)
  case (Cons e es)
  then show ?case
    using edges_added_rest(1) [of "[e]" g] by (cases e) (auto simp: add_stop_edge_def Let_def)
qed simp

lemma edges_added_parents:
  "parents_of (fold add_stop_edge es g) c
     = parents_of g c @ map snd (filter (\<lambda>(d, q). d = c \<and> c \<in> set (active g) \<and> q \<in> set (active g)) es)"
proof (induction es arbitrary: g)
  case (Cons e es)
  obtain d q where e: "e = (d, q)" by (cases e)
  have "parents_of (add_stop_edge e g) c = parents_of g c @ (if d = c \<and> c \<in> set (active g) \<and> q \<in> set (active g) then [q] else [])"
    by (auto simp: e add_stop_edge_def parents_of_def Let_def split: option.splits)
  then show ?case
    using Cons.IH [of "add_stop_edge e g"] edges_added_rest(1) [of "[e]" g] by (simp add: e)
qed simp

lemma edges_added_no_parents:
  "c \<notin> set (active g) \<Longrightarrow> tbl_get (parents (fold add_stop_edge es g)) c = tbl_get (parents g) c"
proof (induction es arbitrary: g)
  case (Cons e es)
  then show ?case
    using edges_added_rest(1) [of "[e]" g] by (cases e) (auto simp: add_stop_edge_def Let_def)
qed simp

definition closure_edges :: "unit_table \<Rightarrow> unit_id list \<Rightarrow> (unit_id \<times> unit_id) list" where
  "closure_edges t ms = concat (map (\<lambda>i. map (\<lambda>c. (c, i)) (children t i)) ms)"

lemma edges_of_unit: "filter (\<lambda>(c, q). q = p \<and> P c) (map (\<lambda>c. (c, i)) cs) = (if i = p then map (\<lambda>c. (c, p)) (filter P cs) else [])"
  by (induction cs) auto

lemma closure_edges_count:
  "distinct ms \<Longrightarrow> length (filter (\<lambda>(c, q). q = p \<and> c \<in> A) (closure_edges t ms)) = (if p \<in> set ms then open_deps t A p else 0)"
  by (induction ms) (auto simp: closure_edges_def edges_of_unit open_deps_def)

lemma closure_edges_parents:
  assumes "distinct ms" "c \<in> A" "p \<in> A"
  shows "count_list (map snd (filter (\<lambda>(d, q). d = c \<and> c \<in> A \<and> q \<in> A) (closure_edges t ms))) p
    = (if p \<in> set ms then count_list (children t p) c else 0)"
proof -
  have one: "count_list (map snd (filter (\<lambda>(d, q). d = c \<and> c \<in> A \<and> q \<in> A) (map (\<lambda>d. (d, i)) cs))) p
      = (if i = p then count_list cs c else 0)" for i cs
    using assms(2,3) by (induction cs) auto
  show ?thesis
    using assms(1) by (induction ms) (auto simp: closure_edges_def one)
qed

section \<open>The invariant\<close>

text \<open>Every running unit's count is what it still waits for, counting the credits on their way.\<close>

definition counts_exact :: "unit_table \<Rightarrow> stop_graph \<Rightarrow> stop_action list \<Rightarrow> bool" where
  "counts_exact t g td \<longleftrightarrow>
     (\<forall>p. tbl_get (pending_counts g) p
        = (if p \<in> set (active g) then Some (open_deps t (set (active g)) p + count_list td (Credit p)) else None))"

definition parents_exact :: "unit_table \<Rightarrow> stop_graph \<Rightarrow> bool" where
  "parents_exact t g \<longleftrightarrow>
     (\<forall>c p. c \<in> set (active g) \<longrightarrow> p \<in> set (active g) \<longrightarrow> count_list (parents_of g c) p = count_list (children t p) c)
     \<and> (\<forall>c. c \<notin> set (active g) \<longrightarrow> tbl_get (parents g) c = None)"

text \<open>The chains under way: to be started, finished and not yet credited, waiting.\<close>

fun starting_of :: "stop_action \<Rightarrow> unit_id list" where
  "starting_of (Start_chain u) = [u]"
| "starting_of _ = []"

fun finishing_of :: "stop_action \<Rightarrow> unit_id list" where
  "finishing_of (Chain_finished u) = [u]"
| "finishing_of _ = []"

definition to_start :: "scheduler \<Rightarrow> unit_id multiset" where
  "to_start m = mset (concat (map starting_of (todo m)))"

definition begun :: "scheduler \<Rightarrow> unit_id multiset" where
  "begun m = mset (concat (map finishing_of (todo m))) + mset (map fst (parked m))"

definition flights_exact :: "scheduler \<Rightarrow> bool" where
  "flights_exact m \<longleftrightarrow>
     to_start m + begun m = mset_set {u \<in> set (active (graph m)). tbl_get (pending_counts (graph m)) u = Some 0}"

definition in_stop_order :: "unit_table \<Rightarrow> statuses \<Rightarrow> unit_id \<Rightarrow> job_id option \<Rightarrow> stop_event list \<Rightarrow> stop_event \<Rightarrow> bool" where
  "in_stop_order t st root job earlier e \<longleftrightarrow>
     (case e of
        Began u \<Rightarrow> u \<in> stop_members t st root \<and> Began u \<notin> set earlier \<and> (\<forall>c. stop_edge t st u c \<longrightarrow> Ended c \<in> set earlier)
      | Ended u \<Rightarrow> Began u \<in> set earlier \<and> Ended u \<notin> set earlier
      | Job_done j \<Rightarrow> job = Some j \<and> Ended root \<in> set earlier)"

definition stop_order :: "unit_table \<Rightarrow> statuses \<Rightarrow> unit_id \<Rightarrow> job_id option \<Rightarrow> stop_event list \<Rightarrow> bool" where
  "stop_order t st root job es \<longleftrightarrow> (\<forall>xs e ys. es = xs @ e # ys \<longrightarrow> in_stop_order t st root job xs e)"

lemma stop_order_snoc:
  "stop_order t st root job (es @ [e]) \<longleftrightarrow> stop_order t st root job es \<and> in_stop_order t st root job es e"
proof
  assume *: "stop_order t st root job (es @ [e])"
  have "in_stop_order t st root job xs f" if "es = xs @ f # ys" for xs f ys
    using * that unfolding stop_order_def by (metis append.assoc append_Cons)
  moreover have "in_stop_order t st root job es e" using * unfolding stop_order_def by blast
  ultimately show "stop_order t st root job es \<and> in_stop_order t st root job es e" unfolding stop_order_def by blast
next
  assume *: "stop_order t st root job es \<and> in_stop_order t st root job es e"
  have "in_stop_order t st root job xs f" if "es @ [e] = xs @ f # ys" for xs f ys
  proof (cases ys rule: rev_cases)
    case Nil
    then show ?thesis using that * by simp
  next
    case (snoc zs z)
    then show ?thesis using that * unfolding stop_order_def by auto
  qed
  then show "stop_order t st root job (es @ [e])" unfolding stop_order_def by blast
qed

text \<open>What the log says against the state.\<close>

definition log_exact :: "unit_table \<Rightarrow> statuses \<Rightarrow> unit_id \<Rightarrow> job_id option \<Rightarrow> scheduler \<Rightarrow> bool" where
  "log_exact t st root job m \<longleftrightarrow>
     stop_order t st root job (events m)
     \<and> set (active (graph m)) = {u \<in> stop_members t st root. Ended u \<notin> set (events m)}
     \<and> (\<forall>u. Began u \<in> set (events m) \<longleftrightarrow> Ended u \<in> set (events m) \<or> u \<in># begun m)
     \<and> (\<forall>i. tbl_get (root_jobs (graph m)) i = (if i = root \<and> Ended root \<notin> set (events m) then job else None))
     \<and> (\<forall>j. job = Some j \<longrightarrow> Ended root \<in> set (events m) \<longrightarrow> Job_done j \<in> set (events m))"

definition stop_inv :: "unit_table \<Rightarrow> statuses \<Rightarrow> unit_id \<Rightarrow> job_id option \<Rightarrow> scheduler \<Rightarrow> bool" where
  "stop_inv t st root job m \<longleftrightarrow>
     counts_exact t (graph m) (todo m) \<and> parents_exact t (graph m) \<and> flights_exact m \<and> log_exact t st root job m
     \<and> propagate_after (graph m) = [] \<and> (\<forall>u j. Begin_tree u j \<notin> set (todo m))"

text \<open>The requests the invariant speaks of.\<close>

definition simple_stop :: "unit_table \<Rightarrow> statuses \<Rightarrow> unit_id \<Rightarrow> bool" where
  "simple_stop t st root \<longleftrightarrow>
     live t st root \<and> acyclicP (stop_edge t st)
     \<and> (\<forall>u x. tbl_get t u = Some x \<longrightarrow> propagates_stop_to (deps x) = [] \<and> \<not> stop_when_unneeded (unit_conf x))"

lemma closure_of_simple_stop:
  assumes "simple_stop t st root" "stop_closure t st [root] [] = (ms, es, ps)"
  shows "es = closure_edges t ms" "ps = []" "distinct ms" "set ms = stop_members t st root" "ms \<noteq> []" "root \<in> set ms"
proof -
  have ps: "\<forall>i p. (i, p) \<in> set ps \<longrightarrow> (\<exists>x. tbl_get t i = Some x \<and> propagates_stop_to (deps x) = p \<and> p \<noteq> [])"
      and es: "es = closure_edges t ms"
    using stop_closure_edges [OF assms(2)] by (auto simp: closure_edges_def)
  show "es = closure_edges t ms" by (rule es)
  have "(i, p) \<notin> set ps" for i p using ps assms(1) unfolding simple_stop_def by blast
  then show "ps = []" by (cases ps) auto
  show "distinct ms" "set ms = stop_members t st root" using stop_closure_root [OF assms(2)] .
  then show "root \<in> set ms" "ms \<noteq> []" using assms(1) by (auto simp: simple_stop_def stop_members_def)
qed

lemma begin_stop_inv:
  assumes "simple_stop t st root"
  shows "stop_inv t st root job (begin_stop_tree t root job ((stop_request root job st)\<lparr>todo := []\<rparr>))"
proof -
  obtain ms es ps where cl: "stop_closure t st [root] [] = (ms, es, ps)" using prod_cases3 by blast
  note facts = closure_of_simple_stop [OF assms cl]
  let ?g1 = "empty_stop_graph\<lparr>root_jobs := (case job of None \<Rightarrow> [] | Some j \<Rightarrow> [(root, j)])\<rparr>"
  let ?a = "fold activate_member ms ?g1"
  let ?g = "fold add_stop_edge es ?a"
  let ?M = "set ms"
  let ?leaves = "filter (\<lambda>i. tbl_get (pending_counts ?g) i \<in> {None, Some 0}) ms"
  have a: "set (active ?a) = ?M" "tbl_get (pending_counts ?a) p = (if p \<in> ?M then Some 0 else None)" "parents ?a = []" for p
    by (simp_all add: activated empty_stop_graph_def)
  have g: "set (active ?g) = ?M" "propagate_after ?g = []" "root_jobs ?g = root_jobs ?g1"
    using a by (simp_all add: edges_added_rest activated empty_stop_graph_def)
  have count: "tbl_get (pending_counts ?g) p = (if p \<in> ?M then Some (open_deps t ?M p) else None)" for p
    using edges_added_count [of p ?a 0 es] edges_added_none [of p ?a es] a closure_edges_count [OF facts(3), of p ?M t]
    by (simp add: facts(1))
  have ga: "set (active ?g) = ?M" by (rule g(1))
  have pars: "parents_of ?g c = map snd (filter (\<lambda>(d, q). d = c \<and> c \<in> ?M \<and> q \<in> ?M) es)" for c
    using edges_added_parents [of es ?a c] a(3) unfolding a(1) by (simp add: parents_of_def)
  have par: "parents_exact t ?g"
    unfolding parents_exact_def ga
  proof (intro conjI allI impI)
    show "count_list (parents_of ?g c) p = count_list (children t p) c" if "c \<in> ?M" "p \<in> ?M" for c p
      unfolding pars using closure_edges_parents [OF facts(3) that] that by (simp add: facts(1))
    show "tbl_get (parents ?g) c = None" if "c \<notin> ?M" for c
      using edges_added_no_parents [of c ?a es] that a(3) unfolding a(1) by simp
  qed
  have m: "begin_stop_tree t root job ((stop_request root job st)\<lparr>todo := []\<rparr>)
      = (stop_request root job st)\<lparr>graph := ?g, todo := map Start_chain ?leaves\<rparr>"
    using facts(2,5) cl
    by (cases job) (simp_all add: begin_stop_tree_def stop_request_def empty_stop_graph_def Let_def tbl_insert_def)
  have leaves: "mset ?leaves = mset_set {u \<in> ?M. tbl_get (pending_counts ?g) u = Some 0}"
  proof -
    have "?leaves = filter (\<lambda>i. tbl_get (pending_counts ?g) i = Some 0) ms" by (intro filter_cong) (auto simp: count)
    then show ?thesis using facts(3) by (simp add: mset_set_set [symmetric])
  qed
  have start: "concat (map starting_of (map Start_chain us)) = us" "concat (map finishing_of (map Start_chain us)) = []"
    "count_list (map Start_chain us) (Credit p) = 0" for us p
    by (induction us) simp_all
  show ?thesis
    unfolding stop_inv_def m
  proof (intro conjI)
    show "flights_exact ((stop_request root job st)\<lparr>graph := ?g, todo := map Start_chain ?leaves\<rparr>)"
      using leaves by (simp add: flights_exact_def to_start_def begun_def start ga stop_request_def del: map_map)
    have jobs: "tbl_get (root_jobs ?g1) i = (if i = root then job else None)" for i
      by (cases job) (simp_all add: tbl_get_def)
    show "log_exact t st root job ((stop_request root job st)\<lparr>graph := ?g, todo := map Start_chain ?leaves\<rparr>)"
      using jobs by (simp add: log_exact_def stop_order_def stop_request_def begun_def start ga g(3) facts(4))
  qed (use par count in \<open>auto simp: counts_exact_def ga g(2) start stop_request_def\<close>)
qed

section \<open>Every step keeps it\<close>

lemma stop_invD:
  assumes "stop_inv t st root job m"
  shows "counts_exact t (graph m) (todo m)" "parents_exact t (graph m)" "flights_exact m" "log_exact t st root job m"
    "propagate_after (graph m) = []" "Begin_tree u j \<notin> set (todo m)"
  using assms unfolding stop_inv_def by blast+

text \<open>A chain under way is that of a running member whose dependents have all ended.\<close>

lemma flight_ready:
  assumes "stop_inv t st root job m" "u \<in># to_start m + begun m"
  shows "u \<in> set (active (graph m))" "open_deps t (set (active (graph m))) u = 0" "count_list (todo m) (Credit u) = 0"
    "count (to_start m + begun m) u = 1" "u \<in> stop_members t st root" "Ended u \<notin> set (events m)"
    "stop_edge t st u c \<Longrightarrow> Ended c \<in> set (events m)"
proof -
  note inv = stop_invD [OF assms(1)]
  have fl: "to_start m + begun m = mset_set {u \<in> set (active (graph m)). tbl_get (pending_counts (graph m)) u = Some 0}"
    using inv(3) by (simp add: flights_exact_def)
  have u: "u \<in> set (active (graph m)) \<and> tbl_get (pending_counts (graph m)) u = Some 0"
    using assms(2) unfolding fl by simp
  then show "u \<in> set (active (graph m))" by simp
  show "count (to_start m + begun m) u = 1" unfolding fl using u by simp
  have "open_deps t (set (active (graph m))) u + count_list (todo m) (Credit u) = 0"
    using inv(1) u unfolding counts_exact_def by fastforce
  then show ready: "open_deps t (set (active (graph m))) u = 0" "count_list (todo m) (Credit u) = 0" by simp_all
  have act: "set (active (graph m)) = {u \<in> stop_members t st root. Ended u \<notin> set (events m)}"
    using inv(4) by (simp add: log_exact_def)
  then show mem: "u \<in> stop_members t st root" "Ended u \<notin> set (events m)" using u by auto
  show "Ended c \<in> set (events m)" if "stop_edge t st u c"
  proof -
    have "c \<in> stop_members t st root"
      using mem(1) that by (auto simp: stop_members_def intro: rtranclp.rtrancl_into_rtrancl)
    moreover have "c \<notin> set (active (graph m))"
      using ready(1) that by (auto simp: open_deps_def stop_edge_def filter_empty_conv)
    ultimately show ?thesis using act by auto
  qed
qed

lemma credit_inv:
  assumes "stop_inv t st root job m" "todo m = Credit p # as"
  shows "stop_inv t st root job (credit p (m\<lparr>todo := as\<rparr>))"
proof -
  note inv = stop_invD [OF assms(1)]
  let ?A = "set (active (graph m))"
  have counts: "tbl_get (pending_counts (graph m)) q
      = (if q \<in> ?A then Some (open_deps t ?A q + count_list as (Credit q) + (if q = p then 1 else 0)) else None)" for q
    using inv(1) assms(2) by (simp add: counts_exact_def)
  have fl: "mset (concat (map starting_of as)) + (mset (concat (map finishing_of as)) + mset (map fst (parked m)))
      = mset_set {u \<in> ?A. tbl_get (pending_counts (graph m)) u = Some 0}"
    using inv(3) assms(2) by (simp add: flights_exact_def to_start_def begun_def)
  show ?thesis
  proof (cases "p \<in> ?A")
    case False
    then have "credit p (m\<lparr>todo := as\<rparr>) = m\<lparr>todo := as\<rparr>" using counts [of p] by (simp add: credit_def)
    moreover have "counts_exact t (graph m) as" using False counts by (auto simp: counts_exact_def)
    ultimately show ?thesis
      using inv(2,4,5,6) assms(2) fl by (simp add: stop_inv_def flights_exact_def to_start_def begun_def log_exact_def)
  next
    case True
    let ?n = "open_deps t ?A p + count_list as (Credit p)"
    let ?g = "(graph m)\<lparr>pending_counts := tbl_insert p ?n (pending_counts (graph m))\<rparr>"
    let ?td = "(if ?n = 0 then [Start_chain p] else []) @ as"
    have eq: "credit p (m\<lparr>todo := as\<rparr>) = m\<lparr>graph := ?g, todo := ?td\<rparr>"
      using True counts [of p] by (simp add: credit_def Let_def)
    have "counts_exact t ?g ?td" using True counts by (simp add: counts_exact_def)
    moreover have "parents_exact t ?g" using inv(2) by (simp add: parents_exact_def parents_of_def)
    moreover have "flights_exact (m\<lparr>graph := ?g, todo := ?td\<rparr>)"
    proof (cases "?n = 0")
      case True
      have "{u \<in> ?A. tbl_get (pending_counts ?g) u = Some 0}
          = insert p {u \<in> ?A. tbl_get (pending_counts (graph m)) u = Some 0}"
        using True \<open>p \<in> ?A\<close> by auto
      moreover have "p \<notin> {u \<in> ?A. tbl_get (pending_counts (graph m)) u = Some 0}" using counts [of p] by simp
      ultimately show ?thesis using fl True by (simp add: flights_exact_def to_start_def begun_def)
    next
      case False
      have "{u \<in> ?A. tbl_get (pending_counts ?g) u = Some 0} = {u \<in> ?A. tbl_get (pending_counts (graph m)) u = Some 0}"
        using False counts [of p] by auto
      then show ?thesis using fl False by (simp add: flights_exact_def to_start_def begun_def)
    qed
    moreover have "log_exact t st root job (m\<lparr>graph := ?g, todo := ?td\<rparr>)"
      using inv(4) assms(2) by (simp add: log_exact_def begun_def)
    ultimately show ?thesis
      unfolding eq using inv(5,6) assms(2) by (simp add: stop_inv_def)
  qed
qed

lemma finished_fields:
  "active (graph (on_stop_chain_finished u m)) = removeAll u (active (graph m))"
  "pending_counts (graph (on_stop_chain_finished u m)) = tbl_remove u (pending_counts (graph m))"
  "parents (graph (on_stop_chain_finished u m)) = tbl_remove u (parents (graph m))"
  "propagate_after (graph (on_stop_chain_finished u m)) = propagate_after (graph m)"
  "tbl_get (root_jobs (graph (on_stop_chain_finished u m))) i = (if i = u then None else tbl_get (root_jobs (graph m)) i)"
  "todo (on_stop_chain_finished u m) = map Credit (parents_of (graph m) u) @ [Propagate u, Collect_unneeded u] @ todo m"
  "parked (on_stop_chain_finished u m) = parked m"
  "unneeded_events (on_stop_chain_finished u m) = unneeded_events m"
  "events (on_stop_chain_finished u m)
     = (events m @ [Ended u]) @ (case tbl_get (root_jobs (graph m)) u of None \<Rightarrow> [] | Some j \<Rightarrow> [Job_done j])"
  by (simp_all add: on_stop_chain_finished_def finish_stop_root_def Let_def parents_of_def split: option.split)

lemma finished_inv:
  assumes "stop_inv t st root job m" "todo m = Chain_finished u # as"
  shows "stop_inv t st root job (on_stop_chain_finished u (m\<lparr>todo := as\<rparr>))"
proof -
  note inv = stop_invD [OF assms(1)]
  let ?m = "on_stop_chain_finished u (m\<lparr>todo := as\<rparr>)"
  let ?A = "set (active (graph m))" and ?ps = "parents_of (graph m) u"
  have fin: "u \<in># begun m" using assms(2) by (simp add: begun_def)
  then have fly: "u \<in># to_start m + begun m" by simp
  note ready = flight_ready [OF assms(1) fly]
  have log: "stop_order t st root job (events m)" "?A = {u \<in> stop_members t st root. Ended u \<notin> set (events m)}"
      "\<And>v. Began v \<in> set (events m) \<longleftrightarrow> Ended v \<in> set (events m) \<or> v \<in># begun m"
      "\<And>i. tbl_get (root_jobs (graph m)) i = (if i = root \<and> Ended root \<notin> set (events m) then job else None)"
      "\<And>j. job = Some j \<Longrightarrow> Ended root \<in> set (events m) \<Longrightarrow> Job_done j \<in> set (events m)"
    using inv(4) by (simp_all add: log_exact_def)
  have A': "set (active (graph ?m)) = ?A - {u}" by (simp add: finished_fields)
  have old: "tbl_get (pending_counts (graph m)) p = (if p \<in> ?A then Some (open_deps t ?A p + count_list as (Credit p)) else None)" for p
    using inv(1) assms(2) by (simp add: counts_exact_def)
  have moved: "p \<in> ?A \<Longrightarrow> count_list ?ps p = count_list (children t p) u" for p
    using inv(2) ready(1) by (simp add: parents_exact_def)
  have counts: "counts_exact t (graph ?m) (todo ?m)"
    unfolding counts_exact_def A'
    using old moved open_deps_remove [OF ready(1), of t] by (simp add: finished_fields count_list_map_Credit)
  moreover have "parents_exact t (graph ?m)"
    using inv(2) unfolding parents_exact_def A' by (simp add: finished_fields parents_of_def)
  moreover have "flights_exact ?m"
  proof -
    have none: "concat (map starting_of (map Credit ps)) = []" "concat (map finishing_of (map Credit ps)) = []" for ps
      by (induction ps) simp_all
    have "{v \<in> ?A. tbl_get (pending_counts (graph m)) v = Some 0} = insert u {v \<in> ?A - {u}. tbl_get (pending_counts (graph m)) v = Some 0}"
      using old [of u] ready assms(2) by auto
    then have "to_start m + begun m = add_mset u (mset_set {v \<in> ?A - {u}. tbl_get (pending_counts (graph m)) v = Some 0})"
      using inv(3) by (simp add: flights_exact_def)
    moreover have "{v \<in> ?A - {u}. tbl_get (pending_counts (graph ?m)) v = Some 0} = {v \<in> ?A - {u}. tbl_get (pending_counts (graph m)) v = Some 0}"
      by (auto simp: finished_fields)
    ultimately show ?thesis
      unfolding flights_exact_def A' using assms(2)
      by (simp add: to_start_def begun_def finished_fields none del: map_map)
  qed
  moreover have "log_exact t st root job ?m"
  proof -
    have beg: "begun m = add_mset u (begun ?m)"
    proof -
      have none: "concat (map finishing_of (map Credit ps)) = []" for ps by (induction ps) simp_all
      show ?thesis using assms(2) by (simp add: begun_def finished_fields none del: map_map)
    qed
    have "stop_order t st root job (events m @ [Ended u])"
      using log(1) log(3) [of u] fin ready(6) by (simp add: stop_order_snoc in_stop_order_def)
    then have "stop_order t st root job (events ?m)"
      unfolding finished_fields
    proof (cases "tbl_get (root_jobs (graph m)) u")
      case (Some j)
      then have "in_stop_order t st root job (events m @ [Ended u]) (Job_done j)"
        using log(4) [of u] by (auto simp: in_stop_order_def split: if_splits)
      then show "stop_order t st root job (events m @ [Ended u]) \<Longrightarrow> stop_order t st root job
          ((events (m\<lparr>todo := as\<rparr>) @ [Ended u]) @ (case tbl_get (root_jobs (graph (m\<lparr>todo := as\<rparr>))) u of None \<Rightarrow> [] | Some j \<Rightarrow> [Job_done j]))"
        using Some stop_order_snoc [of t st root job "events m @ [Ended u]" "Job_done j"] by simp
    qed simp
    moreover have "Ended v \<in> set (events ?m) \<longleftrightarrow> Ended v \<in> set (events m) \<or> v = u"
        "Began v \<in> set (events ?m) \<longleftrightarrow> Began v \<in> set (events m)" for v
      by (auto simp: finished_fields split: option.split)
    moreover have "job = Some j \<Longrightarrow> Ended root \<in> set (events ?m) \<Longrightarrow> Job_done j \<in> set (events ?m)" for j
      using log(4) [of u] log(5) [of j] ready(6) by (auto simp: finished_fields split: option.split if_splits)
    ultimately show ?thesis
      unfolding log_exact_def A' log(2) using log(3,4) beg by (auto simp: finished_fields)
  qed
  ultimately show ?thesis
    unfolding stop_inv_def using inv(5,6) assms(2) by (auto simp: finished_fields)
qed

lemma started_inv:
  assumes "stop_inv t st root job m" "todo m = Start_chain u # as"
  shows "stop_inv t st root job (m\<lparr>todo := as, parked := (u, n) # parked m, sched_statuses := s, events := events m @ [Began u]\<rparr>)"
    "stop_inv t st root job (m\<lparr>todo := Chain_finished u # as, sched_statuses := s, events := events m @ [Began u]\<rparr>)"
proof -
  note inv = stop_invD [OF assms(1)]
  have "u \<in># to_start m" using assms(2) by (simp add: to_start_def)
  then have fly: "u \<in># to_start m + begun m" by simp
  note ready = flight_ready [OF assms(1) fly]
  have "u \<notin># begun m" using ready(4) \<open>u \<in># to_start m\<close> by (simp add: count_eq_zero_iff [symmetric] flip: count_greater_zero_iff)
  then have "in_stop_order t st root job (events m) (Began u)"
    using inv(4) ready(5-7) by (simp add: in_stop_order_def log_exact_def)
  then have order: "stop_order t st root job (events m @ [Began u])" using inv(4) by (simp add: stop_order_snoc log_exact_def)
  have "log_exact t st root job (m\<lparr>todo := as, parked := (u, n) # parked m, sched_statuses := s, events := events m @ [Began u]\<rparr>)"
      "log_exact t st root job (m\<lparr>todo := Chain_finished u # as, sched_statuses := s, events := events m @ [Began u]\<rparr>)"
    using inv(4) order assms(2) unfolding log_exact_def by (auto simp: begun_def)
  then show "stop_inv t st root job (m\<lparr>todo := as, parked := (u, n) # parked m, sched_statuses := s, events := events m @ [Began u]\<rparr>)"
      "stop_inv t st root job (m\<lparr>todo := Chain_finished u # as, sched_statuses := s, events := events m @ [Began u]\<rparr>)"
    using inv assms(2) by (auto simp: stop_inv_def counts_exact_def flights_exact_def to_start_def begun_def)
qed

lemma same_flights_inv:
  assumes "stop_inv t st root job m" "graph m' = graph m" "events m' = events m"
    "\<And>p. count_list (todo m') (Credit p) = count_list (todo m) (Credit p)" "to_start m' = to_start m" "begun m' = begun m"
    "\<And>u j. Begin_tree u j \<notin> set (todo m')"
  shows "stop_inv t st root job m'"
  using stop_invD [OF assms(1)] assms(2-) by (simp add: stop_inv_def counts_exact_def flights_exact_def log_exact_def)

lemma do_action_inv:
  assumes "stop_inv t st root job m" "todo m = a # as" "\<And>u. a \<noteq> Start_chain u"
  shows "stop_inv t st root job (do_action t a (m\<lparr>todo := as\<rparr>))"
proof (cases a)
  case (Begin_tree u j)
  then show ?thesis using stop_invD(6) [OF assms(1), of u j] assms(2) by simp
next
  case (Propagate u)
  then have "do_action t a (m\<lparr>todo := as\<rparr>) = m\<lparr>todo := as\<rparr>"
    using stop_invD(5) [OF assms(1)] by (simp add: propagate_stop_trees_def)
  then show ?thesis
    using Propagate assms(2) stop_invD(6) [OF assms(1)]
    by (intro same_flights_inv [OF assms(1)]) (auto simp: to_start_def begun_def)
next
  case (Collect_unneeded u)
  have "todo (collect_unneeded t u m') = todo m'" "graph (collect_unneeded t u m') = graph m'"
    "events (collect_unneeded t u m') = events m'" "parked (collect_unneeded t u m') = parked m'" for m'
    by (simp_all add: collect_unneeded_def Let_def)
  then show ?thesis
    using Collect_unneeded assms(2) stop_invD(6) [OF assms(1)]
    by (intro same_flights_inv [OF assms(1)]) (auto simp: to_start_def begun_def)
qed (use assms credit_inv finished_inv in auto)

lemma never_unneeded:
  assumes "simple_stop t st root"
  shows "\<not> is_unit_unneeded t s u"
  using assms by (auto simp: simple_stop_def is_unit_unneeded_def split: option.split)

lemma sched_step_inv:
  assumes "sched_step t bound m m'" "simple_stop t st root" "stop_inv t st root job m"
  shows "stop_inv t st root job m'"
  using assms(1)
proof cases
  case (chain_goes_on ps u n qs n' s)
  then show ?thesis
    using stop_invD(6) [OF assms(3)] by (intro same_flights_inv [OF assms(3)]) (auto simp: to_start_def begun_def)
next
  case (chain_ends ps u n qs s)
  then show ?thesis by (intro same_flights_inv [OF assms(3)]) (auto simp: to_start_def begun_def)
next
  case (unneeded_event c cs)
  then show ?thesis
    using stop_invD(6) [OF assms(3)] never_unneeded [OF assms(2)]
    by (intro same_flights_inv [OF assms(3)]) (auto simp: to_start_def begun_def gc_unneeded_def)
qed (use assms(3) started_inv do_action_inv in auto)

section \<open>The statuses\<close>

text \<open>A service whose chain has finished is stopped and stays so; no unit but the members is touched.\<close>

definition statuses_exact :: "unit_table \<Rightarrow> statuses \<Rightarrow> unit_id \<Rightarrow> scheduler \<Rightarrow> bool" where
  "statuses_exact t st root m \<longleftrightarrow>
     (\<forall>u. Ended u \<in> set (events m) \<or> Chain_finished u \<in> set (todo m) \<longrightarrow> is_service t u \<longrightarrow> is_stopped (sched_statuses m u))
     \<and> (\<forall>u. u \<notin> stop_members t st root \<longrightarrow> sched_statuses m u = st u)"

lemma statuses_exactI:
  assumes "\<And>u. Ended u \<in> set (events m) \<Longrightarrow> is_service t u \<Longrightarrow> is_stopped (sched_statuses m u)"
    "\<And>u. Chain_finished u \<in> set (todo m) \<Longrightarrow> is_service t u \<Longrightarrow> is_stopped (sched_statuses m u)"
    "\<And>u. u \<notin> stop_members t st root \<Longrightarrow> sched_statuses m u = st u"
  shows "statuses_exact t st root m"
  using assms by (auto simp: statuses_exact_def)

lemma statuses_exactD:
  assumes "statuses_exact t st root m"
  shows "Ended u \<in> set (events m) \<Longrightarrow> is_service t u \<Longrightarrow> is_stopped (sched_statuses m u)"
    "Chain_finished u \<in> set (todo m) \<Longrightarrow> is_service t u \<Longrightarrow> is_stopped (sched_statuses m u)"
    "u \<notin> stop_members t st root \<Longrightarrow> sched_statuses m u = st u"
  using assms by (auto simp: statuses_exact_def)

lemma do_action_statuses:
  assumes "stop_inv t st root job m" "todo m = a # as" "\<And>u. a \<noteq> Start_chain u"
  shows "sched_statuses (do_action t a (m\<lparr>todo := as\<rparr>)) = sched_statuses m"
    "Chain_finished u \<in> set (todo (do_action t a (m\<lparr>todo := as\<rparr>))) \<Longrightarrow> Chain_finished u \<in> set (todo m)"
    "Ended u \<in> set (events (do_action t a (m\<lparr>todo := as\<rparr>))) \<Longrightarrow> Ended u \<in> set (events m) \<or> Chain_finished u \<in> set (todo m)"
proof -
  have no: "a \<noteq> Begin_tree v j" "propagate_after (graph m) = []" for v j
    using stop_invD(5,6) [OF assms(1)] assms(2) by auto
  have frame: "sched_statuses (on_stop_chain_finished v m') = sched_statuses m'" for v m'
    by (simp add: on_stop_chain_finished_def finish_stop_root_def Let_def split: option.split)
  show "sched_statuses (do_action t a (m\<lparr>todo := as\<rparr>)) = sched_statuses m"
    "Chain_finished u \<in> set (todo (do_action t a (m\<lparr>todo := as\<rparr>))) \<Longrightarrow> Chain_finished u \<in> set (todo m)"
    "Ended u \<in> set (events (do_action t a (m\<lparr>todo := as\<rparr>))) \<Longrightarrow> Ended u \<in> set (events m) \<or> Chain_finished u \<in> set (todo m)"
    using no assms(2,3)
    by (cases a; auto simp: finished_fields frame credit_def propagate_stop_trees_def collect_unneeded_def Let_def
        split: option.splits if_splits)+
qed

lemma sched_step_statuses:
  assumes "sched_step t bound m m'" "simple_stop t st root" "stop_inv t st root job m" "statuses_exact t st root m"
  shows "statuses_exact t st root m'"
proof -
  note old = statuses_exactD [OF assms(4)]
  have flying: "u \<in> stop_members t st root" "Ended u \<notin> set (events m)" if "u \<in># to_start m + begun m" for u
    using flight_ready [OF assms(3) that] by simp_all
  have new: "u \<notin># begun m" "u \<in># to_start m" if "todo m = Start_chain u # as" for u as
  proof -
    show "u \<in># to_start m" using that by (simp add: to_start_def)
    then show "u \<notin># begun m"
      using flight_ready(4) [OF assms(3), of u] by (simp add: count_eq_zero_iff [symmetric] flip: count_greater_zero_iff)
  qed
  have fin: "v \<in># begun m" if "Chain_finished v \<in> set (todo m)" for v
    using that by (fastforce simp: begun_def in_set_conv_decomp)
  show ?thesis
    using assms(1)
  proof cases
    case (start_waits u as n s)
    then show ?thesis using old new [OF start_waits(2)] flying [of u] fin by (intro statuses_exactI) auto
  next
    case (start_finishes u as s)
    then show ?thesis using old new [OF start_finishes(2)] flying [of u] fin by (intro statuses_exactI) auto
  next
    case (make_call a as)
    note same = do_action_statuses [OF assms(3) make_call(2,3)]
    show ?thesis unfolding make_call(1)
      by (rule statuses_exactI; unfold same(1); use old same(2,3) in blast)
  next
    case (chain_goes_on ps u n qs n' s)
    moreover have "u \<in># to_start m + begun m" using chain_goes_on by (simp add: begun_def)
    ultimately show ?thesis using old flying [of u] by (intro statuses_exactI) auto
  next
    case (chain_ends ps u n qs s)
    moreover have "u \<in># to_start m + begun m" using chain_ends by (simp add: begun_def)
    ultimately show ?thesis using old flying [of u] by (intro statuses_exactI) auto
  next
    case (unneeded_event c cs)
    then show ?thesis using old never_unneeded [OF assms(2)] by (intro statuses_exactI) (auto simp: gc_unneeded_def)
  qed
qed

section \<open>The runs of a request\<close>

lemma stop_request_first:
  assumes "sched_step t bound (stop_request root job st) m"
  shows "m = begin_stop_tree t root job ((stop_request root job st)\<lparr>todo := []\<rparr>)"
  using assms by cases (auto simp: stop_request_def)

lemma reachable_inv:
  assumes "(sched_step t bound)\<^sup>*\<^sup>* (stop_request root job st) m" "simple_stop t st root"
  shows "m = stop_request root job st \<or> stop_inv t st root job m"
  using assms(1)
proof (induction rule: rtranclp_induct)
  case (step m m')
  then show ?case
    using stop_request_first begin_stop_inv [OF assms(2)] sched_step_inv [OF _ assms(2)] by metis
qed simp

lemma begin_stop_start:
  assumes "simple_stop t st root"
  shows "\<exists>ls. let m = begin_stop_tree t root job ((stop_request root job st)\<lparr>todo := []\<rparr>) in
    events m = [] \<and> todo m = map Start_chain ls \<and> sched_statuses m = st"
proof -
  obtain ms es ps where cl: "stop_closure t st [root] [] = (ms, es, ps)" using prod_cases3 by blast
  from closure_of_simple_stop(5) [OF assms cl] cl show ?thesis
    by (cases job) (auto simp: begin_stop_tree_def stop_request_def empty_stop_graph_def Let_def)
qed

lemma reachable_statuses:
  assumes "(sched_step t bound)\<^sup>*\<^sup>* (stop_request root job st) m" "simple_stop t st root"
  shows "statuses_exact t st root m"
  using assms(1)
proof (induction rule: rtranclp_induct)
  case base
  show ?case by (auto simp: statuses_exact_def stop_request_def)
next
  case (step m m')
  show ?case
  proof (cases "m = stop_request root job st")
    case True
    then have m': "m' = begin_stop_tree t root job ((stop_request root job st)\<lparr>todo := []\<rparr>)"
      using stop_request_first step.hyps(2) by blast
    obtain ls where "events m' = []" "todo m' = map Start_chain ls" "sched_statuses m' = st"
      using begin_stop_start [OF assms(2), of job] unfolding m' Let_def by blast
    then show ?thesis by (auto simp: statuses_exact_def)
  next
    case False
    then have "stop_inv t st root job m" using reachable_inv [OF step.hyps(1) assms(2)] by blast
    then show ?thesis using sched_step_statuses [OF step.hyps(2) assms(2)] step.IH by blast
  qed
qed

definition begun_set :: "scheduler \<Rightarrow> unit_id set" where
  "begun_set m = {u. Began u \<in> set (events m)}"

definition ended_set :: "scheduler \<Rightarrow> unit_id set" where
  "ended_set m = {u. Ended u \<in> set (events m)}"

fun action_weight :: "stop_action \<Rightarrow> nat" where
  "action_weight (Credit u) = 2"
| "action_weight _ = 1"

definition stop_measures :: "unit_table \<Rightarrow> statuses \<Rightarrow> unit_id \<Rightarrow> (scheduler \<times> scheduler) set" where
  "stop_measures t st root =
     measures
       [\<lambda>m. card (stop_members t st root - begun_set m), \<lambda>m. card (stop_members t st root - ended_set m),
        \<lambda>m. sum_list (map (\<lambda>p. Suc (snd p)) (parked m)), \<lambda>m. sum_list (map action_weight (todo m)),
        \<lambda>m. length (unneeded_events m)]"

lemma finite_live: "finite {u. live t st u}"
proof (rule finite_subset)
  show "{u. live t st u} \<subseteq> set (tbl_keys t)" by (auto simp: live_def tbl_keys_get)
qed simp

lemma finite_stop_members: "finite (stop_members t st root)"
proof (rule finite_subset [OF _ finite_live])
  show "stop_members t st root \<subseteq> {u. live t st u}"
  proof
    fix v assume "v \<in> stop_members t st root"
    then have "(stop_edge t st)\<^sup>*\<^sup>* root v" "live t st root" by (simp_all add: stop_members_def)
    then show "v \<in> {u. live t st u}" by (induction rule: rtranclp_induct) (simp_all add: stop_edge_def)
  qed
qed

lemma card_smaller: "u \<in> A \<Longrightarrow> u \<notin> B \<Longrightarrow> finite A \<Longrightarrow> card (A - insert u B) < card (A - B)"
  by (intro psubset_card_mono) auto

lemma started_decreases:
  assumes "stop_inv t st root job m" "todo m = Start_chain u # as" "events m' = events m @ [Began u]"
  shows "(m', m) \<in> stop_measures t st root"
proof -
  note inv = stop_invD [OF assms(1)]
  have "u \<in># to_start m" using assms(2) by (simp add: to_start_def)
  then have fly: "u \<in># to_start m + begun m" by simp
  note ready = flight_ready [OF assms(1) fly]
  have "u \<notin># begun m" using ready(4) \<open>u \<in># to_start m\<close> by (simp add: count_eq_zero_iff [symmetric] flip: count_greater_zero_iff)
  then have "u \<notin> begun_set m" using inv(4) ready(6) by (simp add: begun_set_def log_exact_def)
  moreover have "begun_set m' = insert u (begun_set m)" using assms(3) by (auto simp: begun_set_def)
  ultimately show ?thesis
    using card_smaller [OF ready(5) _ finite_stop_members] by (simp add: stop_measures_def)
qed

lemma do_action_decreases:
  assumes "stop_inv t st root job m" "todo m = a # as" "\<And>u. a \<noteq> Start_chain u"
  shows "(do_action t a (m\<lparr>todo := as\<rparr>), m) \<in> stop_measures t st root"
proof (cases a)
  case (Chain_finished u)
  have "u \<in># to_start m + begun m" using assms(2) Chain_finished by (simp add: begun_def)
  note ready = flight_ready [OF assms(1) this]
  let ?m = "on_stop_chain_finished u (m\<lparr>todo := as\<rparr>)"
  have "begun_set ?m = begun_set m" "ended_set ?m = insert u (ended_set m)"
    by (auto simp: begun_set_def ended_set_def finished_fields split: option.splits)
  then show ?thesis
    using card_smaller [OF ready(5) _ finite_stop_members, of "ended_set m"] ready(6) Chain_finished
    by (simp add: stop_measures_def ended_set_def)
next
  case (Begin_tree u j)
  then show ?thesis using stop_invD(6) [OF assms(1), of u j] assms(2) by simp
next
  case (Credit p)
  have fields: "events (credit p m') = events m'" "parked (credit p m') = parked m'"
    "sum_list (map action_weight (todo (credit p m'))) \<le> 1 + sum_list (map action_weight (todo m'))" for m'
    by (simp_all add: credit_def Let_def split: option.split)
  show ?thesis
    using Credit assms(2) fields [of "m\<lparr>todo := as\<rparr>"] by (simp add: stop_measures_def begun_set_def ended_set_def)
next
  case (Propagate u)
  then have "do_action t a (m\<lparr>todo := as\<rparr>) = m\<lparr>todo := as\<rparr>"
    using stop_invD(5) [OF assms(1)] by (simp add: propagate_stop_trees_def)
  then show ?thesis using Propagate assms(2) by (simp add: stop_measures_def begun_set_def ended_set_def)
next
  case (Collect_unneeded u)
  have "todo (collect_unneeded t u m') = todo m'" "events (collect_unneeded t u m') = events m'"
    "parked (collect_unneeded t u m') = parked m'" for m'
    by (simp_all add: collect_unneeded_def Let_def)
  then show ?thesis using Collect_unneeded assms(2) by (simp add: stop_measures_def begun_set_def ended_set_def)
qed (use assms(3) in simp)

lemma sched_step_decreases:
  assumes "sched_step t bound m m'" "simple_stop t st root" "stop_inv t st root job m"
  shows "(m', m) \<in> stop_measures t st root"
  using assms(1)
proof cases
  case (start_waits u as n s)
  then show ?thesis by (intro started_decreases [OF assms(3)]) auto
next
  case (start_finishes u as s)
  then show ?thesis by (intro started_decreases [OF assms(3)]) auto
next
  case (unneeded_event c cs)
  then show ?thesis
    using never_unneeded [OF assms(2)] by (simp add: stop_measures_def begun_set_def ended_set_def gc_unneeded_def)
qed (use do_action_decreases [OF assms(3)] in \<open>auto simp: stop_measures_def begun_set_def ended_set_def\<close>)

lemma stop_request_ends:
  assumes "simple_stop t st root" "f 0 = stop_request root job st"
  shows "\<exists>i. \<not> sched_step t bound (f i) (f (Suc i))"
proof (rule ccontr)
  assume "\<not> ?thesis"
  then have run: "sched_step t bound (f i) (f (Suc i))" for i by simp
  have inv: "stop_inv t st root job (f (Suc i))" for i
  proof (induction i)
    case 0
    then show ?case using stop_request_first [of t bound root job st "f (Suc 0)"] run [of 0] assms begin_stop_inv by simp
  next
    case (Suc i)
    then show ?case using sched_step_inv [OF run [of "Suc i"] assms(1)] by simp
  qed
  have "(f (Suc (Suc i)), f (Suc i)) \<in> stop_measures t st root" for i
    using sched_step_decreases [OF run [of "Suc i"] assms(1) inv] .
  moreover have "wf (stop_measures t st root)" by (simp add: stop_measures_def)
  ultimately show False
    using wf_iff_no_infinite_down_chain [THEN iffD1, of "stop_measures t st root"] by (auto dest: spec [of _ "\<lambda>i. f (Suc i)"])
qed

section \<open>Where a run ends\<close>

lemma no_step_left:
  assumes "\<nexists>m'. sched_step t bound m m'"
  shows "todo m = []" "parked m = []" "unneeded_events m = []"
proof -
  show td: "todo m = []"
  proof (cases "todo m")
    case (Cons a as)
    show ?thesis
    proof (cases "\<exists>u. a = Start_chain u")
      case True
      then show ?thesis
        using assms Cons sched_step.start_finishes [of m _ as t "Stopped StoppedFinal []" bound] by auto
    next
      case False
      then show ?thesis using assms Cons sched_step.make_call [of m a as t bound] by auto
    qed
  qed
  show "parked m = []"
  proof (cases "parked m")
    case (Cons p ps)
    then show ?thesis
      using assms td sched_step.chain_ends [of m "[]" "fst p" "snd p" ps "Stopped StoppedFinal []" t bound]
      by auto
  qed
  show "unneeded_events m = []"
  proof (cases "unneeded_events m")
    case (Cons c cs)
    then show ?thesis using assms td sched_step.unneeded_event [of m c cs t bound] by auto
  qed
qed

lemma table_empty: "(\<And>k. tbl_get t k = None) \<Longrightarrow> t = []"
  by (cases t) (auto simp: tbl_get_def dest!: meta_spec [of _ "fst (hd t)"] split: if_splits)

lemma settled:
  assumes "simple_stop t st root" "stop_inv t st root job m" "todo m = []" "parked m = []"
  shows "graph m = empty_stop_graph" "ended_set m = stop_members t st root" "job = Some j \<Longrightarrow> Job_done j \<in> set (events m)"
proof -
  note inv = stop_invD [OF assms(2)]
  let ?A = "set (active (graph m))" and ?r = "{(u, c). stop_edge t st u c}"
  have fl: "{u \<in> ?A. tbl_get (pending_counts (graph m)) u = Some 0} = {}"
  proof -
    have "mset_set {u \<in> ?A. tbl_get (pending_counts (graph m)) u = Some 0} = {#}"
      using inv(3) assms(3,4) by (simp add: flights_exact_def to_start_def begun_def)
    then show ?thesis by (simp add: mset_set_empty_iff)
  qed
  have act: "?A = {u \<in> stop_members t st root. Ended u \<notin> set (events m)}" using inv(4) by (simp add: log_exact_def)
  have waits: "\<exists>c\<in>?A. stop_edge t st u c" if "u \<in> ?A" for u
  proof -
    have "tbl_get (pending_counts (graph m)) u = Some (open_deps t ?A u)"
      using inv(1) assms(3) that by (simp add: counts_exact_def)
    then have "open_deps t ?A u \<noteq> 0" using fl that by auto
    then obtain c where c: "c \<in> ?A" "c \<in> set (children t u)"
      by (auto simp: open_deps_def filter_empty_conv)
    have alive: "live t st v" if "v \<in> ?A" for v
    proof -
      have "(stop_edge t st)\<^sup>*\<^sup>* root v" "live t st root" using that act by (auto simp: stop_members_def)
      then show ?thesis by (induction rule: rtranclp_induct) (simp_all add: stop_edge_def)
    qed
    show ?thesis using c alive [OF that] alive [OF c(1)] by (auto simp: stop_edge_def)
  qed
  have "finite ?r"
    by (rule finite_subset [OF _ finite_cartesian_product [OF finite_live [of t st] finite_live [of t st]]]) (auto simp: stop_edge_def)
  moreover have "acyclic ?r" using assms(1) by (simp add: simple_stop_def)
  ultimately have wf: "wf (?r\<inverse>)" by (rule finite_acyclic_wf_converse)
  have empty: "?A = {}"
  proof (rule ccontr)
    assume "?A \<noteq> {}"
    then obtain a where "a \<in> ?A" by (meson all_not_in_conv)
    then obtain u where "u \<in> ?A" "\<And>c. (c, u) \<in> ?r\<inverse> \<Longrightarrow> c \<notin> ?A" using wfE_min [OF wf, of a ?A] by blast
    then show False using waits [of u] by auto
  qed
  show ended: "ended_set m = stop_members t st root"
  proof -
    have "Ended u \<in> set (events m) \<Longrightarrow> u \<in> stop_members t st root" for u
    proof -
      assume "Ended u \<in> set (events m)"
      then obtain xs ys where es: "events m = xs @ Ended u # ys" by (auto simp: in_set_conv_decomp)
      have order: "stop_order t st root job (events m)" using inv(4) by (simp add: log_exact_def)
      then have "Began u \<in> set xs" using es unfolding stop_order_def by (fastforce simp: in_stop_order_def)
      then obtain xs' zs where "events m = xs' @ Began u # zs" using es by (auto simp: in_set_conv_decomp)
      then show ?thesis using order unfolding stop_order_def by (fastforce simp: in_stop_order_def)
    qed
    then show ?thesis using act empty by (auto simp: ended_set_def)
  qed
  have root: "Ended root \<in> set (events m)"
    using ended assms(1) by (auto simp: simple_stop_def stop_members_def ended_set_def)
  show "job = Some j \<Longrightarrow> Job_done j \<in> set (events m)" using inv(4) root by (simp add: log_exact_def)
  have "pending_counts (graph m) = []" "parents (graph m) = []" "root_jobs (graph m) = []"
    using inv(1,2,4) root empty
    by (auto intro!: table_empty simp: counts_exact_def parents_exact_def log_exact_def)
  then show "graph m = empty_stop_graph" using inv(5) empty by (simp add: empty_stop_graph_def)
qed

text \<open>
  C24: A stop on the dispatcher takes the dependents down first.  Let one stop of a running unit be
  requested while no other is under way, in a table where no unit propagates a stop or stops when it
  is unneeded, and where the running units that require, are part of or are bound to one another
  form no circle.  In every state that this request can lead to, however the chains of the units and the
  calls interleave, the log of events is in order: a chain is started only for the unit that was asked
  for or a running dependent of one of those, once, and only when the chains of all its running
  dependents have ended; a chain ends once, after its start; and the job is done only when the root's
  chain has ended.
\<close>

theorem stop_tree_is_ordered:
  assumes "simple_stop t st root" "(sched_step t bound)\<^sup>*\<^sup>* (stop_request root job st) m"
  shows "stop_order t st root job (events m)"
  using reachable_inv [OF assms(2,1)]
proof
  assume "m = stop_request root job st"
  then show ?thesis by (simp add: stop_request_def stop_order_def)
next
  assume "stop_inv t st root job m"
  then show ?thesis by (simp add: stop_inv_def log_exact_def)
qed

text \<open>
  C25: A stop on the dispatcher completes, under the same conditions: one request for a running unit
  and no other, no propagated and no unneeded stops, no circle of running dependents.  No run of it goes
  on for ever, as long as a chain waits for boundedly many processes; and a state in which nothing is
  left to do has ended the chains of the root and all its running dependents, has stopped the services
  among them and touched the status of no other unit, has nothing left in the stop graph and has
  finished the job.
\<close>

theorem stop_tree_completes:
  assumes "simple_stop t st root"
  shows "\<not> (\<exists>f. f 0 = stop_request root job st \<and> (\<forall>i. sched_step t bound (f i) (f (Suc i))))
    \<and> ((sched_step t bound)\<^sup>*\<^sup>* (stop_request root job st) m \<longrightarrow> (\<nexists>m'. sched_step t bound m m') \<longrightarrow>
         graph m = empty_stop_graph \<and> {u. Ended u \<in> set (events m)} = stop_members t st root
         \<and> (\<forall>u\<in>stop_members t st root. is_service t u \<longrightarrow> is_stopped (sched_statuses m u))
         \<and> (\<forall>u. u \<notin> stop_members t st root \<longrightarrow> sched_statuses m u = st u)
         \<and> (\<forall>j. job = Some j \<longrightarrow> Job_done j \<in> set (events m)))"
proof (intro conjI impI)
  show "\<not> (\<exists>f. f 0 = stop_request root job st \<and> (\<forall>i. sched_step t bound (f i) (f (Suc i))))"
    using stop_request_ends [OF assms] by blast
next
  assume reach: "(sched_step t bound)\<^sup>*\<^sup>* (stop_request root job st) m" and stuck: "\<nexists>m'. sched_step t bound m m'"
  note rest = no_step_left [OF stuck]
  have "m \<noteq> stop_request root job st" using rest(1) by (auto simp: stop_request_def)
  then have "stop_inv t st root job m" using reachable_inv [OF reach assms] by simp
  from settled [OF assms this rest(1,2)]
  show ended: "graph m = empty_stop_graph" "{u. Ended u \<in> set (events m)} = stop_members t st root"
    "\<forall>j. job = Some j \<longrightarrow> Job_done j \<in> set (events m)" by (simp_all add: ended_set_def)
  note statuses = statuses_exactD [OF reachable_statuses [OF reach assms]]
  show "\<forall>u\<in>stop_members t st root. is_service t u \<longrightarrow> is_stopped (sched_statuses m u)"
    using statuses(1) ended(2) by blast
  show "\<forall>u. u \<notin> stop_members t st root \<longrightarrow> sched_statuses m u = st u" using statuses(3) by blast
qed

section \<open>Examples\<close>

lemma stop_table_edge: "stop_edge stop_table (\<lambda>_. Started Running) u v \<longleftrightarrow> dependent stop_table u v"
  by (auto simp: stop_edge_def live_def children_def stop_table_get stop_table_dependent not_running_def plain_unit_def
    no_dependencies_def lock_units)

lemma stop_table_simple: "simple_stop stop_table (\<lambda>_. Started Running) lock_b"
proof -
  have "acyclicP (dependent stop_table)" using stop_table_ok by (simp add: dependents_ok_def acyclic_def tranclp_unfold)
  then show ?thesis
    by (simp add: simple_stop_def stop_table_edge live_def not_running_def stop_table_get plain_unit_def no_dependencies_def
      plain_config_def lock_units)
qed

theorem stop_tree_is_ordered_witness:
  "stop_order stop_table (\<lambda>_. Started Running) lock_b (Some 1) [Began lock_c]"
proof -
  let ?r = "stop_request lock_b (Some 1) (\<lambda>_. Started Running)" and ?s = "(\<lambda>_. Started Running)(lock_c := Stopped StoppedFinal [])"
  let ?m = "begin_stop_tree stop_table lock_b (Some 1) (?r\<lparr>todo := []\<rparr>)"
  have ne: "lock_a \<noteq> lock_b" "lock_b \<noteq> lock_c" "lock_a \<noteq> lock_c" by (simp_all add: lock_units)
  have "stop_closure stop_table (\<lambda>_. Started Running) [lock_b] []
      = ([lock_b, lock_a, lock_c], [(lock_a, lock_b), (lock_c, lock_b), (lock_c, lock_a)], [])"
    using ne by (simp add: stop_table_get not_running_def plain_unit_def no_dependencies_def ne [symmetric])
  then have m: "todo ?m = [Start_chain lock_c]" "events ?m = []" "sched_statuses ?m = (\<lambda>_. Started Running)"
    using ne by (simp_all add: begin_stop_tree_def stop_request_def empty_stop_graph_def activate_member_def
      add_stop_edge_def tbl_insert_def tbl_get_def ne [symmetric] Let_def)
  have "sched_step stop_table (\<lambda>_. 3) ?r ?m"
    using sched_step.make_call [of ?r "Begin_tree lock_b (Some 1)" "[]" stop_table "\<lambda>_. 3"] by (simp add: stop_request_def)
  moreover have "sched_step stop_table (\<lambda>_. 3) ?m
      (?m\<lparr>todo := [Chain_finished lock_c], sched_statuses := ?s, events := [Began lock_c]\<rparr>)"
    using sched_step.start_finishes [OF m(1), of stop_table "Stopped StoppedFinal []" "\<lambda>_. 3"] by (simp add: m)
  ultimately have reach: "(sched_step stop_table (\<lambda>_. 3))\<^sup>*\<^sup>* ?r (?m\<lparr>todo := [Chain_finished lock_c], sched_statuses := ?s, events := [Began lock_c]\<rparr>)"
    by (meson converse_rtranclp_into_rtranclp r_into_rtranclp)
  show ?thesis using stop_tree_is_ordered [OF stop_table_simple reach] by simp
qed

theorem stop_tree_completes_witness:
  "\<not> (\<exists>f. f 0 = stop_request lock_b (Some 1) (\<lambda>_. Started Running)
          \<and> (\<forall>i. sched_step stop_table (\<lambda>_. 3) (f i) (f (Suc i))))"
  using stop_tree_completes [OF stop_table_simple, of "Some 1" "\<lambda>_. 3"] by blast

lemmas stop_graph_defs = begin_stop_tree_def stop_request_def empty_stop_graph_def activate_member_def add_stop_edge_def
  finish_stop_root_def tbl_insert_def not_running_def plain_unit_def no_dependencies_def tbl_get_def lock_units

text \<open>
  Two units that require each other: the request makes no leaf, no step is possible, and the job is
  never done; the next request for the unit is reported as done at once.
\<close>

theorem mutual_stop_wedges:
  "let m = begin_stop_tree mutual_table lock_a (Some 1) ((stop_request lock_a (Some 1) (\<lambda>_. Started Running))\<lparr>todo := []\<rparr>) in
     set (active (graph m)) = {lock_a, lock_b} \<and> events m = [] \<and> (\<nexists>m'. sched_step mutual_table bound m m')
     \<and> events (begin_stop_tree mutual_table lock_a (Some 2) m) = [Job_done 2]"
proof -
  let ?m = "begin_stop_tree mutual_table lock_a (Some 1) ((stop_request lock_a (Some 1) (\<lambda>_. Started Running))\<lparr>todo := []\<rparr>)"
  have m: "todo ?m = []" "parked ?m = []" "unneeded_events ?m = []" "events ?m = []" "set (active (graph ?m)) = {lock_a, lock_b}"
    by (auto simp: mutual_table_def stop_graph_defs)
  have "\<not> sched_step mutual_table bound ?m m'" for m'
  proof
    assume "sched_step mutual_table bound ?m m'"
    then show False by cases (simp_all add: m)
  qed
  moreover have "events (begin_stop_tree mutual_table lock_a (Some 2) ?m) = [Job_done 2]"
    using m by (simp add: begin_stop_tree_def [of _ _ _ ?m])
  ultimately show ?thesis using m by (simp add: Let_def)
qed

text \<open>
  Two requests at a time whose trees share a dependent: while the chain of \<open>c\<close>, which both units
  need, waits for a process of its own, the second request starts it again.
\<close>

definition shared_table :: unit_table where
  "shared_table =
     [(lock_a, plain_unit lock_a (no_dependencies\<lparr>required_by := [lock_c]\<rparr>)),
      (lock_b, plain_unit lock_b (no_dependencies\<lparr>required_by := [lock_c]\<rparr>)),
      (lock_c, plain_unit lock_c no_dependencies)]"

theorem shared_dependent_stops_twice:
  "let m = begin_stop_tree shared_table lock_a (Some 1) ((stop_request lock_a (Some 1) (\<lambda>_. Started Running))\<lparr>todo := []\<rparr>);
       m' = m\<lparr>todo := [], parked := [(lock_c, 1)], sched_statuses := (sched_statuses m)(lock_c := Stopping), events := [Began lock_c]\<rparr>
   in todo m = [Start_chain lock_c]
      \<and> todo (begin_stop_tree shared_table lock_b (Some 2) m') = [Start_chain lock_c]
      \<and> parked (begin_stop_tree shared_table lock_b (Some 2) m') = [(lock_c, 1)]"
  by (auto simp: Let_def shared_table_def stop_graph_defs)

end
