(* ===== verification/Timers.thy ===== *)
theory Timers
  imports CalParse Lifecycle
begin

text \<open>
  The timer scheduler (\<open>timer_scheduler.rs\<close>): when a timer fires, and one pass of the check loop.

  Instants and wall-clock times are nanoseconds; what a pass reads from the system is its argument:
  the two clocks, once per pass, whether the clock has jumped and from where, whether the run-time
  lock is free, and what starting a unit does to the statuses.

  Lemmas: what a calendar expression fires on, in seconds, and what a run of passes serves.
\<close>

section \<open>Timers and clocks\<close>

record timer_config =
  on_active_sec :: "nat list"
  on_boot_sec :: "nat list"
  on_startup_sec :: "nat list"
  on_unit_active_sec :: "nat list"
  on_unit_inactive_sec :: "nat list"
  on_calendar :: "string list"
  accuracy_sec :: nat
  randomized_delay_sec :: nat
  fixed_random_delay :: bool
  persistent :: bool
  wake_system :: bool
  remain_after_elapse :: bool
  defer_reactivation :: bool
  on_clock_change :: bool
  on_timezone_change :: bool
  timer_target :: string

abbreviation second :: nat where "second \<equiv> 10 ^ 9"

definition system_time_to_datetime :: "int \<Rightarrow> date_time" where
  "system_time_to_datetime w = unix_to_datetime (if w < 0 then 0 else w div 10 ^ 9)"

definition localtime_changed :: "nat option \<Rightarrow> string option \<Rightarrow> nat option \<Rightarrow> string option \<Rightarrow> bool" where
  "localtime_changed last_mtime last_target current_mtime current_target \<longleftrightarrow>
     (case (last_mtime, current_mtime) of
        (Some a, Some b) \<Rightarrow> a \<noteq> b
      | (None, Some _) \<Rightarrow> True
      | (Some _, None) \<Rightarrow> True
      | (None, None) \<Rightarrow> False)
     \<or> last_target \<noteq> current_target"

text \<open>The clock jumps when the two clocks have moved apart by more than two whole seconds.\<close>

definition clock_jump_threshold_secs :: int where
  "clock_jump_threshold_secs = 2"

definition clock_changed :: "(int \<times> nat) option \<Rightarrow> int \<Rightarrow> nat \<Rightarrow> bool \<times> int option" where
  "clock_changed prev now_wall now_mono =
     (case prev of
        None \<Rightarrow> (False, None)
      | Some (pw, pm) \<Rightarrow>
          let wall_delta = (if now_wall < pw then 0 else (now_wall - pw) div 10 ^ 9);
              mono_delta = int ((now_mono - pm) div second);
              changed = \<bar>wall_delta - mono_delta\<bar> > clock_jump_threshold_secs
          in (changed, if changed then Some pw else None))"

text \<open>What a pass reads; the hash of a name is over the boot instant unless the delay is fixed.\<close>

record pass_input =
  now :: nat
  boot_instant :: nat
  wall_clock :: int
  timezone_jumped :: bool
  clock_jumped :: bool
  pre_jump :: "int option"
  hash_of :: "string \<Rightarrow> nat option \<Rightarrow> 64 word"
  table_locked :: bool
  target_locked :: "string \<Rightarrow> bool"


section \<open>When a timer fires\<close>

definition elapsed_since_boot :: "pass_input \<Rightarrow> nat" where
  "elapsed_since_boot p = now p - boot_instant p"

text \<open>The date and time from which the next elapse of an expression is searched.\<close>

definition reference_dt :: "pass_input \<Rightarrow> timer_config \<Rightarrow> nat option \<Rightarrow> date_time" where
  "reference_dt p conf last_time =
     (let now_dt = system_time_to_datetime (wall_clock p);
          boot_dt = unix_to_datetime (datetime_to_unix now_dt - int (elapsed_since_boot p div second))
      in
      if clock_jumped p then
        (case pre_jump p of
           Some w \<Rightarrow> unix_to_datetime (datetime_to_unix (system_time_to_datetime w) + 1)
         | None \<Rightarrow> boot_dt)
      else
        (case last_time of
           Some l \<Rightarrow> unix_to_datetime (datetime_to_unix now_dt - int ((now p - l) div second) + 1)
         | None \<Rightarrow>
             if persistent conf
             then \<lparr>dt_year = 1970, dt_month = 1, dt_day = 1, dt_hour = 0, dt_minute = 0, dt_second = 0\<rparr>
             else boot_dt))"

definition calendar_due :: "calendar_spec \<Rightarrow> date_time \<Rightarrow> nat \<Rightarrow> date_time \<Rightarrow> bool option" where
  "calendar_due spec from delay now_dt =
     (case next_elapse spec from of
        None \<Rightarrow> None
      | Some None \<Rightarrow> Some False
      | Some (Some x) \<Rightarrow> Some (datetime_to_unix x + int (delay div second) \<le> datetime_to_unix now_dt))"



section \<open>One pass\<close>

datatype timer_effect =
  Fired unit_id nat
  | Write_stamp string
  | Trigger_info unit_id string "nat option" nat
  | Start_target unit_id
  | Restart_target unit_id

record timer_sched =
  last_fired :: "(string, nat) table"
  defer_seen_active :: "(string, bool) table"
  timer_statuses :: statuses
  last_trigger_usec :: "(unit_id, nat) table"
  timer_effects :: "timer_effect list"

definition unit_named :: "unit_table \<Rightarrow> string \<Rightarrow> unit option" where
  "unit_named t nm = List.find (\<lambda>x. name (unit_id x) = nm) (map snd t)"

definition micros_of :: "int \<Rightarrow> nat" where
  "micros_of w = nat (w div 1000) mod 2 ^ 64"





text \<open>
  \<open>fire_timer_target\<close>: a target that is up is restarted, another started; when the run-time lock is
  taken the call returns without doing either.
\<close>

definition fire_timer_target ::
  "(timer_effect \<Rightarrow> statuses \<Rightarrow> statuses) \<Rightarrow> unit_table \<Rightarrow> pass_input \<Rightarrow> string \<Rightarrow> string \<Rightarrow> timer_sched \<Rightarrow> timer_sched" where
  "fire_timer_target act t p target nm s =
     (if target_locked p target then s
      else
        case unit_named t target of
          None \<Rightarrow> s
        | Some x \<Rightarrow>
            let u = unit_id x;
                info = (case specific x of
                          Service _ \<Rightarrow>
                            [Trigger_info u nm (if wall_clock p < 0 then None else Some (micros_of (wall_clock p)))
                               (elapsed_since_boot p div 1000 mod 2 ^ 64)]
                        | _ \<Rightarrow> []);
                e = (if is_started (timer_statuses s u) then Restart_target u else Start_target u)
            in s\<lparr>timer_statuses := act e (timer_statuses s), timer_effects := timer_effects s @ info @ [e]\<rparr>)"

definition fire_timer ::
  "(timer_effect \<Rightarrow> statuses \<Rightarrow> statuses) \<Rightarrow> unit_table \<Rightarrow> (unit_id \<Rightarrow> timer_config) \<Rightarrow> pass_input \<Rightarrow> unit_id \<times> string
     \<Rightarrow> timer_sched \<Rightarrow> timer_sched" where
  "fire_timer act t tc p f s =
     (let (u, target) = f;
          conf = tc u;
          recurring = on_calendar conf \<noteq> [] \<or> on_unit_active_sec conf \<noteq> [] \<or> on_unit_inactive_sec conf \<noteq> [];
          s1 = s\<lparr>last_fired := tbl_insert (name u) (now p) (last_fired s), timer_effects := timer_effects s @ [Fired u (now p)]\<rparr>;
          s2 = (case tbl_get t u of
                  None \<Rightarrow> s1
                | Some x \<Rightarrow>
                    s1\<lparr>last_trigger_usec := tbl_insert u (micros_of (wall_clock p)) (last_trigger_usec s1),
                       timer_effects := timer_effects s1 @ (if persistent conf then [Write_stamp (name u)] else []),
                       timer_statuses :=
                         (if \<not> recurring \<and> \<not> remain_after_elapse conf \<and> is_started (timer_statuses s1 u)
                          then (timer_statuses s1)(u := Stopped StoppedFinal []) else timer_statuses s1)\<rparr>)
      in fire_timer_target act t p target (name u) s2)"



section \<open>What a calendar expression fires on\<close>









section \<open>What a pass changes\<close>












section \<open>Runs of passes\<close>

























section \<open>Examples\<close>







text \<open>
  The reference after a firing is computed from whole seconds between two instants.  When the
  sub-second part of the clock has come full circle it lies two seconds after the firing, and the
  second in between is skipped: here the timer has fired in second 12 and second 13 is not looked at.
\<close>

theorem second_after_firing_skipped:
  assumes "clock_jumped p = False" "now p = 14001 * 10 ^ 6" "wall_clock p = 14001 * 10 ^ 6"
  shows "reference_dt p conf (Some (12995 * 10 ^ 6)) = unix_to_datetime 14"
  using assms unix_datetime_unix [of 14] by (simp add: reference_dt_def system_time_to_datetime_def)

text \<open>
  A persistent timer that has no stamp searches from 1970, and the search ends in 1975: an
  expression for later years never fires it.
\<close>

theorem persistent_timer_misses_years:
  assumes "spec_ok spec" "persistent conf" "\<not> clock_jumped p" "\<And>x. spec_matches spec x \<Longrightarrow> 1975 < dt_year x"
  shows "calendar_due spec (reference_dt p conf None) delay n = Some False"
proof -
  let ?e = "\<lparr>dt_year = 1970, dt_month = 1, dt_day = 1, dt_hour = 0, dt_minute = 0, dt_second = 0\<rparr> :: date_time"
  have "valid_datetime ?e" by (simp add: valid_datetime_def valid_date_def days_in_month_def)
  then obtain q where q: "next_elapse spec ?e = Some q" "least_of (candidates spec ?e (\<lambda>x. dt_year x \<le> dt_year ?e + 5)) q"
    using next_elapse_least_of [of spec ?e] assms(1) by auto
  have "q = None"
  proof (cases q)
    case (Some x)
    then show ?thesis using q(2) assms(4) [of x] by (auto simp: least_of_def candidates_def)
  qed simp
  then show ?thesis using assms(2,3) q(1) by (simp add: calendar_due_def reference_dt_def)
qed

text \<open>
  When the run-time lock is taken at the moment a timer fires, its target is not started; the
  firing is on record all the same, so the next pass does not make up for it.
\<close>

theorem firing_lost_on_contention:
  assumes "target_locked p target"
  shows "tbl_get (last_fired (fire_timer act t tc p (u, target) s)) (name u) = Some (now p)"
    "set (timer_effects (fire_timer act t tc p (u, target) s)) \<subseteq> set (timer_effects s) \<union> {Fired u (now p), Write_stamp (name u)}"
  using assms by (auto simp: fire_timer_def fire_timer_target_def Let_def split: option.split)

end
