(* ===== verification/StartChain.thy ===== *)
theory StartChain
  imports StopChain Jobs
begin

text \<open>
  Starting a service on the dispatcher (\<open>units/unitset_manipulation/activate.rs\<close>): the chain of
  \<open>ExecCondition=\<close> and \<open>ExecStartPre=\<close> commands in front of the main process, with the
  \<open>ExecStopPost=\<close> commands of a start that fails, and the chain of the commands of a one-shot
  service; beside them the inline sequence of \<open>Service::start\<close> (\<open>services/services.rs\<close>).

  What the operating system will answer is the argument \<open>env\<close>, as for a stop: a helper that cannot
  be spawned, one that exits, one that overruns its window; the result of the main phase; and
  whether the run-time table can be read at once.

  Lemmas: the chain ends within a bound on its events and does what the inline sequence does; the
  one-shot chain runs its commands in order.
\<close>

section \<open>Chains\<close>

record start_conf =
  exec_condition :: "commandline list"
  startpre :: "commandline list"
  exec :: "commandline list"
  start_stoppost :: "commandline list"
  start_timeout :: "nat option"
  start_exit_conf :: exit_conf

datatype start_result =
  Main_started | Waiting_socket | Condition_skip | Deferred_notify_wait | Deferred_oneshot_exec | Deferred_prestart

datatype start_chain_phase =
  Condition nat
  | Prestart nat
  | Poststop_after_error nat string

record start_chain =
  start_id :: unit_id
  next_services_ids :: "unit_id list"
  filter_ids :: "unit_id list"
  start_source :: activation_source
  start_phase :: start_chain_phase
  errors_of_request :: bool

datatype start_chain_outcome =
  Advanced nat commandline "nat option"
  | Main_dispatched start_result
  | Start_finished

record oneshot_chain =
  oneshot_id :: unit_id
  oneshot_next :: "unit_id list"
  oneshot_filter :: "unit_id list"
  oneshot_source :: activation_source

datatype oneshot_outcome =
  Oneshot_advanced nat commandline "nat option"
  | Await_completion
  | Poststop_chain start_chain
  | Oneshot_finished

text \<open>
  A chain carries the error list of the request it belongs to; \<open>fail_deferred_start\<close> makes one with a
  list of its own, which nobody reads.  What a start does outside the table, in order.
\<close>

datatype start_effect =
  Run_start_helper commandline
  | Kill_start_helper nat
  | Kill_all_remaining
  | Fork_main_process "commandline option"
  | Flush_socket unit_id
  | Rearm_socket unit_id
  | Notify_eventfds
  | Failure_hooks "exit_effect list" "pending_restart option"
  | Trigger_failure_units "string list"

text \<open>The state a start works on; the list of errors is shared by the activations of a request.\<close>

record start_state =
  start_statuses :: statuses
  start_exit :: exit_state
  current_exec_argv :: "string option"
  main_exit_status :: "int option"
  main_exit_termination :: "child_termination option"
  shared_errors :: "unit_operation_error list"
  start_log :: "start_effect list"

record start_env =
  condition_answer :: "nat \<Rightarrow> helper_answer"
  prestart_answer :: "nat \<Rightarrow> helper_answer"
  poststop_answer :: "nat \<Rightarrow> helper_answer"
  exec_answer :: "nat \<Rightarrow> helper_answer"
  start_pid :: "commandline \<Rightarrow> nat"
  main_phase :: "string + start_result"
  fork_main :: "string + start_result option"
  table_free :: bool
  dispatcher_live :: bool
  socket_limit_hit :: "unit_id \<Rightarrow> bool"
  socket_flush_pending :: "unit_id \<Rightarrow> bool"
  show_code :: "child_termination \<Rightarrow> string"
  show_timeout :: "nat option \<Rightarrow> string"

type_synonym start_step = "(start_chain_outcome \<times> start_chain \<times> start_state) outcome"

definition log_start :: "start_effect list \<Rightarrow> start_state \<Rightarrow> start_state" where
  "log_start es s = s\<lparr>start_log := start_log s @ es\<rparr>"

definition push_error :: "unit_id \<Rightarrow> unit_operation_error_reason \<Rightarrow> start_state \<Rightarrow> start_state" where
  "push_error u r s = s\<lparr>shared_errors := shared_errors s @ [\<lparr>reason = r, error_unit = u\<rparr>]\<rparr>"

definition push_chain_error :: "start_chain \<Rightarrow> unit_operation_error_reason \<Rightarrow> start_state \<Rightarrow> start_state" where
  "push_chain_error c r s = (if errors_of_request c then push_error (start_id c) r s else s)"

section \<open>A start that fails\<close>

definition deferred_start_fail_cleanup ::
  "unit_table \<Rightarrow> (unit_id \<Rightarrow> start_conf) \<Rightarrow> start_env \<Rightarrow> unit_id \<Rightarrow> string \<Rightarrow> start_state \<Rightarrow> start_state outcome" where
  "deferred_start_fail_cleanup t cf env u why s =
     (if \<not> table_free env then Returns s
      else
        case tbl_get t u of
          None \<Rightarrow> Returns s
        | Some x \<Rightarrow>
            let service = (case specific x of Service _ \<Rightarrow> True | _ \<Rightarrow> False);
                s1 = (if service then log_start [Kill_all_remaining] (s\<lparr>start_exit := (start_exit s)\<lparr>main_pid := None\<rparr>\<rparr>) else s);
                s2 = (if start_statuses s1 u = Starting
                      then s1\<lparr>start_statuses := (start_statuses s1)(u := Stopped StoppedUnexpected [GenericStartError why])\<rparr> else s1)
            in
            if \<not> service then Returns s2
            else
              case on_service_start_failed x (start_exit_conf (cf u)) (main_exit_status s2) (start_statuses s2) (start_exit s2) of
                Panics \<Rightarrow> Panics
              | Returns r \<Rightarrow>
                  Returns (log_start [Failure_hooks (effects r) (pending r)]
                    (s2\<lparr>start_statuses := new_statuses r, start_exit := new_state r\<rparr>)))"

definition finalize_deferred_start_failure ::
  "unit_table \<Rightarrow> (unit_id \<Rightarrow> start_conf) \<Rightarrow> start_env \<Rightarrow> unit_id \<Rightarrow> string \<Rightarrow> start_state \<Rightarrow> start_state outcome" where
  "finalize_deferred_start_failure t cf env u why s = deferred_start_fail_cleanup t cf env u why s"

text \<open>\<open>OnFailure=\<close> of a service belongs to the exit handler.\<close>

definition trigger_on_failure_units ::
  "unit_table \<Rightarrow> (unit_id \<Rightarrow> start_conf) \<Rightarrow> unit_id \<Rightarrow> start_state \<Rightarrow> start_state" where
  "trigger_on_failure_units t cf u s =
     (case tbl_get t u of
        None \<Rightarrow> s
      | Some x \<Rightarrow>
          (case specific x of
             Service _ \<Rightarrow> s
           | _ \<Rightarrow> let names = on_failure (start_exit_conf (cf u))
                  in if names = [] then s else log_start [Trigger_failure_units names] s))"

definition start_chain_finalize_error ::
  "unit_table \<Rightarrow> (unit_id \<Rightarrow> start_conf) \<Rightarrow> start_env \<Rightarrow> start_chain \<Rightarrow> string \<Rightarrow> start_state \<Rightarrow> start_state outcome" where
  "start_chain_finalize_error t cf env c why s =
     (case finalize_deferred_start_failure t cf env (start_id c) why (push_chain_error c (GenericStartError why) s) of
        Panics \<Rightarrow> Panics
      | Returns s' \<Rightarrow> Returns (trigger_on_failure_units t cf (start_id c) s'))"

definition rearm_sockets :: "unit_table \<Rightarrow> start_env \<Rightarrow> unit_id list \<Rightarrow> start_effect list" where
  "rearm_sockets t env us =
     concat (map (\<lambda>i. case tbl_get t i of
         None \<Rightarrow> []
       | Some y \<Rightarrow>
           (case specific y of
              Socket _ \<Rightarrow>
                if socket_limit_hit env i then []
                else (if socket_flush_pending env i then [Flush_socket i] else []) @ [Rearm_socket i]
            | _ \<Rightarrow> [])) us)"

definition apply_condition_skip :: "unit_table \<Rightarrow> start_env \<Rightarrow> unit_id \<Rightarrow> start_state \<Rightarrow> start_state" where
  "apply_condition_skip t env u s =
     (case tbl_get t u of
        None \<Rightarrow> s
      | Some x \<Rightarrow>
          let s1 = (if start_statuses s u = Starting
                    then s\<lparr>start_statuses := (start_statuses s)(u := Stopped ConditionSkipped [])\<rparr> else s)
          in
          case specific x of
            Service sc \<Rightarrow>
              log_start (rearm_sockets t env (srvc_sockets sc) @ (if srvc_sockets sc = [] then [] else [Notify_eventfds])) s1
          | _ \<Rightarrow> s1)"

definition apply_waiting_for_socket :: "unit_table \<Rightarrow> start_env \<Rightarrow> unit_id \<Rightarrow> start_state \<Rightarrow> start_state" where
  "apply_waiting_for_socket t env u s =
     (case tbl_get t u of
        None \<Rightarrow> s
      | Some x \<Rightarrow>
          let s1 = (if start_statuses s u = Starting
                    then s\<lparr>start_statuses := (start_statuses s)(u := Started WaitingForSocket)\<rparr> else s)
          in
          case specific x of
            Service sc \<Rightarrow> log_start (rearm_sockets t env (srvc_sockets sc) @ [Notify_eventfds]) s1
          | _ \<Rightarrow> s1)"

section \<open>The start chain\<close>

fun advance_chain_index :: "start_chain_phase \<Rightarrow> start_chain_phase" where
  "advance_chain_index (Condition i) = Condition (i + 1)"
| "advance_chain_index (Prestart i) = Prestart (i + 1)"
| "advance_chain_index (Poststop_after_error i e) = Poststop_after_error (i + 1) e"

definition chain_error_to_poststop :: "string \<Rightarrow> start_chain \<Rightarrow> start_chain" where
  "chain_error_to_poststop e c = c\<lparr>start_phase := Poststop_after_error 0 e\<rparr>"

fun phase_commands :: "start_conf \<Rightarrow> start_chain_phase \<Rightarrow> commandline list" where
  "phase_commands k (Condition i) = exec_condition k"
| "phase_commands k (Prestart i) = startpre k"
| "phase_commands k (Poststop_after_error i e) = start_stoppost k"

fun phase_index :: "start_chain_phase \<Rightarrow> nat" where
  "phase_index (Condition i) = i"
| "phase_index (Prestart i) = i"
| "phase_index (Poststop_after_error i e) = i"

fun start_helper :: "start_env \<Rightarrow> start_chain_phase \<Rightarrow> helper_answer" where
  "start_helper env (Condition i) = condition_answer env i"
| "start_helper env (Prestart i) = prestart_answer env i"
| "start_helper env (Poststop_after_error i e) = poststop_answer env i"

definition start_spawn_failed :: "commandline \<Rightarrow> string \<Rightarrow> start_chain \<Rightarrow> start_chain" where
  "start_spawn_failed k e c =
     (if has_minus k then c\<lparr>start_phase := advance_chain_index (start_phase c)\<rparr>
      else chain_error_to_poststop (''Failed to spawn '' @ show_commandline k @ '': '' @ e) c)"

text \<open>
  One call: it goes on through phases that need no process.  A command that cannot be spawned leads
  to the first \<open>ExecStopPost=\<close> command, also from an \<open>ExecStopPost=\<close> command, so the call need not
  return; \<open>None\<close> stands for that.
\<close>

partial_function (option) service_start_chain_step ::
  "unit_table \<Rightarrow> (unit_id \<Rightarrow> start_conf) \<Rightarrow> start_env \<Rightarrow> start_chain \<Rightarrow> start_state \<Rightarrow> start_step option" where
  "service_start_chain_step t cf env c s =
     (let u = start_id c; k = cf u; p = start_phase c in
      case tbl_get t u of
        None \<Rightarrow> Some (Returns (Start_finished, c, s))
      | Some x \<Rightarrow>
          if start_statuses s u \<noteq> Starting then Some (Returns (Start_finished, c, s))
          else
            (case specific x of
               Service _ \<Rightarrow>
                 if phase_index p < length (phase_commands k p) then
                   let h = phase_commands k p ! phase_index p; s1 = log_start [Run_start_helper h] s in
                   (case start_helper env p of
                      Spawn_error e \<Rightarrow> service_start_chain_step t cf env (start_spawn_failed h e c) s1
                    | _ \<Rightarrow> Some (Returns (Advanced (start_pid env h) h (start_timeout k), c, s1)))
                 else
                   (case p of
                      Condition i \<Rightarrow> service_start_chain_step t cf env (c\<lparr>start_phase := Prestart 0\<rparr>) s
                    | Prestart i \<Rightarrow>
                        (case main_phase env of
                           Inr r \<Rightarrow> Some (Returns (Main_dispatched r, c, s))
                         | Inl e \<Rightarrow>
                             service_start_chain_step t cf env (chain_error_to_poststop ''main ExecStart dispatch failed'' c)
                               (push_chain_error c (ServiceStartError e) s))
                    | Poststop_after_error i e \<Rightarrow>
                        (case start_chain_finalize_error t cf env c e s of
                           Panics \<Rightarrow> Some Panics
                         | Returns s' \<Rightarrow> Some (Returns (Start_finished, c, s'))))
             | _ \<Rightarrow> Some (Returns (Start_finished, c, s))))"

text \<open>A helper of the chain has exited, has overrun its window.\<close>

definition service_start_chain_child_exited ::
  "unit_table \<Rightarrow> (unit_id \<Rightarrow> start_conf) \<Rightarrow> start_env \<Rightarrow> start_chain \<Rightarrow> commandline \<Rightarrow> child_termination \<Rightarrow> start_state
     \<Rightarrow> start_step option" where
  "service_start_chain_child_exited t cf env c h code s =
     (let ok = success code \<or> has_minus h;
          advanced = c\<lparr>start_phase := advance_chain_index (start_phase c)\<rparr>;
          step = (\<lambda>c. service_start_chain_step t cf env c s)
      in
      case start_phase c of
        Condition i \<Rightarrow>
          if ok then step advanced
          else
            (case code of
               Exit n \<Rightarrow>
                 if 1 \<le> n \<and> n \<le> 254 then Some (Returns (Start_finished, c, apply_condition_skip t env (start_id c) s))
                 else step (chain_error_to_poststop (''ExecCondition '' @ show_commandline h @ '' failed: '' @ show_code env code) c)
             | Signal _ _ \<Rightarrow>
                 step (chain_error_to_poststop (''ExecCondition '' @ show_commandline h @ '' failed: '' @ show_code env code) c))
      | Prestart i \<Rightarrow>
          if ok then step advanced
          else step (chain_error_to_poststop (''ExecStartPre '' @ show_commandline h @ '' failed: '' @ show_code env code) c)
      | Poststop_after_error i e \<Rightarrow>
          if ok then step advanced
          else
            (case start_chain_finalize_error t cf env c
                    (e @ ''; ExecStopPost '' @ show_commandline h @ '' failed: '' @ show_code env code) s of
               Panics \<Rightarrow> Some Panics
             | Returns s' \<Rightarrow> Some (Returns (Start_finished, c, s'))))"

definition service_start_chain_timed_out ::
  "unit_table \<Rightarrow> (unit_id \<Rightarrow> start_conf) \<Rightarrow> start_env \<Rightarrow> start_chain \<Rightarrow> commandline \<Rightarrow> nat \<Rightarrow> start_state
     \<Rightarrow> start_step option" where
  "service_start_chain_timed_out t cf env c h pid s =
     (let s1 = log_start [Kill_start_helper pid] s;
          why = show_commandline h @ '' timed out ('' @ show_timeout env (start_timeout (cf (start_id c))) @ '')''
      in
      case start_phase c of
        Poststop_after_error i e \<Rightarrow>
          (case start_chain_finalize_error t cf env c (e @ ''; '' @ why) s1 of
             Panics \<Rightarrow> Some Panics
           | Returns s' \<Rightarrow> Some (Returns (Start_finished, c, s')))
      | _ \<Rightarrow> service_start_chain_step t cf env (chain_error_to_poststop why c) s1)"

text \<open>
  The event a parked chain waits for, and a chain with at most \<open>n\<close> more of them.  Without a start
  timeout no deadline is set, and a helper that overruns leaves the chain parked.
\<close>

definition resume_start_chain ::
  "unit_table \<Rightarrow> (unit_id \<Rightarrow> start_conf) \<Rightarrow> start_env \<Rightarrow> start_chain \<Rightarrow> commandline \<Rightarrow> nat \<Rightarrow> nat option \<Rightarrow> start_state
     \<Rightarrow> start_step option" where
  "resume_start_chain t cf env c h pid w s =
     (case start_helper env (start_phase c) of
        Exits code \<Rightarrow> service_start_chain_child_exited t cf env c h code s
      | _ \<Rightarrow>
          (case w of
             None \<Rightarrow> Some (Returns (Advanced pid h None, c, s))
           | Some _ \<Rightarrow> service_start_chain_timed_out t cf env c h pid s))"

fun run_start_chain ::
  "nat \<Rightarrow> unit_table \<Rightarrow> (unit_id \<Rightarrow> start_conf) \<Rightarrow> start_env \<Rightarrow> start_step option \<Rightarrow> start_step option" where
  "run_start_chain n t cf env (Some (Returns (Advanced pid h w, c, s))) =
     (case n of 0 \<Rightarrow> None | Suc m \<Rightarrow> run_start_chain m t cf env (resume_start_chain t cf env c h pid w s))"
| "run_start_chain n t cf env r = r"

section \<open>The inline sequence\<close>

fun run_exec_condition :: "(nat \<Rightarrow> helper_answer) \<Rightarrow> nat \<Rightarrow> commandline list \<Rightarrow> commandline list \<times> bool option" where
  "run_exec_condition f i [] = ([], Some True)"
| "run_exec_condition f i (k # ks) =
     (if run_cmd (f i) k then (case run_exec_condition f (i + 1) ks of (run, r) \<Rightarrow> (k # run, r))
      else
        ([k], case f i of Exits (Exit n) \<Rightarrow> if n \<noteq> 255 then Some False else None | _ \<Rightarrow> None))"

datatype inline_result =
  Inline_skipped
  | Inline_failed
  | Inline_main "string + start_result"

text \<open>
  \<open>Service::start\<close> from the helpers on: a condition that says no skips the service, an error in a
  condition or an \<open>ExecStartPre=\<close> command runs the \<open>ExecStopPost=\<close> commands.
\<close>

definition service_start :: "start_conf \<Rightarrow> start_env \<Rightarrow> commandline list \<times> inline_result" where
  "service_start k env =
     (let posts = fst (run_all_cmds (poststop_answer env) 0 (start_stoppost k)) in
      case run_exec_condition (condition_answer env) 0 (exec_condition k) of
        (run, Some False) \<Rightarrow> (run, Inline_skipped)
      | (run, None) \<Rightarrow> (run @ posts, Inline_failed)
      | (run, Some True) \<Rightarrow>
          (case run_all_cmds (prestart_answer env) 0 (startpre k) of
             (pre, False) \<Rightarrow> (run @ pre @ posts, Inline_failed)
           | (pre, True) \<Rightarrow> (run @ pre, Inline_main (main_phase env))))"

section \<open>The chain does what the inline sequence does\<close>

fun start_rank :: "start_conf \<Rightarrow> start_chain_phase \<Rightarrow> nat" where
  "start_rank k (Condition i) = (length (exec_condition k) - i) + length (startpre k) + length (start_stoppost k) + 2"
| "start_rank k (Prestart i) = (length (startpre k) - i) + length (start_stoppost k) + 1"
| "start_rank k (Poststop_after_error i e) = length (start_stoppost k) - i"

definition helpers_run :: "start_effect list \<Rightarrow> commandline list" where
  "helpers_run l = concat (map (\<lambda>e. case e of Run_start_helper h \<Rightarrow> [h] | _ \<Rightarrow> []) l)"

lemma helpers_run_simps [simp]:
  "helpers_run [] = []" "helpers_run (l @ l') = helpers_run l @ helpers_run l'"
  "helpers_run (Run_start_helper h # l) = h # helpers_run l"
  "helpers_run (Kill_start_helper n # l) = helpers_run l" "helpers_run (Kill_all_remaining # l) = helpers_run l"
  "helpers_run (Flush_socket i # l) = helpers_run l"
  "helpers_run (Rearm_socket i # l) = helpers_run l" "helpers_run (Notify_eventfds # l) = helpers_run l"
  "helpers_run (Failure_hooks es p # l) = helpers_run l"
  "helpers_run (Trigger_failure_units ns # l) = helpers_run l" "helpers_run (Fork_main_process m # l) = helpers_run l"
  by (simp_all add: helpers_run_def)

lemma rearm_runs_nothing [simp]: "helpers_run (rearm_sockets t env us) = []"
  by (induction us) (simp_all add: rearm_sockets_def split: option.split specific.split)

datatype chain_end = End_skip | End_failed | End_main start_result

definition wants_failed_restart :: "exit_conf \<Rightarrow> exit_state \<Rightarrow> bool" where
  "wants_failed_restart k ex \<longleftrightarrow> (restart k = Restart_Always \<or> restart k = OnFailure) \<and> \<not> manual_stop ex"

text \<open>
  A failed start leaves no main process, and the unit failed or, with \<open>Restart=\<close>, about to restart;
  how a chain that ends leaves the unit, from the statuses it has found.
\<close>

definition start_failed :: "unit_id \<Rightarrow> start_conf \<Rightarrow> statuses \<Rightarrow> exit_state \<Rightarrow> start_state \<Rightarrow> bool" where
  "start_failed u k st ex s \<longleftrightarrow>
     main_pid (start_exit s) = None
     \<and> (\<exists>e. start_statuses s = st(u := if wants_failed_restart (start_exit_conf k) ex then Restarting
                                    else Stopped StoppedUnexpected [GenericStartError e]))"

definition start_ended ::
  "unit_id \<Rightarrow> start_conf \<Rightarrow> statuses \<Rightarrow> exit_state \<Rightarrow> commandline list \<Rightarrow> commandline list \<times> chain_end \<Rightarrow> start_step option \<Rightarrow> bool" where
  "start_ended u k st ex hs exp r \<longleftrightarrow>
     (case r of
        Some (Returns (out, c, s)) \<Rightarrow>
          helpers_run (start_log s) = hs @ fst exp
          \<and> (case snd exp of
               End_main m \<Rightarrow> out = Main_dispatched m \<and> start_statuses s = st
             | End_skip \<Rightarrow> out = Start_finished \<and> start_statuses s = st(u := Stopped ConditionSkipped [])
             | End_failed \<Rightarrow> out = Start_finished \<and> start_failed u k st ex s)
      | _ \<Rightarrow> False)"

text \<open>A chain under way: its service is starting, and a failure can be written down.\<close>

definition chain_live :: "unit_table \<Rightarrow> (unit_id \<Rightarrow> start_conf) \<Rightarrow> start_env \<Rightarrow> unit_id \<Rightarrow> statuses \<Rightarrow> exit_state \<Rightarrow> start_state \<Rightarrow> bool" where
  "chain_live t cf env u st ex s \<longleftrightarrow>
     (\<exists>x sc. tbl_get t u = Some x \<and> unit_id x = u \<and> specific x = Service sc) \<and> st u = Starting \<and> table_free env
     \<and> restart_delay (start_exit_conf (cf u)) (ex\<lparr>main_pid := None\<rparr>) \<noteq> Panics
     \<and> start_statuses s = st \<and> start_exit s = ex"

lemma chain_live_simps [simp]:
  "chain_live t cf env u st ex (log_start es s) = chain_live t cf env u st ex s"
  "chain_live t cf env u st ex (push_error v r s) = chain_live t cf env u st ex s"
  "chain_live t cf env u st ex (push_chain_error c r s) = chain_live t cf env u st ex s"
  by (simp_all add: chain_live_def log_start_def push_error_def push_chain_error_def)

lemma log_start_simps [simp]:
  "log_start [] s = s" "start_log (log_start es s) = start_log s @ es" "start_log (push_error v r s) = start_log s"
  "start_log (push_chain_error c r s) = start_log s"
  "start_statuses (log_start es s) = start_statuses s" "start_statuses (push_error v r s) = start_statuses s"
  "start_statuses (push_chain_error c r s) = start_statuses s"
  "start_exit (log_start es s) = start_exit s" "start_exit (push_error v r s) = start_exit s"
  "start_exit (push_chain_error c r s) = start_exit s" "current_exec_argv (log_start es s) = current_exec_argv s"
  by (simp_all add: log_start_def push_error_def push_chain_error_def)

lemma start_failed_hooks:
  assumes "unit_id x = u" "restart_delay k ex \<noteq> Panics"
  shows "\<exists>r. on_service_start_failed x k code st ex = Returns r
     \<and> new_statuses r = (if wants_failed_restart k ex then st(u := Restarting) else st) \<and> main_pid (new_state r) = main_pid ex"
proof (cases "wants_failed_restart k ex")
  case True
  obtain d where "restart_delay k ex = Returns d" using assms(2) by (cases "restart_delay k ex") auto
  then show ?thesis
    using True assms(1) by (auto simp: on_service_start_failed_def Let_def wants_failed_restart_def count_restart_def)
next
  case False
  then show ?thesis
    using assms(1) by (cases "restart k = Restart_Always \<or> restart k = OnFailure")
      (auto simp: on_service_start_failed_def Let_def wants_failed_restart_def)
qed

lemma cleanup_ends:
  assumes "chain_live t cf env u st ex s"
  shows "\<exists>s'. finalize_deferred_start_failure t cf env u why s = Returns s'
    \<and> helpers_run (start_log s') = helpers_run (start_log s) \<and> start_failed u (cf u) st ex s'"
proof -
  let ?k = "start_exit_conf (cf u)"
  obtain x sc where x: "tbl_get t u = Some x" "unit_id x = u" "specific x = Service sc"
      and s: "st u = Starting" "table_free env" "start_statuses s = st" "start_exit s = ex"
      "restart_delay ?k (ex\<lparr>main_pid := None\<rparr>) \<noteq> Panics"
    using assms by (auto simp: chain_live_def)
  let ?st = "st(u := Stopped StoppedUnexpected [GenericStartError why])" and ?ex = "ex\<lparr>main_pid := None\<rparr>"
  obtain r where r: "on_service_start_failed x ?k (main_exit_status s) ?st ?ex = Returns r"
      "new_statuses r = (if wants_failed_restart ?k ?ex then ?st(u := Restarting) else ?st)" "main_pid (new_state r) = None"
    using start_failed_hooks [OF x(2) s(5), of "main_exit_status s" ?st] by auto
  have "finalize_deferred_start_failure t cf env u why s
      = Returns (log_start [Failure_hooks (effects r) (pending r)]
          ((log_start [Kill_all_remaining] (s\<lparr>start_exit := ?ex\<rparr>))\<lparr>start_statuses := new_statuses r, start_exit := new_state r\<rparr>))"
    using x s(1-4) r(1)
    by (simp add: finalize_deferred_start_failure_def deferred_start_fail_cleanup_def Let_def log_start_def)
  moreover have "wants_failed_restart ?k ?ex = wants_failed_restart ?k ex" by (simp add: wants_failed_restart_def)
  ultimately show ?thesis using r(2,3) by (auto simp: start_failed_def log_start_def)
qed

lemma finalize_ends:
  assumes "chain_live t cf env (start_id c) st ex s"
  shows "\<exists>s'. start_chain_finalize_error t cf env c why s = Returns s'
    \<and> start_ended (start_id c) (cf (start_id c)) st ex (helpers_run (start_log s)) ([], End_failed) (Some (Returns (Start_finished, c', s')))"
  using cleanup_ends [of t cf env "start_id c" st ex "push_chain_error c (GenericStartError why) s" why] assms
  by (auto simp: start_chain_finalize_error_def trigger_on_failure_units_def chain_live_def start_ended_def)

lemma skip_ends:
  assumes "chain_live t cf env u st ex s"
  shows "start_ended u k st ex (helpers_run (start_log s)) ([], End_skip) (Some (Returns (Start_finished, c, apply_condition_skip t env u s)))"
  using assms by (auto simp: chain_live_def apply_condition_skip_def start_ended_def log_start_def)

text \<open>What is left to run from a phase on.\<close>

definition left_post :: "start_conf \<Rightarrow> start_env \<Rightarrow> nat \<Rightarrow> commandline list" where
  "left_post k env i = fst (run_all_cmds (poststop_answer env) i (drop i (start_stoppost k)))"

definition left_pre :: "start_conf \<Rightarrow> start_env \<Rightarrow> nat \<Rightarrow> commandline list \<times> chain_end" where
  "left_pre k env i =
     (case run_all_cmds (prestart_answer env) i (drop i (startpre k)) of
        (run, False) \<Rightarrow> (run @ left_post k env 0, End_failed)
      | (run, True) \<Rightarrow> (case main_phase env of Inr r \<Rightarrow> (run, End_main r) | Inl _ \<Rightarrow> (run @ left_post k env 0, End_failed)))"

definition left_condition :: "start_conf \<Rightarrow> start_env \<Rightarrow> nat \<Rightarrow> commandline list \<times> chain_end" where
  "left_condition k env i =
     (case run_exec_condition (condition_answer env) i (drop i (exec_condition k)) of
        (run, Some False) \<Rightarrow> (run, End_skip)
      | (run, None) \<Rightarrow> (run @ left_post k env 0, End_failed)
      | (run, Some True) \<Rightarrow> (case left_pre k env 0 of (run', e) \<Rightarrow> (run @ run', e)))"

fun left :: "start_conf \<Rightarrow> start_env \<Rightarrow> start_chain_phase \<Rightarrow> commandline list \<times> chain_end" where
  "left k env (Condition i) = left_condition k env i"
| "left k env (Prestart i) = left_pre k env i"
| "left k env (Poststop_after_error i e) = (left_post k env i, End_failed)"

lemma left_end:
  "length (exec_condition k) \<le> i \<Longrightarrow> left_condition k env i = left_pre k env 0"
  "length (startpre k) \<le> i \<Longrightarrow> left_pre k env i
     = (case main_phase env of Inr r \<Rightarrow> ([], End_main r) | Inl _ \<Rightarrow> (left_post k env 0, End_failed))"
  "length (start_stoppost k) \<le> i \<Longrightarrow> left_post k env i = []"
  by (simp add: left_condition_def split: prod.split, simp add: left_pre_def split: sum.split, simp add: left_post_def)

lemma left_next:
  assumes "phase_index p < length (phase_commands k p)"
  shows "left k env p =
    (let h = phase_commands k p ! phase_index p in
     if run_cmd (start_helper env p) h then (h # fst (left k env (advance_chain_index p)), snd (left k env (advance_chain_index p)))
     else
       case p of
         Poststop_after_error i e \<Rightarrow> ([h], End_failed)
       | Prestart i \<Rightarrow> (h # left_post k env 0, End_failed)
       | Condition i \<Rightarrow>
           (case condition_answer env i of
              Exits (Exit n) \<Rightarrow> if n \<noteq> 255 then ([h], End_skip) else (h # left_post k env 0, End_failed)
            | _ \<Rightarrow> (h # left_post k env 0, End_failed)))"
  using assms Cons_nth_drop_Suc [OF assms, symmetric]
  by (cases p)
    (auto simp: left_condition_def left_pre_def left_post_def Let_def split: prod.splits bool.splits option.splits sum.splits
      helper_answer.splits child_termination.splits)

lemma start_ended_Cons:
  "start_ended u k st ex hs (h # run, e) r = start_ended u k st ex (hs @ [h]) (run, e) r"
  by (simp add: start_ended_def cong: option.case_cong outcome.case_cong prod.case_cong)

text \<open>
  An \<open>ExecStopPost=\<close> command that cannot be spawned is marked with a minus; exit codes are those a
  process can have.
\<close>

definition post_spawnable :: "start_conf \<Rightarrow> start_env \<Rightarrow> bool" where
  "post_spawnable k env \<longleftrightarrow>
     list_all (\<lambda>i. case poststop_answer env i of Spawn_error _ \<Rightarrow> has_minus (start_stoppost k ! i) | _ \<Rightarrow> True)
       [0..<length (start_stoppost k)]"

definition condition_codes :: "start_conf \<Rightarrow> start_env \<Rightarrow> bool" where
  "condition_codes k env \<longleftrightarrow>
     list_all (\<lambda>i. case condition_answer env i of Exits (Exit n) \<Rightarrow> 0 \<le> n \<and> n \<le> 255 | _ \<Rightarrow> True)
       [0..<length (exec_condition k)]"

text \<open>A start timeout is set, or no helper overruns.\<close>

definition helpers_end :: "start_conf \<Rightarrow> start_env \<Rightarrow> bool" where
  "helpers_end k env \<longleftrightarrow>
     start_timeout k \<noteq> None \<or> (\<forall>p. start_helper env p \<noteq> Overruns) \<and> (\<forall>i. exec_answer env i \<noteq> Overruns)"

lemma rank_next: "phase_index p < length (phase_commands k p) \<Longrightarrow> start_rank k (advance_chain_index p) < start_rank k p"
  by (cases p) auto

lemma rank_fail:
  "phase_index p < length (phase_commands k p) \<Longrightarrow> \<forall>i e. p \<noteq> Poststop_after_error i e
    \<Longrightarrow> start_rank k (Poststop_after_error 0 e') < start_rank k p"
  by (cases p) auto

lemma start_step_fork:
  assumes "chain_live t cf env (start_id c) st ex s" "k = cf (start_id c)" "p = start_phase c"
    "phase_index p < length (phase_commands k p)" "h = phase_commands k p ! phase_index p"
  shows "service_start_chain_step t cf env c s =
    (case start_helper env p of
       Spawn_error e \<Rightarrow> service_start_chain_step t cf env (start_spawn_failed h e c) (log_start [Run_start_helper h] s)
     | _ \<Rightarrow> Some (Returns (Advanced (start_pid env h) h (start_timeout k), c, log_start [Run_start_helper h] s)))"
  using assms
  by (subst service_start_chain_step.simps) (auto simp: chain_live_def Let_def split: helper_answer.split)

lemma start_step_over:
  assumes "chain_live t cf env (start_id c) st ex s" "k = cf (start_id c)" "p = start_phase c"
    "\<not> phase_index p < length (phase_commands k p)"
  shows "service_start_chain_step t cf env c s =
    (case p of
       Condition i \<Rightarrow> service_start_chain_step t cf env (c\<lparr>start_phase := Prestart 0\<rparr>) s
     | Prestart i \<Rightarrow>
         (case main_phase env of
            Inr r \<Rightarrow> Some (Returns (Main_dispatched r, c, s))
          | Inl e \<Rightarrow>
              service_start_chain_step t cf env (chain_error_to_poststop ''main ExecStart dispatch failed'' c)
                (push_chain_error c (ServiceStartError e) s))
     | Poststop_after_error i e \<Rightarrow>
         (case start_chain_finalize_error t cf env c e s of
            Panics \<Rightarrow> Some Panics
          | Returns s' \<Rightarrow> Some (Returns (Start_finished, c, s'))))"
  using assms
  by (subst service_start_chain_step.simps) (auto simp: chain_live_def Let_def split: start_chain_phase.split)

text \<open>What the answer of a helper makes of a parked chain.\<close>

definition condition_says_no :: "start_env \<Rightarrow> start_chain_phase \<Rightarrow> bool" where
  "condition_says_no env p \<longleftrightarrow>
     (case p of Condition i \<Rightarrow> (case condition_answer env i of Exits (Exit n) \<Rightarrow> n \<noteq> 255 | _ \<Rightarrow> False) | _ \<Rightarrow> False)"

fun in_poststop :: "start_chain_phase \<Rightarrow> bool" where
  "in_poststop (Poststop_after_error i e) = True"
| "in_poststop p = False"

fun could_spawn :: "helper_answer \<Rightarrow> bool" where
  "could_spawn (Spawn_error e) = False"
| "could_spawn a = True"

lemma left_fails:
  assumes "phase_index p < length (phase_commands k p)" "h = phase_commands k p ! phase_index p" "\<not> run_cmd (start_helper env p) h"
  shows "in_poststop p \<Longrightarrow> left k env p = ([h], End_failed)"
    "condition_says_no env p \<Longrightarrow> left k env p = ([h], End_skip)"
    "\<not> in_poststop p \<Longrightarrow> \<not> condition_says_no env p \<Longrightarrow> left k env p = (h # left_post k env 0, End_failed)"
  using left_next [OF assms(1)] assms(2,3)
  by (cases p; auto simp: condition_says_no_def split: helper_answer.splits child_termination.splits if_splits)+

lemma resume_ok:
  assumes "run_cmd (start_helper env (start_phase c)) h" "could_spawn (start_helper env (start_phase c))"
  shows "resume_start_chain t cf env c h pid w s
    = service_start_chain_step t cf env (c\<lparr>start_phase := advance_chain_index (start_phase c)\<rparr>) s"
  using assms
  by (cases "start_helper env (start_phase c)"; cases "start_phase c")
    (auto simp: resume_start_chain_def service_start_chain_child_exited_def Let_def)

lemma resume_skips:
  assumes "\<not> run_cmd (start_helper env (start_phase c)) h" "condition_says_no env (start_phase c)"
    "condition_codes k env" "phase_index (start_phase c) < length (phase_commands k (start_phase c))"
  shows "resume_start_chain t cf env c h pid w s = Some (Returns (Start_finished, c, apply_condition_skip t env (start_id c) s))"
proof -
  obtain i n where i: "start_phase c = Condition i" "condition_answer env i = Exits (Exit n)" "n \<noteq> 255"
    using assms(2) by (auto simp: condition_says_no_def split: start_chain_phase.splits helper_answer.splits child_termination.splits)
  moreover have "0 \<le> n \<and> n \<le> 255"
    using assms(3,4) i by (auto simp: condition_codes_def list_all_iff dest!: bspec [where x = i])
  ultimately show ?thesis
    using assms(1) by (auto simp: resume_start_chain_def service_start_chain_child_exited_def Let_def)
qed

lemma resume_poststop:
  assumes "\<not> run_cmd (start_helper env (start_phase c)) h" "in_poststop (start_phase c)" "could_spawn (start_helper env (start_phase c))"
    "start_helper env (start_phase c) = Overruns \<Longrightarrow> w \<noteq> None"
  shows "\<exists>es why. helpers_run es = [] \<and> resume_start_chain t cf env c h pid w s =
    (case start_chain_finalize_error t cf env c why (log_start es s) of Panics \<Rightarrow> Some Panics
     | Returns s' \<Rightarrow> Some (Returns (Start_finished, c, s')))"
proof (cases "start_helper env (start_phase c)")
  case (Exits code)
  show ?thesis
    by (insert assms Exits, rule exI [where x = "[] :: start_effect list"], cases "start_phase c")
      (auto simp: resume_start_chain_def service_start_chain_child_exited_def log_start_def Let_def)
next
  case Overruns
  show ?thesis
    by (insert assms Overruns, rule exI [where x = "[Kill_start_helper pid]"], cases "start_phase c")
      (auto simp: resume_start_chain_def service_start_chain_timed_out_def Let_def)
qed (use assms in simp)

lemma resume_fails:
  assumes "\<not> run_cmd (start_helper env (start_phase c)) h" "\<not> in_poststop (start_phase c)"
    "\<not> condition_says_no env (start_phase c)" "could_spawn (start_helper env (start_phase c))"
    "start_helper env (start_phase c) = Overruns \<Longrightarrow> w \<noteq> None"
  shows "\<exists>es why. helpers_run es = [] \<and> resume_start_chain t cf env c h pid w s =
    service_start_chain_step t cf env (c\<lparr>start_phase := Poststop_after_error 0 why\<rparr>) (log_start es s)"
proof (cases "start_helper env (start_phase c)")
  case (Exits code)
  show ?thesis
    by (insert assms Exits, rule exI [where x = "[] :: start_effect list"], cases "start_phase c")
      (auto simp: resume_start_chain_def service_start_chain_child_exited_def chain_error_to_poststop_def condition_says_no_def
        log_start_def Let_def split: child_termination.split)
next
  case Overruns
  show ?thesis
    by (insert assms Overruns, rule exI [where x = "[Kill_start_helper pid]"], cases "start_phase c")
      (auto simp: resume_start_chain_def service_start_chain_timed_out_def chain_error_to_poststop_def Let_def)
qed (use assms in simp)

lemma poststop_could_spawn:
  assumes "post_spawnable k env" "in_poststop p" "phase_index p < length (phase_commands k p)"
    "\<not> run_cmd (start_helper env p) (phase_commands k p ! phase_index p)"
  shows "could_spawn (start_helper env p)"
  using assms by (cases p; cases "start_helper env p")
    (auto simp: post_spawnable_def list_all_iff dest!: bspec [where x = "phase_index p"])

lemma start_chain_runs_left:
  assumes "chain_live t cf env (start_id c) st ex s" "cf (start_id c) = k" "post_spawnable k env" "condition_codes k env"
    "start_rank k (start_phase c) \<le> n" "helpers_end k env"
  shows "start_ended (start_id c) k st ex (helpers_run (start_log s)) (left k env (start_phase c))
    (run_start_chain n t cf env (service_start_chain_step t cf env c s))"
  using assms
proof (induction "start_rank k (start_phase c)" arbitrary: c s n rule: less_induct)
  case less
  let ?p = "start_phase c" and ?u = "start_id c"
  note live = less.prems(1) and k = less.prems(2) and fuel = less.prems(5)
  have go: "start_ended ?u k st ex (helpers_run (start_log s')) (left k env p) (run_start_chain m t cf env
      (service_start_chain_step t cf env (c\<lparr>start_phase := p\<rparr>) s'))"
    if "start_rank k p < start_rank k ?p" "start_rank k p \<le> m" "chain_live t cf env ?u st ex s'" for p m s'
    using less.hyps [of "c\<lparr>start_phase := p\<rparr>" s' m] that less.prems by simp
  show ?case
  proof (cases "phase_index ?p < length (phase_commands k ?p)")
    case False
    show ?thesis
    proof (cases ?p)
      case (Condition i)
      then show ?thesis
        using go [of "Prestart 0" n s] False fuel live start_step_over [OF live _ refl] k left_end(1) [of k i env] by simp
    next
      case (Prestart i)
      have left: "left k env ?p = (case main_phase env of Inr r \<Rightarrow> ([], End_main r) | Inl _ \<Rightarrow> (left_post k env 0, End_failed))"
        using False Prestart left_end(2) by simp
      note step = start_step_over [OF live k [symmetric] refl False, unfolded Prestart, simplified]
      show ?thesis
      proof (cases "main_phase env")
        case (Inl e)
        then show ?thesis
          using go [of "Poststop_after_error 0 ''main ExecStart dispatch failed''" n "push_chain_error c (ServiceStartError e) s"]
            left Prestart fuel live step k
          by (simp add: chain_error_to_poststop_def)
      next
        case (Inr r)
        then show ?thesis using left step live by (simp add: start_ended_def chain_live_def)
      qed
    next
      case (Poststop_after_error i e)
      then show ?thesis
        using finalize_ends [OF live, of e c] False start_step_over [OF live _ refl] k left_end(3) by auto
    qed
  next
    case True
    let ?h = "phase_commands k ?p ! phase_index ?p"
    let ?s = "log_start [Run_start_helper ?h] s"
    let ?run = "run_start_chain n t cf env (service_start_chain_step t cf env c s)" and ?a = "start_helper env ?p"
    let ?resume = "resume_start_chain t cf env c ?h (start_pid env ?h) (start_timeout k) ?s"
    let ?ended = "start_ended ?u k st ex (helpers_run (start_log s)) (left k env ?p)"
    have live': "chain_live t cf env ?u st ex (log_start es ?s)" for es using live by simp
    have fork: "?run = run_start_chain n t cf env (service_start_chain_step t cf env (start_spawn_failed ?h e c) ?s)"
      if "?a = Spawn_error e" for e
      using start_step_fork [OF live k [symmetric] refl True refl] that by simp
    have ends: "?a = Overruns \<Longrightarrow> start_timeout k \<noteq> None" using less.prems(6) by (auto simp: helpers_end_def)
    obtain m where m: "n = Suc m" using rank_next [OF True] fuel by (cases n) auto
    have parked: "?run = run_start_chain m t cf env ?resume" if "could_spawn ?a"
      using start_step_fork [OF live k [symmetric] refl True refl] m that by (cases ?a) auto
    have fails: "?ended (run_start_chain m' t cf env
        (service_start_chain_step t cf env (c\<lparr>start_phase := Poststop_after_error 0 e\<rparr>) (log_start es ?s)))"
      if "\<not> run_cmd ?a ?h" "\<not> in_poststop ?p" "\<not> condition_says_no env ?p" "m \<le> m'" "helpers_run es = []" for e es m'
      using go [of "Poststop_after_error 0 e" m' "log_start es ?s"] rank_fail [OF True, of e] live' [of es]
        left_fails(3) [OF True refl that(1-3)] that(2,4,5) fuel m
      by (cases ?p) (auto simp: start_ended_Cons)
    show ?thesis
    proof (cases "run_cmd ?a ?h")
      case ok: True
      have "?run = run_start_chain (if could_spawn ?a then m else n) t cf env
          (service_start_chain_step t cf env (c\<lparr>start_phase := advance_chain_index ?p\<rparr>) ?s)"
        using ok parked resume_ok [OF ok] fork by (cases ?a) (auto simp: start_spawn_failed_def)
      then show ?thesis
        using go [OF rank_next [OF True], of "if could_spawn ?a then m else n" ?s] rank_next [OF True] fuel m ok
          left_next [OF True, of env] live' [of "[]"]
        by (cases "left k env (advance_chain_index ?p)") (simp add: Let_def start_ended_Cons split: if_splits)
    next
      case bad: False
      consider (post) "in_poststop ?p" | (skip) "condition_says_no env ?p"
        | (fail) "\<not> in_poststop ?p" "\<not> condition_says_no env ?p" "could_spawn ?a" | (spawn) "\<not> in_poststop ?p" "\<not> could_spawn ?a"
        by (cases "condition_says_no env ?p") auto
      then show ?thesis
      proof cases
        case post
        note spawned = poststop_could_spawn [OF less.prems(3) post True bad]
        obtain es why where es: "helpers_run es = []" "?resume = (case start_chain_finalize_error t cf env c why (log_start es ?s) of
            Panics \<Rightarrow> Some Panics | Returns s' \<Rightarrow> Some (Returns (Start_finished, c, s')))"
          using resume_poststop [OF bad post spawned ends] by blast
        then show ?thesis
          using finalize_ends [OF live' [of es], of why c] left_fails(1) [OF True refl bad post] parked [OF spawned] k
          by (auto simp: start_ended_Cons)
      next
        case skip
        have "could_spawn ?a" using skip by (cases ?p; cases ?a) (auto simp: condition_says_no_def)
        then show ?thesis
          using resume_skips [OF bad skip less.prems(4) True] skip_ends [OF live' [of "[]"]] left_fails(2) [OF True refl bad skip] parked
          by (simp add: start_ended_Cons)
      next
        case fail
        then show ?thesis
          using resume_fails [OF bad fail ends, of t cf "start_pid env ?h" ?s] fails [OF bad fail(1,2)] parked
          by (auto simp: log_start_def)
      next
        case spawn
        then show ?thesis
          using fork fails [OF bad spawn(1), of n "[]"] bad m
          by (cases ?a; cases ?p) (auto simp: start_spawn_failed_def chain_error_to_poststop_def condition_says_no_def)
      qed
    qed
  qed
qed

lemma left_is_service_start:
  "left k env (Condition 0) =
    (case service_start k env of
       (run, Inline_skipped) \<Rightarrow> (run, End_skip)
     | (run, Inline_failed) \<Rightarrow> (run, End_failed)
     | (run, Inline_main (Inr r)) \<Rightarrow> (run, End_main r)
     | (run, Inline_main (Inl e)) \<Rightarrow> (run @ fst (run_all_cmds (poststop_answer env) 0 (start_stoppost k)), End_failed))"
  by (auto simp: service_start_def left_condition_def left_pre_def left_post_def Let_def
      split: prod.splits option.splits bool.splits sum.splits)

text \<open>
  C27: a start chain does what \<open>Service::start\<close> does without leaving the function, where both can end.
  What is asked for: the unit is loaded, is a service and is starting; the unit table is free for
  the clean-up, and the delay of its restart does not overflow; the chain is at the first condition
  and nothing has run yet; an \<open>ExecStopPost=\<close> command that cannot be spawned is marked with a minus
  (any other keeps the chain calling itself, \<open>poststop_spawn_loops\<close>); exit codes of conditions are
  between 0 and 255; and a start timeout is set, or no helper overruns.  Then the chain ends after at most as many events as there are commands
  and two more.  It has run the commands the inline sequence runs, in its order; it skips the
  service when a condition says no, hands over to the main process with the result the inline
  sequence has, or leaves the unit failed or restarting, without a main process.  In one case it
  runs more than the inline sequence: when the main process cannot be started, the chain also runs
  the \<open>ExecStopPost=\<close> commands, up to the first that fails.
\<close>

theorem start_chain_refines_start:
  assumes "chain_live t cf env u st ex s" "start_id c = u" "start_phase c = Condition 0" "start_log s = []"
    "post_spawnable (cf u) env" "condition_codes (cf u) env" "helpers_end (cf u) env"
    "length (exec_condition (cf u)) + length (startpre (cf u)) + length (start_stoppost (cf u)) + 2 \<le> n"
  shows "\<exists>out c' s'. run_start_chain n t cf env (service_start_chain_step t cf env c s) = Some (Returns (out, c', s'))
    \<and> (case service_start (cf u) env of
         (run, Inline_skipped) \<Rightarrow>
           out = Start_finished \<and> helpers_run (start_log s') = run \<and> start_statuses s' = st(u := Stopped ConditionSkipped [])
       | (run, Inline_failed) \<Rightarrow> out = Start_finished \<and> helpers_run (start_log s') = run \<and> start_failed u (cf u) st ex s'
       | (run, Inline_main (Inr r)) \<Rightarrow> out = Main_dispatched r \<and> helpers_run (start_log s') = run \<and> start_statuses s' = st
       | (run, Inline_main (Inl e)) \<Rightarrow>
           out = Start_finished \<and> start_failed u (cf u) st ex s'
           \<and> helpers_run (start_log s') = run @ fst (run_all_cmds (poststop_answer env) 0 (start_stoppost (cf u))))"
proof -
  have "start_ended u (cf u) st ex [] (left (cf u) env (Condition 0))
      (run_start_chain n t cf env (service_start_chain_step t cf env c s))"
    using start_chain_runs_left [of t cf env c st ex s "cf u" n] assms by simp
  then show ?thesis
    unfolding left_is_service_start start_ended_def
    by (auto split: option.splits outcome.splits prod.splits inline_result.splits sum.splits)
qed

definition start_table :: unit_table where
  "start_table = [(lock_c, (plain_unit lock_c no_dependencies)
     \<lparr>specific := Service \<lparr>srvc_sockets = [], srvc_slice = None, srvc_dbus_name = None\<rparr>\<rparr>)]"

definition script :: "string \<Rightarrow> commandline" where
  "script p = \<lparr>cmd = p, cmd_args = [], prefixes = []\<rparr>"

definition three_helpers :: start_conf where
  "three_helpers = \<lparr>exec_condition = [script ''/bin/a''], startpre = [script ''/bin/b''], exec = [script ''/bin/d''],
     start_stoppost = [script ''/bin/c''], start_timeout = Some 90, start_exit_conf = plain_service\<rparr>"

definition start_env_b :: start_env where
  "start_env_b = \<lparr>condition_answer = (\<lambda>_. Exits (Exit 0)), prestart_answer = (\<lambda>_. Overruns), poststop_answer = (\<lambda>_. Exits (Exit 0)),
     exec_answer = (\<lambda>_. Exits (Exit 0)), start_pid = (\<lambda>_. 7), main_phase = Inr Main_started, fork_main = Inr None, table_free = True, dispatcher_live = True,
     socket_limit_hit = (\<lambda>_. False), socket_flush_pending = (\<lambda>_. False), show_code = (\<lambda>_. []), show_timeout = (\<lambda>_. [])\<rparr>"

definition new_start :: start_chain where
  "new_start = \<lparr>start_id = lock_c, next_services_ids = [], filter_ids = [], start_source = DeferNotifyWait, start_phase = Condition 0, errors_of_request = True\<rparr>"

definition starting_state :: start_state where
  "starting_state = \<lparr>start_statuses = (\<lambda>_. Starting), start_exit = running\<lparr>main_pid := None\<rparr>, current_exec_argv = None,
     main_exit_status = None, main_exit_termination = None, shared_errors = [], start_log = []\<rparr>"

lemmas start_example_defs = start_table_def script_def three_helpers_def start_env_b_def new_start_def starting_state_def
  tbl_get_def plain_unit_def

theorem start_chain_refines_start_witness:
  "\<exists>out c' s'. run_start_chain 5 start_table (\<lambda>_. three_helpers) start_env_b
      (service_start_chain_step start_table (\<lambda>_. three_helpers) start_env_b new_start starting_state) = Some (Returns (out, c', s'))
    \<and> out = Start_finished \<and> helpers_run (start_log s') = [script ''/bin/a'', script ''/bin/b'', script ''/bin/c'']
    \<and> start_failed lock_c three_helpers (\<lambda>_. Starting) (running\<lparr>main_pid := None\<rparr>) s'"
proof -
  have "service_start three_helpers start_env_b = ([script ''/bin/a'', script ''/bin/b'', script ''/bin/c''], Inline_failed)"
    by (simp add: start_example_defs service_start_def)
  moreover have "chain_live start_table (\<lambda>_. three_helpers) start_env_b lock_c (\<lambda>_. Starting) (running\<lparr>main_pid := None\<rparr>) starting_state"
    by (simp add: chain_live_def start_example_defs restart_delay_def plain_service_def)
  moreover have "post_spawnable three_helpers start_env_b" "condition_codes three_helpers start_env_b" "helpers_end three_helpers start_env_b"
    by (simp_all add: helpers_end_def post_spawnable_def condition_codes_def start_example_defs)
  ultimately show ?thesis
    using start_chain_refines_start [of start_table "\<lambda>_. three_helpers" start_env_b lock_c "\<lambda>_. Starting" "running\<lparr>main_pid := None\<rparr>"
        starting_state new_start 5]
    by (simp add: new_start_def three_helpers_def starting_state_def)
qed

text \<open>An \<open>ExecStopPost=\<close> command that cannot be spawned makes the call start over for ever.\<close>

theorem poststop_spawn_loops:
  assumes "tbl_get t (start_id c) = Some x" "specific x = Service sc" "start_statuses s (start_id c) = Starting"
    "start_phase c = Poststop_after_error 0 e" "start_stoppost (cf (start_id c)) = h # hs"
    "poststop_answer env 0 = Spawn_error e'" "\<not> has_minus h"
  shows "service_start_chain_step t cf env c s = None"
proof (rule ccontr)
  assume "service_start_chain_step t cf env c s \<noteq> None"
  then obtain y where "service_start_chain_step t cf env c s = Some y" by blast
  then show False using assms
  proof (induction arbitrary: e rule: service_start_chain_step.raw_induct [rotated, consumes 1, case_names step])
    case (step step t cf env c s y)
    let ?why = "''Failed to spawn '' @ show_commandline h @ '': '' @ e'"
    have "step t cf env (c\<lparr>start_phase := Poststop_after_error 0 ?why\<rparr>) (log_start [Run_start_helper h] s) = Some y"
      using step(2-9) by (simp add: Let_def start_spawn_failed_def chain_error_to_poststop_def)
    from step(1) [OF this] step(3-9) show ?case by (simp add: log_start_def)
  qed
qed

end
