(* ===== verification/OneshotChain.thy ===== *)
theory OneshotChain
  imports StartChain
begin

text \<open>
  The commands of a one-shot service on the dispatcher (\<open>units/unitset_manipulation/activate.rs\<close>): all
  but the last run as helpers, each at its own event, so that a reload may change the list between
  two of them; the place in the list is found again by the text of the command that ran.
\<close>

section \<open>The chain\<close>

definition fail_deferred_start ::
  "unit_table \<Rightarrow> (unit_id \<Rightarrow> start_conf) \<Rightarrow> start_env \<Rightarrow> unit_id \<Rightarrow> string \<Rightarrow> start_state \<Rightarrow> (start_chain option \<times> start_state) outcome" where
  "fail_deferred_start t cf env u why s =
     (let has_stoppost = dispatcher_live env
            \<and> (case tbl_get t u of
                 None \<Rightarrow> False
               | Some x \<Rightarrow> (case specific x of Service _ \<Rightarrow> start_stoppost (cf u) \<noteq> [] | _ \<Rightarrow> False))
      in
      if has_stoppost
      then Returns
        (Some \<lparr>start_id = u, next_services_ids = [], filter_ids = [], start_source = Regular,
           start_phase = Poststop_after_error 0 why, errors_of_request = False\<rparr>,
         log_start [Kill_all_remaining] (s\<lparr>start_exit := (start_exit s)\<lparr>main_pid := None\<rparr>\<rparr>))
      else
        case finalize_deferred_start_failure t cf env u why s of
          Panics \<Rightarrow> Panics
        | Returns s' \<Rightarrow> Returns (None, s'))"

definition oneshot_chain_fail ::
  "unit_table \<Rightarrow> (unit_id \<Rightarrow> start_conf) \<Rightarrow> start_env \<Rightarrow> oneshot_chain \<Rightarrow> string \<Rightarrow> start_state \<Rightarrow> (start_chain option \<times> start_state) outcome" where
  "oneshot_chain_fail t cf env c e s =
     (let u = oneshot_id c;
          s1 = (case tbl_get t u of
                  None \<Rightarrow> s
                | Some x \<Rightarrow> (case specific x of Service _ \<Rightarrow> s\<lparr>current_exec_argv := None\<rparr> | _ \<Rightarrow> s))
      in fail_deferred_start t cf env u e (push_error u (ServiceStartError e) s1))"

fun first_named :: "string \<Rightarrow> commandline list \<Rightarrow> nat option" where
  "first_named a [] = None"
| "first_named a (h # hs) = (if show_commandline h = a then Some 0 else map_option Suc (first_named a hs))"

text \<open>Where to go on: at the start, after the command that ran, or nowhere when it is gone.\<close>

definition next_exec :: "commandline list \<Rightarrow> string option \<Rightarrow> nat option" where
  "next_exec hs a = (case a of None \<Rightarrow> Some 0 | Some x \<Rightarrow> map_option Suc (first_named x hs))"

definition oneshot_chain_step ::
  "unit_table \<Rightarrow> (unit_id \<Rightarrow> start_conf) \<Rightarrow> start_env \<Rightarrow> oneshot_chain \<Rightarrow> start_state \<Rightarrow> oneshot_outcome \<times> start_state" where
  "oneshot_chain_step t cf env c s =
     (let u = oneshot_id c; hs = exec (cf u); s1 = s\<lparr>current_exec_argv := None\<rparr> in
      case tbl_get t u of
        None \<Rightarrow> (Oneshot_finished, s)
      | Some x \<Rightarrow>
          (case specific x of
             Service _ \<Rightarrow>
               (case next_exec hs (current_exec_argv s) of
                  None \<Rightarrow> (Await_completion, s1\<lparr>main_exit_status := Some 0, main_exit_termination := Some (Exit 0)\<rparr>)
                | Some i \<Rightarrow>
                    if length hs \<le> i + 1 then
                      let s2 = log_start [Fork_main_process (if hs = [] then None else Some (hs ! (length hs - 1)))] s1 in
                      case fork_main env of
                        Inr _ \<Rightarrow> (Await_completion, s2)
                      | Inl e \<Rightarrow> (Oneshot_finished, push_error u (ServiceStartError e) s2)
                    else
                      let h = hs ! i; s2 = log_start [Run_start_helper h] (s1\<lparr>current_exec_argv := Some (show_commandline h)\<rparr>) in
                      case exec_answer env (length (helpers_run (start_log s))) of
                        Spawn_error e \<Rightarrow> (Oneshot_finished, push_error u (GenericStartError e) s2)
                      | _ \<Rightarrow> (Oneshot_advanced (start_pid env h) h (start_timeout (cf u)), s2))
           | _ \<Rightarrow> (Oneshot_finished, s)))"

definition after_failure :: "(start_chain option \<times> start_state) outcome \<Rightarrow> (oneshot_outcome \<times> start_state) outcome" where
  "after_failure r =
     (case r of
        Panics \<Rightarrow> Panics
      | Returns (Some post, s) \<Rightarrow> Returns (Poststop_chain post, s)
      | Returns (None, s) \<Rightarrow> Returns (Oneshot_finished, s))"

definition oneshot_chain_child_exited ::
  "unit_table \<Rightarrow> (unit_id \<Rightarrow> start_conf) \<Rightarrow> start_env \<Rightarrow> oneshot_chain \<Rightarrow> commandline \<Rightarrow> child_termination \<Rightarrow> start_state
     \<Rightarrow> (oneshot_outcome \<times> start_state) outcome" where
  "oneshot_chain_child_exited t cf env c h code s =
     (if success code \<or> has_minus h then Returns (oneshot_chain_step t cf env c s)
      else after_failure (oneshot_chain_fail t cf env c (show_commandline h @ '' exited with '' @ show_code env code) s))"

definition oneshot_chain_timed_out ::
  "unit_table \<Rightarrow> (unit_id \<Rightarrow> start_conf) \<Rightarrow> start_env \<Rightarrow> oneshot_chain \<Rightarrow> commandline \<Rightarrow> nat \<Rightarrow> nat option \<Rightarrow> start_state
     \<Rightarrow> (oneshot_outcome \<times> start_state) outcome" where
  "oneshot_chain_timed_out t cf env c h pid w s =
     after_failure (oneshot_chain_fail t cf env c
       (show_commandline h @ '' reached its timeout: Timeout ('' @ show_timeout env w @ '') reached'')
       (log_start [Kill_start_helper pid] s))"

text \<open>
  \<open>exec_answer\<close> tells what the command does that follows \<open>n\<close> helpers of this start.  A run of the
  chain with at most \<open>n\<close> events, under the configuration in force after that many helpers; and the
  dispatcher's \<open>park_chain\<close>, which drives the \<open>ExecStopPost=\<close> commands of a failure.
\<close>

definition resume_oneshot ::
  "unit_table \<Rightarrow> (unit_id \<Rightarrow> start_conf) \<Rightarrow> start_env \<Rightarrow> oneshot_chain \<Rightarrow> commandline \<Rightarrow> nat \<Rightarrow> nat option \<Rightarrow> start_state
     \<Rightarrow> (oneshot_outcome \<times> start_state) outcome" where
  "resume_oneshot t cf env c h pid w s =
     (case exec_answer env (length (helpers_run (start_log s)) - 1) of
        Exits code \<Rightarrow> oneshot_chain_child_exited t cf env c h code s
      | _ \<Rightarrow>
          (case w of
             None \<Rightarrow> Returns (Oneshot_advanced pid h None, s)
           | Some _ \<Rightarrow> oneshot_chain_timed_out t cf env c h pid w s))"

fun run_oneshot ::
  "nat \<Rightarrow> unit_table \<Rightarrow> (nat \<Rightarrow> unit_id \<Rightarrow> start_conf) \<Rightarrow> start_env \<Rightarrow> oneshot_chain \<Rightarrow> (oneshot_outcome \<times> start_state) outcome
     \<Rightarrow> (oneshot_outcome \<times> start_state) outcome option" where
  "run_oneshot n t cfs env c (Returns (Oneshot_advanced pid h w, s)) =
     (case n of
        0 \<Rightarrow> None
      | Suc m \<Rightarrow> run_oneshot m t cfs env c (resume_oneshot t (cfs (length (helpers_run (start_log s)))) env c h pid w s))"
| "run_oneshot n t cfs env c r = Some r"

definition park_chain ::
  "nat \<Rightarrow> unit_table \<Rightarrow> (unit_id \<Rightarrow> start_conf) \<Rightarrow> start_env \<Rightarrow> (oneshot_outcome \<times> start_state) outcome option
     \<Rightarrow> (oneshot_outcome \<times> start_state) outcome option" where
  "park_chain n t cf env r =
     (case r of
        Some (Returns (Poststop_chain p, s)) \<Rightarrow>
          (case run_start_chain n t cf env (service_start_chain_step t cf env p s) of
             Some (Returns (_, _, s')) \<Rightarrow> Some (Returns (Oneshot_finished, s'))
           | Some Panics \<Rightarrow> Some Panics
           | None \<Rightarrow> None)
      | _ \<Rightarrow> r)"

section \<open>The commands run in order\<close>

lemma first_named_nth:
  "distinct (map show_commandline hs) \<Longrightarrow> i < length hs \<Longrightarrow> first_named (show_commandline (hs ! i)) hs = Some i"
proof (induction hs arbitrary: i)
  case (Cons h hs)
  then show ?case by (cases i) auto
qed simp

definition exec_at :: "commandline list \<Rightarrow> nat \<Rightarrow> string option" where
  "exec_at hs i = (case i of 0 \<Rightarrow> None | Suc j \<Rightarrow> Some (show_commandline (hs ! j)))"

lemma exec_at_simps [simp]: "exec_at hs 0 = None" "exec_at hs (Suc j) = Some (show_commandline (hs ! j))"
  by (simp_all add: exec_at_def)

lemma next_exec_at [simp]:
  "distinct (map show_commandline hs) \<Longrightarrow> i \<le> length hs \<Longrightarrow> next_exec hs (exec_at hs i) = Some i"
  by (cases i) (simp_all add: next_exec_def first_named_nth)

text \<open>A chain under way whose helpers can all be spawned.\<close>

definition oneshot_spawns :: "start_env \<Rightarrow> nat \<Rightarrow> nat \<Rightarrow> bool" where
  "oneshot_spawns env j n \<longleftrightarrow> list_all (\<lambda>i. could_spawn (exec_answer env i)) [j..<j + n]"

definition oneshot_ended ::
  "unit_table \<Rightarrow> (unit_id \<Rightarrow> start_conf) \<Rightarrow> start_env \<Rightarrow> unit_id \<Rightarrow> statuses \<Rightarrow> exit_state \<Rightarrow> commandline list \<Rightarrow> commandline list \<times> bool
     \<Rightarrow> (oneshot_outcome \<times> start_state) outcome option \<Rightarrow> bool" where
  "oneshot_ended t cf env u st ex hs exp r \<longleftrightarrow>
     (\<exists>out s. r = Some (Returns (out, s))
       \<and> (case exp of
            (run, True) \<Rightarrow>
              helpers_run (start_log s) = hs @ run \<and> start_statuses s = st
              \<and> last (start_log s) = Fork_main_process (Some (last (exec (cf u))))
              \<and> out = (case fork_main env of Inr _ \<Rightarrow> Await_completion | Inl _ \<Rightarrow> Oneshot_finished)
          | (run, False) \<Rightarrow>
              helpers_run (start_log s) = hs @ run @ left_post (cf u) env 0
              \<and> out = Oneshot_finished \<and> start_failed u (cf u) st ex s))"

lemma start_failed_forgets [simp]: "start_failed u k st (ex\<lparr>main_pid := None\<rparr>) s = start_failed u k st ex s"
  by (simp add: start_failed_def wants_failed_restart_def)

lemma chain_live_argv [simp]: "chain_live t cf env u st ex (s\<lparr>current_exec_argv := a\<rparr>) = chain_live t cf env u st ex s"
  by (simp add: chain_live_def)

lemma oneshot_fail_ends:
  assumes "chain_live t cf env u st ex s" "oneshot_id c = u" "dispatcher_live env" "post_spawnable (cf u) env"
    "condition_codes (cf u) env" "length (start_stoppost (cf u)) \<le> n" "helpers_end (cf u) env"
  shows "oneshot_ended t cf env u st ex (helpers_run (start_log s)) ([], False)
    (park_chain n t cf env (run_oneshot m t cfs env c (after_failure (oneshot_chain_fail t cf env c e s))))"
proof -
  let ?s = "push_error u (ServiceStartError e) (s\<lparr>current_exec_argv := None\<rparr>)"
  obtain x sc where x: "tbl_get t u = Some x" "specific x = Service sc" using assms(1) by (auto simp: chain_live_def)
  have live: "chain_live t cf env u st ex ?s" using assms(1) by simp
  have fail: "oneshot_chain_fail t cf env c e s = fail_deferred_start t cf env u e ?s"
    using x assms(2) by (simp add: oneshot_chain_fail_def)
  show ?thesis
  proof (cases "start_stoppost (cf u) = []")
    case True
    then show ?thesis
      using cleanup_ends [OF live, of e] x fail
      by (auto simp: fail_deferred_start_def after_failure_def park_chain_def oneshot_ended_def left_post_def)
  next
    case False
    let ?p = "\<lparr>start_id = u, next_services_ids = [], filter_ids = [], start_source = Regular,
      start_phase = Poststop_after_error 0 e, errors_of_request = False\<rparr>"
    let ?s' = "log_start [Kill_all_remaining] (?s\<lparr>start_exit := (start_exit ?s)\<lparr>main_pid := None\<rparr>\<rparr>)"
    have "start_ended u (cf u) st (ex\<lparr>main_pid := None\<rparr>) (helpers_run (start_log ?s')) (left (cf u) env (Poststop_after_error 0 e))
        (run_start_chain n t cf env (service_start_chain_step t cf env ?p ?s'))"
      using start_chain_runs_left [of t cf env ?p st "ex\<lparr>main_pid := None\<rparr>" ?s' "cf u" n] live assms(4-7)
      by (auto simp: chain_live_def)
    then show ?thesis
      using x fail False assms(3)
      by (auto simp: fail_deferred_start_def after_failure_def park_chain_def oneshot_ended_def start_ended_def
        split: option.splits outcome.splits)
  qed
qed

lemma oneshot_step_last:
  assumes "chain_live t cf env u st ex s" "oneshot_id c = u" "current_exec_argv s = exec_at (exec (cf u)) i"
    "distinct (map show_commandline (exec (cf u)))" "exec (cf u) \<noteq> []" "i < length (exec (cf u))" "length (exec (cf u)) \<le> i + 1"
  shows "oneshot_ended t cf env u st ex (helpers_run (start_log s)) ([], True)
    (park_chain n t cf env (run_oneshot m t cfs env c (Returns (oneshot_chain_step t cf env c s))))"
  using assms
  by (auto simp: chain_live_def oneshot_chain_step_def Let_def park_chain_def oneshot_ended_def log_start_def last_conv_nth
      push_error_def split: sum.split)

lemma oneshot_step_helper:
  assumes "chain_live t cf env u st ex s" "oneshot_id c = u" "current_exec_argv s = exec_at (exec (cf u)) i"
    "distinct (map show_commandline (exec (cf u)))" "i + 1 < length (exec (cf u))"
    "could_spawn (exec_answer env (length (helpers_run (start_log s))))" "h = exec (cf u) ! i"
  shows "oneshot_chain_step t cf env c s = (Oneshot_advanced (start_pid env h) h (start_timeout (cf u)),
    log_start [Run_start_helper h] (s\<lparr>current_exec_argv := exec_at (exec (cf u)) (i + 1)\<rparr>))"
  using assms
  by (cases "exec_answer env (length (helpers_run (start_log s)))")
    (auto simp: chain_live_def oneshot_chain_step_def Let_def log_start_def)

lemma oneshot_ended_Cons:
  "oneshot_ended t cf env u st ex hs (h # run, b) r = oneshot_ended t cf env u st ex (hs @ [h]) (run, b) r"
  by (cases b) (simp_all add: oneshot_ended_def)

lemma drop_butlast_nth:
  "i + 1 < length hs \<Longrightarrow> drop i (butlast hs) = hs ! i # drop (i + 1) (butlast hs)"
  by (simp add: Cons_nth_drop_Suc [symmetric] nth_butlast)

lemma resume_oneshot_fails:
  assumes "\<not> run_cmd (exec_answer env (length (helpers_run (start_log s)) - 1)) h"
    "could_spawn (exec_answer env (length (helpers_run (start_log s)) - 1))"
    "exec_answer env (length (helpers_run (start_log s)) - 1) = Overruns \<Longrightarrow> w \<noteq> None"
  shows "\<exists>es e. helpers_run es = [] \<and> resume_oneshot t cf env c h pid w s
    = after_failure (oneshot_chain_fail t cf env c e (log_start es s))"
proof (cases "exec_answer env (length (helpers_run (start_log s)) - 1)")
  case (Exits code)
  show ?thesis
    by (insert assms Exits, rule exI [where x = "[] :: start_effect list"])
      (auto simp: resume_oneshot_def oneshot_chain_child_exited_def)
next
  case Overruns
  show ?thesis
    by (insert assms Overruns, rule exI [where x = "[Kill_start_helper pid]"])
      (auto simp: resume_oneshot_def oneshot_chain_timed_out_def)
qed (use assms in simp)

lemma oneshot_chain_runs:
  assumes "chain_live t cf env u st ex s" "oneshot_id c = u" "current_exec_argv s = exec_at (exec (cf u)) i"
    "distinct (map show_commandline (exec (cf u)))" "i < length (exec (cf u))" "dispatcher_live env" "post_spawnable (cf u) env"
    "condition_codes (cf u) env" "length (start_stoppost (cf u)) \<le> n" "length (exec (cf u)) \<le> m + i + 1"
    "oneshot_spawns env (length (helpers_run (start_log s))) (length (exec (cf u)) - i)"
    "helpers_end (cf u) env"
  shows "oneshot_ended t cf env u st ex (helpers_run (start_log s))
    (run_all_cmds (exec_answer env) (length (helpers_run (start_log s))) (drop i (butlast (exec (cf u)))))
    (park_chain n t cf env (run_oneshot m t (\<lambda>_. cf) env c (Returns (oneshot_chain_step t cf env c s))))"
  using assms(1,3,5,10,11)
proof (induction m arbitrary: i s)
  case 0
  then show ?case using oneshot_step_last [OF 0(1) assms(2) 0(2) assms(4)] by force
next
  case (Suc m)
  let ?hs = "exec (cf u)" and ?l = "length (helpers_run (start_log s))"
  show ?case
  proof (cases "i + 1 < length ?hs")
    case False
    then show ?thesis using oneshot_step_last [OF Suc(2) assms(2) Suc(3) assms(4)] Suc(4) by force
  next
    case True
    let ?h = "?hs ! i"
    let ?s = "log_start [Run_start_helper ?h] (s\<lparr>current_exec_argv := exec_at ?hs (i + 1)\<rparr>)"
    have spawns: "could_spawn (exec_answer env ?l)" "oneshot_spawns env (?l + 1) (length ?hs - (i + 1))"
      using Suc(6) True by (auto simp: oneshot_spawns_def list_all_iff)
    note step = oneshot_step_helper [OF Suc(2) assms(2) Suc(3) assms(4) True spawns(1) refl]
    have live: "chain_live t cf env u st ex ?s" using Suc(2) by simp
    have run: "run_oneshot (Suc m) t (\<lambda>_. cf) env c (Returns (oneshot_chain_step t cf env c s))
        = run_oneshot m t (\<lambda>_. cf) env c (resume_oneshot t cf env c ?h (start_pid env ?h) (start_timeout (cf u)) ?s)"
      using step by simp
    have cmds: "run_all_cmds (exec_answer env) ?l (drop i (butlast ?hs)) =
        (if run_cmd (exec_answer env ?l) ?h
         then (case run_all_cmds (exec_answer env) (?l + 1) (drop (i + 1) (butlast ?hs)) of (run, ok) \<Rightarrow> (?h # run, ok))
         else ([?h], False))"
      by (simp add: drop_butlast_nth [OF True])
    note fail = oneshot_fail_ends [where cf = cf and u = u and c = c and n = n, OF _ assms(2,6-9,12)]
    show ?thesis
    proof (cases "run_cmd (exec_answer env ?l) ?h")
      case ok: True
      then have "resume_oneshot t cf env c ?h (start_pid env ?h) (start_timeout (cf u)) ?s = Returns (oneshot_chain_step t cf env c ?s)"
        using spawns(1) by (cases "exec_answer env ?l") (auto simp: resume_oneshot_def oneshot_chain_child_exited_def)
      moreover have "oneshot_ended t cf env u st ex (helpers_run (start_log ?s))
          (run_all_cmds (exec_answer env) (?l + 1) (drop (i + 1) (butlast ?hs)))
          (park_chain n t cf env (run_oneshot m t (\<lambda>_. cf) env c (Returns (oneshot_chain_step t cf env c ?s))))"
        using Suc.IH [of ?s "i + 1"] live True Suc(5) spawns(2) by simp
      ultimately show ?thesis
        using cmds ok run by (auto simp: oneshot_ended_Cons split: prod.split)
    next
      case bad: False
      obtain e es where "helpers_run es = []" "resume_oneshot t cf env c ?h (start_pid env ?h) (start_timeout (cf u)) ?s
          = after_failure (oneshot_chain_fail t cf env c e (log_start es ?s))"
        using resume_oneshot_fails [of env ?s ?h "start_timeout (cf u)" t cf c "start_pid env ?h"] bad spawns(1) assms(12)
        by (auto simp: helpers_end_def)
      then show ?thesis
        using fail [of t st ex "log_start es ?s" m "\<lambda>_. cf" e] live cmds bad run by (auto simp: oneshot_ended_Cons)
    qed
  qed
qed

text \<open>
  C28: the commands of a one-shot service.  What is asked for: the unit is loaded, is a service and
  is starting; the table is free for the clean-up, and the delay of its restart does not overflow;
  there is a command, and the chain is at the first one; the configuration is not reloaded while
  the chain runs; no two command lines are equal (\<open>repeated_command_loops\<close>); every command can be
  spawned (\<open>oneshot_spawn_failure_leaks\<close>), and an \<open>ExecStopPost=\<close> command that cannot is marked with a
  minus; the dispatcher that drives the clean-up is there; exit codes of conditions are between 0
  and 255; and a start timeout is set, or nothing overruns.  Then all commands but the last run in order, each
  once, up to the first that fails without a minus; when all are done the last is forked as the
  main process, and the unit keeps its status.  After a failure the \<open>ExecStopPost=\<close> commands run, up to
  the first that fails, and the unit is failed, or restarting, without a main process.  It takes at
  most as many events as there are commands.
\<close>

theorem oneshot_runs_its_commands:
  assumes "chain_live t cf env u st ex s" "oneshot_id c = u" "current_exec_argv s = None" "helpers_run (start_log s) = hs"
    "distinct (map show_commandline (exec (cf u)))" "exec (cf u) \<noteq> []" "oneshot_spawns env (length hs) (length (exec (cf u)))"
    "dispatcher_live env" "post_spawnable (cf u) env" "condition_codes (cf u) env" "helpers_end (cf u) env"
    "length (exec (cf u)) + length (start_stoppost (cf u)) \<le> n"
  shows "\<exists>out s'. park_chain n t cf env (run_oneshot n t (\<lambda>_. cf) env c (Returns (oneshot_chain_step t cf env c s)))
      = Some (Returns (out, s'))
    \<and> (case run_all_cmds (exec_answer env) (length hs) (butlast (exec (cf u))) of
         (run, True) \<Rightarrow>
           helpers_run (start_log s') = hs @ run \<and> last (start_log s') = Fork_main_process (Some (last (exec (cf u))))
           \<and> start_statuses s' = st \<and> out = (case fork_main env of Inr _ \<Rightarrow> Await_completion | Inl _ \<Rightarrow> Oneshot_finished)
       | (run, False) \<Rightarrow>
           helpers_run (start_log s') = hs @ run @ fst (run_all_cmds (poststop_answer env) 0 (start_stoppost (cf u)))
           \<and> start_failed u (cf u) st ex s' \<and> out = Oneshot_finished)"
proof -
  have "oneshot_ended t cf env u st ex hs (run_all_cmds (exec_answer env) (length hs) (butlast (exec (cf u))))
      (park_chain n t cf env (run_oneshot n t (\<lambda>_. cf) env c (Returns (oneshot_chain_step t cf env c s))))"
    using oneshot_chain_runs [of t cf env u st ex s c 0 n n] assms by simp
  then show ?thesis
    by (cases "run_all_cmds (exec_answer env) (length hs) (butlast (exec (cf u)))"; cases "snd (run_all_cmds (exec_answer env) (length hs) (butlast (exec (cf u))))")
      (auto simp: oneshot_ended_def left_post_def)
qed

definition three_steps :: start_conf where
  "three_steps = three_helpers\<lparr>exec := [script ''/bin/d'', script ''/bin/e'', script ''/bin/f'']\<rparr>"

definition step_chain :: oneshot_chain where
  "step_chain = \<lparr>oneshot_id = lock_c, oneshot_next = [], oneshot_filter = [], oneshot_source = DeferNotifyWait\<rparr>"

theorem oneshot_runs_its_commands_witness:
  "\<exists>out s'. park_chain 4 start_table (\<lambda>_. three_steps) start_env_b (run_oneshot 4 start_table (\<lambda>_ _. three_steps) start_env_b step_chain
        (Returns (oneshot_chain_step start_table (\<lambda>_. three_steps) start_env_b step_chain starting_state))) = Some (Returns (out, s'))
    \<and> helpers_run (start_log s') = [script ''/bin/d'', script ''/bin/e'']
    \<and> last (start_log s') = Fork_main_process (Some (script ''/bin/f'')) \<and> start_statuses s' = (\<lambda>_. Starting) \<and> out = Await_completion"
proof -
  have "run_all_cmds (exec_answer start_env_b) 0 (butlast (exec three_steps)) = ([script ''/bin/d'', script ''/bin/e''], True)"
    by (simp add: start_example_defs three_steps_def)
  moreover have "chain_live start_table (\<lambda>_. three_steps) start_env_b lock_c (\<lambda>_. Starting) (running\<lparr>main_pid := None\<rparr>) starting_state"
    by (simp add: chain_live_def start_example_defs three_steps_def restart_delay_def plain_service_def)
  moreover have "post_spawnable three_steps start_env_b" "condition_codes three_steps start_env_b" "oneshot_spawns start_env_b 0 3"
      "helpers_end three_steps start_env_b"
    by (simp_all add: helpers_end_def post_spawnable_def condition_codes_def oneshot_spawns_def list_all_iff start_example_defs three_steps_def)
  moreover have "distinct (map show_commandline (exec three_steps))"
    by (simp add: start_example_defs three_steps_def show_commandline_def)
  moreover have "exec three_steps \<noteq> []" "length (exec three_steps) = 3" "length (start_stoppost three_steps) = 1"
      "last (exec three_steps) = script ''/bin/f''" "dispatcher_live start_env_b" "fork_main start_env_b = Inr None"
      "helpers_run (start_log starting_state) = []" "current_exec_argv starting_state = None" "oneshot_id step_chain = lock_c"
    by (simp_all add: step_chain_def three_steps_def three_helpers_def starting_state_def start_env_b_def)
  ultimately show ?thesis
    using oneshot_runs_its_commands [of start_table "\<lambda>_. three_steps" start_env_b lock_c "\<lambda>_. Starting" "running\<lparr>main_pid := None\<rparr>"
        starting_state step_chain "[]" 4]
    by simp
qed

text \<open>
  Two equal lines in front: the place found again is always that of the first, and the second is run
  for ever.
\<close>

theorem repeated_command_loops:
  assumes "tbl_get t (oneshot_id c) = Some x" "specific x = Service sc" "exec (cf (oneshot_id c)) = h # h # h' # hs"
    "\<And>i. exec_answer env i = Exits (Exit 0)"
  shows "run_oneshot n t (\<lambda>_. cf) env c (Returns (oneshot_chain_step t cf env c (s\<lparr>current_exec_argv := Some (show_commandline h)\<rparr>))) = None"
proof (induction n arbitrary: s)
  case 0
  then show ?case using assms by (simp add: oneshot_chain_step_def next_exec_def Let_def)
next
  case (Suc n)
  let ?s = "s\<lparr>current_exec_argv := Some (show_commandline h)\<rparr>"
  have "oneshot_chain_step t cf env c ?s
      = (Oneshot_advanced (start_pid env h) h (start_timeout (cf (oneshot_id c))), log_start [Run_start_helper h] ?s)"
    using assms by (simp add: oneshot_chain_step_def next_exec_def Let_def)
  moreover have "log_start [Run_start_helper h] ?s = (log_start [Run_start_helper h] s)\<lparr>current_exec_argv := Some (show_commandline h)\<rparr>"
    by (simp add: log_start_def)
  ultimately show ?case
    using assms(4) Suc.IH by (simp add: resume_oneshot_def oneshot_chain_child_exited_def)
qed

text \<open>A command that cannot be spawned, minus or not, leaves the unit starting with nothing to wait for.\<close>

theorem oneshot_spawn_failure_leaks:
  assumes "tbl_get t u = Some x" "specific x = Service sc" "oneshot_id c = u" "exec (cf u) = h # h' # hs"
    "current_exec_argv s = None" "exec_answer env (length (helpers_run (start_log s))) = Spawn_error e" "start_statuses s u = Starting"
  shows "\<exists>s'. oneshot_chain_step t cf env c s = (Oneshot_finished, s') \<and> start_statuses s' u = Starting"
  using assms by (simp add: oneshot_chain_step_def next_exec_def Let_def)

end
