(* ===== verification/StartWait.thy ===== *)
theory StartWait
  imports OneshotChain
begin

text \<open>
  A start that waits for its service (\<open>entrypoints/dispatcher.rs\<close>): the dispatcher parks it, looks at
  it again when a notification, an exit or the bus name comes in, and lets its deadline expire:
  one grace for messages on their way, SIGTERM, then the stop timeout.  The decision is that of
  \<open>evaluate_start_wait\<close>, the end of a start that is ready that of \<open>finish_deferred_start\<close>
  (\<open>units/unitset_manipulation/activate.rs\<close>).

  What the dispatcher reads of the unit at a time is an argument, before and after the pending
  notifications are drained.  Times are nanoseconds.
\<close>

section \<open>The verdict\<close>

datatype service_type =
  Type_simple | Type_notify | Type_notify_reload | Type_dbus | Type_oneshot | Type_forking | Type_idle | Type_exec

record wait_conf =
  srcv_type :: service_type
  wait_success :: success_exit_status
  wait_exec :: "commandline list"
  wait_start_timeout :: "nat option"
  wait_stop_timeout :: "nat option"
  bus_name :: "string option"
  pid_file :: "string option"
  guess_main_pid :: bool

record unit_view =
  seen_status :: "unit_status option"
  seen_service :: bool
  seen_exit :: "int option"
  seen_termination :: "child_termination option"
  signaled_ready :: bool
  reloading :: bool
  extension :: "(nat \<times> nat) option"
  live_pid :: bool

datatype start_wait_verdict = Pending | Ready | Abandoned | Fail string

definition exit_success :: "wait_conf \<Rightarrow> service_type \<Rightarrow> unit_view \<Rightarrow> bool option" where
  "exit_success k ty v =
     (if ty = Type_oneshot \<or> ty = Type_forking
      then map_option (\<lambda>code.
          (case seen_termination v of
             Some term \<Rightarrow> is_success (wait_success k) term
           | None \<Rightarrow> code = 0 \<or> code \<in> set (exit_codes (wait_success k)))
          \<or> (wait_exec k \<noteq> [] \<and> has_minus (last (wait_exec k)))) (seen_exit v)
      else None)"

definition evaluate_start_wait :: "wait_conf \<Rightarrow> service_type \<Rightarrow> bool \<Rightarrow> bool \<Rightarrow> unit_view \<Rightarrow> start_wait_verdict" where
  "evaluate_start_wait k ty exec_confirm_elapsed bus_done v =
     (if seen_status v \<noteq> Some Starting \<or> \<not> seen_service v then Abandoned
      else
        case ty of
          Type_oneshot \<Rightarrow>
            (case exit_success k ty v of Some True \<Rightarrow> Ready | Some False \<Rightarrow> Abandoned | None \<Rightarrow> Pending)
        | Type_forking \<Rightarrow>
            (case exit_success k ty v of
               Some True \<Rightarrow> Ready | Some False \<Rightarrow> Fail ''Forking ExecStart parent exited with failure'' | None \<Rightarrow> Pending)
        | Type_exec \<Rightarrow>
            if seen_exit v = Some 203 then Fail ''exec() of the service binary failed''
            else if exec_confirm_elapsed then Ready else Pending
        | Type_dbus \<Rightarrow> if bus_done then Ready else if seen_exit v \<noteq> None then Abandoned else Pending
        | Type_notify \<Rightarrow>
            if signaled_ready v \<or> reloading v then Ready
            else if seen_exit v \<noteq> None then Fail ''Service exited before sending READY=1'' else Pending
        | Type_notify_reload \<Rightarrow>
            if signaled_ready v \<or> reloading v then Ready
            else if seen_exit v \<noteq> None then Fail ''Service exited before sending READY=1'' else Pending
        | _ \<Rightarrow> if signaled_ready v \<or> reloading v then Ready else Pending)"

text \<open>The daemon of a forking service: from its PID file, as reported, or the only process left.\<close>

definition forking_daemon :: "wait_conf \<Rightarrow> (string \<Rightarrow> nat option) \<Rightarrow> nat option \<Rightarrow> nat option \<Rightarrow> nat option" where
  "forking_daemon k read_pid_file reported guess =
     (case pid_file k of
        Some f \<Rightarrow> read_pid_file f
      | None \<Rightarrow> (case reported of Some p \<Rightarrow> Some p | None \<Rightarrow> if guess_main_pid k then guess else None))"

text \<open>An extension is a number of microseconds from the time it was asked for; it never shortens.\<close>

definition effective_start_deadline :: "nat option \<Rightarrow> unit_view \<Rightarrow> nat option" where
  "effective_start_deadline base v =
     (case base of
        None \<Rightarrow> None
      | Some b \<Rightarrow>
          if seen_status v \<noteq> None \<and> seen_service v
          then (case extension v of Some (usec, ts) \<Rightarrow> Some (max b (ts + usec * 1000)) | None \<Rightarrow> Some b)
          else Some b)"

section \<open>Parked starts\<close>

record start_wait =
  wait_id :: unit_id
  wait_type :: service_type
  wait_next :: "unit_id list"
  wait_filter :: "unit_id list"
  wait_source :: activation_source
  wait_timeout :: "nat option"
  base_deadline :: "nat option"
  armed_deadline :: "nat option"
  stop_grace :: nat
  term_sent_at :: "nat option"
  exec_confirm_at :: "nat option"
  bus_name_seen :: bool
  grace_used :: bool

datatype wait_effect =
  Watch_bus_name string "nat option"
  | Drain_notifications nat
  | Start_sigterm nat
  | Finish_start
  | Redrive_dependents
  | Fail_start nat string

datatype wait_status =
  Parked start_wait
  | Wait_over

type_synonym wait_result = "wait_status \<times> wait_effect list"

definition wait_seconds :: "nat \<Rightarrow> nat" where
  "wait_seconds n = n * 1000000000"

definition progress_start_wait :: "wait_conf \<Rightarrow> nat \<Rightarrow> unit_view \<Rightarrow> start_wait \<Rightarrow> bool \<Rightarrow> wait_result" where
  "progress_start_wait k time v w exec_confirm_elapsed =
     (case evaluate_start_wait k (wait_type w) exec_confirm_elapsed (bus_name_seen w) v of
        Pending \<Rightarrow> (Parked w, [])
      | Abandoned \<Rightarrow> (Wait_over, [Redrive_dependents])
      | Fail why \<Rightarrow> (Wait_over, [Fail_start time why])
      | Ready \<Rightarrow> (Wait_over, [Finish_start]))"

text \<open>What a start carries to its registration; a unit that is gone, or is no service, is not parked.\<close>

record start_wait_params =
  param_id :: unit_id
  param_next :: "unit_id list option"
  param_filter :: "unit_id list"
  param_source :: activation_source
  check_starting :: bool

definition start_wait_setup :: "wait_conf \<Rightarrow> unit_view \<Rightarrow> unit_id list \<Rightarrow> start_wait_params \<Rightarrow> unit_id list option" where
  "start_wait_setup k v before_ids p =
     (if seen_status v = None then None
      else if check_starting p \<and> seen_status v \<noteq> Some Starting then None
      else if seen_service v then Some (case param_next p of Some ns \<Rightarrow> ns | None \<Rightarrow> before_ids)
      else None)"

definition register_start_wait :: "wait_conf \<Rightarrow> nat \<Rightarrow> unit_view \<Rightarrow> unit_id list \<Rightarrow> start_wait_params \<Rightarrow> wait_result" where
  "register_start_wait k time v before_ids p =
     (case start_wait_setup k v before_ids p of
        None \<Rightarrow> (Wait_over, [])
      | Some ns \<Rightarrow>
          let base = map_option (\<lambda>d. time + d) (wait_start_timeout k);
              w = \<lparr>wait_id = param_id p, wait_type = srcv_type k, wait_next = ns, wait_filter = param_filter p,
                   wait_source = param_source p, wait_timeout = wait_start_timeout k, base_deadline = base, armed_deadline = base,
                   stop_grace = (case wait_stop_timeout k of Some d \<Rightarrow> d | None \<Rightarrow> wait_seconds 90), term_sent_at = None,
                   exec_confirm_at = (if srcv_type k = Type_exec then Some (time + 500000000) else None),
                   bus_name_seen = False, grace_used = False\<rparr>
          in
          case (srcv_type k = Type_dbus, bus_name k) of
            (True, None) \<Rightarrow> (Wait_over, [Fail_start time ''No BusName= configured for Type=dbus service''])
          | (True, Some b) \<Rightarrow>
              (case progress_start_wait k time v w False of (r, es) \<Rightarrow> (r, Watch_bus_name b (wait_start_timeout k) # es))
          | (False, _) \<Rightarrow> progress_start_wait k time v w False)"

definition wait_due :: "nat \<Rightarrow> start_wait \<Rightarrow> bool" where
  "wait_due time w \<longleftrightarrow>
     (case exec_confirm_at w of Some d \<Rightarrow> d \<le> time | None \<Rightarrow> False)
     \<or> (case armed_deadline w of Some d \<Rightarrow> d \<le> time | None \<Rightarrow> False)"

text \<open>The deadline wheel, for one wait; \<open>drained\<close> is the unit after its notifications are drained.\<close>

definition escalate_start_wait :: "wait_conf \<Rightarrow> (nat option \<Rightarrow> string) \<Rightarrow> nat \<Rightarrow> unit_view \<Rightarrow> unit_view \<Rightarrow> start_wait \<Rightarrow> wait_result" where
  "escalate_start_wait k show_dur time v drained w =
     (case term_sent_at w of
        None \<Rightarrow>
          if \<not> grace_used w then
            let after = (case effective_start_deadline (base_deadline w) drained of
                  Some e \<Rightarrow> if time < e then e else time + wait_seconds 2
                | None \<Rightarrow> time + wait_seconds 2)
            in (Parked (w\<lparr>grace_used := True, armed_deadline := Some after\<rparr>), [Drain_notifications time])
          else
            (Parked (w\<lparr>term_sent_at := Some time, armed_deadline := Some (time + stop_grace w)\<rparr>), [Start_sigterm time])
      | Some _ \<Rightarrow>
          if seen_status v \<noteq> Some Starting then (Wait_over, [])
          else if \<not> live_pid v
          then progress_start_wait k time v (w\<lparr>armed_deadline := Some (time + 500000000)\<rparr>) False
          else (Wait_over, [Fail_start time (''Timed out starting ('' @ show_dur (wait_timeout w) @ '')'')]))"

definition expire_start_wait :: "wait_conf \<Rightarrow> (nat option \<Rightarrow> string) \<Rightarrow> nat \<Rightarrow> unit_view \<Rightarrow> unit_view \<Rightarrow> start_wait \<Rightarrow> wait_result" where
  "expire_start_wait k show_dur time v drained w =
     (if \<not> wait_due time w then (Parked w, [])
      else if (case exec_confirm_at w of Some d \<Rightarrow> d \<le> time | None \<Rightarrow> False)
      then progress_start_wait k time v (w\<lparr>exec_confirm_at := None\<rparr>) True
      else
        case effective_start_deadline (base_deadline w) v of
          Some e \<Rightarrow>
            if time < e then (Parked (w\<lparr>armed_deadline := Some e\<rparr>), []) else escalate_start_wait k show_dur time v drained w
        | None \<Rightarrow> escalate_start_wait k show_dur time v drained w)"

text \<open>A notification also moves the deadline, as long as no signal was sent.\<close>

definition notify_start_wait :: "wait_conf \<Rightarrow> nat \<Rightarrow> unit_view \<Rightarrow> start_wait \<Rightarrow> wait_result" where
  "notify_start_wait k time v w =
     (let refreshed = effective_start_deadline (base_deadline w) v;
          w' = (if term_sent_at w = None
                then w\<lparr>armed_deadline := (case (armed_deadline w, refreshed) of
                        (Some current, Some new) \<Rightarrow> Some (max current new)
                      | (current, new) \<Rightarrow> (case new of Some n \<Rightarrow> Some n | None \<Rightarrow> current))\<rparr>
                else w)
      in progress_start_wait k time v w' False)"

text \<open>The events of a parked start, and a run of them.\<close>

datatype wait_event =
  Wheel
  | Notified
  | Main_exited
  | Recheck
  | Bus_name bool string

record wait_env =
  view_at :: "nat \<Rightarrow> unit_view"
  drained_at :: "nat \<Rightarrow> unit_view"
  show_duration :: "nat option \<Rightarrow> string"

fun on_wait_event :: "wait_conf \<Rightarrow> wait_env \<Rightarrow> nat \<Rightarrow> wait_event \<Rightarrow> start_wait \<Rightarrow> wait_result" where
  "on_wait_event k env time Wheel w = expire_start_wait k (show_duration env) time (view_at env time) (drained_at env time) w"
| "on_wait_event k env time Notified w = notify_start_wait k time (view_at env time) w"
| "on_wait_event k env time Main_exited w = progress_start_wait k time (view_at env time) w False"
| "on_wait_event k env time Recheck w =
     (if wait_type w = Type_oneshot \<or> wait_type w = Type_forking
      then progress_start_wait k time (view_at env time) w False else (Parked w, []))"
| "on_wait_event k env time (Bus_name ok msg) w =
     (if ok then progress_start_wait k time (view_at env time) (w\<lparr>bus_name_seen := True\<rparr>) False
      else (Wait_over, [Fail_start time msg]))"

fun run_wait :: "wait_conf \<Rightarrow> wait_env \<Rightarrow> (nat \<times> wait_event) list \<Rightarrow> wait_result \<Rightarrow> wait_result" where
  "run_wait k env [] r = r"
| "run_wait k env ((time, e) # es) (Wait_over, log) = (Wait_over, log)"
| "run_wait k env ((time, e) # es) (Parked w, log) =
     (case on_wait_event k env time e w of (r, log') \<Rightarrow> run_wait k env es (r, log @ log'))"

section \<open>Patience\<close>

text \<open>
  Before the signal at \<open>sig\<close> the unit had its timeout, with the extension it asked for, and its
  notifications were drained once and given time to come in.
\<close>

definition given_time :: "wait_env \<Rightarrow> nat option \<Rightarrow> wait_effect list \<Rightarrow> nat \<Rightarrow> bool" where
  "given_time env base log sig \<longleftrightarrow>
     (\<exists>q b. Drain_notifications q \<in> set log \<and> base = Some b \<and> b \<le> q
        \<and> (q + wait_seconds 2 \<le> sig
           \<or> (\<exists>e. effective_start_deadline base (drained_at env q) = Some e \<and> q < e \<and> e \<le> sig)))"

definition sigterm_fair :: "wait_env \<Rightarrow> nat option \<Rightarrow> wait_effect list \<Rightarrow> nat \<Rightarrow> bool" where
  "sigterm_fair env base log sig \<longleftrightarrow>
     given_time env base log sig \<and> (\<exists>e. effective_start_deadline base (view_at env sig) = Some e \<and> e \<le> sig)"

text \<open>
  A failure is what the unit shows, what the bus says, a type without a bus name, or the end of the
  stop timeout after the signal with the process still there.
\<close>

definition failure_fair :: "wait_conf \<Rightarrow> wait_env \<Rightarrow> (nat \<times> wait_event) list \<Rightarrow> nat \<Rightarrow> wait_effect list \<Rightarrow> nat \<Rightarrow> string \<Rightarrow> bool" where
  "failure_fair k env es grace log f why \<longleftrightarrow>
     (\<exists>c b. evaluate_start_wait k (srcv_type k) c b (view_at env f) = Fail why)
     \<or> (f, Bus_name False why) \<in> set es
     \<or> srcv_type k = Type_dbus \<and> bus_name k = None
     \<or> (\<exists>sig. Start_sigterm sig \<in> set log \<and> sig + grace \<le> f
          \<and> seen_status (view_at env f) = Some Starting \<and> live_pid (view_at env f))"

fun is_sigterm :: "wait_effect \<Rightarrow> bool" where
  "is_sigterm (Start_sigterm _) = True"
| "is_sigterm _ = False"

definition log_fair :: "wait_conf \<Rightarrow> wait_env \<Rightarrow> (nat \<times> wait_event) list \<Rightarrow> nat option \<Rightarrow> nat \<Rightarrow> wait_effect list \<Rightarrow> bool" where
  "log_fair k env es base grace log \<longleftrightarrow>
     length (filter is_sigterm log) \<le> 1
     \<and> (\<forall>sig. Start_sigterm sig \<in> set log \<longrightarrow> sigterm_fair env base log sig)
     \<and> (\<forall>f why. Fail_start f why \<in> set log \<longrightarrow> failure_fair k env es grace log f why)"

definition parked_fair :: "wait_conf \<Rightarrow> wait_env \<Rightarrow> (nat \<times> wait_event) list \<Rightarrow> nat option \<Rightarrow> nat \<Rightarrow> start_wait \<Rightarrow> wait_effect list \<Rightarrow> bool" where
  "parked_fair k env es base grace w log \<longleftrightarrow>
     log_fair k env es base grace log \<and> wait_type w = srcv_type k \<and> base_deadline w = base \<and> stop_grace w = grace
     \<and> (case base of None \<Rightarrow> armed_deadline w = None | Some b \<Rightarrow> \<exists>a. armed_deadline w = Some a \<and> b \<le> a)
     \<and> (case term_sent_at w of
          None \<Rightarrow> filter is_sigterm log = []
            \<and> (\<forall>a. grace_used w \<longrightarrow> armed_deadline w = Some a \<longrightarrow> given_time env base log a)
        | Some sig \<Rightarrow> Start_sigterm sig \<in> set log \<and> (\<forall>a. armed_deadline w = Some a \<longrightarrow> sig + grace \<le> a))"

lemma given_time_mono: "given_time env base log a \<Longrightarrow> a \<le> b \<Longrightarrow> given_time env base (log @ l) b"
  by (fastforce simp: given_time_def)

lemma sigterm_fair_append: "sigterm_fair env base log sig \<Longrightarrow> sigterm_fair env base (log @ l) sig"
  by (auto simp: sigterm_fair_def intro: given_time_mono)

lemma failure_fair_append: "failure_fair k env es grace log f why \<Longrightarrow> failure_fair k env es grace (log @ l) f why"
  by (auto simp: failure_fair_def)

text \<open>Effects that are neither a signal nor a failure change nothing.\<close>

lemma log_fair_harmless:
  assumes "log_fair k env es base grace log" "\<forall>e \<in> set l. \<not> is_sigterm e \<and> (\<forall>f why. e \<noteq> Fail_start f why)"
  shows "log_fair k env es base grace (log @ l)"
proof -
  have "filter is_sigterm l = []" using assms(2) by (auto simp: filter_empty_conv)
  moreover have "Start_sigterm sig \<notin> set l" for sig using assms(2) by force
  moreover have "Fail_start f why \<notin> set l" for f why using assms(2) by blast
  ultimately show ?thesis
    using assms(1) by (auto simp: log_fair_def intro: sigterm_fair_append failure_fair_append)
qed

lemma log_fair_failure:
  assumes "log_fair k env es base grace log" "failure_fair k env es grace log f why"
  shows "log_fair k env es base grace (log @ [Fail_start f why])"
  using assms by (auto simp: log_fair_def intro: sigterm_fair_append failure_fair_append)

text \<open>An event keeps the log fair, and the wait, if it is parked again.\<close>

definition step_fair :: "wait_conf \<Rightarrow> wait_env \<Rightarrow> (nat \<times> wait_event) list \<Rightarrow> nat option \<Rightarrow> nat \<Rightarrow> wait_effect list \<Rightarrow> wait_result \<Rightarrow> bool" where
  "step_fair k env es base grace log r \<longleftrightarrow>
     (case r of
        (Parked w, l) \<Rightarrow> parked_fair k env es base grace w (log @ l)
      | (Wait_over, l) \<Rightarrow> log_fair k env es base grace (log @ l))"

lemma progress_fair:
  assumes "parked_fair k env es base grace w log"
  shows "step_fair k env es base grace log (progress_start_wait k time (view_at env time) w c)"
proof (cases "evaluate_start_wait k (wait_type w) c (bus_name_seen w) (view_at env time)")
  case (Fail why)
  then have "failure_fair k env es grace log time why" using assms by (auto simp: failure_fair_def parked_fair_def)
  then show ?thesis
    using Fail assms log_fair_failure by (auto simp: step_fair_def progress_start_wait_def parked_fair_def)
qed (use assms in \<open>auto simp: step_fair_def progress_start_wait_def parked_fair_def intro!: log_fair_harmless split: option.splits\<close>)

lemma effective_deadline_from:
  "effective_start_deadline base v = (case base of None \<Rightarrow> None | Some b \<Rightarrow> Some (max b
     (if seen_status v \<noteq> None \<and> seen_service v then case extension v of Some (usec, ts) \<Rightarrow> ts + usec * 1000 | None \<Rightarrow> 0 else 0)))"
  by (auto simp: effective_start_deadline_def split: option.split)

lemma effective_deadline_le:
  "effective_start_deadline (Some b) v = Some e \<Longrightarrow> b \<le> e" "effective_start_deadline base v = None \<longleftrightarrow> base = None"
  by (auto simp: effective_deadline_from split: option.splits)

lemma parked_fair_exec [simp]:
  "parked_fair k env es base grace (w\<lparr>exec_confirm_at := c\<rparr>) log = parked_fair k env es base grace w log"
  "parked_fair k env es base grace (w\<lparr>bus_name_seen := b\<rparr>) log = parked_fair k env es base grace w log"
  by (simp_all add: parked_fair_def cong: option.case_cong)

lemma parked_fair_later:
  assumes "parked_fair k env es base grace w log" "armed_deadline w = Some a" "a \<le> a'"
  shows "parked_fair k env es base grace (w\<lparr>armed_deadline := Some a'\<rparr>) log"
  using assms given_time_mono [of env base log a a' "[]"] by (fastforce simp: parked_fair_def split: option.splits)

lemma escalate_fair:
  assumes "parked_fair k env es base grace w log" "armed_deadline w = Some a" "a \<le> time"
    "effective_start_deadline base (view_at env time) = Some e" "e \<le> time"
  shows "step_fair k env es base grace log (escalate_start_wait k sd time (view_at env time) (drained_at env time) w)"
proof (cases "term_sent_at w")
  case None
  obtain b where b: "base = Some b" "b \<le> a" "b \<le> time"
    using assms(1-3) by (cases base) (auto simp: parked_fair_def)
  show ?thesis
  proof (cases "grace_used w")
    case True
    have "given_time env base (log @ [Start_sigterm time]) time"
      using assms True None by (auto simp: parked_fair_def intro: given_time_mono)
    then have "sigterm_fair env base (log @ [Start_sigterm time]) time" using assms(4,5) by (auto simp: sigterm_fair_def)
    moreover have "log_fair k env es base grace log" "filter is_sigterm log = []" using assms(1) None by (auto simp: parked_fair_def)
    ultimately have "log_fair k env es base grace (log @ [Start_sigterm time])"
      by (auto simp: log_fair_def intro: sigterm_fair_append failure_fair_append)
    then show ?thesis
      using assms(1) None True b by (auto simp: step_fair_def escalate_start_wait_def parked_fair_def)
  next
    case False
    have "given_time env base (log @ [Drain_notifications time])
        (case effective_start_deadline base (drained_at env time) of
           Some e \<Rightarrow> if time < e then e else time + wait_seconds 2 | None \<Rightarrow> time + wait_seconds 2)"
      using b by (auto simp: given_time_def split: option.splits)
    moreover have "log_fair k env es base grace (log @ [Drain_notifications time])"
      using assms(1) by (auto simp: parked_fair_def intro: log_fair_harmless)
    ultimately show ?thesis
      using assms(1) None False b
      by (auto simp: step_fair_def escalate_start_wait_def parked_fair_def Let_def split: option.splits)
  qed
next
  case (Some sig)
  then have sig: "Start_sigterm sig \<in> set log" "sig + grace \<le> time" using assms(1-3) by (auto simp: parked_fair_def)
  then have "failure_fair k env es grace log time why" if "seen_status (view_at env time) = Some Starting" "live_pid (view_at env time)" for why
    using that by (auto simp: failure_fair_def)
  moreover have "log_fair k env es base grace log" using assms(1) by (simp add: parked_fair_def)
  ultimately show ?thesis
    using Some progress_fair [OF parked_fair_later [OF assms(1,2)], of "time + 500000000" time False] assms(3)
    by (auto simp: escalate_start_wait_def step_fair_def intro: log_fair_failure)
qed

lemma event_fair:
  assumes "parked_fair k env es base grace w log" "(time, e) \<in> set es"
  shows "step_fair k env es base grace log (on_wait_event k env time e w)"
proof (cases e)
  case Wheel
  show ?thesis
  proof (cases "wait_due time w \<and> \<not> (case exec_confirm_at w of Some d \<Rightarrow> d \<le> time | None \<Rightarrow> False)")
    case True
    then obtain a where a: "armed_deadline w = Some a" "a \<le> time" by (auto simp: wait_due_def split: option.splits)
    then obtain b where b: "base = Some b" using assms(1) by (cases base) (auto simp: parked_fair_def)
    obtain d where d: "effective_start_deadline base (view_at env time) = Some d"
      using b by (simp add: effective_deadline_from)
    have "base_deadline w = base" using assms(1) by (simp add: parked_fair_def)
    then show ?thesis
      using True Wheel a d escalate_fair [OF assms(1) a d] parked_fair_later [OF assms(1) a(1), of d]
      by (auto simp: expire_start_wait_def step_fair_def)
  next
    case False
    have "step_fair k env es base grace log (progress_start_wait k time (view_at env time) (w\<lparr>exec_confirm_at := None\<rparr>) True)"
      using assms(1) by (intro progress_fair) simp
    then show ?thesis
      using False Wheel assms(1) by (auto simp: expire_start_wait_def wait_due_def step_fair_def split: option.splits)
  qed
next
  case Notified
  have "parked_fair k env es base grace (w\<lparr>armed_deadline := Some (max a e)\<rparr>) log" if "armed_deadline w = Some a" for a e
    using parked_fair_later [OF assms(1) that] by simp
  moreover have "parked_fair k env es base grace (w\<lparr>armed_deadline := None\<rparr>) log" if "armed_deadline w = None"
    using that assms(1) by (cases w) simp
  moreover have "base_deadline w = base" "base = None \<longleftrightarrow> armed_deadline w = None"
    using assms(1) by (auto simp: parked_fair_def split: option.splits)
  ultimately have "parked_fair k env es base grace
      (if term_sent_at w = None
       then w\<lparr>armed_deadline := (case (armed_deadline w, effective_start_deadline base (view_at env time)) of
               (Some current, Some new) \<Rightarrow> Some (max current new)
             | (current, new) \<Rightarrow> (case new of Some n \<Rightarrow> Some n | None \<Rightarrow> current))\<rparr>
       else w) log"
    using assms(1) effective_deadline_le(2) [of base "view_at env time"] by (auto split: option.splits)
  then show ?thesis
    using Notified progress_fair \<open>base_deadline w = base\<close> by (simp add: notify_start_wait_def Let_def)
next
  case (Bus_name ok msg)
  have "log_fair k env es base grace (log @ [Fail_start time msg])" if "\<not> ok"
    using assms Bus_name that by (intro log_fair_failure) (auto simp: parked_fair_def failure_fair_def)
  then show ?thesis
    using assms(1) Bus_name progress_fair [of k env es base grace "w\<lparr>bus_name_seen := True\<rparr>" log time False]
    by (cases ok) (simp_all add: step_fair_def)
qed (use assms progress_fair [OF assms(1)] in \<open>auto simp: step_fair_def\<close>)

lemma run_wait_fair:
  assumes "set es' \<subseteq> set es" "run_wait k env es' r0 = (r, log)"
    "case r0 of (Parked w, l) \<Rightarrow> parked_fair k env es base grace w l | (Wait_over, l) \<Rightarrow> log_fair k env es base grace l"
  shows "log_fair k env es base grace log"
  using assms
proof (induction k env es' r0 rule: run_wait.induct)
  case (1 k env r0)
  then show ?case by (auto simp: parked_fair_def split: wait_status.splits)
next
  case (3 k env time e es' w l)
  then have "step_fair k env es base grace l (on_wait_event k env time e w)" by (auto intro: event_fair)
  then show ?case
    using 3 by (cases "on_wait_event k env time e w") (auto simp: step_fair_def)
qed auto

lemma register_fair:
  assumes "register_start_wait k t0 (view_at env t0) ids p = r0"
  shows "case r0 of
      (Parked w, l) \<Rightarrow> parked_fair k env es (map_option (\<lambda>d. t0 + d) (wait_start_timeout k))
        (case wait_stop_timeout k of Some d \<Rightarrow> d | None \<Rightarrow> wait_seconds 90) w l
    | (Wait_over, l) \<Rightarrow> log_fair k env es (map_option (\<lambda>d. t0 + d) (wait_start_timeout k))
        (case wait_stop_timeout k of Some d \<Rightarrow> d | None \<Rightarrow> wait_seconds 90) l"
proof -
  let ?base = "map_option (\<lambda>d. t0 + d) (wait_start_timeout k)"
  let ?grace = "case wait_stop_timeout k of Some d \<Rightarrow> d | None \<Rightarrow> wait_seconds 90"
  have empty: "log_fair k env es ?base ?grace []" by (simp add: log_fair_def)
  show ?thesis
  proof (cases "start_wait_setup k (view_at env t0) ids p")
    case None
    then show ?thesis using assms empty by (auto simp: register_start_wait_def)
  next
    case (Some ns)
    let ?w = "\<lparr>wait_id = param_id p, wait_type = srcv_type k, wait_next = ns, wait_filter = param_filter p,
      wait_source = param_source p, wait_timeout = wait_start_timeout k, base_deadline = ?base, armed_deadline = ?base,
      stop_grace = ?grace, term_sent_at = None,
      exec_confirm_at = (if srcv_type k = Type_exec then Some (t0 + 500000000) else None), bus_name_seen = False, grace_used = False\<rparr>"
    let ?watch = "case (srcv_type k = Type_dbus, bus_name k) of (True, Some b) \<Rightarrow> [Watch_bus_name b (wait_start_timeout k)] | _ \<Rightarrow> []"
    have "log_fair k env es ?base ?grace ?watch"
      using log_fair_harmless [OF empty, of ?watch] by (auto split: option.split bool.split)
    then have "parked_fair k env es ?base ?grace ?w ?watch"
      by (auto simp: parked_fair_def split: option.splits bool.splits)
    note started = progress_fair [OF this, of t0 False]
    show ?thesis
      using assms Some started empty
      by (auto simp: register_start_wait_def step_fair_def Let_def log_fair_def failure_fair_def
        split: option.splits bool.splits prod.splits cong: wait_status.case_cong)
  qed
qed

text \<open>
  C29: A start is not given up early.  However the events of a parked start fall, SIGTERM is sent at
  most once, not before the start timeout and the extension the service asked for by then are over,
  and after one drain of its notifications, past the timeout, that it had two seconds (or the
  extension found there) to profit from.  A start that fails was told so by its own state or by the
  bus, or its process is still there when the stop timeout after the signal is over.
\<close>

theorem start_timeout_is_patient:
  assumes "run_wait k env es (register_start_wait k t0 (view_at env t0) ids p) = (r, log)"
    "base = map_option (\<lambda>d. t0 + d) (wait_start_timeout k)"
    "grace = (case wait_stop_timeout k of Some d \<Rightarrow> d | None \<Rightarrow> wait_seconds 90)"
  shows "length (filter is_sigterm log) \<le> 1
    \<and> (\<forall>sig. Start_sigterm sig \<in> set log \<longrightarrow>
        (\<exists>e. effective_start_deadline base (view_at env sig) = Some e \<and> e \<le> sig)
        \<and> (\<exists>q b. Drain_notifications q \<in> set log \<and> base = Some b \<and> b \<le> q
            \<and> (q + wait_seconds 2 \<le> sig
               \<or> (\<exists>e. effective_start_deadline base (drained_at env q) = Some e \<and> q < e \<and> e \<le> sig))))
    \<and> (\<forall>f why. Fail_start f why \<in> set log \<longrightarrow>
        (\<exists>c b. evaluate_start_wait k (srcv_type k) c b (view_at env f) = Fail why)
        \<or> (f, Bus_name False why) \<in> set es
        \<or> srcv_type k = Type_dbus \<and> bus_name k = None
        \<or> (\<exists>sig. Start_sigterm sig \<in> set log \<and> sig + grace \<le> f
             \<and> seen_status (view_at env f) = Some Starting \<and> live_pid (view_at env f)))"
proof -
  have "log_fair k env es base grace log"
    unfolding assms(2,3) by (rule run_wait_fair [OF subset_refl assms(1)]) (rule register_fair [OF refl])
  then show ?thesis
    unfolding log_fair_def sigterm_fair_def given_time_def failure_fair_def by blast
qed

section \<open>An end\<close>

text \<open>
  The stages of a wait whose deadlines all lie before \<open>B\<close>: armed, after its grace (entered by
  \<open>p1\<close>), after the signal (entered by \<open>p2\<close>).
\<close>

definition stage :: "start_wait \<Rightarrow> nat" where
  "stage w = (if term_sent_at w \<noteq> None then 2 else if grace_used w then 1 else 0)"

definition stage_limit :: "nat \<Rightarrow> nat \<Rightarrow> nat \<Rightarrow> nat \<Rightarrow> nat \<Rightarrow> nat" where
  "stage_limit B p1 p2 grace n = (if n = 0 then B else if n = 1 then max B (p1 + wait_seconds 2) else max B (p2 + grace))"

definition stage_ok :: "wait_conf \<Rightarrow> nat option \<Rightarrow> nat \<Rightarrow> nat \<Rightarrow> nat \<Rightarrow> nat \<Rightarrow> nat \<Rightarrow> wait_result \<Rightarrow> bool" where
  "stage_ok k base B p1 p2 grace n r \<longleftrightarrow>
     (case fst r of
        Wait_over \<Rightarrow> True
      | Parked w \<Rightarrow>
          wait_type w = srcv_type k \<and> base_deadline w = base \<and> stop_grace w = grace
          \<and> (exec_confirm_at w = None \<or> srcv_type k = Type_exec) \<and> n \<le> stage w
          \<and> (\<exists>a. armed_deadline w = Some a \<and> a \<le> stage_limit B p1 p2 grace (stage w)))"

lemma stage_bus_name [simp]: "stage (w\<lparr>bus_name_seen := b\<rparr>) = stage w"
  by (simp add: stage_def)

text \<open>Every deadline the unit can ask for, and its process.\<close>

definition deadlines_by :: "wait_env \<Rightarrow> nat option \<Rightarrow> nat \<Rightarrow> bool" where
  "deadlines_by env base B \<longleftrightarrow>
     (\<forall>time. (case effective_start_deadline base (view_at env time) of Some e \<Rightarrow> e \<le> B | None \<Rightarrow> False)
       \<and> (case effective_start_deadline base (drained_at env time) of Some e \<Rightarrow> e \<le> B | None \<Rightarrow> False)
       \<and> live_pid (view_at env time))"

definition late :: "nat \<Rightarrow> nat \<Rightarrow> nat \<Rightarrow> nat \<Rightarrow> bool" where
  "late p1 p2 n time \<longleftrightarrow> (n = 0 \<longrightarrow> time \<le> p1) \<and> (n = 1 \<longrightarrow> time \<le> p2)"

lemma progress_stage:
  assumes "stage_ok k base B p1 p2 grace n (Parked w, l)"
  shows "stage_ok k base B p1 p2 grace n (progress_start_wait k time v w c)"
  using assms by (simp add: progress_start_wait_def stage_ok_def split: start_wait_verdict.split)

lemma exec_confirms:
  assumes "stage_ok k base B p1 p2 grace n (Parked w, l)" "exec_confirm_at w = Some d"
  shows "fst (progress_start_wait k time v (w\<lparr>exec_confirm_at := None\<rparr>) True) = Wait_over"
  using assms by (auto simp: progress_start_wait_def stage_ok_def evaluate_start_wait_def split: if_splits start_wait_verdict.splits)

lemma escalate_stage:
  assumes "stage_ok k base B p1 p2 grace n (Parked w, l)" "deadlines_by env base B" "late p1 p2 (stage w) time" "v = view_at env time"
  shows "stage_ok k base B p1 p2 grace (min 2 (stage w + 1)) (escalate_start_wait k sd time v (drained_at env time) w)"
    "stage w = 2 \<Longrightarrow> fst (escalate_start_wait k sd time v (drained_at env time) w) = Wait_over"
proof -
  have e: "case effective_start_deadline base (drained_at env time) of Some e \<Rightarrow> e \<le> B | None \<Rightarrow> False" "live_pid v"
    using assms(2,4) by (auto simp: deadlines_by_def)
  show "stage_ok k base B p1 p2 grace (min 2 (stage w + 1)) (escalate_start_wait k sd time v (drained_at env time) w)"
    using assms(1,3) e
    by (auto simp: escalate_start_wait_def stage_ok_def stage_def stage_limit_def late_def Let_def split: option.splits if_splits)
  show "fst (escalate_start_wait k sd time v (drained_at env time) w) = Wait_over" if "stage w = 2"
    using that e by (auto simp: escalate_start_wait_def stage_def split: option.splits if_splits)
qed

lemma stage_ok_weaken: "stage_ok k base B p1 p2 grace m r \<Longrightarrow> n \<le> m \<Longrightarrow> stage_ok k base B p1 p2 grace n r"
  by (auto simp: stage_ok_def split: wait_status.splits)

lemma stage_ok_armed:
  assumes "stage_ok k base B p1 p2 grace n (Parked w, l)" "e \<le> B"
  shows "stage_ok k base B p1 p2 grace n (Parked (w\<lparr>armed_deadline := Some e\<rparr>), l')"
    "armed_deadline w = Some a \<Longrightarrow> stage_ok k base B p1 p2 grace n (Parked (w\<lparr>armed_deadline := Some (max a e)\<rparr>), l')"
  using assms by (auto simp: stage_ok_def stage_def stage_limit_def)

lemma stage_ok_log: "stage_ok k base B p1 p2 grace n (r, l) = stage_ok k base B p1 p2 grace n (r, l')"
  by (simp add: stage_ok_def)

lemma wheel_stage:
  assumes "stage_ok k base B p1 p2 grace n (Parked w, l)" "deadlines_by env base B" "late p1 p2 n time" "p1 \<le> p2"
  shows "stage_ok k base B p1 p2 grace n (on_wait_event k env time Wheel w)"
    "stage_limit B p1 p2 grace (stage w) \<le> time \<Longrightarrow>
      stage_ok k base B p1 p2 grace (min 2 (stage w + 1)) (on_wait_event k env time Wheel w)
      \<and> (stage w = 2 \<longrightarrow> fst (on_wait_event k env time Wheel w) = Wait_over)"
proof -
  let ?v = "view_at env time" and ?d = "drained_at env time"
  have w: "base_deadline w = base" "n \<le> stage w" using assms(1) by (auto simp: stage_ok_def)
  obtain e where e: "effective_start_deadline base ?v = Some e" "e \<le> B"
    using assms(2) unfolding deadlines_by_def by (metis (no_types, lifting) option.case_eq_if option.collapse)
  have late: "late p1 p2 (stage w) time" using assms(3,4) w(2) by (auto simp: late_def)
  obtain a where a: "armed_deadline w = Some a" "a \<le> stage_limit B p1 p2 grace (stage w)"
    using assms(1) by (auto simp: stage_ok_def)
  note esc = escalate_stage [OF assms(1,2) late refl]
  have over: "fst (progress_start_wait k time ?v (w\<lparr>exec_confirm_at := None\<rparr>) True) = Wait_over" if "exec_confirm_at w = Some d" for d
    by (rule exec_confirms [OF assms(1) that])
  have ends: "stage_ok k base B p1 p2 grace m r" if "fst r = Wait_over" for m r using that by (simp add: stage_ok_def)
  have "min 2 (stage w + 1) \<ge> n" using w(2) by (auto simp: stage_def)
  then have esc': "stage_ok k base B p1 p2 grace n (escalate_start_wait k (show_duration env) time ?v ?d w)"
    using esc(1) stage_ok_weaken by blast
  have parked: "stage_ok k base B p1 p2 grace n (Parked w, l')" for l' using assms(1) by (simp add: stage_ok_def)
  have event: "on_wait_event k env time Wheel w =
      (if \<not> wait_due time w then (Parked w, [])
       else if (case exec_confirm_at w of Some d \<Rightarrow> d \<le> time | None \<Rightarrow> False)
       then progress_start_wait k time ?v (w\<lparr>exec_confirm_at := None\<rparr>) True
       else if time < e then (Parked (w\<lparr>armed_deadline := Some e\<rparr>), [])
       else escalate_start_wait k (show_duration env) time ?v ?d w)"
    using e(1) w(1) by (simp add: expire_start_wait_def)
  show "stage_ok k base B p1 p2 grace n (on_wait_event k env time Wheel w)"
    unfolding event using stage_ok_armed(1) [OF assms(1) e(2)] esc' over ends parked
    by (auto split: option.splits)
  show "stage_ok k base B p1 p2 grace (min 2 (stage w + 1)) (on_wait_event k env time Wheel w)
      \<and> (stage w = 2 \<longrightarrow> fst (on_wait_event k env time Wheel w) = Wait_over)"
    if time: "stage_limit B p1 p2 grace (stage w) \<le> time"
  proof -
    have "e \<le> time" "wait_due time w" using time a e(2) by (auto simp: stage_limit_def wait_due_def split: if_splits)
    then show ?thesis unfolding event using esc over ends by (auto split: option.splits)
  qed
qed

lemma event_stage:
  assumes "stage_ok k base B p1 p2 grace n (Parked w, l)" "deadlines_by env base B" "late p1 p2 n time" "p1 \<le> p2"
  shows "stage_ok k base B p1 p2 grace n (on_wait_event k env time e w)"
proof (cases e)
  case Wheel
  then show ?thesis using wheel_stage(1) [OF assms] by simp
next
  case Notified
  have w: "base_deadline w = base" "\<exists>a. armed_deadline w = Some a" using assms(1) by (auto simp: stage_ok_def)
  obtain d where d: "effective_start_deadline base (view_at env time) = Some d" "d \<le> B"
    using assms(2) unfolding deadlines_by_def by (metis (no_types, lifting) option.case_eq_if option.collapse)
  then show ?thesis
    using Notified w progress_stage [OF stage_ok_armed(2) [OF assms(1) d(2)]] progress_stage [OF assms(1)]
    by (auto simp: notify_start_wait_def Let_def)
next
  case (Bus_name ok msg)
  have "stage_ok k base B p1 p2 grace n (Parked (w\<lparr>bus_name_seen := True\<rparr>), l)"
    using assms(1) by (simp add: stage_ok_def)
  note progress_stage [OF this]
  moreover have "stage_ok k base B p1 p2 grace n (Wait_over, x)" for x by (simp add: stage_ok_def)
  ultimately show ?thesis using Bus_name by (cases ok) simp_all
qed (use assms(1) progress_stage [OF assms(1)] stage_ok_log [of k base B p1 p2 grace n "Parked w" "[]" l] in auto)

lemma run_wait_append: "run_wait k env (es @ es') r = run_wait k env es' (run_wait k env es r)"
proof (induction k env es r rule: run_wait.induct)
  case (2 k env time e es log)
  show ?case by (cases es') auto
qed (auto split: prod.split)

lemma run_wait_over: "run_wait k env es (Wait_over, l) = (Wait_over, l)"
  by (cases es) auto

lemma run_wait_stage:
  assumes "stage_ok k base B p1 p2 grace n r" "deadlines_by env base B" "p1 \<le> p2" "\<forall>x \<in> set es. late p1 p2 n (fst x)"
  shows "stage_ok k base B p1 p2 grace n (run_wait k env es r)"
  using assms(1,4)
proof (induction es arbitrary: r)
  case (Cons x es)
  obtain time e st l where x: "x = (time, e)" "r = (st, l)" by (cases x, cases r) auto
  show ?case
  proof (cases st)
    case (Parked w)
    obtain st' l' where next': "on_wait_event k env time e w = (st', l')" by (cases "on_wait_event k env time e w")
    have "stage_ok k base B p1 p2 grace n (on_wait_event k env time e w)"
      using event_stage [of k base B p1 p2 grace n w l env time e] Cons.prems x Parked assms(2,3) by simp
    then have "stage_ok k base B p1 p2 grace n (st', l @ l')" using next' by (simp add: stage_ok_def)
    from Cons.IH [OF this] show ?thesis using Cons.prems(2) x Parked next' by simp
  qed (use Cons.prems x in \<open>simp add: run_wait_over\<close>)
qed simp

lemma run_wheel_stage:
  assumes "stage_ok k base B p1 p2 grace n r" "deadlines_by env base B" "late p1 p2 n time" "p1 \<le> p2"
    "stage_limit B p1 p2 grace n \<le> time" "n < 2 \<Longrightarrow> late p1 p2 (n + 1) time" "n \<le> 2"
  shows "stage_ok k base B p1 p2 grace (min 2 (n + 1)) (run_wait k env [(time, Wheel)] r)
    \<and> (n = 2 \<longrightarrow> fst (run_wait k env [(time, Wheel)] r) = Wait_over)"
proof -
  obtain st l where r: "r = (st, l)" by (cases r)
  show ?thesis
  proof (cases st)
    case (Parked w)
    obtain st' l' where ev: "on_wait_event k env time Wheel w = (st', l')" by (cases "on_wait_event k env time Wheel w")
    have run: "run_wait k env [(time, Wheel)] r = (st', l @ l')" using r Parked ev by simp
    have ok: "stage_ok k base B p1 p2 grace n (Parked w, l)" using assms(1) r Parked by simp
    have "stage w \<le> 2" "n \<le> stage w" using ok by (auto simp: stage_def stage_ok_def)
    then consider "stage w = n" | "n < 2" "stage_ok k base B p1 p2 grace (n + 1) (Parked w, l)"
      using ok by (fastforce simp: stage_ok_def)
    then show ?thesis
    proof cases
      case 1
      then show ?thesis
        using wheel_stage(2) [OF ok assms(2-4)] assms(5) ev run by (simp add: stage_ok_def)
    next
      case 2
      then have "stage_ok k base B p1 p2 grace (n + 1) (st', l')"
        using wheel_stage(1) [OF 2(2) assms(2) assms(6) assms(4)] ev by simp
      moreover have "min 2 (n + 1) = n + 1" "n \<noteq> 2" using 2(1) by simp_all
      ultimately show ?thesis using run by (simp add: stage_ok_def)
    qed
  qed (use assms(1) r in \<open>simp add: run_wait_over stage_ok_def\<close>)
qed

lemma register_stage:
  assumes "wait_start_timeout k = Some d" "t0 + d \<le> B"
  shows "stage_ok k (Some (t0 + d)) B p1 p2 (case wait_stop_timeout k of Some d \<Rightarrow> d | None \<Rightarrow> wait_seconds 90) 0
    (register_start_wait k t0 v ids p)"
proof (cases "start_wait_setup k v ids p")
  case None
  then show ?thesis by (simp add: register_start_wait_def stage_ok_def)
next
  case (Some ns)
  let ?grace = "case wait_stop_timeout k of Some d \<Rightarrow> d | None \<Rightarrow> wait_seconds 90"
  let ?w = "\<lparr>wait_id = param_id p, wait_type = srcv_type k, wait_next = ns, wait_filter = param_filter p,
      wait_source = param_source p, wait_timeout = wait_start_timeout k, base_deadline = Some (t0 + d), armed_deadline = Some (t0 + d),
      stop_grace = ?grace, term_sent_at = None,
      exec_confirm_at = (if srcv_type k = Type_exec then Some (t0 + 500000000) else None), bus_name_seen = False, grace_used = False\<rparr>"
  have "stage_ok k (Some (t0 + d)) B p1 p2 ?grace 0 (Parked ?w, [])"
    using assms by (simp add: stage_ok_def stage_def stage_limit_def)
  from progress_stage [OF this]
  have ok: "stage_ok k (Some (t0 + d)) B p1 p2 ?grace 0 (progress_start_wait k t0 v ?w False)" .
  obtain st l where st: "progress_start_wait k t0 v ?w False = (st, l)" by (cases "progress_start_wait k t0 v ?w False")
  have "stage_ok k (Some (t0 + d)) B p1 p2 ?grace 0 (st, l')" "stage_ok k (Some (t0 + d)) B p1 p2 ?grace 0 (Wait_over, l')" for l'
    using ok st by (simp_all add: stage_ok_def)
  moreover have "fst (register_start_wait k t0 v ids p) \<in> {st, Wait_over}"
    using Some assms(1) st by (auto simp: register_start_wait_def Let_def split: option.split bool.split)
  ultimately show ?thesis by (cases "register_start_wait k t0 v ids p") auto
qed

text \<open>
  C30: A start ends.  With a start timeout, extensions that end by \<open>B\<close> and a process that is there,
  whatever events come in between, three passes of the deadline wheel are enough: one from \<open>B\<close> on, one two
  seconds later, and one the stop timeout later than that.
\<close>

theorem start_wait_resolves:
  assumes "wait_start_timeout k = Some d" "deadlines_by env (Some (t0 + d)) B"
    "sorted (map fst (es1 @ (p1, Wheel) # es2 @ (p2, Wheel) # es3 @ (p3, Wheel) # es4))"
    "B \<le> p1" "p1 + wait_seconds 2 \<le> p2" "p2 + (case wait_stop_timeout k of Some g \<Rightarrow> g | None \<Rightarrow> wait_seconds 90) \<le> p3"
  shows "fst (run_wait k env (es1 @ (p1, Wheel) # es2 @ (p2, Wheel) # es3 @ (p3, Wheel) # es4)
      (register_start_wait k t0 (view_at env t0) ids p)) = Wait_over"
proof -
  let ?grace = "case wait_stop_timeout k of Some g \<Rightarrow> g | None \<Rightarrow> wait_seconds 90" and ?base = "Some (t0 + d)"
  let ?ok = "stage_ok k ?base B p1 p2 ?grace"
  have "t0 + d \<le> B" using assms(2) by (auto simp: deadlines_by_def effective_deadline_from)
  note r0 = register_stage [OF assms(1) this, of p1 p2 "view_at env t0" ids p]
  have le: "p1 \<le> p2" using assms(5) by simp
  have before: "late p1 p2 0 (fst x)" if "x \<in> set es1" for x using assms(3) that by (auto simp: late_def sorted_append)
  have between: "late p1 p2 1 (fst x)" if "x \<in> set es2" for x using assms(3) that by (auto simp: late_def sorted_append)
  have after: "late p1 p2 2 x" for x by (simp add: late_def)
  let ?r1 = "run_wait k env es1 (register_start_wait k t0 (view_at env t0) ids p)"
  let ?r2 = "run_wait k env [(p1, Wheel)] ?r1"
  let ?r3 = "run_wait k env es2 ?r2"
  let ?r4 = "run_wait k env [(p2, Wheel)] ?r3"
  let ?r5 = "run_wait k env es3 ?r4"
  have "?ok 0 ?r1" using run_wait_stage [OF r0 assms(2) le] before by blast
  then have "?ok 1 ?r2"
    using run_wheel_stage [of k ?base B p1 p2 ?grace 0 ?r1 env p1] assms(2,4) le by (auto simp: late_def stage_limit_def)
  then have "?ok 1 ?r3"
    using run_wait_stage [OF _ assms(2) le] between by blast
  then have "?ok 2 ?r4"
    using run_wheel_stage [of k ?base B p1 p2 ?grace 1 ?r3 env p2] assms(2,4,5) le by (auto simp: late_def stage_limit_def numeral_2_eq_2)
  then have "?ok 2 ?r5"
    using run_wait_stage [OF _ assms(2) le] after by blast
  then have "fst (run_wait k env [(p3, Wheel)] ?r5) = Wait_over"
    using run_wheel_stage [of k ?base B p1 p2 ?grace 2 ?r5 env p3] assms(2,4,5,6) le by (auto simp: late_def stage_limit_def)
  then have "fst (run_wait k env es4 (run_wait k env [(p3, Wheel)] ?r5)) = Wait_over"
    by (metis prod.collapse run_wait_over)
  moreover have "es1 @ (p1, Wheel) # es2 @ (p2, Wheel) # es3 @ (p3, Wheel) # es4
      = es1 @ [(p1, Wheel)] @ es2 @ [(p2, Wheel)] @ es3 @ [(p3, Wheel)] @ es4" by simp
  ultimately show ?thesis by (simp only: run_wait_append)
qed

definition waiting_view :: unit_view where
  "waiting_view = \<lparr>seen_status = Some Starting, seen_service = True, seen_exit = None, seen_termination = None,
     signaled_ready = False, reloading = False, extension = None, live_pid = True\<rparr>"

definition silent_env :: wait_env where
  "silent_env = \<lparr>view_at = (\<lambda>_. waiting_view), drained_at = (\<lambda>_. waiting_view), show_duration = (\<lambda>_. [])\<rparr>"

definition notify_conf :: wait_conf where
  "notify_conf = \<lparr>srcv_type = Type_notify, wait_success = no_success, wait_exec = [], wait_start_timeout = Some 100,
     wait_stop_timeout = Some 50, bus_name = None, pid_file = None, guess_main_pid = True\<rparr>"

definition notify_params :: start_wait_params where
  "notify_params = \<lparr>param_id = lock_c, param_next = None, param_filter = [], param_source = DeferNotifyWait, check_starting = False\<rparr>"

lemmas wait_example_defs = waiting_view_def silent_env_def notify_conf_def notify_params_def

theorem start_wait_resolves_witness:
  "fst (run_wait notify_conf silent_env [(100, Wheel), (2000000100, Wheel), (2000000120, Notified), (2000000150, Wheel)]
     (register_start_wait notify_conf 0 (view_at silent_env 0) [] notify_params)) = Wait_over"
proof -
  have "deadlines_by silent_env (Some (0 + 100)) 100"
    by (simp add: deadlines_by_def effective_deadline_from wait_example_defs)
  then show ?thesis
    using start_wait_resolves [of notify_conf 100 silent_env 0 100 "[]" 100 "[]" 2000000100 "[(2000000120, Notified)]" 2000000150 "[]" "[]"
        notify_params]
    by (simp add: notify_conf_def wait_seconds_def)
qed

definition patient_log :: "wait_effect list" where
  "patient_log = [Drain_notifications 100, Start_sigterm 2000000100, Fail_start 2000000150 ''Timed out starting ()'']"

theorem start_timeout_is_patient_witness:
  "length (filter is_sigterm patient_log) \<le> 1
   \<and> (\<exists>q. Drain_notifications q \<in> set patient_log \<and> 100 \<le> q \<and> q + wait_seconds 2 \<le> 2000000100)
   \<and> (\<exists>sig. Start_sigterm sig \<in> set patient_log \<and> sig + 50 \<le> 2000000150)"
proof -
  have run: "run_wait notify_conf silent_env [(100, Wheel), (2000000100, Wheel), (2000000150, Wheel)]
      (register_start_wait notify_conf 0 (view_at silent_env 0) [] notify_params) = (Wait_over, patient_log)"
    by (simp add: wait_example_defs patient_log_def register_start_wait_def start_wait_setup_def progress_start_wait_def
      evaluate_start_wait_def expire_start_wait_def escalate_start_wait_def wait_due_def effective_start_deadline_def wait_seconds_def Let_def)
  show ?thesis
    using start_timeout_is_patient [OF run refl refl]
    by (simp add: patient_log_def wait_example_defs effective_start_deadline_def evaluate_start_wait_def wait_seconds_def)
qed

section \<open>The end of a start that is ready\<close>

text \<open>
  \<open>ExecStartPost=\<close> runs in \<open>Service::finish_start_tail\<close> where the main phase need not wait, and in
  \<open>finish_deferred_start\<close> on a thread of its own; after a failure both run \<open>ExecStopPost=\<close>.  The last
  result of the latter says whether the dependents are started.
\<close>

definition finish_start_tail ::
  "(nat \<Rightarrow> helper_answer) \<Rightarrow> (nat \<Rightarrow> helper_answer) \<Rightarrow> commandline list \<Rightarrow> commandline list \<Rightarrow> commandline list \<times> (string + start_result)" where
  "finish_start_tail f g startpost posts =
     (case run_all_cmds f 0 startpost of
        (run, True) \<Rightarrow> (run, Inr Main_started)
      | (run, False) \<Rightarrow> (run @ fst (run_all_cmds g 0 posts), Inl ''ExecStartPost failed''))"

definition finish_deferred_start ::
  "unit_table \<Rightarrow> unit_id \<Rightarrow> (nat \<Rightarrow> helper_answer) \<Rightarrow> (nat \<Rightarrow> helper_answer) \<Rightarrow> commandline list \<Rightarrow> commandline list \<Rightarrow> string \<Rightarrow> statuses
     \<Rightarrow> statuses \<times> commandline list \<times> bool" where
  "finish_deferred_start t u f g startpost posts e st =
     (case tbl_get t u of
        None \<Rightarrow> (st, [], False)
      | Some x \<Rightarrow>
          if st u \<noteq> Starting then (st, [], False)
          else
            (case (specific x, run_all_cmds f 0 startpost) of
               (Service _, run, ok) \<Rightarrow>
                 if ok then (st(u := Started Running), run, True)
                 else (st(u := Stopped StoppedUnexpected [GenericStartError (''ExecStartPost failed: '' @ e)]),
                       run @ fst (run_all_cmds g 0 posts), False)
             | _ \<Rightarrow> (st(u := Started Running), [], True)))"

text \<open>
  A start chain hands a main phase that did not wait to the same finisher, whose commands then run a
  second time; a failure in the main phase has run the \<open>ExecStopPost=\<close> commands before the chain
  does.
\<close>

lemma run_all_cmds_ok: "run_all_cmds f i ks = (run, True) \<Longrightarrow> run = ks"
  by (induction ks arbitrary: i run) (auto split: if_splits prod.splits)

theorem startpost_runs_twice:
  assumes "tbl_get t u = Some x" "specific x = Service sc" "st u = Starting" "snd (run_all_cmds f 0 startpost)"
  shows "fst (finish_start_tail f g startpost posts) @ fst (snd (finish_deferred_start t u f g startpost posts e st))
    = startpost @ startpost"
  using assms run_all_cmds_ok [of f 0 startpost "fst (run_all_cmds f 0 startpost)"]
  by (cases "run_all_cmds f 0 startpost") (auto simp: finish_start_tail_def finish_deferred_start_def)

end
