(* ===== verification/UnitText.thy ===== *)
theory UnitText
  imports RustText
begin

text \<open>
  The text of unit files, over UTF-8 bytes: the ini parser of \<open>units/unit_parsing/unit_parser.rs\<close>
  (line continuations, sections, entries) and the merging of drop-in files into a unit's text in
  \<open>units/loading/directory_deps.rs\<close> (\<open>merge_unit_contents\<close> and the functions it calls).

  A \<open>HashMap\<close> is a map; the code only looks keys up, or treats every key alike.  \<open>parse_file\<close>
  never returns an error, so its result is the map itself.

  Lemmas: trimming twice is trimming once; what the merge prints is read back as it was; the entries
  of a key after a merge are the earlier ones with the overlay's assignments applied in order.
\<close>

section \<open>The unit file parser\<close>

type_synonym entries = "(32 word \<times> string) list"
type_synonym parsed_section = "string \<rightharpoonup> entries"
type_synonym parsed_file = "string \<rightharpoonup> parsed_section"

text \<open>
  The joining of continued lines: the state is the vector of joined lines and the accumulator.
\<close>

definition glue :: "string \<Rightarrow> string \<Rightarrow> string" where
  "glue acc s = (if acc = [] then s else acc @ '' '' @ s)"

definition join_step :: "string \<Rightarrow> string list \<times> string \<Rightarrow> string list \<times> string" where
  "join_step raw = (\<lambda>(joined, acc).
     let trimmed = trim raw in
     case strip_suffix [backslash] trimmed of
       Some start \<Rightarrow> (joined, glue acc (trim_end start))
     | None \<Rightarrow> (joined @ [glue acc trimmed], []))"

definition join_lines :: "string list \<Rightarrow> string list" where
  "join_lines raw = (case fold join_step raw ([], []) of
     (joined, acc) \<Rightarrow> if acc = [] then joined else joined @ [acc])"

text \<open>The entries of a section: the number counts the assignments of this part of the section.\<close>

definition push_entry :: "string \<Rightarrow> 32 word \<times> string \<Rightarrow> parsed_section \<Rightarrow> parsed_section" where
  "push_entry key e entries =
     entries(key \<mapsto> (case entries key of Some es \<Rightarrow> es | None \<Rightarrow> []) @ [e])"

definition entry_of_line :: "string \<Rightarrow> (string \<times> string) option" where
  "entry_of_line line =
     (if starts_with line ''#'' then None
      else case find_char CHR ''='' line of
        None \<Rightarrow> None
      | Some pos \<Rightarrow>
          Some (to_uppercase (trim (take pos line)),
                trim (dropWhile (\<lambda>c. c = CHR ''='') (drop pos line))))"

definition section_step :: "string \<Rightarrow> parsed_section \<times> 32 word \<Rightarrow> parsed_section \<times> 32 word" where
  "section_step line = (\<lambda>(entries, n).
     case entry_of_line line of
       None \<Rightarrow> (entries, n)
     | Some (key, value) \<Rightarrow> (push_entry key (n, value) entries, n + 1))"

definition parse_section :: "string list \<Rightarrow> parsed_section" where
  "parse_section lines = fst (fold section_step lines (Map.empty, 0))"

text \<open>A section whose header appeared before is merged into the earlier one, key by key.\<close>

definition extend_section :: "parsed_section \<Rightarrow> parsed_section \<Rightarrow> parsed_section" where
  "extend_section existing parsed = (\<lambda>key.
     case parsed key of
       None \<Rightarrow> existing key
     | Some es \<Rightarrow> Some ((case existing key of Some old \<Rightarrow> old | None \<Rightarrow> []) @ es))"

definition insert_section :: "string \<Rightarrow> parsed_section \<Rightarrow> parsed_file \<Rightarrow> parsed_file" where
  "insert_section header parsed sections =
     sections(header \<mapsto>
       (case sections header of Some existing \<Rightarrow> extend_section existing parsed | None \<Rightarrow> parsed))"

fun file_loop :: "string \<Rightarrow> string list \<Rightarrow> string list \<Rightarrow> parsed_file \<Rightarrow> parsed_file" where
  "file_loop header lines [] sections = insert_section header (parse_section lines) sections"
| "file_loop header lines (line # left) sections =
     (if starts_with line ''[''
      then file_loop line [] left (insert_section header (parse_section lines) sections)
      else file_loop header (lines @ [line]) left sections)"

definition parse_file :: "string \<Rightarrow> parsed_file" where
  "parse_file content =
     (case dropWhile (\<lambda>l. \<not> starts_with l ''['') (join_lines (split_on newline content)) of
        [] \<Rightarrow> Map.empty
      | header # left \<Rightarrow> file_loop header [] left Map.empty)"

section \<open>Merging drop-ins\<close>

type_synonym ini_sections = "(string \<times> string list) list"

definition ini_step :: "string \<Rightarrow> ini_sections \<times> string \<times> string list \<Rightarrow> ini_sections \<times> string \<times> string list" where
  "ini_step line = (\<lambda>(sections, current, lines).
     let trimmed = trim line in
     if starts_with trimmed ''['' \<and> ends_with trimmed '']'' then
       (if current \<noteq> [] then (sections @ [(current, lines)], trimmed, [])
        else (sections, trimmed, lines))
     else if current \<noteq> [] \<and> trimmed \<noteq> [] \<and> \<not> starts_with trimmed ''#'' \<and> \<not> starts_with trimmed '';''
       then (sections, current, lines @ [trimmed])
     else (sections, current, lines))"

definition parse_ini_to_sections :: "string \<Rightarrow> ini_sections" where
  "parse_ini_to_sections content =
     (case fold ini_step (str_lines content) ([], [], []) of
        (sections, current, lines) \<Rightarrow>
          if current \<noteq> [] then sections @ [(current, lines)] else sections)"

definition list_settings :: "string list" where
  "list_settings =
   [''ExecStartPre'', ''ExecStartPost'', ''ExecStart'', ''ExecStop'', ''ExecStopPre'',
    ''ExecStopPost'', ''ExecReload'', ''ExecCondition'', ''Environment'', ''EnvironmentFile'',
    ''PassEnvironment'', ''UnsetEnvironment'', ''StandardInputText'', ''StandardInputData'',
    ''Documentation'', ''Requires'', ''Wants'', ''After'', ''Before'', ''BindsTo'', ''PartOf'',
    ''Conflicts'', ''Upholds'', ''RequiredBy'', ''WantedBy'', ''Also'', ''ReadWritePaths'',
    ''ReadOnlyPaths'', ''InaccessiblePaths'', ''BindPaths'', ''BindReadOnlyPaths'',
    ''SupplementaryGroups'', ''CapabilityBoundingSet'', ''AmbientCapabilities'',
    ''SystemCallFilter'', ''SystemCallArchitectures'', ''RestrictAddressFamilies'',
    ''DeviceAllow'', ''ListenStream'', ''ListenDatagram'', ''ListenSequentialPacket'',
    ''ListenFIFO'', ''ListenSpecial'', ''ListenNetlink'', ''ListenMessageQueue'',
    ''ListenUSBFunction'', ''ImportCredential'', ''LoadCredential'', ''LoadCredentialEncrypted'',
    ''SetCredential'', ''SetCredentialEncrypted'', ''ConditionPathExists'',
    ''ConditionPathExistsGlob'', ''ConditionPathIsDirectory'', ''ConditionPathIsSymbolicLink'',
    ''ConditionPathIsMountPoint'', ''ConditionPathIsReadWrite'', ''ConditionDirectoryNotEmpty'',
    ''ConditionFileNotEmpty'', ''ConditionFileIsExecutable'', ''ConditionNeedsUpdate'',
    ''ConditionFirstBoot'', ''ConditionSecurity'', ''ConditionCapability'', ''ConditionACPower'',
    ''ConditionVirtualization'', ''ConditionHost'', ''ConditionKernelCommandLine'',
    ''ConditionKernelVersion'', ''ConditionEnvironment'', ''ConditionUser'', ''ConditionGroup'',
    ''ConditionControlGroupController'', ''ConditionMemory'', ''ConditionCPUs'',
    ''AssertPathExists'', ''AssertPathExistsGlob'', ''AssertPathIsDirectory'',
    ''AssertPathIsSymbolicLink'', ''AssertPathIsMountPoint'', ''AssertPathIsReadWrite'',
    ''AssertDirectoryNotEmpty'', ''AssertFileNotEmpty'', ''AssertFileIsExecutable'',
    ''AssertNeedsUpdate'', ''AssertFirstBoot'', ''AssertSecurity'', ''AssertCapability'',
    ''AssertACPower'', ''AssertVirtualization'', ''AssertHost'', ''AssertKernelCommandLine'',
    ''AssertKernelVersion'', ''AssertEnvironment'', ''AssertUser'', ''AssertGroup'',
    ''AssertControlGroupController'', ''AssertMemory'', ''AssertCPUs'', ''OnCalendar'',
    ''OnBootSec'', ''OnStartupSec'', ''OnActiveSec'', ''OnUnitActiveSec'', ''OnUnitInactiveSec'',
    ''Alias'', ''StateDirectory'', ''RuntimeDirectory'', ''LogsDirectory'',
    ''ConfigurationDirectory'', ''CacheDirectory'']"

definition is_list_setting :: "string \<Rightarrow> bool" where
  "is_list_setting key = List.member list_settings key"

text \<open>The filter of both \<open>retain\<close> calls: the line does not assign \<open>key\<close>.\<close>

definition not_setting :: "string \<Rightarrow> string \<Rightarrow> bool" where
  "not_setting key existing =
     (case find_char CHR ''='' (trim existing) of
        Some epos \<Rightarrow> trim (take epos (trim existing)) \<noteq> key
      | None \<Rightarrow> True)"

definition merge_line :: "string \<Rightarrow> string list \<Rightarrow> string list" where
  "merge_line line lines =
     (let trimmed = trim line in
      case find_char CHR ''='' trimmed of
        Some pos \<Rightarrow>
          let key = trim (take pos trimmed); value = trim (drop (pos + 1) trimmed) in
          if value = [] then filter (not_setting key) lines
          else (if is_list_setting key then lines else filter (not_setting key) lines) @ [line]
      | None \<Rightarrow> lines @ [line])"

type_synonym merging = "ini_sections \<times> (string \<rightharpoonup> nat)"

definition add_section :: "string \<times> string list \<Rightarrow> merging \<Rightarrow> merging" where
  "add_section = (\<lambda>(header, lines) (merged, seen).
     (merged @ [(header, lines)], seen(header \<mapsto> length merged)))"

definition merge_section :: "string \<times> string list \<Rightarrow> merging \<Rightarrow> merging" where
  "merge_section = (\<lambda>(header, lines) (merged, seen).
     case seen header of
       Some i \<Rightarrow> (merged[i := (fst (merged ! i), fold merge_line lines (snd (merged ! i)))], seen)
     | None \<Rightarrow> add_section (header, lines) (merged, seen))"

definition print_sections :: "ini_sections \<Rightarrow> string" where
  "print_sections merged =
     concat (map (\<lambda>(header, lines).
       header @ [newline] @ concat (map (\<lambda>l. l @ [newline]) lines) @ [newline]) merged)"

definition merge_ini_sections :: "string \<Rightarrow> string \<Rightarrow> string" where
  "merge_ini_sections base overlay =
     print_sections (fst (fold merge_section (parse_ini_to_sections overlay)
       (fold add_section (parse_ini_to_sections base) ([], Map.empty))))"

definition merge_unit_contents :: "string \<Rightarrow> (string \<times> string) list \<Rightarrow> string" where
  "merge_unit_contents base overrides =
     fold (\<lambda>(_, content) result. merge_ini_sections result content) overrides base"

section \<open>Printed sections are read back\<close>

lemma ini_step_trim: "ini_step (trim l) = ini_step l"
  by (simp add: ini_step_def)

lemma ini_step_Nil: "ini_step [] st = st"
  by (cases st) (simp add: ini_step_def Let_def)

lemma fold_ini_strip_cr: "fold ini_step (map strip_cr ls) st = fold ini_step ls st"
proof (induction ls arbitrary: st)
  case (Cons l ls)
  have "ini_step (strip_cr l) = ini_step l" by (metis ini_step_trim trim_strip_cr)
  with Cons show ?case by simp
qed simp

lemma fold_ini_lines: "fold ini_step (str_lines s) st = fold ini_step (split_on newline s) st"
proof -
  let ?ps = "split_on newline s"
  have "?ps = butlast ?ps @ [last ?ps]" by simp
  then have "fold ini_step ?ps st = ini_step (last ?ps) (fold ini_step (butlast ?ps) st)"
    by (metis fold_simps fold_append comp_apply)
  then show ?thesis by (simp add: str_lines_def Let_def fold_ini_strip_cr ini_step_Nil)
qed

lemma split_terminated:
  "(\<forall>l\<in>set ls. newline \<notin> set l) \<Longrightarrow> split_on newline (concat (map (\<lambda>l. l @ [newline]) ls)) = ls @ [[]]"
  by (induction ls) (simp_all add: split_on_append_sep)

text \<open>The lines of the printed sections.\<close>

definition section_lines :: "ini_sections \<Rightarrow> string list" where
  "section_lines ms = concat (map (\<lambda>(h, ls). h # ls @ [[]]) ms)"

lemma print_sections_lines: "print_sections ms = concat (map (\<lambda>l. l @ [newline]) (section_lines ms))"
  by (induction ms) (auto simp: print_sections_def section_lines_def)

text \<open>What the headers and the lines of parsed sections look like.\<close>

definition header_ok :: "string \<Rightarrow> bool" where
  "header_ok h \<longleftrightarrow> starts_with h ''['' \<and> ends_with h '']'' \<and> trim h = h \<and> newline \<notin> set h"

definition line_ok :: "string \<Rightarrow> bool" where
  "line_ok l \<longleftrightarrow> l \<noteq> [] \<and> \<not> starts_with l ''#'' \<and> \<not> starts_with l '';'' \<and>
     \<not> (starts_with l ''['' \<and> ends_with l '']'') \<and> trim l = l \<and> newline \<notin> set l"

definition sections_ok :: "ini_sections \<Rightarrow> bool" where
  "sections_ok = list_all (\<lambda>(h, ls). header_ok h \<and> list_all line_ok ls)"

lemma sections_ok_simps [simp]:
  "sections_ok []" "sections_ok ((h, ls) # ms) \<longleftrightarrow> header_ok h \<and> list_all line_ok ls \<and> sections_ok ms"
  "sections_ok (ms @ ms') \<longleftrightarrow> sections_ok ms \<and> sections_ok ms'"
  by (auto simp: sections_ok_def)

definition close_section :: "ini_sections \<times> string \<times> string list \<Rightarrow> ini_sections" where
  "close_section = (\<lambda>(secs, h, ls). if h \<noteq> [] then secs @ [(h, ls)] else secs)"

lemma parse_ini_close:
  "parse_ini_to_sections s = close_section (fold ini_step (split_on newline s) ([], [], []))"
  by (simp add: parse_ini_to_sections_def fold_ini_lines close_section_def)

lemma fold_ini_section_lines:
  "h \<noteq> [] \<Longrightarrow> list_all line_ok ls \<Longrightarrow> fold ini_step ls (secs, h, acc) = (secs, h, acc @ ls)"
  by (induction ls arbitrary: acc) (auto simp: ini_step_def line_ok_def Let_def)

lemma header_not_Nil: "header_ok h \<Longrightarrow> h \<noteq> []"
  by (auto simp: header_ok_def)

lemma fold_ini_sections:
  assumes "sections_ok ms" "h = [] \<Longrightarrow> ls = []"
  shows "close_section (fold ini_step (section_lines ms) (secs, h, ls)) = close_section (secs, h, ls) @ ms"
  using assms
proof (induction ms arbitrary: secs h ls)
  case (Cons m ms)
  obtain h' ls' where m: "m = (h', ls')" by force
  have ok: "header_ok h'" "list_all line_ok ls'" "sections_ok ms" using Cons.prems(1) by (simp_all add: m)
  have "ini_step h' (secs, h, ls) = (close_section (secs, h, ls), h', [])"
    using ok(1) Cons.prems(2) by (simp add: ini_step_def header_ok_def close_section_def)
  then have "fold ini_step (section_lines (m # ms)) (secs, h, ls) =
      fold ini_step (section_lines ms) (close_section (secs, h, ls), h', ls')"
    using ok header_not_Nil [OF ok(1)]
    by (simp add: section_lines_def m fold_ini_section_lines ini_step_Nil)
  then show ?case
    using Cons.IH [of h' ls' "close_section (secs, h, ls)"] ok header_not_Nil [OF ok(1)]
    by (simp add: m close_section_def)
qed (simp add: section_lines_def)

lemma newline_free:
  "sections_ok ms \<Longrightarrow> \<forall>l\<in>set (section_lines ms). newline \<notin> set l"
  by (induction ms) (auto simp: section_lines_def header_ok_def line_ok_def list_all_iff)

lemma split_printed: "sections_ok ms \<Longrightarrow> split_on newline (print_sections ms) = section_lines ms @ [[]]"
  by (simp add: print_sections_lines split_terminated newline_free)

lemma parse_printed: "sections_ok ms \<Longrightarrow> parse_ini_to_sections (print_sections ms) = ms"
  using fold_ini_sections [of ms "[]" "[]" "[]"]
  by (simp add: parse_ini_close split_printed ini_step_Nil) (simp add: close_section_def)

definition ini_ok :: "ini_sections \<times> string \<times> string list \<Rightarrow> bool" where
  "ini_ok = (\<lambda>(secs, h, ls). sections_ok secs \<and> list_all line_ok ls \<and> (h \<noteq> [] \<longrightarrow> header_ok h) \<and> (h = [] \<longrightarrow> ls = []))"

lemma ini_step_ok: "ini_ok st \<Longrightarrow> newline \<notin> set l \<Longrightarrow> ini_ok (ini_step l st)"
  using set_trim [of l]
  by (cases st) (auto simp: ini_ok_def ini_step_def Let_def header_ok_def line_ok_def)

lemma parsed_sections_ok: "sections_ok (parse_ini_to_sections s)"
proof -
  have "ini_ok (fold ini_step ls st)" if "ini_ok st" "\<forall>l\<in>set ls. newline \<notin> set l" for ls st
    using that by (induction ls arbitrary: st) (simp_all add: ini_step_ok)
  from this [of "([], [], [])" "split_on newline s"]
  have "ini_ok (fold ini_step (split_on newline s) ([], [], []))"
    using split_on_no_sep by (auto simp: ini_ok_def)
  then show ?thesis unfolding parse_ini_close
    by (cases "fold ini_step (split_on newline s) ([], [], [])") (auto simp: ini_ok_def close_section_def)
qed

section \<open>The merged text\<close>

lemma merge_lines_all:
  "list_all P new \<Longrightarrow> list_all P ls \<Longrightarrow> list_all P (fold merge_line new ls)"
proof (induction new arbitrary: ls)
  case (Cons l new)
  have "list_all P (merge_line l ls)"
    using Cons.prems by (auto simp: merge_line_def Let_def list_all_iff split: option.split)
  with Cons show ?case by simp
qed simp

text \<open>
  The index map of the merge finds the sections of a list with distinct headers, so merging is an
  update of the looked-up lines.
\<close>

definition merging_ok :: "merging \<Rightarrow> bool" where
  "merging_ok = (\<lambda>(merged, seen).
     sections_ok merged \<and> distinct (map fst merged) \<and>
     (\<forall>h i. seen h = Some i \<longleftrightarrow> i < length merged \<and> fst (merged ! i) = h))"

definition merged_lines :: "string list \<Rightarrow> string list option \<Rightarrow> string list" where
  "merged_lines lines cur = (case cur of None \<Rightarrow> lines | Some old \<Rightarrow> fold merge_line lines old)"

lemma add_section_eq: "add_section (h, ls) (merged, seen) = (merged @ [(h, ls)], seen(h \<mapsto> length merged))"
  by (simp add: add_section_def)

lemma seen_iff: "merging_ok (merged, seen) \<Longrightarrow> seen h = Some i \<longleftrightarrow> i < length merged \<and> fst (merged ! i) = h"
  by (simp add: merging_ok_def)

lemma seen_None:
  assumes "merging_ok (merged, seen)" "seen h = None"
  shows "h \<notin> set (map fst merged)"
proof
  assume "h \<in> set (map fst merged)"
  then obtain i where "i < length merged" "fst (merged ! i) = h" by (auto simp: in_set_conv_nth)
  then have "seen h = Some i" using assms(1) by (simp add: seen_iff)
  with assms(2) show False by simp
qed

lemma add_section_ok:
  assumes "merging_ok (merged, seen)" "header_ok h" "list_all line_ok ls" "h \<notin> set (map fst merged)"
  shows "merging_ok (add_section (h, ls) (merged, seen))"
proof -
  have "seen k = Some i \<longleftrightarrow> i < length merged \<and> fst (merged ! i) = k" for k i
    using assms(1) by (auto simp: merging_ok_def)
  moreover have "i < length merged \<Longrightarrow> fst (merged ! i) \<noteq> h" for i using assms(4) by force
  ultimately show ?thesis using assms
    by (auto simp: merging_ok_def add_section_def nth_append less_Suc_eq split: if_splits)
qed

lemma map_of_snoc_new: "h \<notin> set (map fst ms) \<Longrightarrow> map_of (ms @ [(h, ls)]) = (map_of ms)(h \<mapsto> ls)"
  by (induction ms) (auto simp: fun_eq_iff)

lemma map_of_update_nth:
  "distinct (map fst ms) \<Longrightarrow> i < length ms \<Longrightarrow> ms ! i = (h, old) \<Longrightarrow>
    map_of (ms[i := (h, new)]) = (map_of ms)(h \<mapsto> new)"
proof (induction ms arbitrary: i)
  case (Cons m ms)
  show ?case
  proof (cases i)
    case (Suc j)
    then have "h \<in> set (map fst ms)" using Cons.prems by (metis fst_conv length_Cons list.set_map nth_Cons_Suc nth_mem rev_image_eqI Suc_less_eq)
    with Suc Cons show ?thesis by (cases m) (auto simp: fun_eq_iff)
  qed (use Cons.prems in auto)
qed simp

lemma merge_section_step:
  assumes "merging_ok (merged, seen)" "header_ok h" "list_all line_ok ls"
  obtains merged' seen' where "merge_section (h, ls) (merged, seen) = (merged', seen')"
    "merging_ok (merged', seen')" "map_of merged' = (map_of merged)(h \<mapsto> merged_lines ls (map_of merged h))"
proof (cases "seen h")
  case None
  then have new: "h \<notin> set (map fst merged)" using assms(1) by (intro seen_None)
  then have "map_of merged h = None" by (simp add: map_of_eq_None_iff)
  then show ?thesis using that [of "merged @ [(h, ls)]" "seen(h \<mapsto> length merged)"] None assms
      add_section_ok [OF assms new] map_of_snoc_new [OF new]
    by (simp add: merge_section_def add_section_def merged_lines_def)
next
  case (Some i)
  then have i: "i < length merged" "fst (merged ! i) = h" and d: "distinct (map fst merged)"
    using assms(1) by (auto simp: merging_ok_def)
  then obtain old where old: "merged ! i = (h, old)" by (metis prod.collapse)
  then have "map_of merged h = Some old" using d i by (metis map_of_is_SomeI nth_mem)
  let ?m = "merged[i := (h, fold merge_line ls old)]"
  have same: "map fst ?m = map fst merged" using i by (simp add: map_update list_update_same_conv)
  have ok: "sections_ok merged" using assms(1) by (simp add: merging_ok_def)
  then have "list_all line_ok old" using nth_mem [OF i(1)] by (auto simp: sections_ok_def list_all_iff old)
  then have new: "list_all line_ok (fold merge_line ls old)" using assms(3) by (intro merge_lines_all)
  have "sections_ok ?m" unfolding sections_ok_def list_all_iff
  proof
    fix x assume "x \<in> set ?m"
    then have "x = (h, fold merge_line ls old) \<or> x \<in> set merged"
      using set_update_subset_insert [of merged i] by blast
    then show "case x of (h, ls) \<Rightarrow> header_ok h \<and> (\<forall>l\<in>set ls. line_ok l)"
      using new assms(2) ok by (auto simp: sections_ok_def list_all_iff)
  qed
  moreover have "fst (?m ! j) = fst (merged ! j)" if "j < length merged" for j
    using same that by (metis length_list_update nth_map)
  ultimately have "merging_ok (?m, seen)"
    using d seen_iff [OF assms(1)] by (simp add: merging_ok_def same del: list_update_id cong: conj_cong)
  moreover have "merge_section (h, ls) (merged, seen) = (?m, seen)" by (simp add: merge_section_def Some old)
  moreover have "map_of ?m = (map_of merged)(h \<mapsto> merged_lines ls (map_of merged h))"
    using map_of_update_nth [OF d i(1) old] \<open>map_of merged h = Some old\<close> by (simp add: merged_lines_def)
  ultimately show ?thesis using that by blast
qed

text \<open>What an overlay does to the lines of one section.\<close>

definition apply_dropin :: "string \<Rightarrow> ini_sections \<Rightarrow> string list option \<Rightarrow> string list option" where
  "apply_dropin header overlay cur =
     fold (\<lambda>(h, ls) c. if h = header then Some (merged_lines ls c) else c) overlay cur"

lemma merge_sections_lookup:
  assumes "merging_ok st" "sections_ok overlay"
  shows "merging_ok (fold merge_section overlay st) \<and>
    map_of (fst (fold merge_section overlay st)) header = apply_dropin header overlay (map_of (fst st) header)"
  using assms
proof (induction overlay arbitrary: st)
  case (Cons m overlay)
  obtain h ls where m: "m = (h, ls)" by force
  obtain merged seen where st: "st = (merged, seen)" by force
  from Cons.prems obtain merged' seen' where s: "merge_section (h, ls) (merged, seen) = (merged', seen')"
    "merging_ok (merged', seen')" "map_of merged' = (map_of merged)(h \<mapsto> merged_lines ls (map_of merged h))"
    using merge_section_step [of merged seen h ls] by (auto simp: m st)
  then show ?case using Cons.IH [of "(merged', seen')"] Cons.prems(2)
    by (auto simp: m st apply_dropin_def)
qed (simp add: apply_dropin_def)

lemma add_sections_ok:
  "merging_ok st \<Longrightarrow> sections_ok ms \<Longrightarrow> distinct (map fst (fst st @ ms)) \<Longrightarrow>
    merging_ok (fold add_section ms st) \<and> fst (fold add_section ms st) = fst st @ ms"
proof (induction ms arbitrary: st)
  case (Cons m ms)
  obtain h ls where m: "m = (h, ls)" by force
  obtain merged seen where st: "st = (merged, seen)" by force
  have "merging_ok (add_section (h, ls) st)" unfolding st using Cons.prems by (intro add_section_ok) (auto simp: m st)
  moreover have "fst (add_section (h, ls) st) = merged @ [(h, ls)]" by (simp add: st add_section_eq)
  ultimately show ?case using Cons.IH [of "add_section (h, ls) st"] Cons.prems by (simp add: m st)
qed simp

lemma merged_sections:
  assumes "distinct (map fst (parse_ini_to_sections base))"
  obtains ms where "merge_ini_sections base overlay = print_sections ms" "sections_ok ms" "distinct (map fst ms)"
    "\<And>header. map_of ms header = apply_dropin header (parse_ini_to_sections overlay)
       (map_of (parse_ini_to_sections base) header)"
proof -
  let ?st = "fold add_section (parse_ini_to_sections base) ([], Map.empty)"
  let ?ms = "fst (fold merge_section (parse_ini_to_sections overlay) ?st)"
  have st: "merging_ok ?st" "fst ?st = parse_ini_to_sections base"
    using add_sections_ok [of "([], Map.empty)" "parse_ini_to_sections base"] assms parsed_sections_ok
    by (auto simp: merging_ok_def)
  from merge_sections_lookup [OF this(1) parsed_sections_ok]
  have "merging_ok (fold merge_section (parse_ini_to_sections overlay) ?st)"
    "\<And>header. map_of ?ms header = apply_dropin header (parse_ini_to_sections overlay)
       (map_of (parse_ini_to_sections base) header)"
    by (auto simp: st(2))
  then show ?thesis using that [of ?ms] by (auto simp: merge_ini_sections_def merging_ok_def split: prod.splits)
qed

section \<open>Parsing the merged text\<close>

definition line_plain :: "string \<Rightarrow> bool" where
  "line_plain l \<longleftrightarrow> \<not> ends_with (trim l) [backslash] \<and>
     (starts_with (trim l) ''['' \<longrightarrow> ends_with (trim l) '']'')"

definition plain_unit_text :: "string \<Rightarrow> bool" where
  "plain_unit_text content \<longleftrightarrow> list_all line_plain (split_on newline content)"

lemma ends_backslash: "strip_suffix [backslash] l = None \<longleftrightarrow> \<not> ends_with l [backslash]"
  by (simp add: strip_suffix_def)

lemma join_plain: "\<forall>l\<in>set raw. \<not> ends_with (trim l) [backslash] \<Longrightarrow> join_lines raw = map trim raw"
proof -
  assume plain: "\<forall>l\<in>set raw. \<not> ends_with (trim l) [backslash]"
  have "fold join_step raw (joined, []) = (joined @ map trim raw, [])" for joined
    using plain by (induction raw arbitrary: joined) (simp_all add: join_step_def strip_suffix_def glue_def Let_def)
  then show ?thesis by (simp add: join_lines_def)
qed

definition sections_plain :: "ini_sections \<Rightarrow> bool" where
  "sections_plain = list_all (\<lambda>(h, ls). list_all (\<lambda>l. \<not> ends_with l [backslash] \<and> \<not> starts_with l ''['') ls)"

lemma sections_plain_simps [simp]:
  "sections_plain []"
  "sections_plain ((h, ls) # ms) \<longleftrightarrow>
     list_all (\<lambda>l. \<not> ends_with l [backslash] \<and> \<not> starts_with l ''['') ls \<and> sections_plain ms"
  "sections_plain (ms @ ms') \<longleftrightarrow> sections_plain ms \<and> sections_plain ms'"
  by (auto simp: sections_plain_def)

lemma parse_section_blank: "parse_section (ls @ [[]]) = parse_section ls"
  by (simp add: parse_section_def section_step_def entry_of_line_def split: prod.split)

lemma file_loop_lines:
  "list_all (\<lambda>l. \<not> starts_with l ''['') ls \<Longrightarrow>
    file_loop h acc (ls @ left) secs = file_loop h (acc @ ls) left secs"
  by (induction ls arbitrary: acc) simp_all

lemma file_loop_sections:
  assumes "sections_ok ms" "sections_plain ms" "distinct (map fst ms)" "h \<notin> set (map fst ms)"
    "\<forall>k\<in>set (map fst ms). secs k = None" "secs h = None"
  shows "file_loop h ls (section_lines ms @ [[]]) secs =
    (secs(h \<mapsto> parse_section ls)) ++ (\<lambda>k. map_option parse_section (map_of ms k))"
  using assms
proof (induction ms arbitrary: h ls secs)
  case Nil
  then show ?case by (simp add: section_lines_def insert_section_def parse_section_blank)
next
  case (Cons m ms)
  obtain h' ls' where m: "m = (h', ls')" by force
  have start: "starts_with h' ''[''" using Cons.prems(1) by (simp add: m header_ok_def)
  have "file_loop h ls (section_lines (m # ms) @ [[]]) secs =
      file_loop h' (ls' @ [[]]) (section_lines ms @ [[]]) (secs(h \<mapsto> parse_section ls))"
    using start file_loop_lines [of "ls' @ [[]]" h' "[]" "section_lines ms @ [[]]"] Cons.prems
    by (simp add: m section_lines_def insert_section_def list_all_iff)
  also have "\<dots> = secs(h \<mapsto> parse_section ls, h' \<mapsto> parse_section ls') ++ (\<lambda>k. map_option parse_section (map_of ms k))"
    by (subst Cons.IH) (use Cons.prems in \<open>auto simp: m parse_section_blank\<close>)
  also have "\<dots> = (secs(h \<mapsto> parse_section ls)) ++ (\<lambda>k. map_option parse_section (map_of (m # ms) k))"
  proof
    fix k
    have "map_of ms h' = None" using Cons.prems(3) by (simp add: m map_of_eq_None_iff)
    then show "(secs(h \<mapsto> parse_section ls, h' \<mapsto> parse_section ls') ++ (\<lambda>k. map_option parse_section (map_of ms k))) k =
        ((secs(h \<mapsto> parse_section ls)) ++ (\<lambda>k. map_option parse_section (map_of (m # ms) k))) k"
      by (cases "k = h'") (simp_all add: m map_add_def split: option.split)
  qed
  finally show ?case .
qed

lemma parse_file_printed:
  assumes "sections_ok ms" "sections_plain ms" "distinct (map fst ms)"
  shows "parse_file (print_sections ms) header = map_option parse_section (map_of ms header)"
proof -
  have bracket: "\<not> ends_with h [backslash]" if "header_ok h" for h
    using that by (auto simp: header_ok_def ends_with_iff)
  have "\<forall>l\<in>set (section_lines ms). trim l = l \<and> \<not> ends_with l [backslash]"
    using assms(1,2)
  proof (induction ms)
    case (Cons m ms)
    obtain h ls where m: "m = (h, ls)" by force
    from Cons bracket show ?case
      by (auto simp: m section_lines_def list_all_iff header_ok_def line_ok_def ends_with_def)
  qed (simp add: section_lines_def)
  then have "join_lines (split_on newline (print_sections ms)) = section_lines ms @ [[]]"
    using assms(1) by (subst join_plain) (auto simp: split_printed ends_with_def intro!: map_idI)
  moreover have "(case dropWhile (\<lambda>l. \<not> starts_with l ''['') (section_lines ms @ [[]]) of
      [] \<Rightarrow> Map.empty | h # left \<Rightarrow> file_loop h [] left Map.empty) header = map_option parse_section (map_of ms header)"
  proof (cases ms)
    case Nil
    then show ?thesis by (simp add: section_lines_def)
  next
    case (Cons m ms')
    obtain h ls where m: "m = (h, ls)" by force
    have start: "starts_with h ''[''" using assms(1) by (simp add: m Cons header_ok_def)
    have lines: "section_lines ms = h # ls @ [] # section_lines ms'" by (simp add: section_lines_def m Cons)
    have "file_loop h [] (ls @ [] # section_lines ms' @ [[]]) Map.empty =
        file_loop h (ls @ [[]]) (section_lines ms' @ [[]]) Map.empty"
      using file_loop_lines [of "ls @ [[]]" h "[]" "section_lines ms' @ [[]]" Map.empty] assms(2)
      by (simp add: m Cons list_all_iff)
    also have "\<dots> = [h \<mapsto> parse_section ls] ++ (\<lambda>k. map_option parse_section (map_of ms' k))"
      using file_loop_sections [of ms' h Map.empty "ls @ [[]]"] assms by (simp add: m Cons parse_section_blank)
    finally have "file_loop h [] (ls @ [] # section_lines ms' @ [[]]) Map.empty header = map_option parse_section (map_of ms header)"
      using assms(3) by (simp add: m Cons map_add_def map_of_eq_None_iff [THEN iffD2] split: option.split)
    moreover have "dropWhile (\<lambda>l. \<not> starts_with l ''['') (section_lines ms @ [[]]) = h # ls @ [] # section_lines ms' @ [[]]"
      using start by (simp add: lines)
    ultimately show ?thesis by (simp only: list.case)
  qed
  ultimately show ?thesis by (simp add: parse_file_def)
qed

section \<open>Plain unit files\<close>

definition plain_ini :: "ini_sections \<times> string \<times> string list \<Rightarrow> bool" where
  "plain_ini = (\<lambda>(secs, h, ls).
     sections_plain secs \<and> list_all (\<lambda>l. \<not> ends_with l [backslash] \<and> \<not> starts_with l ''['') ls)"

lemma ini_step_plain: "plain_ini st \<Longrightarrow> line_plain l \<Longrightarrow> plain_ini (ini_step l st)"
  by (cases st) (auto simp: plain_ini_def ini_step_def Let_def line_plain_def)

lemma parsed_plain: "plain_unit_text s \<Longrightarrow> sections_plain (parse_ini_to_sections s)"
proof -
  have "plain_ini (fold ini_step ls st)" if "plain_ini st" "list_all line_plain ls" for ls st
    using that by (induction ls arbitrary: st) (simp_all add: ini_step_plain)
  moreover assume "plain_unit_text s"
  moreover have "plain_ini ([], [], [])" by (simp add: plain_ini_def)
  ultimately have "plain_ini (fold ini_step (split_on newline s) ([], [], []))" by (simp add: plain_unit_text_def)
  then show ?thesis unfolding parse_ini_close
    by (cases "fold ini_step (split_on newline s) ([], [], [])") (auto simp: plain_ini_def close_section_def)
qed

lemma sections_plain_map_of:
  assumes "distinct (map fst ms)"
  shows "sections_plain ms \<longleftrightarrow>
    (\<forall>h ls. map_of ms h = Some ls \<longrightarrow> list_all (\<lambda>l. \<not> ends_with l [backslash] \<and> \<not> starts_with l ''['') ls)"
  using assms by (auto simp: sections_plain_def list_all_iff map_of_eq_Some_iff)

lemma apply_dropin_plain:
  assumes "sections_plain overlay"
    "\<And>ls. cur = Some ls \<Longrightarrow> list_all (\<lambda>l. \<not> ends_with l [backslash] \<and> \<not> starts_with l ''['') ls"
    "apply_dropin h overlay cur = Some ls"
  shows "list_all (\<lambda>l. \<not> ends_with l [backslash] \<and> \<not> starts_with l ''['') ls"
  using assms
proof (induction overlay arbitrary: cur)
  case (Cons m overlay)
  obtain k new where m: "m = (k, new)" by force
  let ?cur = "if k = h then Some (merged_lines new cur) else cur"
  have "apply_dropin h overlay ?cur = Some ls" using Cons.prems(3) by (simp add: apply_dropin_def m)
  moreover have "list_all (\<lambda>l. \<not> ends_with l [backslash] \<and> \<not> starts_with l ''['') old" if "?cur = Some old" for old
    using that Cons.prems(1,2) by (auto simp: m merged_lines_def intro: merge_lines_all split: if_splits option.splits)
  ultimately show ?case using Cons.IH [of ?cur] Cons.prems(1) by (simp add: m)
qed (simp add: apply_dropin_def)

text \<open>One drop-in: a well-formed text again, with each section's lines updated.\<close>

lemma merge_one:
  assumes "distinct (map fst (parse_ini_to_sections base))"
    "sections_plain (parse_ini_to_sections base)" "sections_plain (parse_ini_to_sections overlay)"
  defines "text1 \<equiv> merge_ini_sections base overlay"
  shows "distinct (map fst (parse_ini_to_sections text1))" "sections_plain (parse_ini_to_sections text1)"
    "map_of (parse_ini_to_sections text1) h =
       apply_dropin h (parse_ini_to_sections overlay) (map_of (parse_ini_to_sections base) h)"
    "parse_file text1 h = map_option parse_section (map_of (parse_ini_to_sections text1) h)"
proof -
  obtain ms where ms: "text1 = print_sections ms" "sections_ok ms" "distinct (map fst ms)"
    "\<And>h. map_of ms h = apply_dropin h (parse_ini_to_sections overlay) (map_of (parse_ini_to_sections base) h)"
    using merged_sections [OF assms(1), of overlay] unfolding text1_def by metis
  have parsed: "parse_ini_to_sections text1 = ms" using ms(1,2) parse_printed by simp
  have "sections_plain ms"
    using sections_plain_map_of [OF assms(1)] sections_plain_map_of [OF ms(3)] assms(2) apply_dropin_plain [OF assms(3)]
    by (metis (no_types, lifting) ms(4))
  then show "distinct (map fst (parse_ini_to_sections text1))" "sections_plain (parse_ini_to_sections text1)"
    "map_of (parse_ini_to_sections text1) h =
       apply_dropin h (parse_ini_to_sections overlay) (map_of (parse_ini_to_sections base) h)"
    "parse_file text1 h = map_option parse_section (map_of (parse_ini_to_sections text1) h)"
    using ms parsed parse_file_printed [OF ms(2)] by simp_all
qed

text \<open>The lines of a section once every drop-in is applied, in order.\<close>

definition dropin_lines :: "string \<Rightarrow> string \<Rightarrow> string list \<Rightarrow> string list option" where
  "dropin_lines header base contents =
     fold (\<lambda>c. apply_dropin header (parse_ini_to_sections c)) contents
       (map_of (parse_ini_to_sections base) header)"

lemma merge_all:
  assumes "distinct (map fst (parse_ini_to_sections base))" "sections_plain (parse_ini_to_sections base)"
    "\<forall>(f, c)\<in>set overrides. plain_unit_text c"
    "overrides = [] \<Longrightarrow> parse_file base h = map_option parse_section (map_of (parse_ini_to_sections base) h)"
  shows "parse_file (merge_unit_contents base overrides) h =
    map_option parse_section (dropin_lines h base (map snd overrides))"
  using assms
proof (induction overrides arbitrary: base)
  case Nil
  then show ?case by (simp add: merge_unit_contents_def dropin_lines_def)
next
  case (Cons fc overrides)
  obtain f c where fc: "fc = (f, c)" by force
  have c: "sections_plain (parse_ini_to_sections c)" using Cons.prems(3) by (intro parsed_plain) (simp add: fc)
  note one = merge_one [OF Cons.prems(1,2) c]
  from Cons.IH [OF one(1,2)] Cons.prems(3) one(4)
  have "parse_file (merge_unit_contents (merge_ini_sections base c) overrides) h =
      map_option parse_section (dropin_lines h (merge_ini_sections base c) (map snd overrides))" by simp
  then show ?case by (simp add: merge_unit_contents_def dropin_lines_def fc one(3))
qed

section \<open>What the parser sees\<close>

text \<open>
  C32: the unit parser, run on a unit text with at least one drop-in merged into it, sees for every
  section exactly the lines of the unit with the drop-ins applied one after another, in order: a
  section new in a drop-in comes in as it is, and the lines of a known one are added one at a time,
  an empty assignment clearing the key and a scalar replacing it.  So printing the merged text and
  parsing it again loses nothing.  The texts have one header for each section, no line that ends in
  a backslash, and no line with an opening bracket but no closing one.
\<close>

theorem dropins_reach_the_parser:
  assumes "plain_unit_text base" "distinct (map fst (parse_ini_to_sections base))"
    "overrides \<noteq> []" "\<forall>(file, content)\<in>set overrides. plain_unit_text content"
  shows "parse_file (merge_unit_contents base overrides) header =
    map_option parse_section (dropin_lines header base (map snd overrides))"
  using assms by (intro merge_all) (simp_all add: parsed_plain)

section \<open>The settings of a merged section\<close>

text \<open>An assignment as the merge reads it, and what one assignment of a drop-in does to a key.\<close>

definition setting_of :: "string \<Rightarrow> (string \<times> string) option" where
  "setting_of line =
     (case find_char CHR ''='' (trim line) of
        None \<Rightarrow> None
      | Some pos \<Rightarrow> Some (trim (take pos (trim line)), trim (drop (pos + 1) (trim line))))"

definition values_of :: "string \<Rightarrow> (string \<times> string) list \<Rightarrow> string list" where
  "values_of key assignments = map snd (filter (\<lambda>(k, v). k = key) assignments)"

definition apply_setting :: "string \<Rightarrow> string \<times> string \<Rightarrow> string list \<Rightarrow> string list" where
  "apply_setting key = (\<lambda>(k, v) vs.
     if k \<noteq> key then vs else if v = [] then [] else if is_list_setting key then vs @ [v] else [v])"

abbreviation settings_of :: "string list \<Rightarrow> (string \<times> string) list" where
  "settings_of \<equiv> List.map_filter setting_of"

lemma settings_simps [simp]:
  "settings_of [] = []"
  "settings_of (l # ls) = (case setting_of l of None \<Rightarrow> settings_of ls | Some s \<Rightarrow> s # settings_of ls)"
  "settings_of (ls @ ls') = settings_of ls @ settings_of ls'"
  by (simp_all add: List.map_filter_def split: option.split)

lemma values_of_simps [simp]:
  "values_of key [] = []"
  "values_of key ((k, v) # as) = (if k = key then [v] else []) @ values_of key as"
  "values_of key (as @ as') = values_of key as @ values_of key as'"
  by (auto simp: values_of_def)

lemma not_setting_iff: "not_setting key l \<longleftrightarrow> (case setting_of l of Some (k, v) \<Rightarrow> k \<noteq> key | None \<Rightarrow> True)"
  by (simp add: not_setting_def setting_of_def split: option.split)

lemma values_of_cleared:
  "values_of key (settings_of (filter (not_setting k) ls)) = (if k = key then [] else values_of key (settings_of ls))"
  by (induction ls) (auto simp: not_setting_iff split: option.splits)

lemma merge_line_setting:
  "merge_line l ls = (case setting_of l of
     None \<Rightarrow> ls @ [l]
   | Some (k, v) \<Rightarrow>
       if v = [] then filter (not_setting k) ls
       else (if is_list_setting k then ls else filter (not_setting k) ls) @ [l])"
  by (simp add: merge_line_def setting_of_def Let_def split: option.split)

lemma values_of_merged:
  "values_of key (settings_of (fold merge_line new old)) =
    fold (apply_setting key) (settings_of new) (values_of key (settings_of old))"
proof (induction new arbitrary: old)
  case (Cons l new)
  have "values_of key (settings_of (merge_line l old)) =
      (case setting_of l of None \<Rightarrow> values_of key (settings_of old)
       | Some s \<Rightarrow> apply_setting key s (values_of key (settings_of old)))"
    by (auto simp: merge_line_setting apply_setting_def values_of_cleared split: option.split)
  with Cons show ?case by (simp split: option.split)
qed simp

text \<open>What a look-up in the parsed section finds.\<close>

definition parsed_values :: "parsed_section option \<Rightarrow> string \<Rightarrow> string list" where
  "parsed_values sec key =
     (case sec of None \<Rightarrow> []
      | Some s \<Rightarrow> (case s key of None \<Rightarrow> [] | Some es \<Rightarrow> map snd es))"

lemma parsed_values_section:
  "parsed_values (Some (parse_section ls)) key = values_of key (List.map_filter entry_of_line ls)"
proof -
  have "parsed_values (Some (fst (fold section_step ls (es, n)))) key =
      parsed_values (Some es) key @ values_of key (List.map_filter entry_of_line ls)" for es n
  proof (induction ls arbitrary: es n)
    case (Cons l ls)
    show ?case
    proof (cases "entry_of_line l")
      case None
      then show ?thesis using Cons by (simp add: section_step_def List.map_filter_def)
    next
      case (Some kv)
      then obtain k v where kv: "entry_of_line l = Some (k, v)" by (cases kv) auto
      then have "section_step l (es, n) = (push_entry k (n, v) es, n + 1)" by (simp add: section_step_def)
      moreover have "parsed_values (Some (push_entry k (n, v) es)) key =
          parsed_values (Some es) key @ (if k = key then [v] else [])"
        by (auto simp: parsed_values_def push_entry_def split: option.split)
      ultimately show ?thesis using Cons [of "push_entry k (n, v) es" "n + 1"] kv
        by (simp add: List.map_filter_def)
    qed
  qed (simp add: List.map_filter_def)
  from this [of Map.empty 0] show ?thesis by (simp add: parse_section_def parsed_values_def)
qed

text \<open>
  The parser compares keys in upper case and drops every leading equals sign of a value; the merge
  does neither.  A line spells a key plainly if that makes no difference.
\<close>

definition spells :: "string \<Rightarrow> string \<Rightarrow> bool" where
  "spells key l \<longleftrightarrow>
     (case entry_of_line l of
        None \<Rightarrow> True
      | Some (k, v) \<Rightarrow> k = to_uppercase key \<longrightarrow> setting_of l = Some (key, v))"

lemma entry_of_ok_line:
  "line_ok l \<Longrightarrow> setting_of l = Some (k, v) \<Longrightarrow> \<exists>v'. entry_of_line l = Some (to_uppercase k, v')"
  by (auto simp: line_ok_def entry_of_line_def setting_of_def split: option.splits)

lemma parsed_values_spelled:
  assumes "list_all line_ok ls" "list_all (spells key) ls"
  shows "parsed_values (Some (parse_section ls)) (to_uppercase key) = values_of key (settings_of ls)"
proof -
  have "values_of (to_uppercase key) (List.map_filter entry_of_line ls) = values_of key (settings_of ls)"
    using assms
  proof (induction ls)
    case (Cons l ls)
    show ?case
    proof (cases "setting_of l")
      case None
      then have "entry_of_line l = None" using Cons.prems(1)
        by (auto simp: line_ok_def entry_of_line_def setting_of_def split: option.splits)
      then show ?thesis using None Cons by (simp add: List.map_filter_def)
    next
      case (Some kv)
      obtain k v where kv: "kv = (k, v)" by force
      obtain v' where "entry_of_line l = Some (to_uppercase k, v')"
        using entry_of_ok_line [of l k v] Some Cons.prems(1) kv by auto
      then show ?thesis using Some Cons by (auto simp: List.map_filter_def spells_def kv)
    qed
  qed (simp add: List.map_filter_def)
  then show ?thesis by (simp add: parsed_values_section)
qed

text \<open>The assignments a text makes in a section.\<close>

definition assignments :: "string \<Rightarrow> string \<Rightarrow> (string \<times> string) list" where
  "assignments header content =
     concat (map (\<lambda>(h, ls). if h = header then settings_of ls else []) (parse_ini_to_sections content))"

definition spelled_in :: "string \<Rightarrow> string \<Rightarrow> string \<Rightarrow> bool" where
  "spelled_in key header content \<longleftrightarrow>
     list_all (\<lambda>(h, ls). h = header \<longrightarrow> list_all (spells key) ls) (parse_ini_to_sections content)"

lemma apply_dropin_settings:
  assumes "sections_ok overlay" "list_all (\<lambda>(h, ls). h = header \<longrightarrow> list_all (spells key) ls) overlay"
    "list_all line_ok old" "list_all (spells key) old"
  shows "\<exists>ls. apply_dropin header overlay (Some old) = Some ls \<and> list_all line_ok ls \<and> list_all (spells key) ls \<and>
    values_of key (settings_of ls) =
      fold (apply_setting key) (concat (map (\<lambda>(h, ls). if h = header then settings_of ls else []) overlay))
        (values_of key (settings_of old))"
  using assms
proof (induction overlay arbitrary: old)
  case (Cons m overlay)
  obtain h new where m: "m = (h, new)" by force
  let ?old = "if h = header then fold merge_line new old else old"
  have "list_all line_ok ?old" "list_all (spells key) ?old"
    using Cons.prems by (auto simp: m intro: merge_lines_all)
  moreover have "apply_dropin header (m # overlay) (Some old) = apply_dropin header overlay (Some ?old)"
    by (simp add: apply_dropin_def m merged_lines_def)
  ultimately show ?case using Cons.IH [of ?old] Cons.prems by (auto simp: m values_of_merged)
qed (simp add: apply_dropin_def)

lemma dropin_lines_settings:
  assumes "list_all line_ok old" "list_all (spells key) old" "\<forall>c\<in>set contents. spelled_in key header c"
  shows "\<exists>ls. fold (\<lambda>c. apply_dropin header (parse_ini_to_sections c)) contents (Some old) = Some ls \<and>
    list_all line_ok ls \<and> list_all (spells key) ls \<and>
    values_of key (settings_of ls) =
      fold (apply_setting key) (concat (map (assignments header) contents)) (values_of key (settings_of old))"
  using assms
proof (induction contents arbitrary: old)
  case (Cons c contents)
  obtain ls where ls: "apply_dropin header (parse_ini_to_sections c) (Some old) = Some ls"
    "list_all line_ok ls" "list_all (spells key) ls"
    "values_of key (settings_of ls) = fold (apply_setting key) (assignments header c) (values_of key (settings_of old))"
    using apply_dropin_settings [OF parsed_sections_ok _ Cons.prems(1,2), of header c] Cons.prems(3)
    by (auto simp: spelled_in_def assignments_def)
  then show ?case using Cons.IH [of ls] Cons.prems(3) by simp
qed simp

text \<open>
  C33: for a section the unit has, the values the parser finds for a key after the merge are the
  unit's own values, changed by the assignments of the drop-ins in their order: an empty one clears
  the key, one to an accumulating setting appends, any other replaces.  The texts are plain as
  above, and spell the key alike with no second equals sign.
\<close>

theorem dropins_apply_in_order:
  assumes "plain_unit_text base" "distinct (map fst (parse_ini_to_sections base))"
    "overrides \<noteq> []" "\<forall>(file, content)\<in>set overrides. plain_unit_text content \<and> spelled_in key header content"
    "map_of (parse_ini_to_sections base) header = Some old" "list_all (spells key) old"
  shows "parsed_values (parse_file (merge_unit_contents base overrides) header) (to_uppercase key) =
    fold (apply_setting key) (concat (map (assignments header) (map snd overrides)))
      (values_of key (settings_of old))"
proof -
  have "list_all line_ok old" using assms(2,5) parsed_sections_ok [of base]
    by (auto simp: sections_ok_def list_all_iff map_of_eq_Some_iff)
  then obtain ls where ls: "dropin_lines header base (map snd overrides) = Some ls"
    "list_all line_ok ls" "list_all (spells key) ls" "values_of key (settings_of ls) =
       fold (apply_setting key) (concat (map (assignments header) (map snd overrides))) (values_of key (settings_of old))"
    using dropin_lines_settings [OF _ assms(6), of "map snd overrides" header] assms(4,5)
    by (auto simp: dropin_lines_def case_prod_beta)
  have "parse_file (merge_unit_contents base overrides) header =
      map_option parse_section (dropin_lines header base (map snd overrides))"
    using assms(1-4) by (intro merge_all) (auto simp: parsed_plain)
  then show ?thesis using ls parsed_values_spelled [OF ls(2,3)] by simp
qed

section \<open>A unit with two drop-ins\<close>

definition text_of :: "string list \<Rightarrow> string" where
  "text_of lines = concat (map (\<lambda>l. l @ [newline]) lines)"

definition sample_unit :: string where
  "sample_unit = text_of [''[S]'', ''T=a'', ''After=b'']"

definition sample_dropins :: "(string \<times> string) list" where
  "sample_dropins =
     [(''1'', text_of [''[S]'', ''After='', ''After=c'', ''T=d'']),
      (''2'', text_of ['' [S] '', ''# e'', ''After = f''])]"

lemma sample_parsed: "parse_ini_to_sections sample_unit = [(''[S]'', [''T=a'', ''After=b''])]"
  by code_simp

lemma sample_plain: "plain_unit_text sample_unit" "\<forall>(f, c)\<in>set sample_dropins. plain_unit_text c"
  by code_simp+

lemma sample_lines:
  "dropin_lines ''[S]'' sample_unit (map snd sample_dropins) = Some [''After=c'', ''T=d'', ''After = f'']"
  by code_simp

lemma dropins_reach_the_parser_witness:
  "parse_file (merge_unit_contents sample_unit sample_dropins) ''[S]'' =
    Some (parse_section [''After=c'', ''T=d'', ''After = f''])"
proof -
  have "parse_file (merge_unit_contents sample_unit sample_dropins) ''[S]'' =
      map_option parse_section (dropin_lines ''[S]'' sample_unit (map snd sample_dropins))"
    by (rule dropins_reach_the_parser [OF sample_plain(1) _ _ sample_plain(2)])
       (simp_all add: sample_parsed, simp add: sample_dropins_def)
  then show ?thesis by (simp add: sample_lines)
qed

lemma sample_spelled:
  "list_all (spells ''After'') [''T=a'', ''After=b'']"
  "\<forall>(f, c)\<in>set sample_dropins. spelled_in ''After'' ''[S]'' c"
  by code_simp+

lemma sample_assignments:
  "concat (map (assignments ''[S]'') (map snd sample_dropins)) =
    [(''After'', []), (''After'', ''c''), (''T'', ''d''), (''After'', ''f'')]"
  by code_simp

lemma dropins_apply_in_order_witness:
  "parsed_values (parse_file (merge_unit_contents sample_unit sample_dropins) ''[S]'') (to_uppercase ''After'') =
    [''c'', ''f'']"
proof -
  have "parsed_values (parse_file (merge_unit_contents sample_unit sample_dropins) ''[S]'') (to_uppercase ''After'') =
      fold (apply_setting ''After'') (concat (map (assignments ''[S]'') (map snd sample_dropins)))
        (values_of ''After'' (settings_of [''T=a'', ''After=b'']))"
  proof (rule dropins_apply_in_order [OF sample_plain(1)])
    show "distinct (map fst (parse_ini_to_sections sample_unit))" by (simp add: sample_parsed)
    show "sample_dropins \<noteq> []" by (simp add: sample_dropins_def)
    show "\<forall>(f, c)\<in>set sample_dropins. plain_unit_text c \<and> spelled_in ''After'' ''[S]'' c"
      using sample_plain(2) sample_spelled(2) by blast
    show "map_of (parse_ini_to_sections sample_unit) ''[S]'' =
        Some [''T=a'', ''After=b'']" by (simp add: sample_parsed)
    show "list_all (spells ''After'') [''T=a'', ''After=b'']"
      by (rule sample_spelled(1))
  qed
  also have "\<dots> = [''c'', ''f'']"
    unfolding sample_assignments by code_simp
  finally show ?thesis .
qed

section \<open>Where merging and parsing disagree\<close>

text \<open>A reset clears a section's last part only, when the unit repeats its header.\<close>

lemma reset_misses_repeated_header:
  "parsed_values (parse_file (merge_unit_contents
      (text_of [''[S]'', ''After=a'', ''[S]'', ''After=b''])
      [(''x'', text_of [''[S]'', ''After=''])]) ''[S]'') ''AFTER'' = [''a'']"
  by code_simp

text \<open>The merge works on raw lines: a reset takes the first line of a continued assignment only.\<close>

lemma reset_keeps_continuation:
  "merge_unit_contents (text_of [''[S]'', ''After=a '' @ [backslash], ''-o=1''])
      [(''x'', text_of [''[S]'', ''After=''])] = text_of [''[S]'', ''-o=1'', []]"
  by code_simp

text \<open>The parser compares keys in upper case, the merge by their spelling.\<close>

lemma reset_is_case_sensitive:
  "parsed_values (parse_file (merge_unit_contents
      (text_of [''[S]'', ''after=a''])
      [(''x'', text_of [''[S]'', ''After='', ''After=b''])]) ''[S]'') ''AFTER'' = [''a'', ''b'']"
  by code_simp

text \<open>Every leading equals sign of a value is dropped, also one that belongs to it.\<close>

lemma leading_equals_dropped:
  "parsed_values (Some (parse_section [''A==4''])) ''A'' = [''4'']"
  by code_simp

text \<open>A comment inside a continued assignment becomes a part of it.\<close>

lemma comment_joined:
  "parsed_values (parse_file (text_of [''[S]'', ''A=x '' @ [backslash], ''# note'', ''B=y'']) ''[S]'') ''A'' = [''x # note'']"
  by code_simp

text \<open>The entry numbers start again where a section is continued.\<close>

lemma entry_numbers_restart:
  "map_option (\<lambda>s. (s ''A'', s ''B'')) (parse_file (text_of [''[S]'', ''A=1'', ''[S]'', ''B=2'', ''A=3'']) ''[S]'') =
    Some (Some [(0, ''1''), (1, ''3'')], Some [(0, ''2'')])"
  by code_simp

end
