(* ===== verification/Specifiers.thy ===== *)
theory Specifiers
  imports UnitName UnitText
begin

text \<open>
  Specifiers in unit files: \<open>specifier.rs\<close> (\<open>resolve_specifiers\<close>, the readers of prefix and
  instance, \<open>parse_os_release_content\<close>), the readers of unit names in
  \<open>units/loading/directory_deps.rs\<close>, and the four ways in which the program turns a unit's file and
  its drop-ins into the text it parses (\<open>units/loading/mod.rs\<close>, \<open>apply_dropins\<close>,
  \<open>instantiate_template\<close>, \<open>load_new_unit\<close>).

  The values the program reads from the system at start-up are the fields of a context record.
  Texts are UTF-8 bytes; the percent sign and every known specifier are ASCII, so the bytes of an
  unknown character are copied one by one.
\<close>

section \<open>Names\<close>

definition before_last_dot :: "string \<Rightarrow> string" where
  "before_last_dot unit_name = (case rfind_char CHR ''.'' unit_name of Some pos \<Rightarrow> take pos unit_name | None \<Rightarrow> unit_name)"

definition extract_prefix :: "string \<Rightarrow> string" where
  "extract_prefix unit_name =
     (let without_suffix = before_last_dot unit_name in
      case find_char CHR ''@'' without_suffix of
        Some at_pos \<Rightarrow> take at_pos without_suffix
      | None \<Rightarrow> without_suffix)"

definition extract_instance :: "string \<Rightarrow> string" where
  "extract_instance unit_name =
     (let without_suffix = before_last_dot unit_name in
      case find_char CHR ''@'' without_suffix of
        Some at_pos \<Rightarrow> drop (at_pos + 1) without_suffix
      | None \<Rightarrow> [])"

definition instance_of :: "string \<Rightarrow> string" where
  "instance_of unit_name =
     (case find_char CHR ''@'' unit_name of
        None \<Rightarrow> []
      | Some at_pos \<Rightarrow> before_last_dot (drop (at_pos + 1) unit_name))"

definition parse_template_instance :: "string \<Rightarrow> (string \<times> string) option" where
  "parse_template_instance unit_name =
     (case find_char CHR ''@'' unit_name of
        None \<Rightarrow> None
      | Some at_pos \<Rightarrow>
          (case rfind_char CHR ''.'' unit_name of
             None \<Rightarrow> None
           | Some dot_pos \<Rightarrow>
               if dot_pos \<le> at_pos then None
               else let inst = take (dot_pos - (at_pos + 1)) (drop (at_pos + 1) unit_name) in
                 if inst = [] then None
                 else Some (take at_pos unit_name @ ''@'' @ drop dot_pos unit_name, inst)))"

text \<open>The instance as \<open>load_new_unit\<close> reads it, and the template as \<open>find_new_unit_path\<close> does.\<close>

definition on_demand_instance :: "string \<Rightarrow> string" where
  "on_demand_instance find_name =
     (case find_char CHR ''@'' find_name of
        None \<Rightarrow> []
      | Some at_pos \<Rightarrow>
          (case find_char CHR ''.'' (drop at_pos find_name) of
             None \<Rightarrow> []
           | Some dot_pos \<Rightarrow> take (dot_pos - 1) (drop (at_pos + 1) find_name)))"

definition on_demand_template :: "string \<Rightarrow> string option" where
  "on_demand_template find_name =
     (case find_char CHR ''@'' find_name of
        None \<Rightarrow> None
      | Some at_pos \<Rightarrow>
          (case find_char CHR ''.'' (drop at_pos find_name) of
             None \<Rightarrow> None
           | Some dot_pos \<Rightarrow>
               let template = take at_pos find_name @ ''@'' @ drop (at_pos + dot_pos) find_name in
               if template \<noteq> find_name then Some template else None))"

section \<open>Expansion\<close>

record specifier_context =
  user_name :: string
  user_uid :: string
  user_home :: string
  user_shell :: string
  user_group :: string
  user_gid :: string
  machine_id :: string
  boot_id :: string
  hostname :: string
  short_hostname :: string
  kernel_release :: string
  architecture :: string
  runtime_dir :: string
  config_dir :: string
  cache_dir :: string
  log_dir :: string
  state_dir :: string
  tmp_dir :: string
  var_tmp_dir :: string
  os_release :: "string \<rightharpoonup> string"
  is_system :: bool

definition unescaped_or_raw :: "string \<Rightarrow> string" where
  "unescaped_or_raw s = (case unit_name_unescape s of Some t \<Rightarrow> t | None \<Rightarrow> s)"

definition final_component :: "string \<Rightarrow> string \<Rightarrow> string" where
  "final_component prefix inst =
     (if inst \<noteq> [] then
        take (case find_char CHR ''-'' inst of Some p \<Rightarrow> p | None \<Rightarrow> length inst) inst
      else drop (case rfind_char CHR ''-'' prefix of Some p \<Rightarrow> p + 1 | None \<Rightarrow> 0) prefix)"

definition release_field :: "specifier_context \<Rightarrow> string \<Rightarrow> string" where
  "release_field ctx key = (case os_release ctx key of Some v \<Rightarrow> v | None \<Rightarrow> [])"

text \<open>The text one specifier stands for.\<close>

definition expand :: "specifier_context \<Rightarrow> string \<Rightarrow> string \<Rightarrow> char \<Rightarrow> string" where
  "expand ctx unit_name inst spec =
     (let prefix = extract_prefix unit_name;
          instance_or_prefix = (if inst = [] then prefix else inst) in
      if spec = CHR ''n'' then unit_name
      else if spec = CHR ''N'' then before_last_dot unit_name
      else if spec = CHR ''p'' then prefix
      else if spec = CHR ''P'' then unescaped_or_raw prefix
      else if spec = CHR ''i'' then inst
      else if spec = CHR ''I'' then unescaped_or_raw inst
      else if spec = CHR ''f'' then
        (let unescaped = unescaped_or_raw instance_or_prefix in
         if starts_with unescaped ''/'' then unescaped else CHR ''/'' # unescaped)
      else if spec = CHR ''j'' then final_component prefix inst
      else if spec = CHR ''J'' then unescaped_or_raw (final_component prefix inst)
      else if spec = CHR ''u'' then user_name ctx
      else if spec = CHR ''U'' then user_uid ctx
      else if spec = CHR ''h'' then user_home ctx
      else if spec = CHR ''s'' then user_shell ctx
      else if spec = CHR ''g'' then user_group ctx
      else if spec = CHR ''G'' then user_gid ctx
      else if spec = CHR ''m'' then machine_id ctx
      else if spec = CHR ''b'' then boot_id ctx
      else if spec = CHR ''H'' then hostname ctx
      else if spec = CHR ''l'' then short_hostname ctx
      else if spec = CHR ''v'' then kernel_release ctx
      else if spec = CHR ''a'' then architecture ctx
      else if spec = CHR ''t'' then runtime_dir ctx
      else if spec = CHR ''T'' then tmp_dir ctx
      else if spec = CHR ''V'' then var_tmp_dir ctx
      else if spec = CHR ''E'' then config_dir ctx
      else if spec = CHR ''C'' then cache_dir ctx
      else if spec = CHR ''S'' then state_dir ctx
      else if spec = CHR ''L'' then log_dir ctx
      else if spec = CHR ''d'' then ''/run/credentials/'' @ unit_name
      else if spec = CHR ''o'' then release_field ctx ''ID''
      else if spec = CHR ''w'' then release_field ctx ''VERSION''
      else if spec = CHR ''q'' then release_field ctx ''VERSION_ID''
      else if spec = CHR ''M'' then release_field ctx ''PRETTY_NAME''
      else if spec = CHR ''A'' then release_field ctx ''IMAGE_VERSION''
      else if spec = CHR ''B'' then release_field ctx ''BUILD_ID''
      else if spec = CHR ''W'' then release_field ctx ''VARIANT_ID''
      else if spec = CHR ''%'' then ''%''
      else [CHR ''%'', spec])"

fun resolve_loop :: "(char \<Rightarrow> string) \<Rightarrow> string \<Rightarrow> string" where
  "resolve_loop f [] = []"
| "resolve_loop f [c] = [c]"
| "resolve_loop f (c # spec # s) =
     (if c \<noteq> CHR ''%'' then c # resolve_loop f (spec # s) else f spec @ resolve_loop f s)"

definition resolve_specifiers :: "specifier_context \<Rightarrow> string \<Rightarrow> string \<Rightarrow> string \<Rightarrow> string" where
  "resolve_specifiers ctx content unit_name inst = resolve_loop (expand ctx unit_name inst) content"

definition resolve_specifiers_auto :: "specifier_context \<Rightarrow> string \<Rightarrow> string \<Rightarrow> string" where
  "resolve_specifiers_auto ctx content unit_name =
     resolve_specifiers ctx content unit_name (extract_instance unit_name)"

text \<open>
  \<open>char::is_alphanumeric\<close> needs the tables of Unicode outside ASCII: they are an argument, asked
  about the text that starts with the character.
\<close>

fun has_unresolved_specifiers :: "(string \<Rightarrow> bool) \<Rightarrow> string \<Rightarrow> bool" where
  "has_unresolved_specifiers alnum (c # spec # s) =
     (if c = CHR ''%'' \<and> spec \<noteq> CHR ''%''
         \<and> (if byte_of spec < 128 then is_ascii_alphanumeric spec else alnum (spec # s))
      then True else has_unresolved_specifiers alnum (spec # s))"
| "has_unresolved_specifiers alnum s = False"

section \<open>The os-release file\<close>

text \<open>Slicing the quotes off a value that is one quote character panics.\<close>

definition release_line :: "string \<Rightarrow> (string \<rightharpoonup> string) outcome \<Rightarrow> (string \<rightharpoonup> string) outcome" where
  "release_line raw acc =
     (case acc of
        Panics \<Rightarrow> Panics
      | Returns known \<Rightarrow>
          let line = trim raw in
          if line = [] \<or> starts_with line ''#'' then Returns known
          else case split_once ''='' line of
            None \<Rightarrow> Returns known
          | Some (key, value) \<Rightarrow>
              let key = trim key; value = trim value in
              if (starts_with value [CHR 0x22] \<and> ends_with value [CHR 0x22])
                 \<or> (starts_with value [CHR 0x27] \<and> ends_with value [CHR 0x27]) then
                if length value < 2 then Panics
                else Returns (known(key \<mapsto> take (length value - 2) (drop 1 value)))
              else Returns (known(key \<mapsto> value)))"

definition parse_os_release_content :: "string \<Rightarrow> (string \<rightharpoonup> string) outcome" where
  "parse_os_release_content content = fold release_line (str_lines content) (Returns Map.empty)"

section \<open>The drop-ins of a unit\<close>

type_synonym dropin_files = "string \<rightharpoonup> (string \<times> string) list"

definition expand_files :: "specifier_context \<Rightarrow> string \<Rightarrow> (string \<times> string) list \<Rightarrow> (string \<times> string) list" where
  "expand_files ctx unit_name overrides =
     map (\<lambda>(filename, content). (filename, resolve_specifiers ctx content unit_name (instance_of unit_name))) overrides"

definition files_of :: "dropin_files \<Rightarrow> string \<Rightarrow> (string \<times> string) list" where
  "files_of dropins key = (case dropins key of Some overrides \<Rightarrow> overrides | None \<Rightarrow> [])"

text \<open>The keys \<open>a-\<close>, \<open>a-b-\<close>, ... with the suffix, for a name \<open>a-b-c\<close>.\<close>

definition prefix_keys :: "string \<Rightarrow> string list" where
  "prefix_keys unit_name =
     (case rfind_char CHR ''.'' unit_name of
        None \<Rightarrow> []
      | Some dot_pos \<Rightarrow>
          let parts = split_on CHR ''-'' (take dot_pos unit_name) in
          map (\<lambda>i. join_with ''-'' (take i parts) @ ''-'' @ drop dot_pos unit_name) [1..<length parts])"

definition collect_applicable_dropins :: "specifier_context \<Rightarrow> string \<Rightarrow> dropin_files \<Rightarrow> (string \<times> string) list" where
  "collect_applicable_dropins ctx unit_name dropins =
     (let type_suffix = (case rfind_char CHR ''.'' unit_name of Some i \<Rightarrow> drop (i + 1) unit_name | None \<Rightarrow> []);
          type_level = (if type_suffix \<noteq> [] then files_of dropins type_suffix else []);
          prefixes = concat (map (files_of dropins) (prefix_keys unit_name));
          exact = files_of dropins unit_name
      in expand_files ctx unit_name type_level @ expand_files ctx unit_name prefixes
         @ expand_files ctx unit_name exact)"

section \<open>The text that is parsed\<close>

text \<open>A unit file read at start-up, without and with drop-ins.\<close>

definition loaded_text :: "specifier_context \<Rightarrow> string \<Rightarrow> string \<Rightarrow> string" where
  "loaded_text ctx filename raw = resolve_specifiers ctx raw filename (instance_of filename)"

definition apply_dropins_text :: "specifier_context \<Rightarrow> string \<Rightarrow> string \<Rightarrow> dropin_files \<Rightarrow> string option" where
  "apply_dropins_text ctx unit_name base_content dropins =
     (let overrides = collect_applicable_dropins ctx unit_name dropins in
      if overrides = [] then None
      else Some (merge_unit_contents
        (resolve_specifiers ctx base_content unit_name (instance_of unit_name)) overrides))"

text \<open>A template instantiated for a reference, and a unit loaded on demand.\<close>

definition instantiate_template_text ::
  "specifier_context \<Rightarrow> string \<Rightarrow> string \<Rightarrow> string \<Rightarrow> string \<Rightarrow> dropin_files \<Rightarrow> string" where
  "instantiate_template_text ctx template_name instance_name instance_unit_name base_content dropins =
     (let all_overrides = files_of dropins template_name @ files_of dropins instance_unit_name;
          merged = (if all_overrides = [] then base_content else merge_unit_contents base_content all_overrides)
      in resolve_specifiers ctx merged instance_unit_name instance_name)"

definition load_new_unit_text :: "specifier_context \<Rightarrow> string \<Rightarrow> string \<Rightarrow> dropin_files \<Rightarrow> string" where
  "load_new_unit_text ctx find_name content dropins =
     (let overrides = collect_applicable_dropins ctx find_name dropins;
          final_content = (if overrides = [] then content else merge_unit_contents content overrides)
      in resolve_specifiers ctx final_content find_name (on_demand_instance find_name))"

section \<open>Expanding a text is expanding its lines\<close>

lemma resolve_loop_newline:
  "f newline = [CHR ''%'', newline] \<Longrightarrow> resolve_loop f (a @ newline # b) = resolve_loop f a @ newline # resolve_loop f b"
proof (induction f a rule: resolve_loop.induct)
  case (1 f)
  then show ?case by (cases b) simp_all
next
  case (2 f c)
  then show ?case by (cases b) simp_all
qed simp_all

lemma resolve_loop_char: "c \<noteq> CHR ''%'' \<Longrightarrow> resolve_loop f (c # s) = c # resolve_loop f s"
  by (cases s) simp_all

lemma resolve_loop_spec: "resolve_loop f (CHR ''%'' # spec # s) = f spec @ resolve_loop f s"
  by simp

lemma expand_newline: "expand ctx unit_name inst newline = [CHR ''%'', newline]"
  by (simp add: expand_def Let_def)

definition double_percent :: "string \<Rightarrow> string" where
  "double_percent s = concat (map (\<lambda>c. if c = CHR ''%'' then ''%%'' else [c]) s)"

text \<open>
  C34: expanding the specifiers of a whole unit text gives what expanding each of its lines gives,
  also where a line ends in a single percent sign; and doubling every percent sign protects any
  text from expansion.
\<close>

theorem expansion_is_linewise:
  "resolve_specifiers ctx (join_with [newline] lines) unit_name inst =
     join_with [newline] (map (\<lambda>l. resolve_specifiers ctx l unit_name inst) lines) \<and>
   resolve_specifiers ctx (double_percent s) unit_name inst = s"
proof
  show "resolve_specifiers ctx (join_with [newline] lines) unit_name inst =
      join_with [newline] (map (\<lambda>l. resolve_specifiers ctx l unit_name inst) lines)"
    unfolding resolve_specifiers_def
    by (induction "[newline]" lines rule: join_with.induct)
       (simp_all add: resolve_loop_newline expand_newline)
  have "expand ctx unit_name inst (CHR ''%'') = ''%''" by (simp add: expand_def Let_def)
  then have "resolve_loop (expand ctx unit_name inst) (double_percent s) = s"
  proof (induction s)
    case (Cons c s)
    then show ?case
      by (cases "c = CHR ''%''") (simp_all add: double_percent_def resolve_loop_char resolve_loop_spec del: resolve_loop.simps)
  qed (simp add: double_percent_def)
  then show "resolve_specifiers ctx (double_percent s) unit_name inst = s"
    by (simp add: resolve_specifiers_def)
qed

section \<open>The readers of instance names\<close>

lemma find_char_fresh: "c \<notin> set p \<Longrightarrow> find_char c (p @ c # s) = Some (length p)"
  by (simp add: find_char_append find_char_None [THEN iffD2])

lemma rfind_char_fresh: "c \<notin> set s \<Longrightarrow> rfind_char c (p @ c # s) = Some (length p)"
  by (simp add: rfind_char_append rfind_char_None [THEN iffD2])

lemma before_last_dot_fresh: "CHR ''.'' \<notin> set s \<Longrightarrow> before_last_dot (p @ CHR ''.'' # s) = p"
  by (simp add: before_last_dot_def rfind_char_fresh)

lemma resolve_loop_plain: "CHR ''%'' \<notin> set s \<Longrightarrow> resolve_loop f s = s"
  by (induction f s rule: resolve_loop.induct) auto

lemma read_instance:
  assumes "CHR ''@'' \<notin> set p" "CHR ''.'' \<notin> set suffix"
  shows "extract_prefix (p @ CHR ''@'' # i @ CHR ''.'' # suffix) = p"
    "extract_instance (p @ CHR ''@'' # i @ CHR ''.'' # suffix) = i"
    "instance_of (p @ CHR ''@'' # i @ CHR ''.'' # suffix) = i"
    "before_last_dot (p @ CHR ''@'' # i @ CHR ''.'' # suffix) = p @ CHR ''@'' # i"
proof -
  have start: "before_last_dot (p @ CHR ''@'' # i @ CHR ''.'' # suffix) = p @ CHR ''@'' # i"
    using before_last_dot_fresh [OF assms(2), of "p @ CHR ''@'' # i"] by simp
  then show "before_last_dot (p @ CHR ''@'' # i @ CHR ''.'' # suffix) = p @ CHR ''@'' # i" .
  show "extract_prefix (p @ CHR ''@'' # i @ CHR ''.'' # suffix) = p"
    "extract_instance (p @ CHR ''@'' # i @ CHR ''.'' # suffix) = i"
    by (simp_all add: extract_prefix_def extract_instance_def start find_char_fresh [OF assms(1)])
  show "instance_of (p @ CHR ''@'' # i @ CHR ''.'' # suffix) = i"
    by (simp add: instance_of_def find_char_fresh [OF assms(1)] before_last_dot_fresh [OF assms(2)])
qed

lemma parse_template_instance_of:
  assumes "CHR ''@'' \<notin> set p" "CHR ''.'' \<notin> set suffix" "i \<noteq> []"
  shows "parse_template_instance (p @ CHR ''@'' # i @ CHR ''.'' # suffix) = Some (p @ ''@.'' @ suffix, i)"
proof -
  have "rfind_char CHR ''.'' (p @ CHR ''@'' # i @ CHR ''.'' # suffix) = Some (length p + 1 + length i)"
    using rfind_char_fresh [OF assms(2), of "p @ CHR ''@'' # i"] by simp
  then show ?thesis using assms(3)
    by (simp add: parse_template_instance_def find_char_fresh [OF assms(1)] Let_def)
qed

lemma on_demand_reads:
  assumes "CHR ''@'' \<notin> set p" "CHR ''.'' \<notin> set i" "i \<noteq> []"
  shows "on_demand_instance (p @ CHR ''@'' # i @ CHR ''.'' # suffix) = i"
    "on_demand_template (p @ CHR ''@'' # i @ CHR ''.'' # suffix) = Some (p @ ''@.'' @ suffix)"
proof -
  have "find_char CHR ''.'' (CHR ''@'' # i @ CHR ''.'' # suffix) = Some (length i + 1)"
    using find_char_fresh [OF assms(2)] by simp
  then show "on_demand_instance (p @ CHR ''@'' # i @ CHR ''.'' # suffix) = i"
    "on_demand_template (p @ CHR ''@'' # i @ CHR ''.'' # suffix) = Some (p @ ''@.'' @ suffix)"
    using assms(3) by (simp_all add: on_demand_instance_def on_demand_template_def find_char_fresh [OF assms(1)] Let_def)
qed

text \<open>
  For the name of an instance, all readers of the program find the same prefix, template and
  instance, and the specifiers put the name together again.  The reader of on-demand loading agrees
  as long as there is no dot in the instance.
\<close>

theorem instance_names_read_alike:
  assumes "CHR ''@'' \<notin> set p" "CHR ''.'' \<notin> set suffix" "CHR ''%'' \<notin> set suffix" "i \<noteq> []"
  defines "name \<equiv> p @ ''@'' @ i @ ''.'' @ suffix"
  shows "extract_prefix name = p \<and> extract_instance name = i \<and> instance_of name = i \<and>
    parse_template_instance name = Some (p @ ''@.'' @ suffix, i) \<and>
    resolve_specifiers_auto ctx (''%p@%i.'' @ suffix) name = name \<and>
    resolve_specifiers ctx (''%N.'' @ suffix) name (instance_of name) = name \<and>
    (CHR ''.'' \<notin> set i \<longrightarrow> on_demand_instance name = i \<and> on_demand_template name = Some (p @ ''@.'' @ suffix))"
proof -
  have n: "name = p @ CHR ''@'' # i @ CHR ''.'' # suffix" by (simp add: name_def)
  note reads = read_instance [OF assms(1,2), of i, folded n]
  have "expand ctx name i (CHR ''p'') = p" "expand ctx name i (CHR ''i'') = i"
    "expand ctx name i (CHR ''N'') = p @ CHR ''@'' # i"
    by (simp_all add: expand_def Let_def reads)
  then have "resolve_specifiers_auto ctx (''%p@%i.'' @ suffix) name = name"
    "resolve_specifiers ctx (''%N.'' @ suffix) name (instance_of name) = name"
    by (simp_all add: resolve_specifiers_auto_def resolve_specifiers_def reads
        resolve_loop_spec resolve_loop_char resolve_loop_plain [OF assms(3)] del: resolve_loop.simps)
       (simp_all add: n)
  then show ?thesis using reads parse_template_instance_of [OF assms(1,2,4), folded n]
      on_demand_reads [OF assms(1) _ assms(4), of suffix, folded n] by blast
qed

lemma instance_names_read_alike_witness:
  "parse_template_instance ''serial-getty@ttyS0.service'' = Some (''serial-getty@.service'', ''ttyS0'') \<and>
   on_demand_instance ''serial-getty@ttyS0.service'' = ''ttyS0''"
  using instance_names_read_alike [of "''serial-getty''" "''service''" "''ttyS0''" undefined] by simp

section \<open>Where the four texts differ\<close>

text \<open>An instance with a dot is looked up under another template on demand.\<close>

lemma dotted_instance_on_demand:
  "parse_template_instance ''a@b.c.service'' = Some (''a@.service'', ''b.c'')"
  "on_demand_instance ''a@b.c.service'' = ''b''" "on_demand_template ''a@b.c.service'' = Some ''a@.c.service''"
  by code_simp+

text \<open>A drop-in is expanded once at start-up and twice when its unit is loaded on demand.\<close>

definition percent_dropin :: dropin_files where
  "percent_dropin = [''foo.service'' \<mapsto> [(''x.conf'', text_of [''[Service]'', ''Environment=A=%%n''])]]"

lemma dropin_expanded_twice:
  "apply_dropins_text ctx ''foo.service'' (text_of [''[Service]'']) percent_dropin =
    Some (text_of [''[Service]'', ''Environment=A=%n'', []])"
  "load_new_unit_text ctx ''foo.service'' (text_of [''[Service]'']) percent_dropin =
    text_of [''[Service]'', ''Environment=A=foo.service'', []]"
  by code_simp+

text \<open>
  A template's own drop-ins are not among those applied to an instance that is loaded on demand, and
  the drop-ins of the type are not applied to an instance made for a reference.
\<close>

lemma template_dropin_ignored:
  "collect_applicable_dropins ctx ''foo@1.service'' [''foo@.service'' \<mapsto> files] = []"
  "instantiate_template_text ctx ''foo@.service'' ''1'' ''foo@1.service'' content [''service'' \<mapsto> files] =
    resolve_specifiers ctx content ''foo@1.service'' ''1''"
  by code_simp+

text \<open>
  Specifiers are expanded before the text is split into lines, so the escaped instance in a unit's
  name can add a line with a setting of its own.
\<close>

definition injected_name :: string where
  "injected_name = ''f@x'' @ [backslash] @ ''x0aB'' @ [backslash] @ ''x3dc.service''"

lemma instance_injects_setting:
  "parsed_values (parse_file (loaded_text ctx injected_name (text_of [''[S]'', ''A=%I''])) ''[S]'') ''B'' = [''c'']"
  by code_simp

text \<open>The second percent sign of an escaped one is read as the start of a specifier.\<close>

lemma escaped_percent_unresolved: "has_unresolved_specifiers alnum ''%%i''"
  by code_simp

text \<open>One stray quote in the os-release file.\<close>

lemma lone_quote_panics:
  "case parse_os_release_content (''ID='' @ [CHR 0x22] @ [newline]) of Panics \<Rightarrow> True | Returns _ \<Rightarrow> False"
  by code_simp

end
