(* ===== verification/RemoveUnit.thy ===== *)
theory RemoveUnit
  imports Units
begin

text \<open>
  Removing a unit: \<open>units/unitset_manipulation/remove.rs\<close>.  A unit goes with every unit that
  mentions it by name, provided they are stopped.

  The recursions follow dependency lists that may be circular, so they are partial: \<open>None\<close> is a
  recursion that does not end.  A call on several identifiers takes a list.  The unit table's
  iteration order is the order of the list.
\<close>

section \<open>The operations\<close>

text \<open>The result of a check: \<open>None\<close> is \<open>Ok\<close>, a text is the error.\<close>

type_synonym check = "string option"

partial_function (option) check_deactivated_list :: "unit_table \<Rightarrow> unit_id list \<Rightarrow> check outcome option" where
  "check_deactivated_list t ids =
     (case ids of
        [] \<Rightarrow> Some (Returns None)
      | i # rest \<Rightarrow>
          (case tbl_get t i of
             None \<Rightarrow> Some Panics
           | Some x \<Rightarrow>
               if is_stopped (status x) then
                 Option.bind (check_deactivated_list t (required_by (deps x)))
                   (\<lambda>r. if r = Returns None then check_deactivated_list t rest else Some r)
               else Some (Returns (Some (''This unit wasn't stopped before removing: '' @ name (unit_id x))))))"

definition check_deactivated_recursive :: "unit_table \<Rightarrow> unit_id \<Rightarrow> check outcome option" where
  "check_deactivated_recursive t rm = check_deactivated_list t [rm]"

definition remove_single_unit :: "unit_id \<Rightarrow> unit_table \<Rightarrow> unit_table" where
  "remove_single_unit rm_id t = tbl_remove rm_id (map_units (upd_deps (remove_id rm_id)) t)"

text \<open>The units, other than the given one, whose configuration mentions it.\<close>

definition mentioning :: "unit_id \<Rightarrow> unit_table \<Rightarrow> unit_id list" where
  "mentioning rm_id t =
     map fst (filter (\<lambda>(i, x). i \<noteq> rm_id \<and> rm_id \<in> set (refs_by_name (unit_conf x))) t)"

partial_function (option) find_all_depending_list :: "unit_table \<Rightarrow> unit_id list \<Rightarrow> unit_id list \<Rightarrow> unit_id list option" where
  "find_all_depending_list t work ids =
     (case work of
        [] \<Rightarrow> Some ids
      | rm_id # rest \<Rightarrow>
          if rm_id \<in> set ids then find_all_depending_list t rest ids
          else let new_ids = mentioning rm_id t in
            Option.bind (find_all_depending_list t new_ids (ids @ new_ids)) (find_all_depending_list t rest))"

definition find_all_depending :: "unit_id \<Rightarrow> unit_table \<Rightarrow> unit_id list \<Rightarrow> unit_id list option" where
  "find_all_depending rm_id t ids = find_all_depending_list t [rm_id] ids"

partial_function (option) remove_all :: "unit_id list \<Rightarrow> unit_table \<Rightarrow> unit_table option" where
  "remove_all work t =
     (case work of
        [] \<Rightarrow> Some t
      | rm_id # rest \<Rightarrow>
          let t' = remove_single_unit rm_id t in
          Option.bind (remove_all (mentioning rm_id t') t') (remove_all rest))"

definition remove_with_depending_units :: "unit_id \<Rightarrow> unit_table \<Rightarrow> unit_table option" where
  "remove_with_depending_units rm_id t = remove_all [rm_id] t"

text \<open>The checks of the mentioning units one after another, until one fails.\<close>

fun check_each :: "unit_table \<Rightarrow> unit_id list \<Rightarrow> check outcome option" where
  "check_each t [] = Some (Returns None)"
| "check_each t (i # ids) =
     Option.bind (check_deactivated_recursive t i)
       (\<lambda>r. if r = Returns None then check_each t ids else Some r)"

definition leave_as_is :: "check outcome \<Rightarrow> unit_table \<Rightarrow> (check \<times> unit_table) outcome" where
  "leave_as_is r t = (case r of Panics \<Rightarrow> Panics | Returns e \<Rightarrow> Returns (e, t))"

lemma leave_as_is_Returns [simp]: "leave_as_is r t = Returns (e, t') \<longleftrightarrow> r = Returns e \<and> t = t'"
  by (auto simp: leave_as_is_def split: outcome.split)

definition remove_unit_with_dependencies :: "unit_id \<Rightarrow> unit_table \<Rightarrow> (check \<times> unit_table) outcome option" where
  "remove_unit_with_dependencies rm t =
     Option.bind (check_deactivated_recursive t rm) (\<lambda>r.
       if r \<noteq> Returns None then Some (leave_as_is r t)
       else Option.bind (find_all_depending rm t []) (\<lambda>depending.
         Option.bind (check_each t depending) (\<lambda>r.
           if r \<noteq> Returns None then Some (leave_as_is r t)
           else map_option (\<lambda>t'. Returns (None, t')) (remove_with_depending_units rm t))))"

section \<open>What is removed\<close>

text \<open>\<open>v\<close> mentions \<open>u\<close>, and everything that mentions a unit of a set, directly or through others.\<close>

definition mentions :: "unit_table \<Rightarrow> (unit_id \<times> unit_id) set" where
  "mentions t = {(u, v). \<exists>x. tbl_get t v = Some x \<and> v \<noteq> u \<and> u \<in> set (refs_by_name (unit_conf x))}"


text \<open>A table without the units of a set: their records, and their places in the other records.\<close>

definition without :: "unit_id set \<Rightarrow> unit_id list \<Rightarrow> unit_id list" where
  "without us ids = filter (\<lambda>i. i \<notin> us) ids"

definition strip_ids :: "unit_id set \<Rightarrow> dependencies \<Rightarrow> dependencies" where
  "strip_ids us d = d\<lparr>
     wants := without us (wants d), wanted_by := without us (wanted_by d),
     requires := without us (requires d), required_by := without us (required_by d),
     conflicts := without us (conflicts d), conflicted_by := without us (conflicted_by d),
     before := without us (before d), after := without us (after d),
     part_of := without us (part_of d), part_of_by := without us (part_of_by d),
     binds_to := without us (binds_to d), bound_by := without us (bound_by d),
     upholds := without us (upholds d), upheld_by := without us (upheld_by d),
     propagates_stop_to := without us (propagates_stop_to d)\<rparr>"

definition purge :: "unit_id set \<Rightarrow> unit_table \<Rightarrow> unit_table" where
  "purge us t = filter (\<lambda>(i, x). i \<notin> us) (map_units (upd_deps (strip_ids us)) t)"

lemma without_without [simp]: "without us (without vs ids) = without (us \<union> vs) ids"
  by (auto simp: without_def conj_commute intro: filter_cong)

lemma strip_strip [simp]: "strip_ids us (strip_ids vs d) = strip_ids (us \<union> vs) d"
  by (simp add: strip_ids_def)

lemma removeAll_without: "removeAll u ids = without {u} ids"
  by (induction ids) (auto simp: without_def)

lemma remove_id_strip: "remove_id u d = strip_ids {u} d"
  by (simp add: remove_id_def strip_ids_def remove_from_vec_eq removeAll_without)





lemma purge_empty [simp]: "purge {} t = t"
  by (auto simp: purge_def map_units_def upd_deps_def strip_ids_def without_def intro!: map_idI)







lemma set_mentioning: "tbl_wf t \<Longrightarrow> set (mentioning u t) = mentions t `` {u}"
  by (force simp: mentioning_def mentions_def tbl_get_mem [symmetric])


section \<open>The removal ends\<close>





section \<open>The checks\<close>

definition needs_stopped :: "unit_table \<Rightarrow> (unit_id \<times> unit_id) set" where
  "needs_stopped t = {(u, v). \<exists>x. tbl_get t u = Some x \<and> v \<in> set (required_by (deps x))}"

definition stopped_in :: "unit_table \<Rightarrow> unit_id \<Rightarrow> bool" where
  "stopped_in t v \<longleftrightarrow> (case tbl_get t v of None \<Rightarrow> False | Some x \<Rightarrow> is_stopped (status x))"

lemma checked_list_stopped:
  "check_deactivated_list t ids = Some (Returns None) \<Longrightarrow> v \<in> (needs_stopped t)\<^sup>* `` set ids \<Longrightarrow> stopped_in t v"
proof -
  have "r = Returns None \<Longrightarrow> \<forall>v\<in>(needs_stopped t)\<^sup>* `` set ids. stopped_in t v"
    if "check_deactivated_list t ids = Some r" for r
    using that
  proof (induction t ids r rule: check_deactivated_list.raw_induct [rotated, consumes 1, case_names step])
    case (step check t ids r)
    show ?case
    proof (cases ids)
      case Nil
      then show ?thesis by simp
    next
      case (Cons i rest)
      then obtain x where x: "tbl_get t i = Some x" "is_stopped (status x)"
        "check t (required_by (deps x)) = Some (Returns None)" "check t rest = Some (Returns None)"
        using step(2,3) by (auto split: option.splits if_splits simp: bind_eq_Some_conv)
      have succ: "w \<in> set (required_by (deps x))" if "(i, w) \<in> needs_stopped t" for w
        using that x(1) by (auto simp: needs_stopped_def)
      have "v = i \<or> v \<in> (needs_stopped t)\<^sup>* `` set (required_by (deps x))" if "(i, v) \<in> (needs_stopped t)\<^sup>*" for v
        using that by (cases rule: converse_rtranclE) (use succ in blast)+
      then have "(needs_stopped t)\<^sup>* `` set ids \<subseteq>
          {i} \<union> (needs_stopped t)\<^sup>* `` set (required_by (deps x)) \<union> (needs_stopped t)\<^sup>* `` set rest"
        by (auto simp: Cons)
      moreover have "stopped_in t i" using x(1,2) by (simp add: stopped_in_def)
      ultimately show ?thesis using step(1) [OF x(3) refl] step(1) [OF x(4) refl] by blast
    qed
  qed
  then show "check_deactivated_list t ids = Some (Returns None) \<Longrightarrow> v \<in> (needs_stopped t)\<^sup>* `` set ids \<Longrightarrow> stopped_in t v"
    by blast
qed

lemma checked_each: "check_each t ids = Some (Returns None) \<longleftrightarrow> (\<forall>i\<in>set ids. check_deactivated_recursive t i = Some (Returns None))"
  by (induction ids) (auto simp: bind_eq_Some_conv)

text \<open>
  Everything found is in the list before the recursion on it starts, which therefore returns at
  once: only the units that mention the removed one directly are found.
\<close>

lemma find_all_known: "set work \<subseteq> set ids \<Longrightarrow> find_all_depending_list t work ids = Some ids"
proof (induction work)
  case Nil
  then show ?case by (subst find_all_depending_list.simps) simp
next
  case (Cons i work)
  then show ?case by (subst find_all_depending_list.simps) simp
qed

lemma find_all_depending_direct: "find_all_depending u t [] = Some (mentioning u t)"
  unfolding find_all_depending_def
  by (subst find_all_depending_list.simps) (simp add: Let_def find_all_known)




text \<open>
  C36: a removal that succeeds found the unit, the units that mention it directly and everything that
  requires one of these, through any number of steps, stopped; a refused one leaves the table as it
  was.
\<close>

theorem removal_is_checked:
  assumes "tbl_wf t" "remove_unit_with_dependencies u t = Some (Returns (r, t'))"
  shows "if r = None
    then remove_with_depending_units u t = Some t' \<and>
      (\<forall>v\<in>(needs_stopped t)\<^sup>* `` insert u (mentions t `` {u}). stopped_in t v)
    else t' = t"
proof (cases r)
  case None
  then have checks: "check_deactivated_recursive t u = Some (Returns None)"
    "check_each t (mentioning u t) = Some (Returns None)" "remove_with_depending_units u t = Some t'"
    using assms(2)
    by (auto simp: remove_unit_with_dependencies_def find_all_depending_direct bind_eq_Some_conv
        split: if_splits)
  have "stopped_in t v" if "(w, v) \<in> (needs_stopped t)\<^sup>*" "w \<in> insert u (mentions t `` {u})" for w v
  proof -
    have "check_deactivated_list t [w] = Some (Returns None)"
      using that(2) checks set_mentioning [OF assms(1), of u]
      by (auto simp: checked_each check_deactivated_recursive_def)
    from checked_list_stopped [OF this] show ?thesis using that(1) by auto
  qed
  then show ?thesis using None checks(3) by auto
next
  case (Some e)
  then show ?thesis using assms(2)
    by (auto simp: remove_unit_with_dependencies_def bind_eq_Some_conv
        split: if_splits)
qed

section \<open>Three units\<close>

text \<open>\<open>b\<close> mentions \<open>a\<close>, and \<open>c\<close> mentions \<open>b\<close>.\<close>

abbreviation unit_a :: unit_id where "unit_a \<equiv> UnitId Kind_Service ''a.service''"
abbreviation unit_b :: unit_id where "unit_b \<equiv> UnitId Kind_Service ''b.service''"
abbreviation unit_c :: unit_id where "unit_c \<equiv> UnitId Kind_Service ''c.service''"

definition mention_unit :: "unit_id \<Rightarrow> unit_id list \<Rightarrow> dependencies \<Rightarrow> unit_status \<Rightarrow> unit" where
  "mention_unit u refs d st =
     (plain_unit u d)\<lparr>unit_conf := plain_config\<lparr>refs_by_name := refs\<rparr>, status := st\<rparr>"

definition mention_chain :: "unit_status \<Rightarrow> unit_table" where
  "mention_chain st =
     [(unit_a, mention_unit unit_a [] no_dependencies (Stopped StoppedFinal [])),
      (unit_b, mention_unit unit_b [unit_a] (no_dependencies\<lparr>after := [unit_a]\<rparr>) (Stopped StoppedFinal [])),
      (unit_c, mention_unit unit_c [unit_b] (no_dependencies\<lparr>wants := [unit_b]\<rparr>) st)]"

lemma chain_wf: "tbl_wf (mention_chain st)"
  by (simp add: mention_chain_def tbl_wf_def)

lemma chain_not_required: "tbl_get (mention_chain st) u = Some x \<Longrightarrow> required_by (deps x) = []"
  by (auto simp: mention_chain_def tbl_get_def mention_unit_def plain_unit_def no_dependencies_def split: if_splits)

lemma check_unrequired:
  assumes "tbl_get t u = Some x" "required_by (deps x) = []" "is_stopped (status x)"
  shows "check_deactivated_recursive t u = Some (Returns None)"
  unfolding check_deactivated_recursive_def
  using assms by (simp add: check_deactivated_list.simps)

lemma chain_removed: "remove_with_depending_units unit_a (mention_chain st) = Some []"
  by (simp add: remove_with_depending_units_def remove_all.simps mention_chain_def remove_single_unit_def tbl_remove_def
      map_units_def mentioning_def mention_unit_def plain_unit_def plain_config_def upd_deps_def)

text \<open>Only the units that mention the removed one directly are checked: \<open>c\<close> goes while it runs.\<close>

lemma running_unit_removed:
  "remove_unit_with_dependencies unit_a (mention_chain st) = Some (Returns (None, []))"
proof -
  have "check_deactivated_recursive (mention_chain st) unit_a = Some (Returns None)"
    by (rule check_unrequired) (auto simp: mention_chain_def tbl_get_def mention_unit_def plain_unit_def no_dependencies_def)
  moreover have "check_deactivated_recursive (mention_chain st) unit_b = Some (Returns None)"
    by (rule check_unrequired) (auto simp: mention_chain_def tbl_get_def mention_unit_def plain_unit_def no_dependencies_def)
  moreover have "mentioning unit_a (mention_chain st) = [unit_b]"
    by (simp add: mentioning_def mention_chain_def mention_unit_def plain_config_def plain_unit_def)
  ultimately show ?thesis
    by (simp add: remove_unit_with_dependencies_def find_all_depending_direct chain_removed)
qed


lemma removal_is_checked_witness:
  "remove_with_depending_units unit_a (mention_chain NeverStarted) = Some [] \<and> stopped_in (mention_chain NeverStarted) unit_b"
proof -
  have "(unit_a, unit_b) \<in> mentions (mention_chain NeverStarted)"
    by (simp add: mentions_def mention_chain_def tbl_get_def mention_unit_def)
  then have "unit_b \<in> (needs_stopped (mention_chain NeverStarted))\<^sup>* `` insert unit_a (mentions (mention_chain NeverStarted) `` {unit_a})"
    by blast
  with removal_is_checked [OF chain_wf running_unit_removed, of NeverStarted] show ?thesis by simp
qed

section \<open>Tables the checks do not survive\<close>

text \<open>Stopped units that require each other: the check recurses for ever.\<close>

lemma mutual_check_never_returns:
  assumes "tbl_get t u = Some x" "tbl_get t v = Some y" "is_stopped (status x)" "is_stopped (status y)"
    "required_by (deps x) = [v]" "required_by (deps y) = [u]"
  shows "check_deactivated_recursive t u = None"
proof -
  have "i \<notin> {[u], [v]}" if "check_deactivated_list t i = Some r" for i r
    using that assms
  proof (induction t i r rule: check_deactivated_list.raw_induct [rotated, consumes 1, case_names step])
    case (step check t i r)
    show ?case
    proof
      assume "i \<in> {[u], [v]}"
      then have "check t [v] \<noteq> None \<or> check t [u] \<noteq> None"
        using step(2-8) by (auto simp: bind_eq_Some_conv)
      then show False using step(1) [of t "[u]"] step(1) [of t "[v]"] step(3-8) by auto
    qed
  qed
  then show ?thesis unfolding check_deactivated_recursive_def
    by (cases "check_deactivated_list t [u]") auto
qed

text \<open>A stopped unit that is required by one that is not in the table.\<close>

lemma dangling_requirer_panics:
  assumes "tbl_get t u = Some x" "is_stopped (status x)" "required_by (deps x) = [v]" "tbl_get t v = None"
  shows "remove_unit_with_dependencies u t = Some Panics"
  using assms by (simp add: remove_unit_with_dependencies_def check_deactivated_recursive_def
      check_deactivated_list.simps leave_as_is_def)

text \<open>\<open>Requisite=\<close> is neither followed nor cleared.\<close>

lemma requisite_left_behind:
  "map_option (map (\<lambda>(i, x). (i, requisite (deps x))))
     (remove_with_depending_units unit_a
       [(unit_a, plain_unit unit_a no_dependencies), (unit_b, plain_unit unit_b (no_dependencies\<lparr>requisite := [unit_a]\<rparr>))]) =
   Some [(unit_b, [unit_a])]"
  by (simp add: remove_with_depending_units_def remove_all.simps remove_single_unit_def tbl_remove_def
      map_units_def mentioning_def plain_unit_def plain_config_def upd_deps_def remove_id_strip strip_ids_def)

end
