(* ===== verification/SliceLimit.thy ===== *)
theory SliceLimit
  imports Jobs RustText
begin

text \<open>
  The concurrency limits of slices: \<open>units/slice_concurrency.rs\<close>, with \<open>mangle_slice_name\<close> of
  \<open>units/from_parsed_config.rs\<close>.

  The two limits are the only part of a slice's configuration read here; they are an argument that
  gives them for a slice unit.  The count of members is a natural number: it is bounded by the size
  of the unit table, which cannot reach the range of \<open>u32\<close>.
\<close>

section \<open>The code\<close>

record slice_limits =
  concurrency_hard_max :: "nat option"
  concurrency_soft_max :: "nat option"

type_synonym slice_configs = "unit_id \<Rightarrow> slice_limits"

definition mangle_slice_name :: "string \<Rightarrow> string" where
  "mangle_slice_name s = (if s = [] \<or> ends_with s ''.slice'' then s else s @ ''.slice'')"

definition is_live :: "unit_status \<Rightarrow> bool" where
  "is_live st = (case st of NeverStarted \<Rightarrow> False | Stopped _ _ \<Rightarrow> False | _ \<Rightarrow> True)"

definition slice_parent_name :: "string \<Rightarrow> string option" where
  "slice_parent_name slice_name =
     (case strip_suffix ''.slice'' slice_name of
        None \<Rightarrow> None
      | Some base \<Rightarrow>
          if base = ''-'' then None
          else map_option (\<lambda>i. take i base @ ''.slice'') (rfind_char CHR ''-'' base))"

definition parent_slice_of :: "unit \<Rightarrow> string option" where
  "parent_slice_of x =
     (if kind (unit_id x) = Kind_Slice then slice_parent_name (name (unit_id x))
      else case specific x of
        Service s \<Rightarrow> map_option mangle_slice_name (srvc_slice s)
      | _ \<Rightarrow> None)"

definition slice_config :: "unit_table \<Rightarrow> slice_configs \<Rightarrow> string \<Rightarrow> slice_limits option" where
  "slice_config t cfg slice_name =
     (let i = UnitId Kind_Slice slice_name in
      case tbl_get t i of
        None \<Rightarrow> None
      | Some x \<Rightarrow> (case specific x of Slice \<Rightarrow> Some (cfg i) | _ \<Rightarrow> None))"

definition has_pending_start :: "registry \<Rightarrow> unit_id \<Rightarrow> bool" where
  "has_pending_start reg i =
     (case job_for_unit reg i of
        None \<Rightarrow> False
      | Some j \<Rightarrow> job_kind j = Start \<and> (job_state j = Job_Waiting \<or> job_state j = Job_Running))"

lemma slice_parent_shorter: "slice_parent_name s = Some p \<Longrightarrow> length p < length s"
  by (auto simp: slice_parent_name_def strip_suffix_def ends_with_def split: if_splits dest!: rfind_char_Some)

lemma slice_child_longer:
  assumes "parent_slice_of x = Some s" "kind (unit_id x) = Kind_Slice"
  shows "length s < length (name (unit_id x))"
  using assms slice_parent_shorter by (simp add: parent_slice_of_def)

definition longest_name :: "unit_table \<Rightarrow> nat" where
  "longest_name t = foldr (\<lambda>(i, x). max (length (name (unit_id x)))) t 0"

lemma longest_name: "(i, x) \<in> set t \<Longrightarrow> length (name (unit_id x)) \<le> longest_name t"
  by (induction t) (auto simp: longest_name_def)

text \<open>A slice's slices have longer names, so the recursion ends.\<close>

function slice_currently_active :: "unit_table \<Rightarrow> registry \<Rightarrow> string \<Rightarrow> string \<Rightarrow> bool \<Rightarrow> nat" where
  "slice_currently_active t reg slice_name ignore with_pending =
     sum_list (map (\<lambda>(i, x).
       if name (unit_id x) = ignore then 0
       else if parent_slice_of x \<noteq> Some slice_name then 0
       else (if is_live (status x) then 1
             else if with_pending \<and> has_pending_start reg (unit_id x) then 1
             else 0)
            + (if kind (unit_id x) = Kind_Slice
               then slice_currently_active t reg (name (unit_id x)) ignore with_pending
               else 0)) t)"
  by pat_completeness auto
termination
proof (relation "measure (\<lambda>(t, reg, s, ignore, with_pending). longest_name t - length s)", goal_cases)
  case (2 t reg slice_name ignore with_pending p i x)
  then have "length slice_name < length (name (unit_id x))" by (intro slice_child_longer) auto
  moreover have "length (name (unit_id x)) \<le> longest_name t" using 2 by (intro longest_name) auto
  ultimately show ?case by simp
qed simp

declare slice_currently_active.simps [simp del]

text \<open>The walk up the hierarchy: the slice and its ancestors.\<close>

function concurrency_reached :: "unit_table \<Rightarrow> registry \<Rightarrow> slice_configs \<Rightarrow> string \<Rightarrow> string \<Rightarrow> bool \<Rightarrow> bool" where
  "concurrency_reached t reg cfg s ignore hard =
     (let limit = Option.bind (slice_config t cfg s)
        (\<lambda>c. if hard then concurrency_hard_max c else concurrency_soft_max c) in
      if (case limit of Some m \<Rightarrow> m \<le> slice_currently_active t reg s ignore hard | None \<Rightarrow> False) then True
      else case slice_parent_name s of
             None \<Rightarrow> False
           | Some p \<Rightarrow> concurrency_reached t reg cfg p ignore hard)"
  by pat_completeness auto
termination
  by (relation "measure (\<lambda>(t, reg, cfg, s, ignore, hard). length s)") (auto dest: slice_parent_shorter)

declare concurrency_reached.simps [simp del]

definition soft_max_reached :: "unit_table \<Rightarrow> registry \<Rightarrow> slice_configs \<Rightarrow> string \<Rightarrow> string \<Rightarrow> bool" where
  "soft_max_reached t reg cfg slice_name ignore = concurrency_reached t reg cfg slice_name ignore False"

definition hard_max_reached :: "unit_table \<Rightarrow> registry \<Rightarrow> slice_configs \<Rightarrow> string \<Rightarrow> string \<Rightarrow> bool" where
  "hard_max_reached t reg cfg slice_name ignore = concurrency_reached t reg cfg slice_name ignore True"

definition unit_slice_name :: "unit \<Rightarrow> string option" where
  "unit_slice_name x = parent_slice_of x"

function limited_above :: "unit_table \<Rightarrow> slice_configs \<Rightarrow> string \<Rightarrow> bool" where
  "limited_above t cfg s =
     (if (case slice_config t cfg s of
            Some c \<Rightarrow> concurrency_soft_max c \<noteq> None \<or> concurrency_hard_max c \<noteq> None
          | None \<Rightarrow> False) then True
      else case slice_parent_name s of
             None \<Rightarrow> False
           | Some p \<Rightarrow> limited_above t cfg p)"
  by pat_completeness auto
termination
  by (relation "measure (\<lambda>(t, cfg, s). length s)") (auto dest: slice_parent_shorter)

declare limited_above.simps [simp del]

definition concurrency_limited_slice :: "unit_table \<Rightarrow> slice_configs \<Rightarrow> unit \<Rightarrow> string option" where
  "concurrency_limited_slice t cfg x =
     (case parent_slice_of x of
        None \<Rightarrow> None
      | Some s \<Rightarrow> if limited_above t cfg s then Some s else None)"

section \<open>The count is the number of members\<close>

text \<open>The units below a slice, through slices that are in the table, avoiding an ignored name.\<close>

inductive below :: "unit_table \<Rightarrow> string \<Rightarrow> string \<Rightarrow> unit_id \<Rightarrow> bool" for t ignore s where
  child: "tbl_get t i = Some x \<Longrightarrow> name i \<noteq> ignore \<Longrightarrow> parent_slice_of x = Some s \<Longrightarrow> below t ignore s i"
| deeper: "tbl_get t i = Some x \<Longrightarrow> name i \<noteq> ignore \<Longrightarrow> parent_slice_of x = Some p \<Longrightarrow>
    below t ignore s (UnitId Kind_Slice p) \<Longrightarrow> below t ignore s i"

inductive_cases below_cases: "below t ignore s i"

definition counted :: "unit_table \<Rightarrow> registry \<Rightarrow> bool \<Rightarrow> unit_id \<Rightarrow> bool" where
  "counted t reg with_pending i \<longleftrightarrow>
     (case tbl_get t i of
        None \<Rightarrow> False
      | Some x \<Rightarrow> is_live (status x) \<or> with_pending \<and> has_pending_start reg i)"

definition occupants :: "unit_table \<Rightarrow> registry \<Rightarrow> string \<Rightarrow> string \<Rightarrow> bool \<Rightarrow> unit_id set" where
  "occupants t reg s ignore with_pending = {i. below t ignore s i \<and> counted t reg with_pending i}"

lemma slice_id: "kind i = Kind_Slice \<Longrightarrow> UnitId Kind_Slice (name i) = i"
  by (cases i) simp

lemma child_slice_longer:
  "units_wf t \<Longrightarrow> tbl_get t i = Some x \<Longrightarrow> parent_slice_of x = Some s \<Longrightarrow> kind i = Kind_Slice \<Longrightarrow> length s < length (name i)"
  using slice_child_longer units_wf_get by blast

lemma below_longer: "below t ignore s i \<Longrightarrow> units_wf t \<Longrightarrow> kind i = Kind_Slice \<Longrightarrow> length s < length (name i)"
proof (induction rule: below.induct)
  case (child i x)
  then show ?case by (intro child_slice_longer)
next
  case (deeper i x p)
  have "length s < length p" using deeper.IH [OF deeper.prems(1)] by simp
  also have "length p < length (name i)"
    by (rule child_slice_longer [OF deeper.prems(1) deeper.hyps(1) deeper.hyps(3) deeper.prems(2)])
  finally show ?case .
qed

text \<open>A unit below a slice is below exactly one of its children, or is one.\<close>

definition under :: "unit_table \<Rightarrow> string \<Rightarrow> unit_id \<Rightarrow> unit_id \<Rightarrow> bool" where
  "under t ignore i j \<longleftrightarrow> j = i \<or> kind i = Kind_Slice \<and> below t ignore (name i) j"

definition child_of :: "unit_table \<Rightarrow> string \<Rightarrow> string \<Rightarrow> unit_id \<Rightarrow> bool" where
  "child_of t ignore s i \<longleftrightarrow>
     (case tbl_get t i of None \<Rightarrow> False | Some x \<Rightarrow> name i \<noteq> ignore \<and> parent_slice_of x = Some s)"

lemma below_trans:
  assumes "below t ignore (name k) i" "kind k = Kind_Slice" "below t ignore s k"
  shows "below t ignore s i"
  using assms(1)
proof (induction rule: below.induct)
  case (child i x)
  show ?case using below.deeper [OF child] assms(2,3) by (simp add: slice_id)
next
  case (deeper i x p)
  show ?case by (rule below.deeper [OF deeper.hyps(1-3) deeper.IH])
qed

lemma below_child_of: "below t ignore s j \<Longrightarrow> \<exists>i. child_of t ignore s i \<and> under t ignore i j"
proof (induction rule: below.induct)
  case (child i x)
  then show ?case by (auto simp: child_of_def under_def intro!: exI [of _ i])
next
  case (deeper i x p)
  then obtain k where k: "child_of t ignore s k" "under t ignore k (UnitId Kind_Slice p)" by blast
  have "kind k = Kind_Slice \<and> below t ignore (name k) i"
  proof (cases "k = UnitId Kind_Slice p")
    case True
    then show ?thesis using below.child [OF deeper.hyps(1-3)] by simp
  next
    case False
    then show ?thesis using k(2) below.deeper [OF deeper.hyps(1-3)] by (simp add: under_def)
  qed
  with k(1) show ?case by (auto simp: under_def)
qed

lemma child_of_below: "child_of t ignore s i \<Longrightarrow> under t ignore i j \<Longrightarrow> below t ignore s j"
  using below_trans [of t ignore i j s] below.child [of t i _ ignore s]
  by (auto simp: child_of_def under_def split: option.splits)

lemma below_iff: "below t ignore s j \<longleftrightarrow> (\<exists>i. child_of t ignore s i \<and> under t ignore i j)"
  using below_child_of child_of_below by blast

lemma below_comparable:
  assumes "below t ignore (name i) j" "below t ignore (name k) j" "kind i = Kind_Slice" "kind k = Kind_Slice"
  shows "i = k \<or> below t ignore (name i) k \<or> below t ignore (name k) i"
  using assms
proof (induction rule: below.induct)
  case (child j x)
  note j = \<open>tbl_get t j = Some x\<close> \<open>parent_slice_of x = Some (name i)\<close>
  from child(4) consider "name k = name i" | "below t ignore (name k) (UnitId Kind_Slice (name i))"
    by (cases rule: below_cases) (use j in auto)
  then show ?case using slice_id [OF assms(3)] slice_id [OF assms(4)] by cases auto
next
  case (deeper j x p)
  note j = \<open>tbl_get t j = Some x\<close> \<open>parent_slice_of x = Some p\<close>
  from deeper.prems(1) consider "name k = p" | "below t ignore (name k) (UnitId Kind_Slice p)"
    by (cases rule: below_cases) (use j in auto)
  then show ?case
  proof cases
    case 1
    then show ?thesis using deeper.hyps(4) slice_id [OF assms(4)] by simp
  next
    case 2
    then show ?thesis by (rule deeper.IH [OF _ assms(3,4)])
  qed
qed

lemma under_unique:
  assumes "units_wf t" "child_of t ignore s i" "child_of t ignore s k" "under t ignore i j" "under t ignore k j"
  shows "i = k"
proof -
  have no: "\<not> below t ignore (name a) b" if "kind a = Kind_Slice" "child_of t ignore s a" "child_of t ignore s b" for a b
  proof
    note ab = that
    assume "below t ignore (name a) b"
    obtain x y where xy: "tbl_get t a = Some x" "parent_slice_of x = Some s" "tbl_get t b = Some y" "parent_slice_of y = Some s"
      using ab(2,3) by (auto simp: child_of_def split: option.splits)
    have less: "length s < length (name a)" by (rule child_slice_longer [OF assms(1) xy(1,2) ab(1)])
    from \<open>below t ignore (name a) b\<close> consider "name a = s" | "below t ignore (name a) (UnitId Kind_Slice s)"
      by (cases rule: below_cases) (use xy(3,4) in auto)
    then show False using less below_longer [OF _ assms(1), of ignore "name a" "UnitId Kind_Slice s"] by cases auto
  qed
  show ?thesis
    using assms(4,5) no assms(2,3) below_comparable [of t ignore i j k] unfolding under_def by blast
qed

lemma occupants_keys: "occupants t reg s ignore p \<subseteq> set (tbl_keys t)"
  by (auto simp: occupants_def counted_def tbl_keys_get split: option.splits)

lemma count_is_card:
  "units_wf t \<Longrightarrow> slice_currently_active t reg s ignore p = card (occupants t reg s ignore p)"
proof (induction t reg s ignore p rule: slice_currently_active.induct)
  case (1 t reg s ignore p)
  have wf: "tbl_wf t" using 1(2) by (simp add: units_wf_def)
  let ?part = "\<lambda>i. if child_of t ignore s i then {j. under t ignore i j \<and> counted t reg p j} else {}"
  have fin: "finite {j. under t ignore i j \<and> counted t reg p j}" for i
    by (rule finite_subset [of _ "set (tbl_keys t)"]) (auto simp: counted_def tbl_keys_get split: option.splits)
  have part: "card (?part i) =
     (if name (unit_id x) = ignore then 0
      else if parent_slice_of x \<noteq> Some s then 0
      else (if is_live (status x) then 1 else if p \<and> has_pending_start reg (unit_id x) then 1 else 0)
        + (if kind (unit_id x) = Kind_Slice then slice_currently_active t reg (name (unit_id x)) ignore p else 0))"
    if mem: "(i, x) \<in> set t" for i x
  proof (cases "child_of t ignore s i")
    case False
    then show ?thesis using mem units_wf_get [OF 1(2), of i x] by (auto simp: child_of_def tbl_get_mem [OF wf])
  next
    case True
    have x: "tbl_get t i = Some x" "unit_id x = i" using mem wf units_wf_get [OF 1(2)] by (simp_all add: tbl_get_mem)
    then have child: "name (unit_id x) \<noteq> ignore" "parent_slice_of x = Some s" using True by (auto simp: child_of_def)
    have self: "card {j. j = i \<and> counted t reg p j} =
        (if is_live (status x) then 1 else if p \<and> has_pending_start reg (unit_id x) then 1 else 0)"
    proof -
      have "{j. j = i \<and> counted t reg p j} = (if counted t reg p i then {i} else {})" by auto
      then show ?thesis by (simp add: counted_def x)
    qed
    show ?thesis
    proof (cases "kind i = Kind_Slice")
      case False
      then show ?thesis using True child self by (simp add: under_def x(2))
    next
      case slice: True
      have "\<not> below t ignore (name i) i" using below_longer [OF _ 1(2) slice] by blast
      then have "{j. j = i \<and> counted t reg p j} \<inter> occupants t reg (name i) ignore p = {}" by (auto simp: occupants_def)
      moreover have "{j. under t ignore i j \<and> counted t reg p j} = {j. j = i \<and> counted t reg p j} \<union> occupants t reg (name i) ignore p"
        using slice by (auto simp: under_def occupants_def)
      moreover have "slice_currently_active t reg (name i) ignore p = card (occupants t reg (name i) ignore p)"
        using 1(1) [OF mem refl] child slice 1(2) by (simp add: x(2))
      moreover have "finite (occupants t reg (name i) ignore p)" by (rule finite_subset [OF occupants_keys]) simp
      ultimately show ?thesis using True child slice self by (simp add: x(2) card_Un_disjoint)
    qed
  qed
  have "slice_currently_active t reg s ignore p = sum_list (map (\<lambda>(i, x). card (?part i)) t)"
    unfolding slice_currently_active.simps [of t reg s] using part by (intro arg_cong [where f = sum_list] map_cong) auto
  also have "\<dots> = sum_list (map (\<lambda>i. card (?part i)) (tbl_keys t))"
    by (simp add: tbl_keys_def comp_def case_prod_beta')
  also have "\<dots> = (\<Sum>i\<in>set (tbl_keys t). card (?part i))"
    using wf by (intro sum_list_distinct_conv_sum_set) (simp add: tbl_wf_def tbl_keys_def)
  also have "\<dots> = card (\<Union>i\<in>set (tbl_keys t). ?part i)"
    using under_unique [OF 1(2)] fin by (intro card_UN_disjoint [symmetric]) (auto split: if_splits)
  also have "(\<Union>i\<in>set (tbl_keys t). ?part i) = occupants t reg s ignore p"
  proof -
    have "child_of t ignore s i \<Longrightarrow> i \<in> set (tbl_keys t)" for i
      by (auto simp: child_of_def tbl_keys_get split: option.splits)
    then show ?thesis by (auto simp: occupants_def below_iff split: if_splits)
  qed
  finally show ?case .
qed

section \<open>When a limit is reached\<close>

function slice_chain :: "string \<Rightarrow> string list" where
  "slice_chain s = s # (case slice_parent_name s of None \<Rightarrow> [] | Some p \<Rightarrow> slice_chain p)"
  by pat_completeness auto
termination
  by (relation "measure length") (auto dest: slice_parent_shorter)

declare slice_chain.simps [simp del]

lemma slice_chain_set: "set (slice_chain s) = insert s (case slice_parent_name s of None \<Rightarrow> {} | Some p \<Rightarrow> set (slice_chain p))"
  by (subst slice_chain.simps) (simp split: option.split)

definition limit_of :: "bool \<Rightarrow> slice_limits \<Rightarrow> nat option" where
  "limit_of hard c = (if hard then concurrency_hard_max c else concurrency_soft_max c)"

lemma reached_iff:
  "units_wf t \<Longrightarrow> concurrency_reached t reg cfg s ignore hard \<longleftrightarrow>
    (\<exists>p\<in>set (slice_chain s). \<exists>m. Option.bind (slice_config t cfg p) (limit_of hard) = Some m \<and>
       m \<le> card (occupants t reg p ignore hard))"
proof (induction t reg cfg s ignore hard rule: concurrency_reached.induct)
  case (1 t reg cfg s ignore hard)
  let ?limit = "Option.bind (slice_config t cfg s) (limit_of hard)"
  have limit: "Option.bind (slice_config t cfg s) (\<lambda>c. if hard then concurrency_hard_max c else concurrency_soft_max c) = ?limit"
    by (simp add: limit_of_def [abs_def])
  have here: "(case ?limit of Some m \<Rightarrow> m \<le> slice_currently_active t reg s ignore hard | None \<Rightarrow> False) \<longleftrightarrow>
      (\<exists>m. ?limit = Some m \<and> m \<le> card (occupants t reg s ignore hard))"
    by (simp add: count_is_card [OF 1(2)] split: option.split)
  show ?case
  proof (cases "case ?limit of Some m \<Rightarrow> m \<le> slice_currently_active t reg s ignore hard | None \<Rightarrow> False")
    case True
    moreover from this have "concurrency_reached t reg cfg s ignore hard"
      by (subst concurrency_reached.simps) (simp add: limit Let_def)
    ultimately show ?thesis using here by (auto simp: slice_chain_set [of s])
  next
    case False
    show ?thesis
    proof (cases "slice_parent_name s")
      case None
      then have "\<not> concurrency_reached t reg cfg s ignore hard"
        using False by (subst concurrency_reached.simps) (simp add: limit Let_def)
      then show ?thesis using None False here by (auto simp: slice_chain_set [of s])
    next
      case (Some p)
      then have "concurrency_reached t reg cfg s ignore hard \<longleftrightarrow> concurrency_reached t reg cfg p ignore hard"
        using False by (subst concurrency_reached.simps) (simp add: limit Let_def)
      moreover have "concurrency_reached t reg cfg p ignore hard \<longleftrightarrow>
          (\<exists>q\<in>set (slice_chain p). \<exists>m. Option.bind (slice_config t cfg q) (limit_of hard) = Some m \<and>
             m \<le> card (occupants t reg q ignore hard))"
        using 1(1) [OF refl _ Some 1(2)] False by (simp add: limit)
      ultimately show ?thesis using Some False here by (auto simp: slice_chain_set [of s])
    qed
  qed
qed

text \<open>
  C37: a limit counts as reached exactly if the slice or one of its ancestors has one that is no
  greater than the number of units below that slice, each once, which are live or, for the hard
  limit, have a pending start; the unit that asks is left out.
\<close>

theorem limits_count_members:
  assumes "units_wf t"
  shows "(hard_max_reached t reg cfg s ignore \<longleftrightarrow>
      (\<exists>p\<in>set (slice_chain s). \<exists>m. Option.bind (slice_config t cfg p) concurrency_hard_max = Some m \<and>
         m \<le> card {i. below t ignore p i \<and> counted t reg True i})) \<and>
    (soft_max_reached t reg cfg s ignore \<longleftrightarrow>
      (\<exists>p\<in>set (slice_chain s). \<exists>m. Option.bind (slice_config t cfg p) concurrency_soft_max = Some m \<and>
         m \<le> card {i. below t ignore p i \<and> counted t reg False i}))"
proof -
  have "limit_of True = concurrency_hard_max" "limit_of False = concurrency_soft_max"
    by (simp_all add: limit_of_def fun_eq_iff)
  then show ?thesis
    using reached_iff [OF assms, of reg cfg s ignore True] reached_iff [OF assms, of reg cfg s ignore False]
    by (simp add: hard_max_reached_def soft_max_reached_def occupants_def)
qed

section \<open>One check and one start\<close>

text \<open>No slice holds more live or starting units than its hard limit; no unit has an empty name.\<close>

definition within_limits :: "unit_table \<Rightarrow> registry \<Rightarrow> slice_configs \<Rightarrow> bool" where
  "within_limits t reg cfg \<longleftrightarrow>
     (\<forall>p m. Option.bind (slice_config t cfg p) concurrency_hard_max = Some m \<longrightarrow>
        slice_currently_active t reg p [] True \<le> m)"

definition set_status :: "unit_id \<Rightarrow> unit_status \<Rightarrow> unit_table \<Rightarrow> unit_table" where
  "set_status i st = tbl_modify i (\<lambda>x. x\<lparr>status := st\<rparr>)"

lemma parent_slice_status [simp]: "parent_slice_of (x\<lparr>status := st\<rparr>) = parent_slice_of x"
  by (simp add: parent_slice_of_def)

lemma get_set_status: "tbl_get (set_status i st t) k = map_option (\<lambda>x. if k = i then x\<lparr>status := st\<rparr> else x) (tbl_get t k)"
  by (cases "tbl_get t k") (auto simp: set_status_def)

lemma below_set_status: "below (set_status i st t) ignore s k \<Longrightarrow> below t ignore s k"
proof (induction rule: below.induct)
  case (child k x)
  then show ?case by (auto simp: get_set_status intro: below.child split: if_splits)
next
  case (deeper k x p)
  then obtain y where "tbl_get t k = Some y" "parent_slice_of y = Some p"
    by (auto simp: get_set_status split: if_splits)
  then show ?case using below.deeper deeper by blast
qed

lemma units_wf_set_status: "units_wf t \<Longrightarrow> units_wf (set_status i st t)"
proof -
  assume wf: "units_wf t"
  then have "tbl_wf (set_status i st t)" by (simp add: units_wf_def set_status_def)
  moreover have "\<forall>(k, x)\<in>set (set_status i st t). unit_id x = k"
    using wf by (auto simp: units_wf_def set_status_def tbl_modify_def)
  ultimately show ?thesis by (simp add: units_wf_def)
qed

lemma slice_config_set_status [simp]: "slice_config (set_status i st t) cfg p = slice_config t cfg p"
  by (auto simp: slice_config_def get_set_status Let_def split: option.split)

lemma below_chain:
  "below t ignore p i \<Longrightarrow> units_wf t \<Longrightarrow> tbl_get t i = Some x \<Longrightarrow> parent_slice_of x = Some s \<Longrightarrow> p \<in> set (slice_chain s)"
proof (induction arbitrary: x s rule: below.induct)
  case (child i x')
  then show ?case by (auto simp: slice_chain_set [of s])
next
  case (deeper i x' q)
  have q: "s = q" using deeper.hyps(1,3) deeper.prems(2,3) by simp
  have "\<exists>y. tbl_get t (UnitId Kind_Slice q) = Some y" using deeper.hyps(4) by (cases rule: below_cases) auto
  then obtain y where y: "tbl_get t (UnitId Kind_Slice q) = Some y" by blast
  then have "unit_id y = UnitId Kind_Slice q" using units_wf_get [OF deeper.prems(1)] by blast
  then have parent: "parent_slice_of y = slice_parent_name q" by (simp add: parent_slice_of_def)
  from deeper.hyps(4) obtain r where "parent_slice_of y = Some r"
    by (cases rule: below_cases) (use y in auto)
  with deeper.IH [OF deeper.prems(1) y this] show ?case using parent by (simp add: q slice_chain_set [of q])
qed

lemma below_ignore:
  assumes "units_wf t" "\<forall>k\<in>set (tbl_keys t). id_wf k" "tbl_get t i = Some x" "kind i \<noteq> Kind_Slice"
  shows "below t ign p k \<Longrightarrow> k = i \<or> below t (name i) p k"
proof (induction rule: below.induct)
  case (child k y)
  then have "name k = name i \<Longrightarrow> k = i" using assms(2,3) by (intro name_eq_wf) (auto simp: tbl_keys_get)
  then show ?case using child by (auto intro: below.child)
next
  case (deeper k y q)
  then have "name k = name i \<Longrightarrow> k = i" using assms(2,3) by (intro name_eq_wf) (auto simp: tbl_keys_get)
  moreover have "UnitId Kind_Slice q \<noteq> i" using assms(4) by auto
  ultimately show ?case using deeper.IH below.deeper [OF deeper.hyps(1) _ deeper.hyps(3)] by blast
qed

text \<open>
  A single start of a unit that is no slice, with nothing in between the check and the start, and
  nothing else started along with it: if the hard limits hold and are not reached before, they hold
  afterwards, whatever status the unit gets and whatever job is made for it.  The code gives neither
  (\<open>own_slice_exceeds_limit\<close>, \<open>two_checks_exceed_limit\<close>).
\<close>

theorem hard_limit_kept:
  assumes "units_wf t" "\<forall>k\<in>set (tbl_keys t). id_wf k" "within_limits t reg cfg"
    "tbl_get t i = Some x" "kind i \<noteq> Kind_Slice" "unit_slice_name x = Some s"
    "\<not> hard_max_reached t reg cfg s (name i)"
    "\<forall>k. k \<noteq> i \<longrightarrow> has_pending_start reg' k = has_pending_start reg k"
  shows "within_limits (set_status i st t) reg' cfg"
  unfolding within_limits_def
proof (intro allI impI)
  fix p m
  let ?t = "set_status i st t"
  assume "Option.bind (slice_config ?t cfg p) concurrency_hard_max = Some m"
  then have limit: "Option.bind (slice_config t cfg p) (limit_of True) = Some m"
    and limit': "Option.bind (slice_config t cfg p) concurrency_hard_max = Some m"
    by (simp_all add: limit_of_def [abs_def])
  have fin: "finite (occupants t reg p ign True)" for ign by (rule finite_subset [OF occupants_keys]) simp
  have sub: "occupants ?t reg' p [] True - {i} \<subseteq> occupants t reg p [] True"
    using assms(8) below_set_status by (auto simp: occupants_def counted_def get_set_status split: option.splits)
  have "card (occupants ?t reg' p [] True) \<le> m"
  proof (cases "p \<in> set (slice_chain s)")
    case True
    then have "card (occupants t reg p (name i) True) < m"
      using assms(7) limit reached_iff [OF assms(1), of reg cfg s "name i" True]
      unfolding hard_max_reached_def by (metis not_le)
    moreover have "occupants ?t reg' p [] True \<subseteq> insert i (occupants t reg p (name i) True)"
      using sub below_ignore [OF assms(1,2,4,5)] by (auto simp: occupants_def)
    then have "card (occupants ?t reg' p [] True) \<le> card (insert i (occupants t reg p (name i) True))"
      using fin by (intro card_mono) auto
    moreover have "card (insert i (occupants t reg p (name i) True)) \<le> Suc (card (occupants t reg p (name i) True))"
      using fin by (simp add: card_insert_if)
    ultimately show ?thesis by simp
  next
    case False
    then have "i \<notin> occupants ?t reg' p [] True"
      using below_chain [OF below_set_status assms(1,4)] assms(6) by (auto simp: occupants_def unit_slice_name_def)
    with sub have "occupants ?t reg' p [] True \<subseteq> occupants t reg p [] True" by blast
    then have "card (occupants ?t reg' p [] True) \<le> card (occupants t reg p [] True)" using fin by (rule card_mono [rotated])
    also have "\<dots> \<le> m" using assms(3) limit' by (simp add: within_limits_def count_is_card [OF assms(1)])
    finally show ?thesis .
  qed
  then show "slice_currently_active ?t reg' p [] True \<le> m"
    by (simp add: count_is_card units_wf_set_status [OF assms(1)])
qed

section \<open>A limited slice\<close>

text \<open>
  \<open>a.slice\<close> with a limit, \<open>a-b.slice\<close> below it, one service in each, and a service that waits to be
  started in \<open>a-b.slice\<close>.
\<close>

abbreviation slice_a :: unit_id where "slice_a \<equiv> UnitId Kind_Slice ''a.slice''"
abbreviation slice_ab :: unit_id where "slice_ab \<equiv> UnitId Kind_Slice ''a-b.slice''"
abbreviation srv_x :: unit_id where "srv_x \<equiv> UnitId Kind_Service ''x.service''"
abbreviation srv_y :: unit_id where "srv_y \<equiv> UnitId Kind_Service ''y.service''"

definition limited_unit :: "unit_id \<Rightarrow> specific \<Rightarrow> unit_status \<Rightarrow> unit" where
  "limited_unit i sp st = (plain_unit i no_dependencies)\<lparr>specific := sp, status := st\<rparr>"

definition service_in :: "string \<Rightarrow> specific" where
  "service_in s = Service \<lparr>srvc_sockets = [], srvc_slice = Some s, srvc_dbus_name = None\<rparr>"

definition limited_table :: "unit_status \<Rightarrow> unit_table" where
  "limited_table st =
     [(slice_a, limited_unit slice_a Slice (Started Running)),
      (slice_ab, limited_unit slice_ab Slice st),
      (srv_x, limited_unit srv_x (service_in ''a-b'') NeverStarted),
      (srv_y, limited_unit srv_y (service_in ''a-b.slice'') NeverStarted)]"

definition limit_a :: "nat \<Rightarrow> slice_configs" where
  "limit_a m i = \<lparr>concurrency_hard_max = (if i = slice_a then Some m else None), concurrency_soft_max = None\<rparr>"

lemma limited_wf: "units_wf (limited_table st)"
  by (simp add: limited_table_def units_wf_def tbl_wf_def limited_unit_def plain_unit_def)

lemma sample_parents:
  "slice_parent_name ''a-b.slice'' = Some ''a.slice''" "slice_parent_name ''a.slice'' = None"
  "mangle_slice_name ''a-b'' = ''a-b.slice''" "mangle_slice_name ''a-b.slice'' = ''a-b.slice''"
  by code_simp+

lemma parents_limited:
  "parent_slice_of (limited_unit slice_a Slice st) = None"
  "parent_slice_of (limited_unit slice_ab Slice st) = Some ''a.slice''"
  "parent_slice_of (limited_unit srv_x (service_in ''a-b'') st) = Some ''a-b.slice''"
  "parent_slice_of (limited_unit srv_y (service_in ''a-b.slice'') st) = Some ''a-b.slice''"
  by (simp_all add: parent_slice_of_def limited_unit_def plain_unit_def service_in_def sample_parents)

lemma limited_unit_simps:
  "unit_id (limited_unit i sp st) = i" "status (limited_unit i sp st) = st" "specific (limited_unit i sp st) = sp"
  "(limited_unit i sp st)\<lparr>status := st'\<rparr> = limited_unit i sp st'"
  by (simp_all add: limited_unit_def plain_unit_def)

lemma sample_counts:
  "slice_currently_active (limited_table NeverStarted) new_registry ''a.slice'' [] True = 0"
  "slice_currently_active (limited_table (Started Running)) new_registry ''a.slice'' [] True = 1"
  by code_simp+

lemma limited_config: "Option.bind (slice_config (limited_table st) (limit_a m) p) concurrency_hard_max = Some n \<Longrightarrow> p = ''a.slice'' \<and> n = m"
  by (auto simp: slice_config_def limit_a_def Let_def bind_eq_Some_conv split: option.splits specific.splits if_splits)

lemma sample_checks:
  "\<not> hard_max_reached (limited_table (Started Running)) new_registry (limit_a 2) ''a-b.slice'' ''x.service''"
  "hard_max_reached (limited_table (Started Running)) new_registry (limit_a 1) ''a-b.slice'' ''x.service''"
  "\<not> hard_max_reached (limited_table NeverStarted) new_registry (limit_a 1) ''a-b.slice'' ''x.service''"
  by code_simp+

lemma limits_count_members_witness:
  "\<exists>p\<in>set (slice_chain ''a-b.slice''). \<exists>m.
     Option.bind (slice_config (limited_table (Started Running)) (limit_a 1) p) concurrency_hard_max = Some m \<and>
     m \<le> card {i. below (limited_table (Started Running)) ''x.service'' p i \<and>
                  counted (limited_table (Started Running)) new_registry True i}"
  using limits_count_members [OF limited_wf [of "Started Running"], of new_registry "limit_a 1" "''a-b.slice''" "''x.service''"]
    sample_checks(2) by blast

lemma hard_limit_kept_witness:
  "within_limits (set_status srv_x Starting (limited_table (Started Running))) new_registry (limit_a 2)"
proof (rule hard_limit_kept [where i = srv_x and s = "''a-b.slice''" and x = "limited_unit srv_x (service_in ''a-b'') NeverStarted"])
  show "units_wf (limited_table (Started Running))" by (rule limited_wf)
  show "\<forall>k\<in>set (tbl_keys (limited_table (Started Running))). id_wf k" by code_simp
  show "within_limits (limited_table (Started Running)) new_registry (limit_a 2)"
    unfolding within_limits_def using limited_config sample_counts(2) by fastforce
  show "tbl_get (limited_table (Started Running)) srv_x = Some (limited_unit srv_x (service_in ''a-b'') NeverStarted)"
    by (simp add: limited_table_def tbl_get_def)
qed (simp_all add: unit_slice_name_def parents_limited sample_checks)

text \<open>
  The slices that are started along with a unit are not part of the check: with room for one unit in
  \<open>a.slice\<close>, the service is let through and then its own slice takes a place as well.
\<close>

lemma own_slice_exceeds_limit:
  "\<not> hard_max_reached (limited_table NeverStarted) new_registry (limit_a 1) ''a-b.slice'' ''x.service''"
  "slice_currently_active (set_status srv_x Starting (limited_table (Started Running))) new_registry ''a.slice'' [] True = 2"
  by (rule sample_checks(3)) code_simp

text \<open>
  The check and the creation of the start job are separate steps: two requests that both check first
  are both let through.
\<close>

lemma two_checks_exceed_limit:
  "\<not> hard_max_reached (limited_table (Started Running)) new_registry (limit_a 2) ''a-b.slice'' ''x.service''"
  "\<not> hard_max_reached (limited_table (Started Running)) new_registry (limit_a 2) ''a-b.slice'' ''y.service''"
  "slice_currently_active (limited_table (Started Running))
     (fst (install_job srv_y Start Regular (fst (install_job srv_x Start Regular new_registry)))) ''a.slice'' [] True = 3"
  by (rule sample_checks(1)) code_simp+

end
