(* ===== verification/AddUnits.thy ===== *)
theory AddUnits
  imports DepResolve
begin

text \<open>
  Adding units at run time: \<open>insert_new_unit_lenient\<close>, \<open>check_all_names_exist\<close> and
  \<open>insert_new_units\<close> of \<open>units/unitset_manipulation/insert_new.rs\<close>.  An error is the id or the name
  that is taken; the table's iteration order is the order of the list.

  Lemmas: what one pass over a pair of units adds to their lists, and what stays.
\<close>

section \<open>One unit\<close>

definition push_if :: "bool \<Rightarrow> unit_id \<Rightarrow> unit_id list \<Rightarrow> unit_id list" where
  "push_if b i ids = (if b then ids @ [i] else ids)"

lemma set_push_if [simp]: "set (push_if b i ids) = (if b then insert i (set ids) else set ids)"
  by (simp add: push_if_def)

text \<open>The lists of a unit, for those of the other that name it: the same wiring both ways round.\<close>

definition wire :: "dependencies \<Rightarrow> unit_id \<Rightarrow> unit_id \<Rightarrow> dependencies \<Rightarrow> dependencies" where
  "wire d other own e = e\<lparr>
     before := push_if (own \<in> set (after d)) other (before e),
     after := push_if (own \<in> set (before d)) other (after e),
     required_by := push_if (own \<in> set (requires d)) other (required_by e),
     wanted_by := push_if (own \<in> set (wants d)) other (wanted_by e),
     requires := push_if (own \<in> set (required_by d)) other (requires e),
     wants := push_if (own \<in> set (wanted_by d)) other (wants e),
     conflicted_by := push_if (own \<in> set (conflicts d)) other (conflicted_by e),
     conflicts := push_if (own \<in> set (conflicted_by d)) other (conflicts e),
     bound_by := push_if (own \<in> set (binds_to d)) other (bound_by e),
     binds_to := push_if (own \<in> set (bound_by d)) other (binds_to e),
     upheld_by := push_if (own \<in> set (upholds d)) other (upheld_by e),
     upholds := push_if (own \<in> set (upheld_by d)) other (upholds e)\<rparr>"

text \<open>A reference by name that was pruned comes back as a \<open>Wants=\<close>; the unit and the existing one.\<close>

definition restore_pruned :: "unit \<times> unit \<Rightarrow> unit \<times> unit" where
  "restore_pruned = (\<lambda>(u, e).
     let new_id = unit_id u; d = deps e in
     if new_id \<in> set (refs_by_name (unit_conf e)) \<and> new_id \<notin> set (wants d) \<and> new_id \<notin> set (requires d)
        \<and> new_id \<notin> set (after d) \<and> new_id \<notin> set (before d) \<and> new_id \<notin> set (binds_to d)
        \<and> new_id \<notin> set (conflicts d)
     then (upd_deps (\<lambda>d. d\<lparr>wanted_by := wanted_by d @ [unit_id e]\<rparr>) u,
           upd_deps (\<lambda>d. d\<lparr>wants := wants d @ [new_id]\<rparr>) e)
     else (u, e))"

definition push_absent :: "unit_id \<Rightarrow> unit_id list \<Rightarrow> unit_id list" where
  "push_absent i ids = (if i \<in> set ids then ids else ids @ [i])"

lemma set_push_absent [simp]: "set (push_absent i ids) = insert i (set ids)"
  by (auto simp: push_absent_def)

text \<open>A socket and a service of one name.\<close>

definition socket_first :: "unit_id \<Rightarrow> unit_id \<Rightarrow> unit \<Rightarrow> unit" where
  "socket_first own srvc sock =
     upd_deps (\<lambda>d. d\<lparr>before := push_absent srvc (before d), required_by := push_absent srvc (required_by d)\<rparr>)
       (case specific sock of
          Socket s \<Rightarrow> sock\<lparr>specific := Socket (s\<lparr>sock_services := push_absent srvc (sock_services s)\<rparr>)\<rparr>
        | _ \<Rightarrow> sock)"

definition service_second :: "unit_id \<Rightarrow> unit \<Rightarrow> unit" where
  "service_second sock srvc =
     upd_deps (\<lambda>d. d\<lparr>after := push_absent sock (after d), requires := push_absent sock (requires d)\<rparr>)
       (case specific srvc of
          Service s \<Rightarrow> srvc\<lparr>specific := Service (s\<lparr>srvc_sockets := push_absent sock (srvc_sockets s)\<rparr>)\<rparr>
        | _ \<Rightarrow> srvc)"

definition socket_unit :: "unit \<Rightarrow> bool" where
  "socket_unit x = (case specific x of Socket _ \<Rightarrow> True | _ \<Rightarrow> False)"

definition service_unit :: "unit \<Rightarrow> bool" where
  "service_unit x = (case specific x of Service _ \<Rightarrow> True | _ \<Rightarrow> False)"

definition associate :: "unit \<times> unit \<Rightarrow> unit \<times> unit" where
  "associate = (\<lambda>(u, e).
     if name_without_suffix (unit_id u) = name_without_suffix (unit_id e) then
       (if socket_unit u \<and> service_unit e then (socket_first (unit_id u) (unit_id e) u, service_second (unit_id u) e)
        else if service_unit u \<and> socket_unit e then (service_second (unit_id e) u, socket_first (unit_id e) (unit_id u) e)
        else (u, e))
     else (u, e))"

definition wire_pair :: "unit \<times> unit \<Rightarrow> unit \<times> unit" where
  "wire_pair = (\<lambda>(u, e).
     let e1 = upd_deps (wire (deps u) (unit_id u) (unit_id e)) e;
         u1 = upd_deps (wire (deps e1) (unit_id e) (unit_id u)) u
     in associate (restore_pruned (u1, e1)))"

fun wire_all :: "unit \<Rightarrow> unit_table \<Rightarrow> unit \<times> unit_table" where
  "wire_all u [] = (u, [])"
| "wire_all u ((k, e) # t) =
     (let (u1, e1) = wire_pair (u, e);
          (u2, t') = wire_all u1 t
      in (u2, (k, e1) # t'))"

definition insert_new_unit_lenient :: "unit \<Rightarrow> unit_table \<Rightarrow> unit_table" where
  "insert_new_unit_lenient u t = (let (u', t') = wire_all u t in tbl_insert (unit_id u) u' t')"

section \<open>Several units\<close>

datatype add_error = Id_exists unit_id | Name_exists string

definition taken :: "unit \<Rightarrow> unit \<Rightarrow> add_error option" where
  "taken x new_unit =
     (if unit_id x = unit_id new_unit then Some (Id_exists (unit_id new_unit))
      else if name (unit_id x) = name (unit_id new_unit) then Some (Name_exists (name (unit_id new_unit)))
      else None)"

text \<open>The first clash; names that are needed and not there are only logged.\<close>

fun first_error :: "('a \<Rightarrow> add_error option) \<Rightarrow> 'a list \<Rightarrow> add_error option" where
  "first_error f [] = None"
| "first_error f (x # xs) = (case f x of Some e \<Rightarrow> Some e | None \<Rightarrow> first_error f xs)"

definition check_all_names_exist :: "unit_table \<Rightarrow> unit_table \<Rightarrow> add_error option" where
  "check_all_names_exist new_units t =
     first_error (\<lambda>(k, x). first_error (\<lambda>(k', y). taken x y) new_units) t"

text \<open>The lists of a unit of the table, for those of one new unit that name it.\<close>

definition wire_new :: "dependencies \<Rightarrow> unit_id \<Rightarrow> unit \<Rightarrow> unit" where
  "wire_new d new_id x =
     (if unit_id x = new_id then x
      else upd_deps (\<lambda>e. e\<lparr>
        before := push_if (unit_id x \<in> set (after d)) new_id (before e),
        after := push_if (unit_id x \<in> set (before d)) new_id (after e),
        required_by := push_if (unit_id x \<in> set (requires d)) new_id (required_by e),
        wanted_by := push_if (unit_id x \<in> set (wants d)) new_id (wanted_by e),
        conflicted_by := push_if (unit_id x \<in> set (conflicts d)) new_id (conflicted_by e),
        conflicts := push_if (unit_id x \<in> set (conflicted_by d)) new_id (conflicts e),
        bound_by := push_if (unit_id x \<in> set (binds_to d)) new_id (bound_by e),
        binds_to := push_if (unit_id x \<in> set (bound_by d)) new_id (binds_to e),
        upheld_by := push_if (unit_id x \<in> set (upholds d)) new_id (upheld_by e),
        upholds := push_if (unit_id x \<in> set (upheld_by d)) new_id (upholds e)\<rparr>) x)"

definition insert_new_units :: "unit_table \<Rightarrow> unit_table \<Rightarrow> add_error option \<times> unit_table" where
  "insert_new_units new_units t =
     (case check_all_names_exist new_units t of
        Some e \<Rightarrow> (Some e, t)
      | None \<Rightarrow>
          let inserted = fold (\<lambda>(k, x). tbl_insert k x) new_units t
          in (None, fold (\<lambda>(k, x). map_units (wire_new (deps x) k)) new_units inserted))"

section \<open>Relations that are seen from both ends\<close>

type_synonym dep_list = "dependencies \<Rightarrow> unit_id list"

text \<open>The six relations a dependency list has a counterpart for and that adding a unit keeps up.\<close>

definition two_way :: "(dep_list \<times> dep_list) list" where
  "two_way = [(after, before), (requires, required_by), (wants, wanted_by), (conflicts, conflicted_by),
     (binds_to, bound_by), (upholds, upheld_by)]"

definition names :: "dep_list \<Rightarrow> unit_table \<Rightarrow> unit_id \<Rightarrow> unit_id \<Rightarrow> bool" where
  "names f t a b \<longleftrightarrow> (case tbl_get t a of None \<Rightarrow> False | Some x \<Rightarrow> b \<in> set (f (deps x)))"

text \<open>Among the units of the table, each names another exactly if it is named in return.\<close>

definition mutual :: "dep_list \<Rightarrow> dep_list \<Rightarrow> unit_table \<Rightarrow> bool" where
  "mutual f g t \<longleftrightarrow>
     (\<forall>a b. a \<noteq> b \<longrightarrow> tbl_get t a \<noteq> None \<longrightarrow> tbl_get t b \<noteq> None \<longrightarrow> (names f t a b \<longleftrightarrow> names g t b a))"

definition relations_mutual :: "unit_table \<Rightarrow> bool" where
  "relations_mutual t \<longleftrightarrow> list_all (\<lambda>(f, g). mutual f g t) two_way"

definition dep_lists :: "dep_list list" where
  "dep_lists = map fst two_way @ map snd two_way"

text \<open>A unit that names at least what it named before.\<close>

definition grown :: "unit \<Rightarrow> unit \<Rightarrow> bool" where
  "grown u u' \<longleftrightarrow> (\<forall>f\<in>set dep_lists. set (f (deps u)) \<subseteq> set (f (deps u')))"

lemma grown_trans: "grown u v \<Longrightarrow> grown v w \<Longrightarrow> grown u w"
  by (fastforce simp: grown_def)

lemma grownD: "grown u u' \<Longrightarrow> f \<in> set dep_lists \<Longrightarrow> k \<in> set (f (deps u)) \<Longrightarrow> k \<in> set (f (deps u'))"
  by (auto simp: grown_def)

text \<open>
  What wiring a pair does: the two lists agree about each other, keep what they said, and nothing
  else changes.
\<close>

definition wired :: "unit \<Rightarrow> unit \<Rightarrow> unit \<Rightarrow> unit \<Rightarrow> bool" where
  "wired u e u' e' \<longleftrightarrow>
     unit_id u' = unit_id u \<and> unit_id e' = unit_id e \<and> grown u u' \<and> grown e e' \<and>
     (\<forall>(f, g)\<in>set two_way.
        (unit_id e \<in> set (f (deps u')) \<longleftrightarrow> unit_id u \<in> set (g (deps e'))) \<and>
        (unit_id e \<in> set (g (deps u')) \<longleftrightarrow> unit_id u \<in> set (f (deps e')))) \<and>
     (\<forall>f\<in>set dep_lists.
        (\<forall>k. k \<noteq> unit_id e \<longrightarrow> (k \<in> set (f (deps u')) \<longleftrightarrow> k \<in> set (f (deps u)))) \<and>
        (\<forall>k. k \<noteq> unit_id u \<longrightarrow> (k \<in> set (f (deps e')) \<longleftrightarrow> k \<in> set (f (deps e)))))"

lemma set_two_way: "(\<forall>p\<in>set two_way. P p) \<longleftrightarrow>
    P (after, before) \<and> P (requires, required_by) \<and> P (wants, wanted_by) \<and>
    P (conflicts, conflicted_by) \<and> P (binds_to, bound_by) \<and> P (upholds, upheld_by)"
  by (simp add: two_way_def)

lemma set_dep_lists: "(\<forall>f\<in>set dep_lists. P f) \<longleftrightarrow>
    P after \<and> P requires \<and> P wants \<and> P conflicts \<and> P binds_to \<and> P upholds \<and>
    P before \<and> P required_by \<and> P wanted_by \<and> P conflicted_by \<and> P bound_by \<and> P upheld_by"
  by (simp add: dep_lists_def two_way_def)

lemmas wired_simps = wired_def set_two_way set_dep_lists

lemma grown_steps:
  "grown e (upd_deps (wire d other own) e)"
  "grown e (upd_deps (\<lambda>d. d\<lparr>wanted_by := wanted_by d @ ids\<rparr>) e)"
  "grown e (upd_deps (\<lambda>d. d\<lparr>wants := wants d @ ids\<rparr>) e)"
  by (simp_all add: grown_def set_dep_lists wire_def subset_insertI)

lemma wire_both_ways:
  assumes "unit_id u \<noteq> unit_id e"
  defines "e1 \<equiv> upd_deps (wire (deps u) (unit_id u) (unit_id e)) e"
  shows "wired u e (upd_deps (wire (deps e1) (unit_id e) (unit_id u)) u) e1"
  using assms(1) by (simp add: e1_def wired_simps grown_steps(1)) (simp add: wire_def)

lemma restored_wired:
  assumes "wired u e u1 e1" "restore_pruned (u1, e1) = (u2, e2)"
  shows "wired u e u2 e2"
proof -
  have ids: "unit_id u1 = unit_id u" "unit_id e1 = unit_id e" using assms(1) by (simp_all add: wired_def)
  consider "u2 = u1" "e2 = e1"
    | "u2 = upd_deps (\<lambda>d. d\<lparr>wanted_by := wanted_by d @ [unit_id e]\<rparr>) u1"
      "e2 = upd_deps (\<lambda>d. d\<lparr>wants := wants d @ [unit_id u]\<rparr>) e1"
    using assms(2) by (auto simp: restore_pruned_def Let_def ids split: if_splits)
  then show ?thesis
  proof cases
    case 2
    then show ?thesis using assms(1) grown_trans [OF _ grown_steps(2)] grown_trans [OF _ grown_steps(3)] by (simp add: wired_simps)
  qed (use assms(1) in simp)
qed

lemma socket_service_simps [simp]:
  "unit_id (socket_first own srvc x) = unit_id x" "unit_id (service_second sock x) = unit_id x"
  "deps (socket_first own srvc x) =
     (deps x)\<lparr>before := push_absent srvc (before (deps x)), required_by := push_absent srvc (required_by (deps x))\<rparr>"
  "deps (service_second sock x) =
     (deps x)\<lparr>after := push_absent sock (after (deps x)), requires := push_absent sock (requires (deps x))\<rparr>"
  by (simp_all add: socket_first_def service_second_def split: specific.split)

lemma grown_tie: "grown x (socket_first own srvc x)" "grown x (service_second sock x)"
  by (auto simp: grown_def set_dep_lists)

lemma associated_wired:
  assumes "wired u e u1 e1" "associate (u1, e1) = (u2, e2)"
  shows "wired u e u2 e2"
proof -
  have ids: "unit_id u1 = unit_id u" "unit_id e1 = unit_id e" using assms(1) by (simp_all add: wired_def)
  consider "u2 = u1" "e2 = e1"
    | "u2 = socket_first (unit_id u) (unit_id e) u1" "e2 = service_second (unit_id u) e1"
    | "u2 = service_second (unit_id e) u1" "e2 = socket_first (unit_id e) (unit_id u) e1"
    using assms(2) by (auto simp: associate_def ids split: if_splits)
  then show ?thesis
  proof cases
    case 2
    then show ?thesis using assms(1) grown_trans [OF _ grown_tie(1)] grown_trans [OF _ grown_tie(2)] by (simp add: wired_simps)
  next
    case 3
    then show ?thesis using assms(1) grown_trans [OF _ grown_tie(1)] grown_trans [OF _ grown_tie(2)] by (simp add: wired_simps)
  qed (use assms(1) in simp)
qed

lemma wire_pair_wired:
  assumes "unit_id u \<noteq> unit_id e" "wire_pair (u, e) = (u', e')"
  shows "wired u e u' e'"
proof -
  let ?e1 = "upd_deps (wire (deps u) (unit_id u) (unit_id e)) e"
  let ?u1 = "upd_deps (wire (deps ?e1) (unit_id e) (unit_id u)) u"
  obtain u2 e2 where s: "restore_pruned (?u1, ?e1) = (u2, e2)" by fastforce
  then have "associate (u2, e2) = (u', e')" using assms(2) by (simp add: wire_pair_def Let_def)
  then show ?thesis using associated_wired restored_wired [OF wire_both_ways [OF assms(1)] s] by blast
qed

section \<open>Adding one unit\<close>

text \<open>The same for a unit and a whole table.\<close>

definition wired_all :: "unit \<Rightarrow> unit_table \<Rightarrow> unit \<Rightarrow> unit_table \<Rightarrow> bool" where
  "wired_all u t u' t' \<longleftrightarrow>
     unit_id u' = unit_id u \<and> grown u u' \<and> tbl_keys t' = tbl_keys t \<and> (\<forall>(k, e)\<in>set t'. unit_id e = k) \<and>
     (\<forall>f\<in>set dep_lists. \<forall>k. k \<notin> set (tbl_keys t) \<longrightarrow> (k \<in> set (f (deps u')) \<longleftrightarrow> k \<in> set (f (deps u)))) \<and>
     (\<forall>k. k \<in> set (tbl_keys t) \<longrightarrow>
        (\<forall>(f, g)\<in>set two_way.
          (k \<in> set (f (deps u')) \<longleftrightarrow> names g t' k (unit_id u)) \<and>
          (k \<in> set (g (deps u')) \<longleftrightarrow> names f t' k (unit_id u))) \<and>
        (\<forall>f\<in>set dep_lists. names f t k (unit_id u) \<longrightarrow> names f t' k (unit_id u)) \<and>
        (\<forall>f\<in>set dep_lists. \<forall>i. i \<noteq> unit_id u \<longrightarrow> (names f t' k i \<longleftrightarrow> names f t k i)))"

lemma names_Cons: "names f ((k, e) # t) a b \<longleftrightarrow> (if a = k then b \<in> set (f (deps e)) else names f t a b)"
  by (simp add: names_def tbl_get_def)

lemma two_way_lists: "(f, g) \<in> set two_way \<Longrightarrow> f \<in> set dep_lists \<and> g \<in> set dep_lists"
  by (force simp: dep_lists_def)

lemma tbl_keys_Cons: "tbl_keys ((k, e) # t) = k # tbl_keys t"
  by (simp add: tbl_keys_def)

lemma wire_all_wired:
  assumes "tbl_wf t" "\<forall>(k, e)\<in>set t. unit_id e = k" "unit_id u \<notin> set (tbl_keys t)" "wire_all u t = (u', t')"
  shows "wired_all u t u' t'"
  using assms
proof (induction t arbitrary: u u' t')
  case Nil
  then show ?case by (simp add: wired_all_def tbl_keys_def grown_def)
next
  case (Cons p t)
  obtain k e where p: "p = (k, e)" by force
  obtain u1 e1 where s1: "wire_pair (u, e) = (u1, e1)" by force
  obtain t2 where s2: "wire_all u1 t = (u', t2)" "t' = (k, e1) # t2"
    using Cons.prems(4) s1 by (auto simp: p Let_def split: prod.splits)
  have ek: "unit_id e = k" "k \<noteq> unit_id u" "k \<notin> set (tbl_keys t)" "unit_id u \<notin> set (tbl_keys t)"
    using Cons.prems(1-3) by (auto simp: p tbl_keys_def tbl_wf_def)
  then have w: "wired u e u1 e1" using s1 by (intro wire_pair_wired) simp_all
  then have ids: "unit_id u1 = unit_id u" "unit_id e1 = k" using ek by (simp_all add: wired_def)
  have "tbl_wf t" "\<forall>(k, e)\<in>set t. unit_id e = k" using Cons.prems(1,2) by (auto simp: tbl_wf_def)
  then have rest: "wired_all u1 t u' t2" using Cons.IH [OF _ _ _ s2(1)] ek(4) ids by simp
  have same: "k \<in> set (f (deps u')) \<longleftrightarrow> k \<in> set (f (deps u1))" if "f \<in> set dep_lists" for f
    using rest that ek(3) by (simp add: wired_all_def)
  have pair: "(k \<in> set (f (deps u')) \<longleftrightarrow> names g t' k (unit_id u)) \<and> (k \<in> set (g (deps u')) \<longleftrightarrow> names f t' k (unit_id u))"
    if "(f, g) \<in> set two_way" for f g
    using w that same two_way_lists [OF that] by (auto simp: wired_def ek(1) s2(2) names_Cons)
  have more: "names f (p # t) k (unit_id u) \<longrightarrow> names f t' k (unit_id u)" if "f \<in> set dep_lists" for f
    using w grownD [OF _ that] by (auto simp: wired_def s2(2) p names_Cons)
  have "grown u u'" using grown_trans w rest by (auto simp: wired_def wired_all_def)
  have other: "i \<in> set (f (deps u')) \<longleftrightarrow> i \<in> set (f (deps u))" if "f \<in> set dep_lists" "i \<notin> set (tbl_keys (p # t))" for f i
    using w rest that by (simp add: wired_def wired_all_def ek(1) p tbl_keys_Cons)
  have keep: "names f t' k i \<longleftrightarrow> names f (p # t) k i" if "f \<in> set dep_lists" "i \<noteq> unit_id u" for f i
    using w that by (simp add: wired_def s2(2) p names_Cons)
  have ne: "k' \<noteq> k" if "k' \<in> set (tbl_keys t)" for k' using that ek(3) by auto
  show ?case unfolding wired_all_def
  proof (intro conjI)
    show "grown u u'" by fact
    show "unit_id u' = unit_id u" "tbl_keys t' = tbl_keys (p # t)" "\<forall>(k, e)\<in>set t'. unit_id e = k"
      using rest ids by (auto simp: wired_all_def s2(2) p tbl_keys_Cons)
    show "\<forall>f\<in>set dep_lists. \<forall>k. k \<notin> set (tbl_keys (p # t)) \<longrightarrow> (k \<in> set (f (deps u')) \<longleftrightarrow> k \<in> set (f (deps u)))"
      using other by blast
    show "\<forall>k'. k' \<in> set (tbl_keys (p # t)) \<longrightarrow>
        (\<forall>(f, g)\<in>set two_way.
          (k' \<in> set (f (deps u')) \<longleftrightarrow> names g t' k' (unit_id u)) \<and>
          (k' \<in> set (g (deps u')) \<longleftrightarrow> names f t' k' (unit_id u))) \<and>
        (\<forall>f\<in>set dep_lists. names f (p # t) k' (unit_id u) \<longrightarrow> names f t' k' (unit_id u)) \<and>
        (\<forall>f\<in>set dep_lists. \<forall>i. i \<noteq> unit_id u \<longrightarrow> (names f t' k' i \<longleftrightarrow> names f (p # t) k' i))"
    proof (intro allI impI)
      fix k' assume k': "k' \<in> set (tbl_keys (p # t))"
      show "(\<forall>(f, g)\<in>set two_way.
          (k' \<in> set (f (deps u')) \<longleftrightarrow> names g t' k' (unit_id u)) \<and>
          (k' \<in> set (g (deps u')) \<longleftrightarrow> names f t' k' (unit_id u))) \<and>
        (\<forall>f\<in>set dep_lists. names f (p # t) k' (unit_id u) \<longrightarrow> names f t' k' (unit_id u)) \<and>
        (\<forall>f\<in>set dep_lists. \<forall>i. i \<noteq> unit_id u \<longrightarrow> (names f t' k' i \<longleftrightarrow> names f (p # t) k' i))"
      proof (cases "k' = k")
        case True
        then show ?thesis using pair keep more by blast
      next
        case False
        then have "k' \<in> set (tbl_keys t)" using k' by (simp add: p tbl_keys_Cons)
        moreover have "names f t' k' i = names f t2 k' i" "names f (p # t) k' i = names f t k' i" for f i
          using False by (simp_all add: s2(2) p names_Cons)
        ultimately show ?thesis using rest ids by (simp add: wired_all_def)
      qed
    qed
  qed
qed

lemma names_insert: "names f (tbl_insert k x t) a b \<longleftrightarrow> (if a = k then b \<in> set (f (deps x)) else names f t a b)"
  by (simp add: names_def)

lemma names_key: "names f t a b \<Longrightarrow> a \<in> set (tbl_keys t)"
  by (auto simp: names_def tbl_keys_get split: option.splits)

lemma wire_all_wf:
  assumes "units_wf t" "wired_all u t u' t'"
  shows "units_wf t'"
proof -
  have "tbl_wf t'" using assms by (simp add: wired_all_def units_wf_def tbl_wf_def tbl_keys_def [symmetric])
  then show ?thesis using assms(2) by (simp add: units_wf_def wired_all_def)
qed

text \<open>What a table says with a wired unit in it: of the new unit and one of the table, and of the others.\<close>

lemma wired_all_old:
  assumes "wired_all u t u' t'" "unit_id u \<notin> set (tbl_keys t)" "f \<in> set dep_lists" "a \<noteq> unit_id u" "b \<noteq> unit_id u"
  shows "names f (tbl_insert (unit_id u) u' t') a b \<longleftrightarrow> names f t a b"
proof (cases "a \<in> set (tbl_keys t)")
  case True
  then show ?thesis using assms by (simp add: wired_all_def names_insert)
next
  case False
  moreover have "set (tbl_keys t') = set (tbl_keys t)" using assms(1) by (simp add: wired_all_def)
  ultimately show ?thesis using names_key assms(4) unfolding names_insert by metis
qed

lemma wired_all_pair:
  assumes "wired_all u t u' t'" "unit_id u \<notin> set (tbl_keys t)" "(f, g) \<in> set (two_way @ map prod.swap two_way)"
    "k \<in> set (tbl_keys t)"
  shows "(k \<in> set (f (deps u)) \<or> names g t k (unit_id u) \<longrightarrow> names f (tbl_insert (unit_id u) u' t') (unit_id u) k) \<and>
    (names f (tbl_insert (unit_id u) u' t') (unit_id u) k \<longleftrightarrow> names g (tbl_insert (unit_id u) u' t') k (unit_id u))"
proof -
  have lists: "f \<in> set dep_lists" "g \<in> set dep_lists" using assms(3) two_way_lists by auto
  have both: "k \<in> set (f (deps u')) \<longleftrightarrow> names g t' k (unit_id u)" using assms(1,3,4) by (auto simp: wired_all_def)
  moreover have "k \<in> set (f (deps u)) \<Longrightarrow> k \<in> set (f (deps u'))" "names g t k (unit_id u) \<longrightarrow> names g t' k (unit_id u)"
    using assms(1,4) lists grownD by (auto simp: wired_all_def)
  ultimately show ?thesis using assms(2,4) by (auto simp: names_insert)
qed

text \<open>
  The unit and those of the table say nothing of each other in an \<open>[Install]\<close> section, which is where
  the text of a unit puts its \<open>WantedBy=\<close> and \<open>RequiredBy=\<close>.
\<close>

definition no_install :: "unit \<Rightarrow> unit_table \<Rightarrow> bool" where
  "no_install u t \<longleftrightarrow>
     list_all (\<lambda>k. k \<notin> set (wanted_by (deps u)) \<and> k \<notin> set (required_by (deps u))
       \<and> \<not> names wanted_by t k (unit_id u) \<and> \<not> names required_by t k (unit_id u)) (tbl_keys t)"

text \<open>
  C38: a unit is added that is not in the (well-formed) table yet, and neither it nor a unit of the
  table has the other in the list of an \<open>[Install]\<close> section: the code would make a live dependency
  of that (\<open>install_section_takes_effect\<close>).  The relations looked at are ordering, requirement,
  wish, conflict, binding and upholding; \<open>PartOf=\<close> is not kept up (\<open>part_of_not_told\<close>).  Whatever
  the new unit says of another unit, or the other one says of it, is said on both sides afterwards,
  and the two sides always agree, also on the tie between a socket and its service and on a reference
  by name that comes back as a wish (whatever it was, \<open>part_of_becomes_wish\<close>).  What the other
  units say of each other stays as it was, so a table whose relations are mutual stays one.
\<close>

theorem adding_keeps_relations_mutual:
  assumes "units_wf t" "tbl_get t (unit_id u) = None" "no_install u t"
  shows "units_wf (insert_new_unit_lenient u t) \<and>
    set (tbl_keys (insert_new_unit_lenient u t)) = insert (unit_id u) (set (tbl_keys t)) \<and>
    (\<forall>(f, g)\<in>set (two_way @ map prod.swap two_way). \<forall>k\<in>set (tbl_keys t).
       (k \<in> set (f (deps u)) \<or> names g t k (unit_id u) \<longrightarrow> names f (insert_new_unit_lenient u t) (unit_id u) k) \<and>
       (names f (insert_new_unit_lenient u t) (unit_id u) k \<longleftrightarrow> names g (insert_new_unit_lenient u t) k (unit_id u))) \<and>
    (\<forall>f\<in>set dep_lists. \<forall>a b. a \<noteq> unit_id u \<longrightarrow> b \<noteq> unit_id u \<longrightarrow>
       (names f (insert_new_unit_lenient u t) a b \<longleftrightarrow> names f t a b)) \<and>
    (relations_mutual t \<longrightarrow> relations_mutual (insert_new_unit_lenient u t))"
proof -
  obtain u' t' where s: "wire_all u t = (u', t')" by force
  have new: "unit_id u \<notin> set (tbl_keys t)" using assms(2) by (simp add: tbl_keys_get)
  have w: "wired_all u t u' t'"
    using assms(1) new s by (intro wire_all_wired) (simp_all add: units_wf_def)
  let ?t = "insert_new_unit_lenient u t"
  have ins: "?t = tbl_insert (unit_id u) u' t'" by (simp add: insert_new_unit_lenient_def s)
  have id: "unit_id u' = unit_id u" "set (tbl_keys t') = set (tbl_keys t)" using w by (simp_all add: wired_all_def)
  have wf: "units_wf ?t" using units_wf_insert [OF wire_all_wf [OF assms(1) w], of u'] by (simp add: ins id(1))
  have keys: "set (tbl_keys ?t) = insert (unit_id u) (set (tbl_keys t))" using id(2) by (auto simp: ins tbl_keys_get set_eq_iff)
  have old: "names f ?t a b \<longleftrightarrow> names f t a b" if "f \<in> set dep_lists" "a \<noteq> unit_id u" "b \<noteq> unit_id u" for f a b
    by (rule wired_all_old [OF w new that, folded ins])
  have pair: "(k \<in> set (f (deps u)) \<or> names g t k (unit_id u) \<longrightarrow> names f ?t (unit_id u) k) \<and> (names f ?t (unit_id u) k \<longleftrightarrow> names g ?t k (unit_id u))"
    if "(f, g) \<in> set (two_way @ map prod.swap two_way)" "k \<in> set (tbl_keys t)" for f g k
    by (rule wired_all_pair [OF w new that, folded ins])
  have "mutual f g ?t" if m: "relations_mutual t" and fg: "(f, g) \<in> set two_way" for f g
    unfolding mutual_def tbl_keys_get [symmetric] keys
  proof (intro allI impI)
    fix a b assume ab: "a \<noteq> b" "a \<in> insert (unit_id u) (set (tbl_keys t))" "b \<in> insert (unit_id u) (set (tbl_keys t))"
    have both: "(f, g) \<in> set (two_way @ map prod.swap two_way)" "(g, f) \<in> set (two_way @ map prod.swap two_way)"
      using fg by force+
    consider "a = unit_id u" "b \<in> set (tbl_keys t)" | "b = unit_id u" "a \<in> set (tbl_keys t)"
      | "a \<noteq> unit_id u" "b \<noteq> unit_id u" "a \<in> set (tbl_keys t)" "b \<in> set (tbl_keys t)" using ab by blast
    then show "names f ?t a b \<longleftrightarrow> names g ?t b a"
    proof cases
      case 1
      then show ?thesis using pair [OF both(1)] by simp
    next
      case 2
      then show ?thesis using pair [OF both(2)] by simp
    next
      case 3
      have "mutual f g t" using m fg by (auto simp: relations_mutual_def list_all_iff)
      then show ?thesis using 3 ab(1) old two_way_lists [OF fg] by (simp add: mutual_def tbl_keys_get)
    qed
  qed
  then have "relations_mutual t \<longrightarrow> relations_mutual ?t" by (auto simp: relations_mutual_def list_all_iff)
  then show ?thesis using wf keys pair old by blast
qed

section \<open>Adding several units\<close>

lemma first_error_None: "first_error f xs = None \<longleftrightarrow> (\<forall>x\<in>set xs. f x = None)"
  by (induction xs) (auto split: option.splits)

lemma first_error_Some: "first_error f xs = Some e \<Longrightarrow> \<exists>x\<in>set xs. f x = Some e"
  by (induction xs) (auto split: option.splits)

text \<open>An id or a name of the new units that is in the table already.\<close>

definition clashes :: "unit_table \<Rightarrow> unit_table \<Rightarrow> add_error \<Rightarrow> bool" where
  "clashes new_units t e \<longleftrightarrow>
     (\<exists>i\<in>set (tbl_keys t). \<exists>j\<in>set (tbl_keys new_units). i = j \<and> e = Id_exists j \<or> name i = name j \<and> e = Name_exists (name j))"

lemma clash_check_result:
  assumes "units_wf t" "units_wf new_units"
  shows "case check_all_names_exist new_units t of
      None \<Rightarrow> \<forall>i\<in>set (tbl_keys t). \<forall>j\<in>set (tbl_keys new_units). i \<noteq> j \<and> name i \<noteq> name j
    | Some e \<Rightarrow> clashes new_units t e"
proof (cases "check_all_names_exist new_units t")
  case None
  then have "\<forall>p\<in>set t. \<forall>q\<in>set new_units. taken (snd p) (snd q) = None"
    by (simp add: check_all_names_exist_def first_error_None case_prod_beta')
  then have free: "taken x y = None" if "(i, x) \<in> set t" "(j, y) \<in> set new_units" for i x j y
    using that by fastforce
  have "name i \<noteq> name j" if "i \<in> set (tbl_keys t)" "j \<in> set (tbl_keys new_units)" for i j
  proof -
    note ij = that
    obtain x y where "(i, x) \<in> set t" "(j, y) \<in> set new_units" using ij by (auto simp: tbl_keys_def)
    moreover from this have "unit_id x = i" "unit_id y = j" using assms by (auto simp: units_wf_def)
    ultimately show ?thesis using free [of i x j y] by (simp add: taken_def split: if_splits)
  qed
  then show ?thesis using None by auto
next
  case (Some e)
  then obtain i x j y where xy: "(i, x) \<in> set t" "(j, y) \<in> set new_units" "taken x y = Some e"
    by (auto simp: check_all_names_exist_def dest!: first_error_Some)
  then have "unit_id x = i" "unit_id y = j" using assms by (auto simp: units_wf_def)
  moreover have "i \<in> set (tbl_keys t)" "j \<in> set (tbl_keys new_units)" using xy by (force simp: tbl_keys_def)+
  ultimately show ?thesis using Some xy(3) by (auto simp: clashes_def taken_def split: if_splits)
qed

lemma tbl_get_insert_all:
  "tbl_wf new_units \<Longrightarrow> tbl_get (fold (\<lambda>(k, x). tbl_insert k x) new_units t) i =
    (case tbl_get new_units i of Some x \<Rightarrow> Some x | None \<Rightarrow> tbl_get t i)"
proof (induction new_units arbitrary: t)
  case (Cons p new_units)
  obtain k x where p: "p = (k, x)" by force
  have "tbl_get new_units k = None" "tbl_wf new_units" using Cons.prems
    by (auto simp: p tbl_wf_def tbl_get_def map_of_eq_None_iff)
  then show ?case using Cons.IH [of "tbl_insert k x t"]
    by (auto simp: p tbl_get_def [of "(k, x) # new_units"] split: option.split) (simp_all add: tbl_get_def)
qed simp

lemma wf_insert_all: "units_wf t \<Longrightarrow> \<forall>(k, x)\<in>set new_units. unit_id x = k \<Longrightarrow> units_wf (fold (\<lambda>(k, x). tbl_insert k x) new_units t)"
  by (induction new_units arbitrary: t) (auto intro!: units_wf_insert)

lemma fold_map_units:
  "fold (\<lambda>(k, x). map_units (F k x)) new_units t = map_units (\<lambda>v. fold (\<lambda>(k, x). F k x) new_units v) t"
  by (induction new_units arbitrary: t) (auto simp: map_units_def comp_def case_prod_beta')

text \<open>The new units that name a given one in a list.\<close>

definition incoming :: "dep_list \<Rightarrow> unit_table \<Rightarrow> unit_id \<Rightarrow> unit_id set" where
  "incoming f new_units v = {k. k \<noteq> v \<and> (\<exists>x. (k, x) \<in> set new_units \<and> v \<in> set (f (deps x)))}"

definition pushed_back :: "(dep_list \<times> dep_list) list" where
  "pushed_back = [(after, before), (before, after), (requires, required_by), (wants, wanted_by),
     (conflicts, conflicted_by), (conflicted_by, conflicts), (binds_to, bound_by), (bound_by, binds_to),
     (upholds, upheld_by), (upheld_by, upholds)]"

text \<open>The relations that are told to the other unit in both directions.\<close>

definition symmetric_relations :: "(dep_list \<times> dep_list) list" where
  "symmetric_relations = [(after, before), (before, after), (conflicts, conflicted_by), (conflicted_by, conflicts),
     (binds_to, bound_by), (bound_by, binds_to), (upholds, upheld_by), (upheld_by, upholds)]"

lemma pushed_back_lists:
  "(f, g) \<in> set symmetric_relations \<Longrightarrow> (f, g) \<in> set pushed_back \<and> (g, f) \<in> set pushed_back"
  "(f, g) \<in> set pushed_back \<Longrightarrow> f \<in> set dep_lists \<and> g \<in> set dep_lists"
  "g \<in> set dep_lists \<Longrightarrow> g \<in> {requires, wants} \<or> (\<exists>f. (f, g) \<in> set pushed_back)"
proof -
  have "\<forall>(f, g)\<in>set symmetric_relations. (f, g) \<in> set pushed_back \<and> (g, f) \<in> set pushed_back"
    by (simp add: symmetric_relations_def pushed_back_def)
  then show "(f, g) \<in> set symmetric_relations \<Longrightarrow> (f, g) \<in> set pushed_back \<and> (g, f) \<in> set pushed_back" by blast
  have "\<forall>(f, g)\<in>set pushed_back. f \<in> set dep_lists \<and> g \<in> set dep_lists"
    by (simp add: pushed_back_def dep_lists_def two_way_def)
  then show "(f, g) \<in> set pushed_back \<Longrightarrow> f \<in> set dep_lists \<and> g \<in> set dep_lists" by blast
  have "\<forall>g\<in>set dep_lists. g \<in> {requires, wants} \<or> g \<in> snd ` set pushed_back"
    by (simp add: set_dep_lists pushed_back_def)
  then show "g \<in> set dep_lists \<Longrightarrow> g \<in> {requires, wants} \<or> (\<exists>f. (f, g) \<in> set pushed_back)" by force
qed

lemma incoming_Cons:
  "incoming f ((k, x) # new_units) v = (if k \<noteq> v \<and> v \<in> set (f (deps x)) then {k} else {}) \<union> incoming f new_units v"
  by (auto simp: incoming_def)

lemma wire_new_lists:
  "unit_id (wire_new d k v) = unit_id v"
  "(f, g) \<in> set pushed_back \<Longrightarrow>
     set (g (deps (wire_new d k v))) = set (g (deps v)) \<union> (if k \<noteq> unit_id v \<and> unit_id v \<in> set (f d) then {k} else {})"
  "f \<in> {requires, wants} \<Longrightarrow> f (deps (wire_new d k v)) = f (deps v)"
  by (auto simp: wire_new_def pushed_back_def)

lemma wire_new_all:
  "unit_id (fold (\<lambda>(k, x). wire_new (deps x) k) new_units v) = unit_id v"
  "(f, g) \<in> set pushed_back \<Longrightarrow> set (g (deps (fold (\<lambda>(k, x). wire_new (deps x) k) new_units v))) =
     set (g (deps v)) \<union> incoming f new_units (unit_id v)"
  "f \<in> {requires, wants} \<Longrightarrow> f (deps (fold (\<lambda>(k, x). wire_new (deps x) k) new_units v)) = f (deps v)"
proof (induction new_units arbitrary: v)
  case Nil
  { case 1 show ?case by simp }
  { case 2 show ?case by (simp add: incoming_def) }
  { case 3 show ?case by simp }
next
  case (Cons p new_units)
  obtain k x where p: "p = (k, x)" by force
  { case 1 show ?case using Cons.IH(1) by (simp add: p wire_new_lists(1)) }
  { case 2 then show ?case using Cons.IH(2) by (simp add: p wire_new_lists(1,2) incoming_Cons Un_ac) }
  { case 3 then show ?case using Cons.IH(3) by (simp add: p wire_new_lists(3)) }
qed

text \<open>
  C39: adding several units at once to a table, both well-formed, where no old unit names a new one
  in a list (the new one would not be told, \<open>waiting_unit_not_told\<close>).  Either an id or a name is
  taken, and nothing changes; or the new units are all added beside the old ones.  Then the
  orderings, conflicts, bindings and upholdings between a new unit and any other are on both sides,
  and everything the new unit said of them is kept; what it requires or wishes is told to the unit
  it is directed at.  Its \<open>[Install]\<close> section gives no unit a requirement or a wish, as the
  comment in the code asks for: these are exactly the ones the units came with.  What the old units
  say of each other stays as it was.  \<open>PartOf=\<close> is told to nobody (\<open>part_of_not_told\<close>).
\<close>

theorem adding_several_units:
  assumes "units_wf t" "units_wf new_units"
    "\<forall>f\<in>set dep_lists. \<forall>a\<in>set (tbl_keys t). \<forall>b\<in>set (tbl_keys new_units). \<not> names f t a b"
  shows "case insert_new_units new_units t of
      (Some e, t') \<Rightarrow> t' = t \<and> clashes new_units t e
    | (None, t') \<Rightarrow>
        units_wf t' \<and> set (tbl_keys t') = set (tbl_keys t) \<union> set (tbl_keys new_units) \<and>
        set (tbl_keys t) \<inter> set (tbl_keys new_units) = {} \<and>
        (\<forall>a\<in>set (tbl_keys new_units). \<forall>b\<in>set (tbl_keys t'). a \<noteq> b \<longrightarrow>
           (\<forall>(f, g)\<in>set symmetric_relations. names f t' a b \<longleftrightarrow> names g t' b a) \<and>
           (\<forall>f\<in>set dep_lists. names f new_units a b \<longrightarrow> names f t' a b) \<and>
           (names requires t' a b \<longrightarrow> names required_by t' b a) \<and> (names wants t' a b \<longrightarrow> names wanted_by t' b a)) \<and>
        (\<forall>f\<in>{requires, wants}. \<forall>a\<in>set (tbl_keys t'). \<forall>b. names f t' a b \<longleftrightarrow> names f t a b \<or> names f new_units a b) \<and>
        (\<forall>f\<in>set dep_lists. \<forall>a\<in>set (tbl_keys t). \<forall>b\<in>set (tbl_keys t). names f t' a b \<longleftrightarrow> names f t a b)"
proof (cases "check_all_names_exist new_units t")
  case (Some e)
  then show ?thesis using clash_check_result [OF assms(1,2)] by (simp add: insert_new_units_def)
next
  case None
  let ?i = "fold (\<lambda>(k, x). tbl_insert k x) new_units t"
  let ?w = "\<lambda>v. fold (\<lambda>(k, x). wire_new (deps x) k) new_units v"
  let ?t = "map_units ?w ?i"
  have res: "insert_new_units new_units t = (None, ?t)" by (simp add: insert_new_units_def None fold_map_units)
  have apart: "set (tbl_keys t) \<inter> set (tbl_keys new_units) = {}" using clash_check_result [OF assms(1,2)] None by auto
  have wf: "tbl_wf new_units" "\<forall>(k, x)\<in>set new_units. unit_id x = k" using assms(2) by (simp_all add: units_wf_def)
  have wfi: "units_wf ?i" using wf_insert_all [OF assms(1) wf(2)] .
  have get: "tbl_get ?t a = map_option ?w (case tbl_get new_units a of Some x \<Rightarrow> Some x | None \<Rightarrow> tbl_get t a)" for a
    by (simp add: tbl_get_insert_all [OF wf(1)])
  have keys: "set (tbl_keys ?t) = set (tbl_keys t) \<union> set (tbl_keys new_units)"
    unfolding set_eq_iff Un_iff tbl_keys_get get by (auto split: option.split)
  have "units_wf (map_units F s)" if "units_wf s" "\<And>v. unit_id (F v) = unit_id v" for F s
    using that by (auto simp: units_wf_def map_units_def tbl_wf_def comp_def case_prod_beta')
  then have "units_wf ?t" using wfi wire_new_all(1) by blast
  text \<open>What a unit is told, and by whom.\<close>
  let ?n = "\<lambda>f a b. names f t a b \<or> names f new_units a b"
  have told: "names g ?t a b \<longleftrightarrow> ?n g a b \<or> b \<noteq> a \<and> names f new_units b a"
    if fg: "(f, g) \<in> set pushed_back" and a: "a \<in> set (tbl_keys ?t)" for f g a b
  proof -
    obtain x where x: "(case tbl_get new_units a of Some x \<Rightarrow> Some x | None \<Rightarrow> tbl_get t a) = Some x"
      using a unfolding tbl_keys_get get by auto
    then have "unit_id x = a" using units_wf_get [OF assms(1)] units_wf_get [OF assms(2)] by (auto split: option.splits)
    moreover have "names f new_units b a \<longleftrightarrow> (\<exists>y. (b, y) \<in> set new_units \<and> a \<in> set (f (deps y)))"
      using tbl_get_mem [OF wf(1)] by (auto simp: names_def split: option.splits)
    ultimately have "b \<in> set (g (deps (?w x))) \<longleftrightarrow> b \<in> set (g (deps x)) \<or> b \<noteq> a \<and> names f new_units b a"
      using wire_new_all(2) [OF fg, of new_units x] by (simp add: incoming_def)
    moreover have "?n g a b \<longleftrightarrow> b \<in> set (g (deps x))"
      using x apart by (auto simp: names_def tbl_keys_get disjoint_iff split: option.splits)
    moreover have "names g ?t a b \<longleftrightarrow> b \<in> set (g (deps (?w x)))" unfolding names_def get x by simp
    ultimately show ?thesis by blast
  qed
  have kept: "names f ?t a b \<longleftrightarrow> ?n f a b" if f: "f \<in> {requires, wants}" and a: "a \<in> set (tbl_keys ?t)" for f a b
  proof -
    obtain x where x: "(case tbl_get new_units a of Some x \<Rightarrow> Some x | None \<Rightarrow> tbl_get t a) = Some x"
      using a unfolding tbl_keys_get get by auto
    then have "?n f a b \<longleftrightarrow> b \<in> set (f (deps x))"
      using apart by (auto simp: names_def tbl_keys_get disjoint_iff split: option.splits)
    moreover have "names f ?t a b \<longleftrightarrow> b \<in> set (f (deps (?w x)))" unfolding names_def get x by simp
    ultimately show ?thesis using wire_new_all(3) [OF f, of new_units x] by simp
  qed
  have none: "\<not> names f t a b" if "f \<in> set dep_lists" "b \<in> set (tbl_keys new_units)" for f a b
    using assms(3) that names_key by blast
  have out: "\<not> names f new_units a b" if "a \<in> set (tbl_keys t)" for f a b using apart that names_key by blast
  have out': "\<not> names f t a b" if "a \<in> set (tbl_keys new_units)" for f a b using apart that names_key by blast
  have both: "names f ?t a b \<longleftrightarrow> names g ?t b a"
    if "(f, g) \<in> set symmetric_relations" "a \<in> set (tbl_keys new_units)" "b \<in> set (tbl_keys ?t)" "a \<noteq> b" for f g a b
  proof -
    have a: "a \<in> set (tbl_keys ?t)" using that(2) keys by blast
    note lists = pushed_back_lists(1) [OF that(1)]
    show ?thesis
      unfolding told [OF conjunct2 [OF lists] a] told [OF conjunct1 [OF lists] that(3)]
      using none that(2,4) out' pushed_back_lists(2) lists by blast
  qed
  have more: "names f ?t a b" if "f \<in> set dep_lists" "a \<in> set (tbl_keys new_units)" "names f new_units a b" for f a b
  proof -
    have a: "a \<in> set (tbl_keys ?t)" using that(2) keys by blast
    show ?thesis using pushed_back_lists(3) [OF that(1)] told [OF _ a] kept [OF _ a] that(3) by blast
  qed
  have old: "names f ?t a b \<longleftrightarrow> names f t a b"
    if "f \<in> set dep_lists" "a \<in> set (tbl_keys t)" "b \<in> set (tbl_keys t)" for f a b
  proof -
    have a: "a \<in> set (tbl_keys ?t)" using that(2) keys by blast
    show ?thesis using pushed_back_lists(3) [OF that(1)] told [OF _ a] kept [OF _ a] out that(2,3) by metis
  qed
  have forward: "names g ?t b a" if fg: "(f, g) \<in> set pushed_back" "f \<in> {requires, wants}" and
    ab: "a \<in> set (tbl_keys new_units)" "b \<in> set (tbl_keys ?t)" "a \<noteq> b" "names f ?t a b" for f g a b
  proof -
    have a: "a \<in> set (tbl_keys ?t)" using ab(1) keys by blast
    then have "names f new_units a b" using kept [OF fg(2) a] ab out' by blast
    then show ?thesis using told [OF fg(1) ab(2)] ab(3) by simp
  qed
  have "(requires, required_by) \<in> set pushed_back" "(wants, wanted_by) \<in> set pushed_back" by (simp_all add: pushed_back_def)
  then have told_both: "(names requires ?t a b \<longrightarrow> names required_by ?t b a) \<and> (names wants ?t a b \<longrightarrow> names wanted_by ?t b a)"
    if "a \<in> set (tbl_keys new_units)" "b \<in> set (tbl_keys ?t)" "a \<noteq> b" for a b
    using forward that by blast
  have "\<forall>(f, g)\<in>set symmetric_relations. names f ?t a b \<longleftrightarrow> names g ?t b a"
    if "a \<in> set (tbl_keys new_units)" "b \<in> set (tbl_keys ?t)" "a \<noteq> b" for a b
    using both that by blast
  then have new: "\<forall>a\<in>set (tbl_keys new_units). \<forall>b\<in>set (tbl_keys ?t). a \<noteq> b \<longrightarrow>
      (\<forall>(f, g)\<in>set symmetric_relations. names f ?t a b \<longleftrightarrow> names g ?t b a) \<and>
      (\<forall>f\<in>set dep_lists. names f new_units a b \<longrightarrow> names f ?t a b) \<and>
      (names requires ?t a b \<longrightarrow> names required_by ?t b a) \<and> (names wants ?t a b \<longrightarrow> names wanted_by ?t b a)"
    using told_both more by simp
  have wishes: "\<forall>f\<in>{requires, wants}. \<forall>a\<in>set (tbl_keys ?t). \<forall>b. names f ?t a b \<longleftrightarrow> names f t a b \<or> names f new_units a b"
    using kept by blast
  have "\<forall>f\<in>set dep_lists. \<forall>a\<in>set (tbl_keys t). \<forall>b\<in>set (tbl_keys t). names f ?t a b \<longleftrightarrow> names f t a b"
    using old by blast
  then show ?thesis unfolding res prod.case option.case by (intro conjI \<open>units_wf ?t\<close> keys apart new wishes)
qed

section \<open>Added units\<close>

abbreviation new_srv :: unit_id where "new_srv \<equiv> UnitId Kind_Service ''n.service''"
abbreviation old_target :: unit_id where "old_target \<equiv> UnitId Kind_Target ''m.target''"

text \<open>A service after a target, with the target in its \<open>[Install]\<close> section and in \<open>PartOf=\<close>.\<close>

definition new_unit :: unit where
  "new_unit = plain_unit new_srv (no_dependencies\<lparr>after := [old_target], wanted_by := [old_target], part_of := [old_target]\<rparr>)"

definition old_table :: unit_table where
  "old_table = [(old_target, plain_unit old_target no_dependencies)]"

lemma old_table_wf: "units_wf old_table" "tbl_get old_table (unit_id new_unit) = None" "relations_mutual old_table"
  by (simp_all add: old_table_def new_unit_def plain_unit_def units_wf_def tbl_wf_def tbl_get_def relations_mutual_def
      two_way_def mutual_def)

text \<open>The same without an \<open>[Install]\<close> section, wanting the target.\<close>

definition plain_new_unit :: unit where
  "plain_new_unit = plain_unit new_srv (no_dependencies\<lparr>after := [old_target], wants := [old_target]\<rparr>)"

lemma plain_new_unit_ok: "tbl_get old_table (unit_id plain_new_unit) = None" "no_install plain_new_unit old_table"
  by (simp_all add: old_table_def plain_new_unit_def plain_unit_def tbl_get_def no_install_def tbl_keys_def no_dependencies_def
      names_def)

lemma adding_keeps_relations_mutual_witness:
  "relations_mutual (insert_new_unit_lenient plain_new_unit old_table)
    \<and> names before (insert_new_unit_lenient plain_new_unit old_table) old_target new_srv
    \<and> names wanted_by (insert_new_unit_lenient plain_new_unit old_table) old_target new_srv"
proof -
  have "(after, before) \<in> set (two_way @ map prod.swap two_way)" "(wants, wanted_by) \<in> set (two_way @ map prod.swap two_way)"
    "old_target \<in> set (tbl_keys old_table)" "old_target \<in> set (after (deps plain_new_unit))"
    "old_target \<in> set (wants (deps plain_new_unit))" "unit_id plain_new_unit = new_srv"
    by (simp_all add: two_way_def old_table_def tbl_keys_def plain_new_unit_def plain_unit_def)
  note facts = this and all = adding_keeps_relations_mutual [OF old_table_wf(1) plain_new_unit_ok]
  note pairs = conjunct1 [OF conjunct2 [OF conjunct2 [OF all]]]
  have "names before (insert_new_unit_lenient plain_new_unit old_table) old_target new_srv"
    using bspec [OF pairs facts(1), unfolded prod.case, THEN bspec, OF facts(3)] facts(4,6) by simp blast
  moreover have "names wanted_by (insert_new_unit_lenient plain_new_unit old_table) old_target new_srv"
    using bspec [OF pairs facts(2), unfolded prod.case, THEN bspec, OF facts(3)] facts(5,6) by simp blast
  ultimately show ?thesis using all old_table_wf(3) by blast
qed

lemma new_table_wf: "units_wf [(new_srv, new_unit)]"
  by (simp add: units_wf_def tbl_wf_def new_unit_def plain_unit_def)

lemma adding_several_units_witness:
  "names before (snd (insert_new_units [(new_srv, new_unit)] old_table)) old_target new_srv
    \<and> \<not> names wants (snd (insert_new_units [(new_srv, new_unit)] old_table)) old_target new_srv"
proof -
  have fresh: "\<forall>f\<in>set dep_lists. \<forall>a\<in>set (tbl_keys old_table). \<forall>b\<in>set (tbl_keys [(new_srv, new_unit)]). \<not> names f old_table a b"
    by (simp add: dep_lists_def two_way_def old_table_def tbl_keys_def names_def tbl_get_def plain_unit_def no_dependencies_def)
  obtain t' where t': "insert_new_units [(new_srv, new_unit)] old_table = (None, t')"
    by (simp add: insert_new_units_def check_all_names_exist_def taken_def old_table_def plain_unit_def new_unit_def)
  have sides: "(after, before) \<in> set symmetric_relations" "after \<in> set dep_lists"
    by (simp_all add: symmetric_relations_def dep_lists_def two_way_def)
  have said: "new_srv \<in> set (tbl_keys [(new_srv, new_unit)])" "old_target \<in> set (tbl_keys old_table)" "new_srv \<noteq> old_target"
    "names after [(new_srv, new_unit)] new_srv old_target" "\<not> names wants old_table old_target new_srv"
    "\<not> names wants [(new_srv, new_unit)] old_target new_srv"
    by (simp_all add: tbl_keys_def names_def tbl_get_def new_unit_def old_table_def plain_unit_def no_dependencies_def)
  note all = adding_several_units [OF old_table_wf(1) new_table_wf fresh, unfolded t' prod.case option.case]
  then have keys: "old_target \<in> set (tbl_keys t')" using said(2) by simp
  note new = conjunct1 [OF conjunct2 [OF conjunct2 [OF conjunct2 [OF all]]]]
  note new' = bspec [OF bspec [OF new said(1)] keys, THEN mp, OF said(3)]
  have "names after t' new_srv old_target" using new' said(4) sides(2) by simp
  then have "names before t' old_target new_srv"
    using bspec [OF conjunct1 [OF new'] sides(1)] by simp
  moreover have "\<not> names wants t' old_target new_srv" using all keys said(5,6) by simp
  ultimately show ?thesis by (simp add: t')
qed

text \<open>
  Adding one unit makes its \<open>[Install]\<close> section take effect: the target wants a service that was
  never enabled.  Adding several does not.
\<close>

lemma install_section_takes_effect:
  "names wants (insert_new_unit_lenient new_unit old_table) old_target new_srv"
  "\<not> names wants (snd (insert_new_units [(new_srv, new_unit)] old_table)) old_target new_srv"
  by code_simp+

text \<open>Neither tells the target that the service is a part of it, so the service outlives a stop.\<close>

lemma part_of_not_told:
  "\<not> names part_of_by (insert_new_unit_lenient new_unit old_table) old_target new_srv"
  "\<not> names part_of_by (snd (insert_new_units [(new_srv, new_unit)] old_table)) old_target new_srv"
  by code_simp+

text \<open>Every relation the new unit brings along stands twice in its list.\<close>

lemma relation_listed_twice:
  "map_option (\<lambda>x. after (deps x)) (tbl_get (insert_new_unit_lenient new_unit old_table) new_srv) = Some [old_target, old_target]"
  by code_simp

text \<open>Adding several units does not tell a new one about the old units that were waiting for it.\<close>

definition waiting_table :: unit_table where
  "waiting_table = [(old_target, plain_unit old_target (no_dependencies\<lparr>after := [new_srv]\<rparr>))]"

lemma waiting_unit_not_told:
  "\<not> names before (snd (insert_new_units [(new_srv, plain_unit new_srv no_dependencies)] waiting_table)) new_srv old_target"
  "names before (insert_new_unit_lenient (plain_unit new_srv no_dependencies) waiting_table) new_srv old_target"
  by code_simp+

text \<open>
  A reference that was never pruned is restored as well: a unit that is only a part of the new one
  comes to want it.
\<close>

definition part_table :: unit_table where
  "part_table = [(new_srv, (plain_unit new_srv (no_dependencies\<lparr>part_of := [old_target]\<rparr>))
     \<lparr>unit_conf := plain_config\<lparr>refs_by_name := [old_target]\<rparr>\<rparr>)]"

lemma part_of_becomes_wish:
  "names wants (insert_new_unit_lenient (plain_unit old_target no_dependencies) part_table) new_srv old_target"
  by code_simp

end
