(* ===== verification/Spec2Isabelle.thy ===== *)
theory Spec2Isabelle
  imports UnitName Startup CalParse Restart StopRun Timers StartWait Specifiers RemoveUnit SliceLimit AddUnits
begin

text \<open>
  A model of the core of oxidized-systemd's service manager, \<open>src/crates/libsystemd/src\<close>, and the
  theorems that make it correct.  All paths below are relative to that directory.

  The program.  The text of a unit file has its specifiers expanded (\<open>specifier.rs\<close>) and its
  drop-ins merged into it (\<open>units/loading/directory_deps.rs\<close>), and is parsed into sections and
  entries (\<open>units/unit_parsing/unit_parser.rs\<close>) and on into a table of units
  (\<open>units/unit.rs\<close>).  The loader fills in the reverse and implicit dependencies (\<open>units/loading/dependency_resolving.rs\<close>), prunes the
  table to what the boot target can reach, and the service manager breaks ordering cycles
  (\<open>units/unitset_manipulation/sanity_check.rs\<close>).  A start request installs one job for every
  unit of its start closure in the job registry (\<open>units/jobs.rs\<close>); the dispatcher
  (\<open>units/unitset_manipulation/activate.rs\<close>) hands the ready ones to worker threads, which move
  each unit through its guarded state transitions under status locks
  (\<open>units/unitset_manipulation/locking.rs\<close>).  What a start has to wait for is kept on the
  dispatcher thread (\<open>entrypoints/dispatcher.rs\<close>): chains of helper commands, the commands of a
  one-shot service, and started services that have not yet said that they are up, each with its
  deadlines.  A slice can limit how many units run in it (\<open>units/slice_concurrency.rs\<close>).  A stop
  goes to the dependents first, inline (\<open>units/unitset_manipulation/deactivate.rs\<close>) or as a graph
  of stop chains on the dispatcher (\<open>units/unitset_manipulation/stop_chain.rs\<close>); a stopped unit can be
  removed (\<open>units/unitset_manipulation/remove.rs\<close>).  When a service's process exits, the exit handler
  (\<open>services/service_exit_handler.rs\<close>) restarts it, stops it or leaves it failed, within a start
  rate limit.  Timers (\<open>timer_scheduler.rs\<close>) fire on calendar expressions
  (\<open>calendar_spec.rs\<close>).  Names of units are
  escaped, unescaped and built by \<open>unit_name.rs\<close>.

  The theories, in the order of the code:
    \<^item> \<open>Prelude\<close>: bytes and strings, hash maps as association lists (\<open>table\<close>), panics as values
      (\<open>outcome\<close>), and two interfaces, \<open>codec\<close> and \<open>keyed_store\<close>.
    \<^item> \<open>UnitName\<close> (\<open>unit_name.rs\<close>): validity, escaping, templates, paths.  Escaping and instance
      names are inverted by their parsers; results are valid names.
    \<^item> \<open>Units\<close> (\<open>units/id.rs\<close>, \<open>units/status.rs\<close>, \<open>units/unit.rs\<close>): identifiers, dependency lists,
      states, the unit record with the configuration the other parts read.
    \<^item> \<open>Jobs\<close> (\<open>units/jobs.rs\<close>): the registry with every operation, its invariant, uniqueness of
      jobs per unit, readiness, expiry, and the stop jobs' conflict with start jobs.
    \<^item> \<open>SanityCheck\<close>: both cycle searches and cycle breaking.  The check is exact, breaking ends.
    \<^item> \<open>Subgraph\<close>: the start closure of a target and pruning to it.
    \<^item> \<open>DepResolve\<close>: all passes of \<open>fill_dependencies\<close>; afterwards ordering is visible from both ends
      but for the default orderings of a mount and that of a service after its slice.
    \<^item> \<open>JobGraph\<close> and \<open>Boot\<close>: one dispatcher pass, and passes alternating with worker threads that
      start what they were given, until the closure is up.
    \<^item> \<open>Locking\<close>: the lock sequence of \<open>acquire_locks\<close>, threads that interleave their sequences as a
      step relation, and a deadlock that the order of the sequence allows.
    \<^item> \<open>Lifecycle\<close>: start rate limit, state transitions, recursive stop with its cycle guard.
    \<^item> \<open>Restart\<close>: the restart policy and delay, the exit handler, the delayed restart.
    \<^item> \<open>CalTime\<close>, \<open>CalSpec\<close>, \<open>CalParse\<close> (\<open>calendar_spec.rs\<close>) over \<open>RustText\<close>: the civil calendar,
      matching and the next elapse, parsing and the normalized form.
    \<^item> \<open>UnitText\<close>: the ini parser and the merging of drop-ins, over the text.  What the parser sees
      after a merge is the unit with the assignments of the drop-ins applied in order.
    \<^item> \<open>Specifiers\<close>: expansion, the readers of instance names, and the four ways in which a file and
      its drop-ins become the text that is parsed.
    \<^item> \<open>StopChain\<close>: one service's stop as a chain of events, which refines the inline stop up to
      \<open>SIGKILL\<close>.
      \<open>StopGraph\<close> and \<open>StopRun\<close>: the graph of a stop request and its runs as a step relation, with
      their order and their end.
    \<^item> \<open>StartChain\<close>, \<open>OneshotChain\<close>: the helper commands of a start as a chain, which refines the
      inline start, and the commands of a one-shot service.  \<open>StartWait\<close>: a start that waits for
      its service, with every event and deadline that can end it.
    \<^item> \<open>Timers\<close>: when a timer fires, one pass of the check loop, and runs of passes: every second of
      an expression that a pass has reached is served, but for one right after a firing.
    \<^item> \<open>RemoveUnit\<close>: removal of a unit with the units that mention it; it ends and is exact, but
      leaves \<open>Requisite=\<close> alone.
    \<^item> \<open>SliceLimit\<close>: the members of a slice and its two limits; the members are counted exactly.
    \<^item> \<open>AddUnits\<close>: units added at run time, one or several; what they and the others say of each
      other is on both sides afterwards, but for \<open>PartOf=\<close> and what \<open>[Install]\<close> sections give.
    \<^item> \<open>Startup\<close>: the stages from the parsed table to the first start, put together.
  This theory holds the properties that span the startup stages.

  How the code is rendered.  A struct is a record, an enum a datatype, a \<open>HashMap\<close> an association
  list whose keys are distinct; where the code iterates over a map the theorems hold for every
  order of the list.  The cycle check and each round of breaking go over the units in the order of
  that list; the code takes them from a hash set that it makes anew.  Job ids are 32-bit words, other integers are \<open>nat\<close> or \<open>int\<close> with their
  wrap-around written out where the code can reach it (calendar steps, restart counters and
  delays).  Strings are lists of bytes.  \<open>panic!\<close>, \<open>unwrap\<close> and failed assertions are \<open>Panics\<close>,
  \<open>Err\<close> is \<open>Inl\<close> or an error value, \<open>?\<close> a bind.  Durations and instants are nanoseconds.

  Loops.  Most are structural or end by a measure.  The cycle search has fuel; \<open>card before_rel + 1\<close>
  rounds of breaking and the square of the table's size suffice, which is part of its theorem.
  The stepping loops of the calendar, the retry of a failing stop, the start chain with a command
  that cannot be spawned and the recursions of a removal are partial functions; the theorems say
  when they return.

  The environment is an argument: the worker threads' results and the clock for a dispatcher
  pass, the answers of the operating system to a stop (\<open>os\<close>), the results and exits of commands in
  a chain, what a pass over the waiting starts can see of their services, reactivation in a delayed
  restart, the values specifiers read from the host, the names of signals.  A chain for which no
  timeout is set stays parked where a process overruns.  A timer pass reads its
  clocks once; the code reads them again within microseconds.  A stop chain's \<open>job\<close> is always
  absent, as in the code that makes the chains, and its SIGTERM stands for the signal to the main
  process.

  Not modelled.  The step from parsed entries to the several hundred settings of a unit, and the
  search for files on disk; processes, sockets, mounts, cgroups and the rest of what activation does
  outside the table; the main phase of a start, whose outcome is the environment's; the watchdog and
  notification threads; the control and D-Bus interfaces, but for the checks above that they call;
  log output and lock poisoning; and the other programs of the repository (udevd, logind, networkd,
  resolved, journald, homed, nspawn, repart, analyze and the rest), which do not share the service
  manager's core logic.  Concurrency is modelled where a property rests on it: the status locks, the
  interleaving of dispatcher passes with the worker threads, the events of stop and start chains.
\<close>

section \<open>Startup\<close>

text \<open>
  C16: Startup is total.  From every well-formed table of parsed units, preparing the boot never
  panics and ends; the table it gives is again well formed, every unit under its own id, and its
  units are loaded ones, none of them a template or left with an unresolved specifier.
\<close>

theorem prepared_boot_well_formed:
  assumes "units_wf t"
  shows "case prepare_boot prune target t of
           Some (Returns (t', bs)) \<Rightarrow>
             units_wf t'
             \<and> set (tbl_keys t') \<subseteq> {u. u \<in> set (tbl_keys t) \<and> \<not> is_template_unit (name u) \<and> CHR ''%'' \<notin> set (name u)}
         | _ \<Rightarrow> False"
proof -
  obtain t1 where t1: "fill_dependencies (drop_templates t) = Returns t1" "same_units (drop_templates t) t1"
    using fill_dependencies_mirrors [OF wf_drop_templates [OF assms]] by blast
  define t2 where "t2 = (if prune then prune_or_fall_back target t1 else t1)"
  have t2: "units_wf t2" "set (tbl_keys t2) \<subseteq> set (tbl_keys (drop_templates t))"
    using t1(2) prune_or_fall_back_wf [of t1 target] by (auto simp: t2_def same_units_def)
  have "card (before_rel t2) < length t2 * length t2 + 1" using finite_before_rel(3) [of t2] by simp
  from break_loop_ok [OF this, of "[]"] obtain t3 bs
    where t3: "break_dependency_cycles t2 = Some (t3, bs)" "broken_ok t2 t3 bs"
    unfolding break_dependency_cycles_def by auto
  then show ?thesis
    using t2 t1(1) broken_ok_wf [OF t3(2)] keys_drop_templates [of t]
    by (auto simp: prepare_boot_def finish_loading_def t2_def [symmetric])
qed

theorem prepared_boot_well_formed_witness:
  "case prepare_boot True ''b.target'' ordered_pair of
     Some (Returns (t', bs)) \<Rightarrow>
       units_wf t'
       \<and> set (tbl_keys t')
           \<subseteq> {u. u \<in> set (tbl_keys ordered_pair) \<and> \<not> is_template_unit (name u) \<and> CHR ''%'' \<notin> set (name u)}
   | _ \<Rightarrow> False"
  by (rule prepared_boot_well_formed) code_simp

text \<open>
  C17: The loaded units can be ordered.  Whatever was parsed, with or without pruning, when no
  mount unit is loaded and no unit runs in a loaded slice: preparing the boot never panics and
  ends, the two sides of the ordering agree, and no unit is ordered after itself through others.
  This is what a boot needs to complete.
\<close>

theorem prepared_boot_is_acyclic:
  assumes "units_wf t" "list_all (\<lambda>i. kind i \<noteq> Kind_Mount) (tbl_keys t)" "slice_edges t = {}"
  shows "case prepare_boot prune target t of
           Some (Returns (t', bs)) \<Rightarrow> ordering_mirrored t' \<and> acyclic {(u, v). after_edge t' u v}
         | _ \<Rightarrow> False"
proof -
  let ?bad = "filter (\<lambda>i. is_template_unit (name i) \<or> CHR ''%'' \<in> set (name i)) (tbl_keys t)"
  have "list_all (\<lambda>i. kind i \<noteq> Kind_Mount) (tbl_keys (drop_templates t))"
    using assms(2) by (simp add: list_all_iff drop_templates_def keys_fold_remove)
  then obtain t1 where t1: "fill_dependencies (drop_templates t) = Returns t1" "ordering_mirrored t1"
    using mirrored_fill [of "drop_templates t"] fold_remove_wf [OF assms(1)] slice_edges_remove [of ?bad t] assms(3)
    by (auto simp: drop_templates_def)
  define t2 where "t2 = (if prune then prune_or_fall_back target t1 else t1)"
  have t2: "ordering_mirrored t2" using t1(2) mirrored_prune_or_fall_back by (simp add: t2_def)
  have "card (before_rel t2) < length t2 * length t2 + 1" using finite_before_rel(3) [of t2] by simp
  from break_loop_ok [OF this, of "[]"] obtain t3 bs
    where t3: "break_dependency_cycles t2 = Some (t3, bs)" "acyclic (before_rel t3)" "broken_ok t2 t3 bs"
    unfolding break_dependency_cycles_def by auto
  have "(u, v) \<in> {(u, v). before_edge t3 u v} \<longleftrightarrow> (v, u) \<in> {(u, v). after_edge t3 u v}" for u v
    using t3(3) t2 unfolding broken_ok_def by (auto simp: ordering_mirrored_def)
  then have "ordering_mirrored t3" by (simp add: ordering_mirrored_def)
  then show ?thesis
    using mirrored_acyclic t3(1,2) t1(1) by (simp add: prepare_boot_def finish_loading_def t2_def [symmetric])
qed

theorem prepared_boot_is_acyclic_witness:
  "case prepare_boot False ''b.target'' ordered_pair of
     Some (Returns (t', bs)) \<Rightarrow> ordering_mirrored t' \<and> acyclic {(u, v). after_edge t' u v}
   | _ \<Rightarrow> False"
proof (rule prepared_boot_is_acyclic)
  show "units_wf ordered_pair" by code_simp
  show "list_all (\<lambda>i. kind i \<noteq> Kind_Mount) (tbl_keys ordered_pair)" by code_simp
  have "slice_of x = None" if "(u, x) \<in> set ordered_pair" for u x
    using that by (auto simp: ordered_pair_def Let_def plain_unit_def slice_of_def)
  then show "slice_edges ordered_pair = {}"
    by (auto simp: slice_edges_def tbl_get_def dest: map_of_SomeD)
qed

text \<open>
  C18: The dispatcher refines the unit's own guard.  In a well-formed table where no unit is ordered
  after itself, and with waiting jobs of ready units only in the queue (it is empty, or the start
  closure was just installed and primed), every loaded unit that a dispatcher pass hands out is one
  whose state transition to \<open>Starting\<close> is granted in the table the pass saw: the dispatcher's test of
  the dependencies is at least as strict as that of the unit, and the lock call in it does not panic.
\<close>

theorem dispatched_units_may_start:
  assumes "registry_inv r" "ids_below r" "queue_ready t r" "units_wf t"
    and "list_all (\<lambda>(u, x). u \<notin> set (after (deps x))) t"
  shows "set (snd (drive_run_queue t clock seen r)) \<subseteq>
    {u. case tbl_get t u of
          None \<Rightarrow> True
        | Some x \<Rightarrow> state_transition_starting t (statuses_of t) x = Returns (Inr ((statuses_of t)(u := Starting)))}"
proof
  fix u assume u: "u \<in> set (snd (drive_run_queue t clock seen r))"
  have ready: "is_ready t (job_units r) u" using handed_out_ready [OF assms(1-3) u] .
  have "state_transition_starting t (statuses_of t) x = Returns (Inr ((statuses_of t)(u := Starting)))"
    if x: "tbl_get t u = Some x" for x
  proof (rule ready_unit_may_start [OF x])
    show "unit_id x = u" using units_wf_get [OF assms(4) x] .
    have "(u, x) \<in> set t" using x assms(4) by (simp add: tbl_get_mem units_wf_def)
    then show "u \<notin> set (after (deps x))" using assms(5) by (auto simp: list_all_iff)
    show "unstarted_deps t u (Some (job_units r)) = []" using ready by (simp add: is_ready_def)
  qed
  then show "u \<in> {u. case tbl_get t u of None \<Rightarrow> True
      | Some x \<Rightarrow> state_transition_starting t (statuses_of t) x = Returns (Inr ((statuses_of t)(u := Starting)))}"
    by (simp split: option.split)
qed

theorem dispatched_units_may_start_witness:
  "set (snd (drive_run_queue pair_table 0 (\<lambda>_. (Some NeverStarted, 0)) primed_pair)) \<subseteq>
    {u. case tbl_get pair_table u of
          None \<Rightarrow> True
        | Some x \<Rightarrow> state_transition_starting pair_table (statuses_of pair_table) x
                      = Returns (Inr ((statuses_of pair_table)(u := Starting)))}"
  by (rule dispatched_units_may_start [OF primed_pair_ok(1-3)]) code_simp+

text \<open>
  With slices the first of these fails.  In \<open>slice_loop\<close> a slice is ordered after a service that
  runs in it; no cycle is found, and each of the two units waits for the other.
\<close>

theorem slice_cycle_not_broken:
  "case prepare_boot False ''a.service'' slice_loop of
     Some (Returns (t', bs)) \<Rightarrow>
       bs = [] \<and> after_edge t' (UnitId Kind_Service ''a.service'') (UnitId Kind_Slice ''s.slice'')
       \<and> after_edge t' (UnitId Kind_Slice ''s.slice'') (UnitId Kind_Service ''a.service'')
   | _ \<Rightarrow> False"
proof -
  have "acyclic (before_rel slice_loop_filled)" unfolding slice_loop_before by (simp add: acyclic_insert) (simp add: acyclic_def)
  moreover have "card (before_rel slice_loop_filled) < length slice_loop_filled * length slice_loop_filled + 1"
    using finite_before_rel(3) [of slice_loop_filled] by simp
  ultimately have "break_dependency_cycles slice_loop_filled = Some (slice_loop_filled, [])"
    using break_loop_ok [of slice_loop_filled _ "[]"] unfolding break_dependency_cycles_def by fastforce
  moreover have "after_edge slice_loop_filled (UnitId Kind_Service ''a.service'') (UnitId Kind_Slice ''s.slice'')"
    "after_edge slice_loop_filled (UnitId Kind_Slice ''s.slice'') (UnitId Kind_Service ''a.service'')" by code_simp+
  ultimately show ?thesis by (simp add: prepare_boot_def slice_loop_loads)
qed

end
